(* ===== verification/Prelude.thy ===== *)
theory Prelude
  imports Main "HOL-Library.Word" "HOL-Library.Multiset"
begin

text \<open>
  Shared vocabulary of the development: the machine integer and address types of the C
  sources, the collections of simplification rules the components feed, and the generic
  facts on words, lists and maps that several components use.

  Addresses are natural numbers and 0 is the null pointer: every address the kernel
  computes lies in a heap of at most \<open>2 ^ 32\<close> bytes placed at a fixed base, so no 64-bit
  pointer arithmetic wraps. Sizes (\<open>uint32_t\<close>) stay 32-bit words, because their
  wrap-around is observable.
\<close>

unbundle bit_operations_syntax

type_synonym u8 = "8 word"
type_synonym u16 = "16 word"
type_synonym u32 = "32 word"
type_synonym u64 = "64 word"
type_synonym addr = nat

named_theorems heap_frame "facts that a memory write elsewhere leaves an abstraction alone"
named_theorems word_arith "readings of 32-bit arithmetic as arithmetic on natural numbers"

section \<open>Words\<close>

lemma unat_u32_less [simp]: "unat (w :: u32) < 4294967296"
  by (rule order_less_le_trans [OF unsigned_less]) simp

lemma and_not_mask_eq: "(w :: 'a::len word) AND NOT (mask n) = push_bit n (drop_bit n w)"
  by (rule bit_word_eqI) (auto simp: bit_simps)

lemma unat_and_not_7: "unat ((w :: u32) AND NOT 7) = unat w div 8 * 8"
proof -
  have "w AND NOT 7 = push_bit 3 (drop_bit 3 w)"
    using and_not_mask_eq [of w 3] by (simp add: mask_eq_exp_minus_1)
  moreover have "unat w div 8 * 8 < 4294967296"
    using unat_u32_less [of w] by arith
  ultimately show ?thesis
    by (simp add: push_bit_eq_mult unat_word_ariths unat_drop_bit_eq drop_bit_eq_div mult.commute)
qed

lemmas unat_and_minus_8 = unat_and_not_7 [simplified]

lemma unat_add_no_wrap [word_arith]:
  "unat a + unat b < 4294967296 \<Longrightarrow> unat ((a :: u32) + b) = unat a + unat b"
  by (simp add: unat_word_ariths)

lemma unat_sub_no_wrap [word_arith]:
  "unat b \<le> unat a \<Longrightarrow> unat ((a :: u32) - b) = unat a - unat b"
  by (simp add: unat_sub_if_size)

lemma of_nat_unat_u32 [simp]: "of_nat (unat (w :: u32)) = w"
  by simp

lemma unat_of_nat_u32 [simp]: "n < 4294967296 \<Longrightarrow> unat (of_nat n :: u32) = n"
  by (simp add: unat_of_nat)

end
