(* ===== verification/Memory_Interface.thy ===== *)
theory Memory_Interface
  imports Prelude
begin

text \<open>
  The allocator interface of \<open>Kernel/include/memoryManager.h\<close>. The build links one of two
  implementations behind it (\<open>naiveManager.c\<close> by default, \<open>buddyManager.c\<close> on request), so
  the kernel code above takes the pair of entry points as an argument, a value of the
  record \<open>mm\<close>. The locale \<open>memory_manager\<close> states what that code relies on; the theories
  of the two managers interpret it.
\<close>

section \<open>Alignment\<close>

definition ALIGNMENT :: u32 where
  "ALIGNMENT = 8"

definition ALIGN :: "u32 \<Rightarrow> u32" where
  "ALIGN sz = (sz + (ALIGNMENT - 1)) AND NOT (ALIGNMENT - 1)"

lemma ALIGN_unfold: "ALIGN sz = (sz + 7) AND NOT 7"
  by (simp add: ALIGN_def ALIGNMENT_def)

lemma unat_ALIGN:
  "unat sz + 7 < 4294967296 \<Longrightarrow> unat (ALIGN sz) = (unat sz + 7) div 8 * 8"
  by (simp only: ALIGN_unfold unat_and_not_7) (simp add: unat_add_no_wrap)

lemma ALIGN_ge: "unat sz + 7 < 4294967296 \<Longrightarrow> unat sz \<le> unat (ALIGN sz)"
  by (simp only: unat_ALIGN)

lemma ALIGN_le_multiple:
  assumes "unat sz + 7 < 4294967296" and "unat sz \<le> n" and "8 dvd n"
  shows "unat (ALIGN sz) \<le> n"
proof -
  from \<open>8 dvd n\<close> obtain k where k: "n = 8 * k" ..
  then have "(unat sz + 7) div 8 \<le> k"
    using assms(2) by linarith
  then show ?thesis
    by (simp only: unat_ALIGN [OF assms(1)] k)
qed

text \<open>A request within seven bytes of \<open>2 ^ 32\<close> wraps to zero.\<close>

lemma ALIGN_wraps:
  assumes "4294967296 \<le> unat sz + 7"
  shows "ALIGN sz = 0"
proof -
  have bound: "unat sz + 7 < 4294967296 + 8"
    using unat_u32_less [of sz] by linarith
  have "unat (sz + 7) = (unat sz + 7) mod 4294967296"
    by (simp add: unat_word_ariths)
  also have "\<dots> = unat sz + 7 - 4294967296"
    using assms bound by (simp only: le_mod_geq mod_less)
  finally have "unat (sz + 7) div 8 = 0"
    using bound by linarith
  then have "unat (ALIGN sz) = 0"
    by (simp only: ALIGN_unfold unat_and_not_7)
  then show ?thesis
    by (simp only: unat_eq_zero)
qed

lemma ALIGN_dvd: "8 dvd unat (ALIGN sz)"
proof (cases "unat sz + 7 < 4294967296")
  case True
  then show ?thesis by (simp only: unat_ALIGN dvd_triv_right)
qed (simp add: ALIGN_wraps)

section \<open>Status report\<close>

record MemoryStatus =
  ms_total :: u32
  ms_used :: u32
  ms_free :: u32
  ms_base :: addr
  ms_end :: addr

section \<open>The interface\<close>

record 'm mm =
  mm_alloc :: "'m \<Rightarrow> u32 \<Rightarrow> addr \<times> 'm"
  mm_free :: "'m \<Rightarrow> addr \<Rightarrow> 'm"

text \<open>
  \<open>live s\<close> maps each payload address handed out and not yet freed to the number of bytes
  usable there. \<open>okreq\<close> delimits the requests for which the manager keeps its promises.
\<close>

datatype mem_op = Alloc u32 | Free addr

fun mm_step :: "'m mm \<Rightarrow> mem_op \<Rightarrow> 'm \<Rightarrow> 'm" where
  "mm_step M (Alloc n) s = snd (mm_alloc M s n)"
| "mm_step M (Free p) s = mm_free M s p"

fun mm_run :: "'m mm \<Rightarrow> mem_op list \<Rightarrow> 'm \<Rightarrow> 'm" where
  "mm_run M [] s = s"
| "mm_run M (c # cs) s = mm_run M cs (mm_step M c s)"

text \<open>The caller's side of the contract: only live pointers (or null) are released.\<close>

fun legal :: "'m mm \<Rightarrow> ('m \<Rightarrow> addr \<rightharpoonup> nat) \<Rightarrow> (u32 \<Rightarrow> bool) \<Rightarrow> mem_op list \<Rightarrow> 'm \<Rightarrow> bool" where
  "legal M live okreq [] s = True"
| "legal M live okreq (c # cs) s =
     ((case c of Alloc n \<Rightarrow> okreq n | Free p \<Rightarrow> p = 0 \<or> live s p \<noteq> None)
      \<and> legal M live okreq cs (mm_step M c s))"

locale memory_manager =
  fixes M :: "'m mm"
    and inv :: "'m \<Rightarrow> bool"
    and live :: "'m \<Rightarrow> addr \<rightharpoonup> nat"
    and okreq :: "u32 \<Rightarrow> bool"
  assumes alloc_inv: "\<lbrakk>inv s; okreq n\<rbrakk> \<Longrightarrow> inv (snd (mm_alloc M s n))"
    and alloc_fail: "\<lbrakk>inv s; okreq n; fst (mm_alloc M s n) = 0\<rbrakk> \<Longrightarrow> snd (mm_alloc M s n) = s"
    and alloc_fresh: "\<lbrakk>inv s; okreq n; fst (mm_alloc M s n) \<noteq> 0\<rbrakk>
      \<Longrightarrow> live s (fst (mm_alloc M s n)) = None"
    and alloc_live: "\<lbrakk>inv s; okreq n; fst (mm_alloc M s n) \<noteq> 0\<rbrakk>
      \<Longrightarrow> \<exists>sz \<ge> unat n. live (snd (mm_alloc M s n)) = (live s)(fst (mm_alloc M s n) \<mapsto> sz)"
    and live_nonnull: "\<lbrakk>inv s; live s p = Some a\<rbrakk> \<Longrightarrow> p \<noteq> 0"
    and live_disjoint: "\<lbrakk>inv s; live s p = Some a; live s q = Some b; p \<noteq> q\<rbrakk>
      \<Longrightarrow> p + a \<le> q \<or> q + b \<le> p"
    and free_inv: "\<lbrakk>inv s; live s p = Some a\<rbrakk> \<Longrightarrow> inv (mm_free M s p)"
    and free_live: "\<lbrakk>inv s; live s p = Some a\<rbrakk> \<Longrightarrow> live (mm_free M s p) = (live s)(p := None)"
    and free_null: "mm_free M s 0 = s"
    and free_realloc: "\<lbrakk>inv s; live s p = Some a; okreq n; unat n \<le> a\<rbrakk>
      \<Longrightarrow> fst (mm_alloc M (mm_free M s p) n) \<noteq> 0"
begin

lemma alloc_cases:
  assumes "inv s" and "okreq n" and "mm_alloc M s n = (p, s')"
  obtains (Fail) "p = 0" and "s' = s"
  | (Ok) sz where "p \<noteq> 0" and "live s p = None" and "unat n \<le> sz"
      and "live s' = (live s)(p \<mapsto> sz)" and "inv s'"
proof (cases "p = 0")
  case True
  then show ?thesis
    using Fail alloc_fail [OF assms(1,2)] assms(3) by simp
next
  case False
  then show ?thesis
    using Ok alloc_live [OF assms(1,2)] alloc_fresh [OF assms(1,2)] alloc_inv [OF assms(1,2)]
      assms(3) by auto
qed

text \<open>Two blocks that are live together never share a byte.\<close>

lemma live_bytes_disjoint:
  "\<lbrakk>inv s; live s p = Some a; live s q = Some b; p \<noteq> q\<rbrakk> \<Longrightarrow> {p..<p + a} \<inter> {q..<q + b} = {}"
  by (drule (3) live_disjoint) auto

text \<open>An allocation followed by its release leaves the set of live blocks as it was.\<close>

lemma alloc_free_live:
  assumes "inv s" and "okreq n" and "mm_alloc M s n = (p, s')" and "p \<noteq> 0"
  shows "inv (mm_free M s' p)" and "live (mm_free M s' p) = live s"
proof -
  obtain sz where "live s p = None" "live s' = (live s)(p \<mapsto> sz)" "inv s'"
    using assms by (cases rule: alloc_cases [OF assms(1,2,3)]) auto
  then show "inv (mm_free M s' p)" and "live (mm_free M s' p) = live s"
    by (auto simp: free_live fun_upd_idem intro: free_inv)
qed

lemma step_inv: "\<lbrakk>inv s; legal M live okreq [c] s\<rbrakk> \<Longrightarrow> inv (mm_step M c s)"
  by (cases c) (auto simp: free_null intro: alloc_inv free_inv)

lemma run_inv: "\<lbrakk>inv s; legal M live okreq cs s\<rbrakk> \<Longrightarrow> inv (mm_run M cs s)"
  by (induction cs arbitrary: s) (use step_inv in auto)

end

text \<open>
  The kernel asks for 16-byte queue headers and nodes and for 4096-byte stacks on paths
  whose promises it relies on.
\<close>

locale kernel_memory = memory_manager +
  assumes req16: "okreq 16" and req_stack: "okreq 4096"

end
