(* ===== verification/Naive_Manager.thy ===== *)
theory Naive_Manager
  imports Memory_Interface
begin

text \<open>
  \<open>Kernel/memory/naiveManager.c\<close>: a first-fit allocator over a doubly linked list of
  blocks that tile the pool, with coalescing on release.

  The state is the content of the block headers in memory, the head of the list and the
  pool size. \<open>blocks\<close> reads the list back as a list of (size, free flag) pairs, and
  \<open>naive_inv\<close> says that the pointers realise such a list exactly. The pointer operations
  are then shown to act on that list as \<open>alloc_blocks\<close> and \<open>norm \<circ> mark_free\<close> do, and the
  interface \<open>memory_manager\<close> is interpreted.
\<close>

section \<open>The program\<close>

record Block =
  bsize :: u32
  bfree :: bool
  bnext :: addr
  bprev :: addr

record naive =
  heap :: "addr \<Rightarrow> Block"
  firstBlock :: addr
  memoryPoolSize :: u32

text \<open>\<open>sizeof(Block)\<close> is 24 on x86-64: 4 + 1 bytes, 3 of padding and two pointers.\<close>

definition sizeof_Block :: u32 where
  "sizeof_Block = 24"

definition BLOCK_HEADER_SIZE :: u32 where
  "BLOCK_HEADER_SIZE = ALIGN sizeof_Block"

definition NEXT_PHYSICAL_BLOCK :: "(addr \<Rightarrow> Block) \<Rightarrow> addr \<Rightarrow> addr" where
  "NEXT_PHYSICAL_BLOCK h b = b + unat BLOCK_HEADER_SIZE + unat (bsize (h b))"

definition hasRoomForSplit :: "(addr \<Rightarrow> Block) \<Rightarrow> addr \<Rightarrow> u32 \<Rightarrow> bool" where
  "hasRoomForSplit h b requestedSize =
     (bsize (h b) \<ge> requestedSize + BLOCK_HEADER_SIZE + ALIGNMENT)"

definition createMemoryManager_naive :: "naive \<Rightarrow> addr \<Rightarrow> u32 \<Rightarrow> naive" where
  "createMemoryManager_naive s memoryStartAddress memorySize =
     (if memoryStartAddress = 0 \<or> memorySize \<le> BLOCK_HEADER_SIZE then s
      else s\<lparr>heap := (heap s)(memoryStartAddress :=
               \<lparr>bsize = memorySize - BLOCK_HEADER_SIZE, bfree = True, bnext = 0, bprev = 0\<rparr>),
             firstBlock := memoryStartAddress,
             memoryPoolSize := memorySize\<rparr>)"

text \<open>
  The loops walk the \<open>next\<close> pointers. Their first argument bounds the number of blocks
  visited; the pool size in bytes is always enough, since every block takes 24 bytes at least.
\<close>

fun find_from :: "nat \<Rightarrow> (addr \<Rightarrow> Block) \<Rightarrow> addr \<Rightarrow> u32 \<Rightarrow> addr" where
  "find_from fuel h b requestedSize =
     (if fuel = 0 \<or> b = 0 then 0
      else if bfree (h b) \<and> bsize (h b) \<ge> requestedSize then b
      else find_from (fuel - 1) h (bnext (h b)) requestedSize)"

definition findSuitableBlock :: "naive \<Rightarrow> u32 \<Rightarrow> addr" where
  "findSuitableBlock s requestedSize =
     find_from (unat (memoryPoolSize s)) (heap s) (firstBlock s) requestedSize"

definition splitBlock :: "(addr \<Rightarrow> Block) \<Rightarrow> addr \<Rightarrow> u32 \<Rightarrow> (addr \<Rightarrow> Block)" where
  "splitBlock h b requestedSize =
     (let newBlock = b + unat BLOCK_HEADER_SIZE + unat requestedSize;
          nxt = bnext (h b);
          h1 = h(newBlock := \<lparr>bsize = bsize (h b) - requestedSize - BLOCK_HEADER_SIZE,
                              bfree = True, bnext = nxt, bprev = b\<rparr>);
          h2 = (if nxt \<noteq> 0 then h1(nxt := (h1 nxt)\<lparr>bprev := newBlock\<rparr>) else h1)
      in h2(b := (h2 b)\<lparr>bnext := newBlock, bsize := requestedSize\<rparr>))"

definition allocMemory_naive :: "naive \<Rightarrow> u32 \<Rightarrow> addr \<times> naive" where
  "allocMemory_naive s n =
     (if n = 0 then (0, s)
      else let alignedSize = ALIGN n; b = findSuitableBlock s alignedSize in
        if b = 0 then (0, s)
        else let h1 = (if hasRoomForSplit (heap s) b alignedSize
                       then splitBlock (heap s) b alignedSize else heap s);
                 h2 = h1(b := (h1 b)\<lparr>bfree := False\<rparr>)
             in (b + unat BLOCK_HEADER_SIZE, s\<lparr>heap := h2\<rparr>))"

definition mergeWithNext :: "(addr \<Rightarrow> Block) \<Rightarrow> addr \<Rightarrow> (addr \<Rightarrow> Block)" where
  "mergeWithNext h b =
     (let nb = bnext (h b) in
      if nb \<noteq> 0 \<and> bfree (h nb) \<and> nb = NEXT_PHYSICAL_BLOCK h b
      then let h1 = h(b := (h b)\<lparr>bsize := bsize (h b) + (BLOCK_HEADER_SIZE + bsize (h nb)),
                                 bnext := bnext (h nb)\<rparr>)
           in (if bnext (h1 nb) \<noteq> 0
               then h1(bnext (h1 nb) := (h1 (bnext (h1 nb)))\<lparr>bprev := b\<rparr>) else h1)
      else h)"

definition mergeWithPrevious :: "(addr \<Rightarrow> Block) \<Rightarrow> addr \<Rightarrow> (addr \<Rightarrow> Block)" where
  "mergeWithPrevious h b =
     (let pb = bprev (h b) in
      if pb \<noteq> 0 \<and> bfree (h pb) \<and> b = NEXT_PHYSICAL_BLOCK h pb
      then let h1 = h(pb := (h pb)\<lparr>bsize := bsize (h pb) + (BLOCK_HEADER_SIZE + bsize (h b)),
                                   bnext := bnext (h b)\<rparr>)
           in (if bnext (h1 b) \<noteq> 0
               then h1(bnext (h1 b) := (h1 (bnext (h1 b)))\<lparr>bprev := pb\<rparr>) else h1)
      else h)"

definition coalesce :: "(addr \<Rightarrow> Block) \<Rightarrow> addr \<Rightarrow> (addr \<Rightarrow> Block)" where
  "coalesce h b = mergeWithPrevious (mergeWithNext h b) b"

definition freeMemory_naive :: "naive \<Rightarrow> addr \<Rightarrow> naive" where
  "freeMemory_naive s memorySegment =
     (if memorySegment = 0 then s
      else let b = memorySegment - unat BLOCK_HEADER_SIZE in
        if bfree (heap s b) then s
        else s\<lparr>heap := coalesce ((heap s)(b := (heap s b)\<lparr>bfree := True\<rparr>)) b\<rparr>)"

fun status_from :: "nat \<Rightarrow> (addr \<Rightarrow> Block) \<Rightarrow> addr \<Rightarrow> u32 \<Rightarrow> u32 \<Rightarrow> u32 \<times> u32" where
  "status_from fuel h b usedBytes freeBytes =
     (if fuel = 0 \<or> b = 0 then (usedBytes, freeBytes)
      else if bfree (h b)
      then status_from (fuel - 1) h (bnext (h b)) usedBytes (freeBytes + bsize (h b))
      else status_from (fuel - 1) h (bnext (h b)) (usedBytes + bsize (h b)) freeBytes)"

definition getMemoryStatus_naive :: "naive \<Rightarrow> MemoryStatus" where
  "getMemoryStatus_naive s =
     (let (usedBytes, freeBytes) =
            status_from (unat (memoryPoolSize s)) (heap s) (firstBlock s) 0 0
      in \<lparr>ms_total = memoryPoolSize s, ms_used = usedBytes, ms_free = freeBytes,
          ms_base = firstBlock s, ms_end = firstBlock s + unat (memoryPoolSize s)\<rparr>)"

declare find_from.simps [simp del] status_from.simps [simp del]


section \<open>The block list\<close>

lemma BLOCK_HEADER_SIZE_24: "BLOCK_HEADER_SIZE = 24"
  by (simp add: BLOCK_HEADER_SIZE_def sizeof_Block_def ALIGN_unfold)

lemma unat_BLOCK_HEADER_SIZE [simp]: "unat BLOCK_HEADER_SIZE = 24"
  by (simp add: BLOCK_HEADER_SIZE_24)

lemma grow_size [simp]: "of_nat n + (BLOCK_HEADER_SIZE + of_nat m) = (of_nat (n + 24 + m) :: u32)"
  by (simp add: BLOCK_HEADER_SIZE_24)

lemma shrink_size [simp]:
  "r + 24 \<le> n \<Longrightarrow> of_nat n - of_nat r - BLOCK_HEADER_SIZE = (of_nat (n - r - 24) :: u32)"
  by (simp add: BLOCK_HEADER_SIZE_24)

type_synonym blk = "nat \<times> bool"

fun extent :: "blk list \<Rightarrow> nat" where
  "extent [] = 0"
| "extent ((n, f) # bs) = 24 + n + extent bs"

text \<open>\<open>laid h pv a bs nx\<close>: from address \<open>a\<close> on, the headers of \<open>h\<close> hold the blocks \<open>bs\<close>
  one after the other; the first one's \<open>prev\<close> is \<open>pv\<close>, the last one's \<open>next\<close> is \<open>nx\<close>.\<close>

fun head_addr :: "addr \<Rightarrow> blk list \<Rightarrow> addr \<Rightarrow> addr" where
  "head_addr a [] nx = nx"
| "head_addr a (b # bs) nx = a"

fun laid :: "(addr \<Rightarrow> Block) \<Rightarrow> addr \<Rightarrow> addr \<Rightarrow> blk list \<Rightarrow> addr \<Rightarrow> bool" where
  "laid h pv a [] nx = True"
| "laid h pv a ((n, f) # bs) nx =
     (h a = \<lparr>bsize = of_nat n, bfree = f, bnext = head_addr (a + 24 + n) bs nx, bprev = pv\<rparr>
      \<and> laid h a (a + 24 + n) bs nx)"

fun last_addr :: "addr \<Rightarrow> addr \<Rightarrow> blk list \<Rightarrow> addr" where
  "last_addr pv a [] = pv"
| "last_addr pv a ((n, f) # bs) = last_addr a (a + 24 + n) bs"

lemma extent_append [simp]: "extent (xs @ ys) = extent xs + extent ys"
  by (induction xs rule: extent.induct) auto

lemma length_le_extent: "24 * length bs \<le> extent bs"
  by (induction bs rule: extent.induct) auto

lemma head_addr_append [simp]:
  "head_addr a (xs @ ys) nx = head_addr a xs (head_addr (a + extent xs) ys nx)"
  by (cases xs) auto

lemma laid_append [simp]:
  "laid h pv a (xs @ ys) nx =
     (laid h pv a xs (head_addr (a + extent xs) ys nx)
      \<and> laid h (last_addr pv a xs) (a + extent xs) ys nx)"
  by (induction xs arbitrary: pv a rule: extent.induct) (auto simp: add.assoc)

lemma last_addr_append [simp]:
  "last_addr pv a (xs @ ys) = last_addr (last_addr pv a xs) (a + extent xs) ys"
  by (induction xs arbitrary: pv a rule: extent.induct) (auto simp: add.assoc)

lemma laid_upd_below [heap_frame]: "x < a \<Longrightarrow> laid (h(x := v)) pv a bs nx = laid h pv a bs nx"
  by (induction bs arbitrary: pv a rule: extent.induct) auto

lemma laid_upd_above [heap_frame]:
  "a + extent bs \<le> x \<Longrightarrow> laid (h(x := v)) pv a bs nx = laid h pv a bs nx"
  by (induction bs arbitrary: pv a rule: extent.induct) auto


lemma laid_splitBlock:
  assumes "laid h pv a (xs @ (n, f) # ys) 0" and "b = a + extent xs" and "0 < a"
    and "r + 24 \<le> n" and "n < 4294967296"
  shows "laid (splitBlock h b (of_nat r)) pv a (xs @ (r, f) # (n - r - 24, True) # ys) 0"
proof (cases ys)
  case Nil
  with assms show ?thesis
    by (simp add: splitBlock_def Let_def heap_frame ac_simps)
next
  case (Cons y ys')
  then obtain m g where "ys = (m, g) # ys'" by (cases y) auto
  with assms show ?thesis
    by (simp add: splitBlock_def Let_def heap_frame ac_simps)
qed

lemma laid_set_free:
  assumes "laid h pv a (xs @ (n, f) # ys) nx" and "b = a + extent xs"
  shows "laid (h(b := (h b)\<lparr>bfree := g\<rparr>)) pv a (xs @ (n, g) # ys) nx"
  using assms by (simp add: heap_frame)

fun join :: "blk \<Rightarrow> blk list \<Rightarrow> blk list" where
  "join (n, f) [] = [(n, f)]"
| "join (n, f) ((m, g) # bs) = (if f \<and> g then (n + 24 + m, True) # bs else (n, f) # (m, g) # bs)"

fun norm :: "blk list \<Rightarrow> blk list" where
  "norm [] = []"
| "norm (b # bs) = join b (norm bs)"

lemma laid_mergeWithNext:
  assumes "laid h pv a (xs @ (n, True) # ys) 0" and "b = a + extent xs" and "0 < a"
    and "extent (xs @ (n, True) # ys) < 4294967296"
  shows "laid (mergeWithNext h b) pv a (xs @ join (n, True) ys) 0"
proof (cases ys)
  case Nil
  with assms show ?thesis
    by (simp add: mergeWithNext_def Let_def)
next
  case (Cons y ys')
  then obtain m g where "ys = (m, g) # ys'" by (cases y) auto
  with assms show ?thesis
    by (cases ys'; cases "hd ys'")
      (auto simp: mergeWithNext_def NEXT_PHYSICAL_BLOCK_def Let_def heap_frame ac_simps
        intro: BLOCK_HEADER_SIZE_24)
qed

lemma laid_mergeWithPrevious_last:
  assumes "laid h pv a (xs @ (k, g) # (n, True) # ys) 0" and "b = a + extent xs + 24 + k"
    and "0 < a" and "extent (xs @ (k, g) # (n, True) # ys) < 4294967296"
  shows "laid (mergeWithPrevious h b) pv a (xs @ join (k, g) ((n, True) # ys)) 0"
  using assms by (cases ys; cases "hd ys")
    (auto simp: mergeWithPrevious_def NEXT_PHYSICAL_BLOCK_def Let_def heap_frame ac_simps
      intro: BLOCK_HEADER_SIZE_24)

lemma mergeWithPrevious_first: "bprev (h b) = 0 \<Longrightarrow> mergeWithPrevious h b = h"
  by (simp add: mergeWithPrevious_def)

section \<open>Reading the list back\<close>

fun walk :: "nat \<Rightarrow> (addr \<Rightarrow> Block) \<Rightarrow> addr \<Rightarrow> blk list" where
  "walk fuel h b =
     (if fuel = 0 \<or> b = 0 then []
      else (unat (bsize (h b)), bfree (h b)) # walk (fuel - 1) h (bnext (h b)))"

declare walk.simps [simp del]

definition blocks :: "naive \<Rightarrow> blk list" where
  "blocks s = walk (unat (memoryPoolSize s)) (heap s) (firstBlock s)"

lemma walk_laid:
  "\<lbrakk>laid h pv a bs 0; 0 < a; length bs \<le> fuel; extent bs < 4294967296\<rbrakk>
   \<Longrightarrow> walk fuel h (head_addr a bs 0) = bs"
proof (induction bs arbitrary: pv a fuel rule: extent.induct)
  case 1
  then show ?case by (simp add: walk.simps)
next
  case (2 n f bs)
  then show ?case
    by (subst walk.simps) (auto simp: ac_simps)
qed

fun first_fit :: "addr \<Rightarrow> nat \<Rightarrow> blk list \<Rightarrow> addr" where
  "first_fit a r [] = 0"
| "first_fit a r ((n, f) # bs) = (if f \<and> r \<le> n then a else first_fit (a + 24 + n) r bs)"

lemma find_from_laid:
  "\<lbrakk>laid h pv a bs 0; 0 < a; length bs \<le> fuel; extent bs < 4294967296\<rbrakk>
   \<Longrightarrow> find_from fuel h (head_addr a bs 0) r = first_fit a (unat r) bs"
proof (induction bs arbitrary: pv a fuel rule: extent.induct)
  case 1
  then show ?case by (simp add: find_from.simps)
next
  case (2 n f bs)
  then show ?case
    by (subst find_from.simps) (auto simp: ac_simps word_le_nat_alt)
qed

section \<open>Coalescing\<close>

fun coalesced :: "blk list \<Rightarrow> bool" where
  "coalesced [] = True"
| "coalesced (b # bs) = (coalesced bs \<and> (bs \<noteq> [] \<longrightarrow> \<not> (snd b \<and> snd (hd bs))))"

lemma extent_join [simp]: "extent (join b bs) = extent (b # bs)"
  by (cases "(b, bs)" rule: join.cases) auto

lemma extent_norm [simp]: "extent (norm bs) = extent bs"
  by (induction bs rule: extent.induct) auto

lemma join_keep: "\<not> (bs \<noteq> [] \<and> snd b \<and> snd (hd bs)) \<Longrightarrow> join b bs = b # bs"
  by (cases "(b, bs)" rule: join.cases) auto

lemma norm_coalesced: "coalesced bs \<Longrightarrow> norm bs = bs"
  by (induction bs) (auto simp: join_keep)

lemma coalesced_join: "coalesced bs \<Longrightarrow> coalesced (join b bs)"
  by (cases "(b, bs)" rule: join.cases) auto

lemma coalesced_norm: "coalesced (norm bs)"
  by (induction bs) (auto intro: coalesced_join)

lemma coalesced_append:
  "coalesced (xs @ ys) \<longleftrightarrow> coalesced xs \<and> coalesced ys
     \<and> (xs \<noteq> [] \<and> ys \<noteq> [] \<longrightarrow> \<not> (snd (last xs) \<and> snd (hd ys)))"
  by (induction xs) (auto simp: hd_append)

lemma hd_join [simp]: "snd (hd (join b bs)) = snd b"
  by (cases "(b, bs)" rule: join.cases) auto

lemma join_not_Nil [simp]: "join b bs \<noteq> []"
  by (cases "(b, bs)" rule: join.cases) auto

lemma norm_head:
  "coalesced ((n, False) # ys) \<Longrightarrow> norm ((n, True) # ys) = join (n, True) ys"
  by (simp add: norm_coalesced)

lemma norm_mid:
  "coalesced (xs @ (k, g) # (n, False) # ys)
   \<Longrightarrow> norm (xs @ (k, g) # (n, True) # ys) = xs @ join (k, g) (join (n, True) ys)"
proof (induction xs)
  case Nil
  then show ?case by (simp add: norm_coalesced)
next
  case (Cons x xs)
  then show ?case
    by (cases xs) (simp_all add: join_keep)
qed

text \<open>\<open>coalesce\<close> on a block just marked free brings the list to its coalesced form.\<close>

lemma join_Cons: "\<exists>m zs. join (n, f) ys = (m, f) # zs"
  by (cases "((n, f), ys)" rule: join.cases) auto

lemma laid_coalesce:
  assumes "laid h 0 a (xs @ (n, True) # ys) 0" and "b = a + extent xs" and "0 < a"
    and "extent (xs @ (n, True) # ys) < 4294967296"
    and "coalesced (xs @ (n, False) # ys)"
  shows "laid (coalesce h b) 0 a (norm (xs @ (n, True) # ys)) 0"
proof -
  obtain m zs where zs: "join (n, True) ys = (m, True) # zs"
    using join_Cons by blast
  have ext: "extent ((m, True) # zs) = extent ((n, True) # ys)"
    using extent_join [of "(n, True)" ys] zs by simp
  have next_merged: "laid (mergeWithNext h b) 0 a (xs @ (m, True) # zs) 0"
    using laid_mergeWithNext [OF assms(1-4)] zs by simp
  show ?thesis
  proof (cases xs rule: rev_cases)
    case Nil
    then show ?thesis
      using next_merged assms(2,5) zs
      by (simp add: coalesce_def mergeWithPrevious_first norm_coalesced)
  next
    case (snoc xs' x)
    obtain k g where x: "x = (k, g)" by force
    have "laid (mergeWithPrevious (mergeWithNext h b) b) 0 a (xs' @ join (k, g) ((m, True) # zs)) 0"
      by (rule laid_mergeWithPrevious_last)
        (use next_merged assms(2,3,4) ext snoc x in \<open>auto simp: ac_simps\<close>)
    moreover have "norm (xs @ (n, True) # ys) = xs' @ join (k, g) (join (n, True) ys)"
      using norm_mid [of xs' k g n ys] assms(5) snoc x by simp
    ultimately show ?thesis
      by (simp add: coalesce_def zs)
  qed
qed


section \<open>The operations on the block list\<close>

definition carve :: "nat \<Rightarrow> nat \<Rightarrow> blk list" where
  "carve r n = (if r + 32 \<le> n then [(r, False), (n - r - 24, True)] else [(n, False)])"

fun alloc_blocks :: "nat \<Rightarrow> addr \<Rightarrow> blk list \<Rightarrow> addr \<times> blk list" where
  "alloc_blocks r a [] = (0, [])"
| "alloc_blocks r a ((n, f) # bs) =
     (if f \<and> r \<le> n then (a + 24, carve r n @ bs)
      else let (p, bs') = alloc_blocks r (a + 24 + n) bs in (p, (n, f) # bs'))"

fun mark_free :: "addr \<Rightarrow> addr \<Rightarrow> blk list \<Rightarrow> blk list" where
  "mark_free p a [] = []"
| "mark_free p a ((n, f) # bs) =
     (if p = a + 24 then (n, True) # bs else (n, f) # mark_free p (a + 24 + n) bs)"

fun live_at :: "addr \<Rightarrow> blk list \<Rightarrow> addr \<rightharpoonup> nat" where
  "live_at a [] = Map.empty"
| "live_at a ((n, f) # bs) =
     (if f then live_at (a + 24 + n) bs else (live_at (a + 24 + n) bs)(a + 24 \<mapsto> n))"

lemma extent_carve [simp]: "r \<le> n \<Longrightarrow> extent (carve r n) = 24 + n"
  by (simp add: carve_def)

lemma alloc_blocks_cases:
  assumes "alloc_blocks r a bs = (p, bs')" and "0 < a"
  obtains (Fail) "p = 0" and "bs' = bs" and "\<forall>(n, f) \<in> set bs. \<not> (f \<and> r \<le> n)"
      and "first_fit a r bs = 0"
  | (Fit) xs n ys where "bs = xs @ (n, True) # ys" and "r \<le> n" and "p = a + extent xs + 24"
      and "bs' = xs @ carve r n @ ys" and "first_fit a r bs = a + extent xs"
      and "\<forall>(n, f) \<in> set xs. \<not> (f \<and> r \<le> n)"
proof -
  have "(p = 0 \<and> bs' = bs \<and> (\<forall>(n, f) \<in> set bs. \<not> (f \<and> r \<le> n)) \<and> first_fit a r bs = 0)
    \<or> (\<exists>xs n ys. bs = xs @ (n, True) # ys \<and> r \<le> n \<and> p = a + extent xs + 24
         \<and> bs' = xs @ carve r n @ ys \<and> first_fit a r bs = a + extent xs
         \<and> (\<forall>(n, f) \<in> set xs. \<not> (f \<and> r \<le> n)))"
    using assms
  proof (induction r a bs arbitrary: p bs' rule: alloc_blocks.induct)
    case (1 r a)
    then show ?case by simp
  next
    case (2 r a n f bs)
    show ?case
    proof (cases "f \<and> r \<le> n")
      case True
      then show ?thesis
        using 2(2) by (intro disjI2 exI [of _ "[]"]) auto
    next
      case False
      obtain q cs where q: "alloc_blocks r (a + 24 + n) bs = (q, cs)" by force
      have "0 < a + 24 + n" using \<open>0 < a\<close> by simp
      from 2(1) [OF False q this] show ?thesis
      proof (elim disjE exE conjE)
        assume "q = 0" "cs = bs" "\<forall>(n, f) \<in> set bs. \<not> (f \<and> r \<le> n)"
          "first_fit (a + 24 + n) r bs = 0"
        then show ?thesis using False q 2(2) by auto
      next
        fix xs m ys
        assume "bs = xs @ (m, True) # ys" "r \<le> m" "q = a + 24 + n + extent xs + 24"
          "cs = xs @ carve r m @ ys" "first_fit (a + 24 + n) r bs = a + 24 + n + extent xs"
          "\<forall>(n, f) \<in> set xs. \<not> (f \<and> r \<le> n)"
        then show ?thesis using False q 2(2)
          by (intro disjI2 exI [of _ "(n, f) # xs"] exI [of _ m] exI [of _ ys]) auto
      qed
    qed
  qed
  then show ?thesis
  proof (elim disjE exE conjE, goal_cases)
    case 1
    then show ?case by (rule Fail)
  next
    case (2 xs n ys)
    then show ?case by (rule Fit)
  qed
qed

lemma live_at_range: "live_at a bs p = Some n \<Longrightarrow> a + 24 \<le> p \<and> p + n \<le> a + extent bs"
  by (induction a bs rule: live_at.induct) (fastforce split: if_splits)+

lemma live_at_below [simp]: "p < a + 24 \<Longrightarrow> live_at a bs p = None"
  using live_at_range [of a bs p] by (cases "live_at a bs p") auto

lemma live_at_above [simp]: "a + extent bs < p \<Longrightarrow> live_at a bs p = None"
  using live_at_range [of a bs p] by (cases "live_at a bs p") auto

lemma live_at_append: "live_at a (xs @ ys) = live_at a xs ++ live_at (a + extent xs) ys"
proof (induction a xs rule: live_at.induct)
  case (2 a n f bs)
  then show ?case
    by (auto simp: ac_simps map_add_def fun_eq_iff split: option.splits)
qed simp

lemma mark_free_decomp:
  "live_at a bs p = Some n \<Longrightarrow>
   \<exists>xs ys. bs = xs @ (n, False) # ys \<and> p = a + extent xs + 24
     \<and> mark_free p a bs = xs @ (n, True) # ys"
proof (induction a bs rule: live_at.induct)
  case (1 a)
  then show ?case by simp
next
  case (2 a m f bs)
  show ?case
  proof (cases "p = a + 24")
    case True
    with 2(3) have "f = False" and "m = n"
      by (auto split: if_splits)
    with True show ?thesis
      by (intro exI [of _ "[]"] exI [of _ bs]) simp
  next
    case False
    then obtain xs ys where "bs = xs @ (n, False) # ys \<and> p = a + 24 + m + extent xs + 24
      \<and> mark_free p (a + 24 + m) bs = xs @ (n, True) # ys"
      using 2 by (auto split: if_splits)
    then show ?thesis
      using False by (intro exI [of _ "(m, f) # xs"] exI [of _ ys]) auto
  qed
qed

lemma live_at_join [simp]: "live_at a (join b bs) = live_at a (b # bs)"
  by (cases "(b, bs)" rule: join.cases) (auto simp: ac_simps)

lemma live_at_norm [simp]: "live_at a (norm bs) = live_at a bs"
  by (induction a bs rule: live_at.induct) auto

lemma live_at_mid:
  "live_at a (xs @ (n, f) # ys) =
     (if f then live_at a (xs @ (n, True) # ys)
      else (live_at a (xs @ (n, True) # ys))(a + extent xs + 24 \<mapsto> n))"
  by (auto simp: live_at_append map_add_def fun_eq_iff split: option.splits)

lemma live_at_mid_None: "live_at a (xs @ (n, True) # ys) (a + extent xs + 24) = None"
  by (auto simp: live_at_append map_add_def split: option.splits)

lemma live_at_mark_free:
  assumes "live_at a bs p = Some n"
  shows "live_at a (mark_free p a bs) = (live_at a bs)(p := None)"
proof -
  obtain xs ys where *: "bs = xs @ (n, False) # ys" "p = a + extent xs + 24"
    "mark_free p a bs = xs @ (n, True) # ys"
    using mark_free_decomp [OF assms] by blast
  then show ?thesis
    using live_at_mid [of a xs n False ys] live_at_mid_None [of a xs n ys]
    by (auto simp: fun_eq_iff)
qed

lemma live_at_carve:
  assumes "r \<le> n"
  shows "live_at a (xs @ carve r n @ ys) =
    (live_at a (xs @ (n, True) # ys))(a + extent xs + 24 \<mapsto> if r + 32 \<le> n then r else n)"
  using assms
  by (auto simp: live_at_append carve_def map_add_def fun_eq_iff ac_simps split: option.splits)


section \<open>The invariant and the refinement\<close>

definition naive_inv :: "naive \<Rightarrow> bool" where
  "naive_inv s \<longleftrightarrow>
     0 < firstBlock s \<and> blocks s \<noteq> [] \<and> laid (heap s) 0 (firstBlock s) (blocks s) 0
     \<and> extent (blocks s) = unat (memoryPoolSize s) \<and> unat (memoryPoolSize s) + 32 \<le> 4294967296
     \<and> coalesced (blocks s) \<and> (\<forall>(n, f) \<in> set (blocks s). 8 dvd n)"

definition naive_live :: "naive \<Rightarrow> addr \<rightharpoonup> nat" where
  "naive_live s = live_at (firstBlock s) (blocks s)"

definition naive_okreq :: "u32 \<Rightarrow> bool" where
  "naive_okreq n \<longleftrightarrow> 0 < unat n \<and> unat n + 7 < 4294967296"

definition naive_mm :: "naive mm" where
  "naive_mm = \<lparr>mm_alloc = allocMemory_naive, mm_free = freeMemory_naive\<rparr>"

lemma naive_invI:
  assumes "laid (heap s) 0 (firstBlock s) bs 0" and "0 < firstBlock s" and "bs \<noteq> []"
    and "extent bs = unat (memoryPoolSize s)" and "unat (memoryPoolSize s) + 32 \<le> 4294967296"
    and "coalesced bs" and "\<forall>(n, f) \<in> set bs. 8 dvd n"
  shows "blocks s = bs" and "naive_inv s"
proof -
  have "head_addr (firstBlock s) bs 0 = firstBlock s"
    using assms(3) by (cases bs) auto
  moreover have "length bs \<le> extent bs"
    using length_le_extent [of bs] by linarith
  ultimately show "blocks s = bs"
    using walk_laid [OF assms(1,2), of "unat (memoryPoolSize s)"] assms(4,5)
    by (simp add: blocks_def)
  then show "naive_inv s"
    using assms by (simp add: naive_inv_def)
qed

lemma coalesced_carve:
  "\<lbrakk>coalesced (xs @ (n, True) # ys); r \<le> n\<rbrakk> \<Longrightarrow> coalesced (xs @ carve r n @ ys)"
  by (auto simp: coalesced_append carve_def)

lemma dvd_carve: "\<lbrakk>(8::nat) dvd n; 8 dvd r; (m, f) \<in> set (carve r n)\<rbrakk> \<Longrightarrow> 8 dvd m"
  by (auto simp: carve_def split: if_splits)

lemma laid_alloc:
  assumes "laid h 0 a (xs @ (n, True) # ys) 0" and "b = a + extent xs" and "0 < a"
    and "unat r \<le> n" and "n + 32 < 4294967296"
  shows "laid ((\<lambda>h1. h1(b := (h1 b)\<lparr>bfree := False\<rparr>))
      (if hasRoomForSplit h b r then splitBlock h b r else h)) 0 a (xs @ carve (unat r) n @ ys) 0"
proof -
  have room: "hasRoomForSplit h b r \<longleftrightarrow> unat r + 32 \<le> n"
    using assms
    by (simp add: hasRoomForSplit_def word_le_nat_alt ALIGNMENT_def BLOCK_HEADER_SIZE_24
        unat_add_no_wrap) (simp add: add.commute)
  show ?thesis
  proof (cases "unat r + 32 \<le> n")
    case True
    have "laid (splitBlock h b (of_nat (unat r))) 0 a
        (xs @ (unat r, True) # (n - unat r - 24, True) # ys) 0"
      by (rule laid_splitBlock) (use assms True in auto)
    then show ?thesis
      using laid_set_free [of _ 0 a xs "unat r" True "(n - unat r - 24, True) # ys" 0 b False]
        room True assms(2) by (simp add: carve_def)
  next
    case False
    then show ?thesis
      using laid_set_free [OF assms(1,2), of False] room by (simp add: carve_def)
  qed
qed

lemma findSuitableBlock_first_fit:
  assumes "naive_inv s"
  shows "findSuitableBlock s r = first_fit (firstBlock s) (unat r) (blocks s)"
proof -
  have "head_addr (firstBlock s) (blocks s) 0 = firstBlock s"
    using assms by (cases "blocks s") (auto simp: naive_inv_def)
  moreover have "length (blocks s) \<le> extent (blocks s)"
    using length_le_extent [of "blocks s"] by linarith
  ultimately show ?thesis
    using find_from_laid [of "heap s" 0 "firstBlock s" "blocks s" "unat (memoryPoolSize s)" r] assms
    by (simp add: naive_inv_def findSuitableBlock_def)
qed

lemma naive_okreq_nz: "naive_okreq n \<Longrightarrow> n \<noteq> 0"
  by (auto simp: naive_okreq_def)

lemma naive_alloc_refines:
  assumes "naive_inv s" and "n \<noteq> 0"
    and alloc: "alloc_blocks (unat (ALIGN n)) (firstBlock s) (blocks s) = (p, bs)"
    and res: "allocMemory_naive s n = (q, s')"
  shows "q = p" and "blocks s' = bs" and "naive_inv s'" and "firstBlock s' = firstBlock s"
    and "memoryPoolSize s' = memoryPoolSize s" and "p = 0 \<longrightarrow> s' = s"
proof -
  have inv: "0 < firstBlock s" "laid (heap s) 0 (firstBlock s) (blocks s) 0"
    "extent (blocks s) = unat (memoryPoolSize s)" "unat (memoryPoolSize s) + 32 \<le> 4294967296"
    "coalesced (blocks s)" "\<forall>(n, f) \<in> set (blocks s). 8 dvd n"
    using assms(1) by (auto simp: naive_inv_def)
  have aligned: "8 dvd unat (ALIGN n)"
    by (rule ALIGN_dvd)
  have "q = p \<and> blocks s' = bs \<and> naive_inv s' \<and> firstBlock s' = firstBlock s
    \<and> memoryPoolSize s' = memoryPoolSize s \<and> (p = 0 \<longrightarrow> s' = s)"
    using alloc inv(1)
  proof (cases rule: alloc_blocks_cases)
    case Fail
    then show ?thesis
      using res assms(1,2)
      by (simp add: allocMemory_naive_def findSuitableBlock_first_fit)
  next
    case (Fit xs m ys)
    let ?b = "firstBlock s + extent xs"
    define h' where "h' = (\<lambda>h1. h1(?b := (h1 ?b)\<lparr>bfree := False\<rparr>))
      (if hasRoomForSplit (heap s) ?b (ALIGN n) then splitBlock (heap s) ?b (ALIGN n) else heap s)"
    have s': "q = ?b + 24" "s' = s\<lparr>heap := h'\<rparr>"
      using res Fit(5) inv(1) assms(1,2)
      by (auto simp: allocMemory_naive_def findSuitableBlock_first_fit h'_def Let_def)
    have "m + 32 < 4294967296"
      using inv(3,4) Fit(1) by simp
    then have "laid h' 0 (firstBlock s) bs 0"
      using laid_alloc [OF _ refl, of "heap s" "firstBlock s" xs m ys "ALIGN n"] inv(1,2) Fit
      by (simp add: h'_def)
    moreover have "extent bs = unat (memoryPoolSize s)" "bs \<noteq> []"
      using Fit inv(3) by (auto simp: carve_def)
    moreover have "coalesced bs"
      using coalesced_carve inv(5) Fit by simp
    moreover have "\<forall>(n, f) \<in> set bs. 8 dvd n"
      using inv(6) Fit aligned dvd_carve [of m "unat (ALIGN n)"] by fastforce
    ultimately show ?thesis
      using naive_invI [of s' bs] s' inv(1,4) Fit by simp
  qed
  then show "q = p" and "blocks s' = bs" and "naive_inv s'" and "firstBlock s' = firstBlock s"
    and "memoryPoolSize s' = memoryPoolSize s" and "p = 0 \<longrightarrow> s' = s"
    by auto
qed

lemma dvd_join: "\<lbrakk>8 dvd fst b; \<forall>(n, f) \<in> set bs. 8 dvd n\<rbrakk> \<Longrightarrow> \<forall>(n, f) \<in> set (join b bs). (8::nat) dvd n"
  by (cases "(b, bs)" rule: join.cases) (auto intro!: dvd_add)

lemma dvd_norm: "\<forall>(n, f) \<in> set bs. (8::nat) dvd n \<Longrightarrow> \<forall>(n, f) \<in> set (norm bs). 8 dvd n"
proof (induction bs)
  case (Cons b bs)
  then show ?case
    using dvd_join [of b "norm bs"] by (cases b) simp
qed simp

lemma norm_eq_Nil [simp]: "norm bs = [] \<longleftrightarrow> bs = []"
  by (cases bs) auto

lemma naive_free_refines:
  assumes "naive_inv s" and "naive_live s p = Some n"
  shows "blocks (freeMemory_naive s p) = norm (mark_free p (firstBlock s) (blocks s))"
    and "naive_inv (freeMemory_naive s p)" and "firstBlock (freeMemory_naive s p) = firstBlock s"
    and "memoryPoolSize (freeMemory_naive s p) = memoryPoolSize s"
proof -
  have inv: "0 < firstBlock s" "laid (heap s) 0 (firstBlock s) (blocks s) 0"
    "extent (blocks s) = unat (memoryPoolSize s)" "unat (memoryPoolSize s) + 32 \<le> 4294967296"
    "coalesced (blocks s)" "\<forall>(n, f) \<in> set (blocks s). 8 dvd n"
    using assms(1) by (auto simp: naive_inv_def)
  obtain xs ys where d: "blocks s = xs @ (n, False) # ys" "p = firstBlock s + extent xs + 24"
    "mark_free p (firstBlock s) (blocks s) = xs @ (n, True) # ys"
    using mark_free_decomp assms(2) unfolding naive_live_def by blast
  let ?b = "firstBlock s + extent xs"
  let ?h = "coalesce ((heap s)(?b := (heap s ?b)\<lparr>bfree := True\<rparr>)) ?b"
  let ?bs = "norm (xs @ (n, True) # ys)"
  have "\<not> bfree (heap s ?b)"
    using inv(2) d(1) by simp
  then have s': "freeMemory_naive s p = s\<lparr>heap := ?h\<rparr>"
    using d(2) by (simp add: freeMemory_naive_def Let_def)
  have "laid ?h 0 (firstBlock s) ?bs 0"
    using laid_set_free [of "heap s" 0 "firstBlock s" xs n False ys 0 ?b True] inv d(1)
    by (intro laid_coalesce) auto
  moreover have "extent ?bs = unat (memoryPoolSize s)"
    using inv(3) d(1) by simp
  moreover have "\<forall>(n, f) \<in> set ?bs. 8 dvd n"
    using inv(6) d(1) by (intro dvd_norm) auto
  ultimately show "blocks (freeMemory_naive s p) = norm (mark_free p (firstBlock s) (blocks s))"
    and "naive_inv (freeMemory_naive s p)"
    using naive_invI [of "s\<lparr>heap := ?h\<rparr>" ?bs] s' inv(1,4) d(3) by (auto simp: coalesced_norm)
  show "firstBlock (freeMemory_naive s p) = firstBlock s"
    and "memoryPoolSize (freeMemory_naive s p) = memoryPoolSize s"
    by (simp_all add: s')
qed


section \<open>The interface\<close>

lemma naive_mm_simps [simp]:
  "mm_alloc naive_mm = allocMemory_naive" "mm_free naive_mm = freeMemory_naive"
  by (simp_all add: naive_mm_def)

lemma naive_alloc_live:
  assumes "naive_inv s" and "naive_okreq n" and "fst (allocMemory_naive s n) \<noteq> 0"
  shows "naive_live s (fst (allocMemory_naive s n)) = None"
    and "\<exists>sz \<ge> unat n. naive_live (snd (allocMemory_naive s n))
           = (naive_live s)(fst (allocMemory_naive s n) \<mapsto> sz)"
proof -
  obtain q s' where res: "allocMemory_naive s n = (q, s')" by force
  obtain p bs where alloc: "alloc_blocks (unat (ALIGN n)) (firstBlock s) (blocks s) = (p, bs)"
    by force
  note ref = naive_alloc_refines [OF assms(1) naive_okreq_nz [OF assms(2)] alloc res]
  have "0 < firstBlock s" using assms(1) by (simp add: naive_inv_def)
  with alloc have "naive_live s q = None \<and> (\<exists>sz \<ge> unat n. naive_live s' = (naive_live s)(q \<mapsto> sz))"
  proof (cases rule: alloc_blocks_cases)
    case Fail
    then show ?thesis using assms(3) ref(1) res by simp
  next
    case (Fit xs m ys)
    have "unat n \<le> unat (ALIGN n)"
      using assms(2) by (auto simp: naive_okreq_def intro: ALIGN_ge)
    then have "unat n \<le> (if unat (ALIGN n) + 32 \<le> m then unat (ALIGN n) else m)"
      using Fit(2) by auto
    then show ?thesis
      using Fit ref live_at_carve [OF Fit(2), of "firstBlock s" xs ys]
        live_at_mid_None [of "firstBlock s" xs m ys] by (auto simp: naive_live_def)
  qed
  then show "naive_live s (fst (allocMemory_naive s n)) = None"
    and "\<exists>sz \<ge> unat n. naive_live (snd (allocMemory_naive s n))
           = (naive_live s)(fst (allocMemory_naive s n) \<mapsto> sz)"
    by (simp_all add: res)
qed

lemma live_at_disjoint:
  "\<lbrakk>live_at a bs p = Some m; live_at a bs q = Some n; p \<noteq> q\<rbrakk> \<Longrightarrow> p + m \<le> q \<or> q + n \<le> p"
proof (induction a bs rule: live_at.induct)
  case (2 a k f bs)
  have "a + 24 + k + 24 \<le> r" if "live_at (a + 24 + k) bs r = Some l" for r l
    using live_at_range [OF that] by simp
  then show ?case
    using 2 by (fastforce split: if_splits)
qed simp

lemma alloc_blocks_fits:
  assumes "(n, True) \<in> set bs" and "r \<le> n" and "0 < a"
  shows "fst (alloc_blocks r a bs) \<noteq> 0"
proof -
  obtain p bs' where res: "alloc_blocks r a bs = (p, bs')" by force
  then show ?thesis
    using assms(3) by (cases rule: alloc_blocks_cases) (use assms res in auto)
qed

lemma join_keeps_room:
  "(n, True) \<in> set (b # bs) \<Longrightarrow> \<exists>m \<ge> n. (m, True) \<in> set (join b bs)"
  by (cases "(b, bs)" rule: join.cases) (auto intro: le_add2 trans_le_add1)

lemma norm_keeps_room:
  "(n, True) \<in> set bs \<Longrightarrow> \<exists>m \<ge> n. (m, True) \<in> set (norm bs)"
proof (induction bs)
  case (Cons b bs)
  then obtain k where "k \<ge> n" "(k, True) \<in> set (b # norm bs)"
    by auto
  then show ?case
    using join_keeps_room [of k b "norm bs"] by (auto intro: le_trans)
qed simp

lemma naive_free_realloc:
  assumes "naive_inv s" and "naive_live s p = Some m" and "naive_okreq n" and "unat n \<le> m"
  shows "fst (allocMemory_naive (freeMemory_naive s p) n) \<noteq> 0"
proof -
  let ?s = "freeMemory_naive s p"
  note ref = naive_free_refines [OF assms(1,2)]
  obtain xs ys where d: "blocks s = xs @ (m, False) # ys"
    "mark_free p (firstBlock s) (blocks s) = xs @ (m, True) # ys"
    using mark_free_decomp assms(2) unfolding naive_live_def by blast
  obtain k where k: "m \<le> k" "(k, True) \<in> set (blocks ?s)"
    using norm_keeps_room [of m "xs @ (m, True) # ys"] ref(1) d(2) by auto
  have "8 dvd m"
    using assms(1) d(1) by (auto simp: naive_inv_def)
  then have "unat (ALIGN n) \<le> k"
    using ALIGN_le_multiple [of n m] assms(3,4) k(1) by (simp add: naive_okreq_def)
  moreover have "0 < firstBlock ?s"
    using ref(2) by (simp add: naive_inv_def)
  ultimately have fits: "fst (alloc_blocks (unat (ALIGN n)) (firstBlock ?s) (blocks ?s)) \<noteq> 0"
    using alloc_blocks_fits k(2) by blast
  obtain q s' where res: "allocMemory_naive ?s n = (q, s')" by force
  then show ?thesis
    using naive_alloc_refines(1) [OF ref(2) naive_okreq_nz [OF assms(3)] surjective_pairing res] fits
    by simp
qed

lemma allocMemory_naive_0 [simp]: "allocMemory_naive s 0 = (0, s)"
  by (simp add: allocMemory_naive_def)

lemma naive_alloc_inv: "naive_inv s \<Longrightarrow> naive_inv (snd (allocMemory_naive s n))"
  using naive_alloc_refines(3) [OF _ _ surjective_pairing surjective_pairing, of s n]
  by (cases "n = 0") auto

lemma naive_alloc_fail:
  "\<lbrakk>naive_inv s; fst (allocMemory_naive s n) = 0\<rbrakk> \<Longrightarrow> snd (allocMemory_naive s n) = s"
  using naive_alloc_refines(1,6) [OF _ _ surjective_pairing surjective_pairing, of s n]
  by (cases "n = 0") auto

lemma naive_live_range:
  "naive_live s p = Some n \<Longrightarrow> firstBlock s + 24 \<le> p \<and> p + n \<le> firstBlock s + extent (blocks s)"
  unfolding naive_live_def by (rule live_at_range)

lemma naive_free_live:
  "\<lbrakk>naive_inv s; naive_live s p = Some n\<rbrakk>
   \<Longrightarrow> naive_live (freeMemory_naive s p) = (naive_live s)(p := None)"
  using naive_free_refines [of s p n] live_at_mark_free [of "firstBlock s" "blocks s" p n]
  by (simp add: naive_live_def)

interpretation naive: memory_manager naive_mm naive_inv naive_live naive_okreq
proof (unfold_locales, simp_all only: naive_mm_simps)
  fix s p a q b
  assume "naive_inv s" "naive_live s p = Some a" "naive_live s q = Some b" "p \<noteq> q"
  then show "p + a \<le> q \<or> q + b \<le> p"
    using live_at_disjoint unfolding naive_live_def by blast
next
  fix s p a
  assume "naive_inv s" "naive_live s p = Some a"
  then show "p \<noteq> 0"
    using naive_live_range [of s p a] by auto
next
  fix s
  show "freeMemory_naive s 0 = s"
    by (simp add: freeMemory_naive_def)
qed (rule naive_alloc_inv naive_alloc_fail naive_alloc_live naive_free_refines(2)
  naive_free_live naive_free_realloc, assumption+)+


interpretation naive: kernel_memory naive_mm naive_inv naive_live naive_okreq
  by unfold_locales (simp_all add: naive_okreq_def)

section \<open>Start-up\<close>

lemma naive_create:
  assumes "0 < a" and "24 < unat sz" and "8 dvd unat sz" and "unat sz + 32 \<le> 4294967296"
  shows "blocks (createMemoryManager_naive s a sz) = [(unat sz - 24, True)]"
    and "naive_inv (createMemoryManager_naive s a sz)"
    and "firstBlock (createMemoryManager_naive s a sz) = a"
    and "memoryPoolSize (createMemoryManager_naive s a sz) = sz"
proof -
  let ?s = "createMemoryManager_naive s a sz"
  have "\<not> sz \<le> BLOCK_HEADER_SIZE"
    using assms(2) by (simp add: word_le_nat_alt)
  then have s': "?s = s\<lparr>heap := (heap s)(a := \<lparr>bsize = of_nat (unat sz - 24), bfree = True,
      bnext = 0, bprev = 0\<rparr>), firstBlock := a, memoryPoolSize := sz\<rparr>"
    using assms(1,2) by (simp add: createMemoryManager_naive_def BLOCK_HEADER_SIZE_24)
  have "8 dvd unat sz - 24"
    using assms(3) by simp
  then show "blocks ?s = [(unat sz - 24, True)]" and "naive_inv ?s"
    using naive_invI [of ?s "[(unat sz - 24, True)]"] assms by (simp_all add: s')
  show "firstBlock ?s = a" and "memoryPoolSize ?s = sz"
    by (simp_all add: s')
qed

text \<open>A pool too small for one header, or at address 0, leaves the manager untouched.\<close>

lemma naive_create_refused:
  "a = 0 \<or> unat sz \<le> 24 \<Longrightarrow> createMemoryManager_naive s a sz = s"
  by (auto simp: createMemoryManager_naive_def word_le_nat_alt)

lemma live_at_Nil_coalesced:
  "\<lbrakk>live_at a bs = Map.empty; coalesced bs; bs \<noteq> []\<rbrakk> \<Longrightarrow> bs = [(extent bs - 24, True)]"
proof (induction a bs rule: live_at.induct)
  case (2 a n f bs)
  then have "f" and "live_at (a + 24 + n) bs = Map.empty"
    by (auto split: if_splits)
  then show ?case
    using 2 by (cases bs) auto
qed simp

lemma blocks_all_free:
  assumes "naive_inv s" and "naive_live s = Map.empty"
  shows "blocks s = [(unat (memoryPoolSize s) - 24, True)]"
  using live_at_Nil_coalesced [of "firstBlock s" "blocks s"] assms
  by (auto simp: naive_inv_def naive_live_def)

section \<open>Status report\<close>

definition total_of :: "bool \<Rightarrow> blk list \<Rightarrow> nat" where
  "total_of f bs = sum_list (map fst (filter (\<lambda>b. snd b = f) bs))"

lemma total_of_extent: "total_of True bs + total_of False bs + 24 * length bs = extent bs"
  by (induction bs rule: extent.induct) (auto simp: total_of_def)

lemma status_from_laid:
  "\<lbrakk>laid h pv a bs 0; 0 < a; length bs \<le> fuel; extent bs < 4294967296\<rbrakk>
   \<Longrightarrow> status_from fuel h (head_addr a bs 0) u v
     = (u + of_nat (total_of False bs), v + of_nat (total_of True bs))"
proof (induction bs arbitrary: pv a fuel u v rule: extent.induct)
  case 1
  then show ?case by (simp add: status_from.simps total_of_def)
next
  case (2 n f bs)
  then show ?case
    by (subst status_from.simps) (auto simp: total_of_def ac_simps)
qed

lemma naive_status:
  assumes "naive_inv s"
  shows "ms_used (getMemoryStatus_naive s) = of_nat (total_of False (blocks s))"
    and "ms_free (getMemoryStatus_naive s) = of_nat (total_of True (blocks s))"
    and "ms_total (getMemoryStatus_naive s) = memoryPoolSize s"
proof -
  have "head_addr (firstBlock s) (blocks s) 0 = firstBlock s"
    using assms by (cases "blocks s") (auto simp: naive_inv_def)
  moreover have "length (blocks s) \<le> extent (blocks s)"
    using length_le_extent [of "blocks s"] by linarith
  ultimately have "status_from (unat (memoryPoolSize s)) (heap s) (firstBlock s) 0 0
     = (of_nat (total_of False (blocks s)), of_nat (total_of True (blocks s)))"
    using status_from_laid [of "heap s" 0 "firstBlock s" "blocks s" "unat (memoryPoolSize s)" 0 0]
      assms by (simp add: naive_inv_def)
  then show "ms_used (getMemoryStatus_naive s) = of_nat (total_of False (blocks s))"
    and "ms_free (getMemoryStatus_naive s) = of_nat (total_of True (blocks s))"
    and "ms_total (getMemoryStatus_naive s) = memoryPoolSize s"
    by (simp_all add: getMemoryStatus_naive_def)
qed

section \<open>Release undoes allocation\<close>

lemma mark_free_mid [simp]:
  "mark_free (a + extent xs + 24) a (xs @ (n, f) # ys) = xs @ (n, True) # ys"
proof (induction xs arbitrary: a rule: extent.induct)
  case (2 k g bs)
  from 2 [of "a + 24 + k"] show ?case
    by (simp add: ac_simps)
qed simp

lemma join_assoc_free: "join (n, True) (join (m, True) bs) = join (n + 24 + m, True) bs"
  by (cases bs; cases "hd bs") (auto simp: add.assoc)

lemma norm_uncarve:
  assumes "r \<le> n" and "coalesced (xs @ (n, True) # ys)"
  shows "norm (mark_free (a + extent xs + 24) a (xs @ carve r n @ ys)) = xs @ (n, True) # ys"
proof -
  have "norm (xs @ (r, True) # (n - r - 24, True) # ys) = norm (xs @ (n, True) # ys)"
    if "r + 32 \<le> n"
    using that join_assoc_free [of r "n - r - 24" "norm ys"]
    by (induction xs) auto
  then show ?thesis
    using assms by (auto simp: carve_def norm_coalesced)
qed

lemma naive_alloc_free:
  assumes "naive_inv s" and "allocMemory_naive s n = (p, s')" and "p \<noteq> 0"
  shows "blocks (freeMemory_naive s' p) = blocks s"
proof -
  have "n \<noteq> 0" using assms(2,3) by (cases "n = 0") auto
  obtain q bs where alloc: "alloc_blocks (unat (ALIGN n)) (firstBlock s) (blocks s) = (q, bs)"
    by force
  note ref = naive_alloc_refines [OF assms(1) \<open>n \<noteq> 0\<close> alloc assms(2)]
  have inv: "0 < firstBlock s" "coalesced (blocks s)"
    using assms(1) by (auto simp: naive_inv_def)
  from alloc inv(1) show ?thesis
  proof (cases rule: alloc_blocks_cases)
    case Fail
    then show ?thesis using assms(3) ref(1) by simp
  next
    case (Fit xs m ys)
    then have live: "naive_live s' p = Some (if unat (ALIGN n) + 32 \<le> m then unat (ALIGN n) else m)"
      using ref live_at_carve [OF Fit(2), of "firstBlock s" xs ys] by (simp add: naive_live_def)
    then have "blocks (freeMemory_naive s' p)
        = norm (mark_free p (firstBlock s) (xs @ carve (unat (ALIGN n)) m @ ys))"
      using naive_free_refines(1) [OF ref(3) live] ref Fit(4) by simp
    then show ?thesis
      using norm_uncarve [OF Fit(2)] inv(2) Fit(1,3) ref(1) by simp
  qed
qed


section \<open>Room at the end\<close>

text \<open>A pool whose last block is free and large serves requests whatever the rest holds.\<close>

definition tailroom :: "nat \<Rightarrow> naive \<Rightarrow> bool" where
  "tailroom m s \<longleftrightarrow> naive_inv s \<and> (\<exists>xs k. blocks s = xs @ [(k, True)] \<and> m \<le> k)"

lemma tailroom_mono: "\<lbrakk>tailroom m s; n \<le> m\<rbrakk> \<Longrightarrow> tailroom n s"
  by (auto simp: tailroom_def)

lemma tailroom_inv: "tailroom m s \<Longrightarrow> naive_inv s"
  by (simp add: tailroom_def)

lemma tailroom_create:
  assumes "0 < a" and "24 < unat sz" and "8 dvd unat sz" and "unat sz + 32 \<le> 4294967296"
  shows "tailroom (unat sz - 24) (createMemoryManager_naive s a sz)"
  using naive_create [OF assms, of s] by (simp add: tailroom_def)

lemma carve_tail:
  assumes "xs @ (n, True) # ys = zs @ [(k, True)]" and "r + 24 + m \<le> k" and "8 \<le> m"
  shows "\<exists>zs' k'. xs @ carve r n @ ys = zs' @ [(k', True)] \<and> m \<le> k'"
proof (cases ys rule: rev_cases)
  case Nil
  then show ?thesis
    using assms by (auto simp: carve_def intro: exI [of _ "xs @ [(r, False)]"])
next
  case (snoc ys' y)
  then have "xs @ carve r n @ ys = (xs @ carve r n @ ys') @ [(k, True)]"
    using assms(1) by (auto simp: append_eq_append_conv2 Cons_eq_append_conv)
  then show ?thesis using assms(2) by (metis add_leD2)
qed

lemma tailroom_alloc:
  assumes "tailroom (unat (ALIGN n) + 24 + m) s" and "8 \<le> m" and "n \<noteq> 0"
  shows "fst (allocMemory_naive s n) \<noteq> 0" and "tailroom m (snd (allocMemory_naive s n))"
proof -
  obtain zs k where b: "blocks s = zs @ [(k, True)]" "unat (ALIGN n) + 24 + m \<le> k" and inv: "naive_inv s"
    using assms(1) by (auto simp: tailroom_def)
  obtain p bs where alloc: "alloc_blocks (unat (ALIGN n)) (firstBlock s) (blocks s) = (p, bs)" by force
  note ref = naive_alloc_refines [OF inv assms(3) alloc surjective_pairing]
  have first: "0 < firstBlock s" using inv by (simp add: naive_inv_def)
  then have "p \<noteq> 0"
    using alloc_blocks_fits [of k "blocks s" "unat (ALIGN n)" "firstBlock s"] alloc b by simp
  then show "fst (allocMemory_naive s n) \<noteq> 0" using ref(1) by simp
  from alloc first show "tailroom m (snd (allocMemory_naive s n))"
  proof (cases rule: alloc_blocks_cases)
    case Fail
    then show ?thesis using \<open>p \<noteq> 0\<close> by simp
  next
    case (Fit xs j ys)
    then show ?thesis
      using carve_tail [of xs j ys zs k "unat (ALIGN n)" m] b assms(2) ref by (simp add: tailroom_def)
  qed
qed

lemma tailroom_alloc16:
  assumes "tailroom (40 + m) s" and "8 \<le> m"
  shows "fst (allocMemory_naive s 16) \<noteq> 0" and "tailroom m (snd (allocMemory_naive s 16))"
  using tailroom_alloc [of 16 m s] assms by (simp_all add: ALIGN_unfold)

section \<open>Traces\<close>

lemma naive_step_frame:
  assumes "naive_inv s" and "legal naive_mm naive_live naive_okreq [c] s"
  shows "firstBlock (mm_step naive_mm c s) = firstBlock s"
    and "memoryPoolSize (mm_step naive_mm c s) = memoryPoolSize s"
proof -
  have "firstBlock (mm_step naive_mm c s) = firstBlock s
    \<and> memoryPoolSize (mm_step naive_mm c s) = memoryPoolSize s"
  proof (cases c)
    case (Alloc n)
    then have "n \<noteq> 0" using assms(2) by (auto dest: naive_okreq_nz)
    then show ?thesis
      using naive_alloc_refines(4,5) [OF assms(1) _ surjective_pairing surjective_pairing]
        Alloc by simp
  next
    case (Free p)
    then show ?thesis
      using naive_free_refines(3,4) [OF assms(1)] assms(2) naive.free_null by auto
  qed
  then show "firstBlock (mm_step naive_mm c s) = firstBlock s"
    and "memoryPoolSize (mm_step naive_mm c s) = memoryPoolSize s"
    by auto
qed

lemma naive_run_frame:
  "\<lbrakk>naive_inv s; legal naive_mm naive_live naive_okreq cs s\<rbrakk>
   \<Longrightarrow> firstBlock (mm_run naive_mm cs s) = firstBlock s
     \<and> memoryPoolSize (mm_run naive_mm cs s) = memoryPoolSize s"
proof (induction cs arbitrary: s)
  case (Cons c cs)
  then show ?case
    using naive_step_frame [of s c] naive.step_inv [of s c] by simp
qed simp

section \<open>Evaluation\<close>

text \<open>The witnesses run on a pool of 1024 bytes at address 4096.\<close>

definition no_pool :: naive where
  "no_pool = \<lparr>heap = (\<lambda>_. \<lparr>bsize = 0, bfree = False, bnext = 0, bprev = 0\<rparr>),
     firstBlock = 0, memoryPoolSize = 0\<rparr>"

definition demo_pool :: naive where
  "demo_pool = createMemoryManager_naive no_pool 4096 1024"

lemmas demo_pool_inv = naive_create [of 4096 1024 no_pool, folded demo_pool_def, simplified]

lemma ALIGN_numeral [simp]: "ALIGN (numeral k) = (numeral k + 7) AND NOT 7"
  by (rule ALIGN_unfold)

lemmas naive_eval = demo_pool_def no_pool_def createMemoryManager_naive_def allocMemory_naive_def
  freeMemory_naive_def findSuitableBlock_def find_from.simps hasRoomForSplit_def splitBlock_def
  mergeWithNext_def mergeWithPrevious_def coalesce_def NEXT_PHYSICAL_BLOCK_def
  BLOCK_HEADER_SIZE_24 ALIGNMENT_def Let_def blocks_def walk.simps naive_live_def naive_okreq_def

section \<open>Properties\<close>

text \<open>
  C1: from a fresh pool, after any sequence of allocations and releases of live pointers,
  the block headers still tile the pool exactly, neighbouring free blocks have been merged,
  and live blocks lie inside the pool and are pairwise disjoint.
\<close>

theorem naive_trace_safe:
  assumes "0 < a" and "24 < unat sz" and "8 dvd unat sz" and "unat sz + 32 \<le> 4294967296"
    and "legal naive_mm naive_live naive_okreq ops (createMemoryManager_naive s0 a sz)"
    and "s = mm_run naive_mm ops (createMemoryManager_naive s0 a sz)"
  shows "laid (heap s) 0 a (blocks s) 0 \<and> extent (blocks s) = unat sz \<and> coalesced (blocks s)
    \<and> (\<forall>p n. naive_live s p = Some n \<longrightarrow> a + 24 \<le> p \<and> p + n \<le> a + unat sz)
    \<and> (\<forall>p q m n. naive_live s p = Some m \<and> naive_live s q = Some n \<and> p \<noteq> q
           \<longrightarrow> {p..<p + m} \<inter> {q..<q + n} = {})"
proof -
  note create = naive_create [OF assms(1-4), of s0]
  have inv: "naive_inv s"
    unfolding assms(6) by (rule naive.run_inv [OF create(2) assms(5)])
  have "firstBlock s = a" "memoryPoolSize s = sz"
    using naive_run_frame [OF create(2) assms(5)] create(3,4) assms(6) by auto
  moreover have "\<forall>p q m n. naive_live s p = Some m \<and> naive_live s q = Some n \<and> p \<noteq> q
      \<longrightarrow> {p..<p + m} \<inter> {q..<q + n} = {}"
    using naive.live_bytes_disjoint [OF inv] by blast
  ultimately show ?thesis
    using inv naive_live_range [of s] by (simp add: naive_inv_def)
qed

lemma naive_trace_safe_witness:
  "let s = mm_run naive_mm [Alloc 100, Alloc 8, Free 4120] demo_pool
   in extent (blocks s) = 1024 \<and> coalesced (blocks s)"
proof -
  have "legal naive_mm naive_live naive_okreq [Alloc 100, Alloc 8, Free 4120] demo_pool"
    by (simp add: naive_eval)
  then show ?thesis
    using naive_trace_safe [of 4096 1024 "[Alloc 100, Alloc 8, Free 4120]" no_pool, OF _ _ _ _ _ refl]
    unfolding Let_def demo_pool_def [symmetric] by simp
qed

text \<open>
  C4: \<open>allocMemory\<close> is first fit. It returns null exactly when no free block holds the
  aligned request, and otherwise the payload of the lowest-addressed free block that does,
  split when the rest has room for a header and 8 bytes, all other blocks unchanged.
\<close>

theorem naive_first_fit:
  assumes "naive_inv s" and "naive_okreq n" and "allocMemory_naive s n = (p, s')"
  shows "if \<forall>(m, f) \<in> set (blocks s). f \<longrightarrow> m < unat (ALIGN n) then p = 0 \<and> s' = s
    else \<exists>xs m ys. blocks s = xs @ (m, True) # ys \<and> unat (ALIGN n) \<le> m
      \<and> (\<forall>(k, f) \<in> set xs. f \<longrightarrow> k < unat (ALIGN n))
      \<and> p = firstBlock s + extent xs + 24
      \<and> blocks s' = xs @ (if unat (ALIGN n) + 32 \<le> m
          then [(unat (ALIGN n), False), (m - unat (ALIGN n) - 24, True)] else [(m, False)]) @ ys"
proof -
  obtain q bs where alloc: "alloc_blocks (unat (ALIGN n)) (firstBlock s) (blocks s) = (q, bs)"
    by force
  note ref = naive_alloc_refines [OF assms(1) naive_okreq_nz [OF assms(2)] alloc assms(3)]
  have "0 < firstBlock s"
    using assms(1) by (simp add: naive_inv_def)
  with alloc show ?thesis
  proof (cases rule: alloc_blocks_cases)
    case Fail
    then show ?thesis using ref by auto
  next
    case (Fit xs m ys)
    then have some_fit: "\<not> (\<forall>(m, f) \<in> set (blocks s). f \<longrightarrow> m < unat (ALIGN n))"
      by auto
    have "\<forall>(k, f) \<in> set xs. f \<longrightarrow> k < unat (ALIGN n)"
      using Fit(6) by auto
    then show ?thesis
      unfolding if_not_P [OF some_fit]
      using Fit(1-4) ref(1,2) unfolding carve_def by metis
  qed
qed

lemma naive_first_fit_witness:
  "fst (allocMemory_naive demo_pool 100) = 4120
    \<and> blocks (snd (allocMemory_naive demo_pool 100)) = [(104, False), (872, True)]"
proof -
  have "naive_okreq 100" and "unat (ALIGN 100) = 104"
    by (simp_all add: naive_okreq_def)
  with naive_first_fit [OF demo_pool_inv(2) _ surjective_pairing, of 100] demo_pool_inv(1,3)
  show ?thesis
    by (auto simp: Cons_eq_append_conv)
qed

text \<open>
  release undoes allocation. Freeing the pointer just obtained restores the list of
  blocks, splits included, whatever the request.
\<close>

theorem naive_alloc_free_roundtrip:
  assumes "naive_inv s" and "fst (allocMemory_naive s n) \<noteq> 0"
  shows "blocks (freeMemory_naive (snd (allocMemory_naive s n)) (fst (allocMemory_naive s n)))
    = blocks s"
  using naive_alloc_free [OF assms(1) surjective_pairing assms(2)] .

lemma naive_alloc_free_roundtrip_witness:
  "blocks (freeMemory_naive (snd (allocMemory_naive demo_pool 40))
     (fst (allocMemory_naive demo_pool 40))) = [(1000, True)]"
proof -
  have "fst (allocMemory_naive demo_pool 40) \<noteq> 0"
    by (simp add: naive_eval)
  with naive_alloc_free_roundtrip [OF demo_pool_inv(2), of 40] show ?thesis
    by (simp add: demo_pool_inv)
qed

text \<open>
  no memory is lost to fragmentation or leaks: once every pointer handed out has been
  freed, in whatever order, the pool is again the single free block it started as.
\<close>

theorem naive_no_residue:
  assumes "0 < a" and "24 < unat sz" and "8 dvd unat sz" and "unat sz + 32 \<le> 4294967296"
    and "legal naive_mm naive_live naive_okreq ops (createMemoryManager_naive s0 a sz)"
    and "naive_live (mm_run naive_mm ops (createMemoryManager_naive s0 a sz)) = Map.empty"
  shows "blocks (mm_run naive_mm ops (createMemoryManager_naive s0 a sz)) = [(unat sz - 24, True)]"
proof -
  note create = naive_create [OF assms(1-4), of s0]
  show ?thesis
    using blocks_all_free [OF naive.run_inv [OF create(2) assms(5)] assms(6)]
      naive_run_frame [OF create(2) assms(5)] create(4) by simp
qed

lemma naive_no_residue_witness:
  "blocks (mm_run naive_mm [Alloc 100, Alloc 8, Free 4120, Free 4248] demo_pool) = [(1000, True)]"
proof -
  let ?ops = "[Alloc 100, Alloc 8, Free 4120, Free 4248]"
  have "legal naive_mm naive_live naive_okreq ?ops demo_pool"
    and "naive_live (mm_run naive_mm ?ops demo_pool) = Map.empty"
    by (simp_all add: naive_eval)
  then show ?thesis
    using naive_no_residue [of 4096 1024 ?ops no_pool] unfolding demo_pool_def [symmetric] by simp
qed

text \<open>
  the report of \<open>getMemoryStatus\<close> is exact: the used bytes are the sizes of the blocks
  in use, the free bytes those of the free blocks, and together with one 24-byte header per
  block they account for the whole pool.
\<close>

theorem naive_status_accounting:
  assumes "naive_inv s"
  shows "unat (ms_used (getMemoryStatus_naive s)) = total_of False (blocks s)
    \<and> unat (ms_free (getMemoryStatus_naive s)) = total_of True (blocks s)
    \<and> unat (ms_used (getMemoryStatus_naive s)) + unat (ms_free (getMemoryStatus_naive s))
        + 24 * length (blocks s) = unat (ms_total (getMemoryStatus_naive s))"
proof -
  have "total_of True (blocks s) + total_of False (blocks s) + 24 * length (blocks s)
      = unat (memoryPoolSize s)"
    using total_of_extent [of "blocks s"] assms by (simp add: naive_inv_def)
  moreover from this have "total_of f (blocks s) < 4294967296" for f
    using unat_u32_less [of "memoryPoolSize s"] by (cases f) (simp_all del: unat_u32_less)
  ultimately show ?thesis
    by (simp add: naive_status [OF assms])
qed

lemma naive_status_accounting_witness:
  "let s = snd (allocMemory_naive demo_pool 100)
   in unat (ms_used (getMemoryStatus_naive s)) + unat (ms_free (getMemoryStatus_naive s)) + 48 = 1024"
proof -
  have "length (blocks (snd (allocMemory_naive demo_pool 100))) = 2"
    and "ms_total (getMemoryStatus_naive (snd (allocMemory_naive demo_pool 100))) = 1024"
    by (simp_all add: naive_eval getMemoryStatus_naive_def split_beta)
  then show ?thesis
    using naive_status_accounting [OF naive_alloc_inv [OF demo_pool_inv(2)], of 100]
    unfolding Let_def by simp
qed

text \<open>
  the alignment of the request is 32-bit arithmetic and wraps. A request of the last
  seven sizes below \<open>2 ^ 32\<close> is served, from any pool with a free block, by a pointer whose
  block has no bytes at all once the free block has room for a split.
\<close>

theorem naive_huge_request_served:
  assumes "naive_inv s" and "4294967289 \<le> unat n"
    and "blocks s = (m, True) # bs" and "32 \<le> m"
  shows "fst (allocMemory_naive s n) = firstBlock s + 24
    \<and> naive_live (snd (allocMemory_naive s n)) (firstBlock s + 24) = Some 0"
proof -
  have "n \<noteq> 0" using assms(2) by auto
  have "ALIGN n = 0" using ALIGN_wraps assms(2) by simp
  then have "alloc_blocks (unat (ALIGN n)) (firstBlock s) (blocks s)
      = (firstBlock s + 24, carve 0 m @ bs)"
    using assms(3) by simp
  from naive_alloc_refines [OF assms(1) \<open>n \<noteq> 0\<close> this surjective_pairing] show ?thesis
    using assms(4) by (simp add: naive_live_def carve_def)
qed

lemma naive_huge_request_served_witness:
  "fst (allocMemory_naive demo_pool (- 1)) = 4120"
  using naive_huge_request_served [OF demo_pool_inv(2) _ demo_pool_inv(1), of "- 1"] demo_pool_inv(3)
  by (simp add: unsigned_minus_1_eq_mask mask_eq_exp_minus_1)

end
