(* ===== verification/Buddy_Manager.thy ===== *)
theory Buddy_Manager
  imports Memory_Interface
begin

text \<open>
  \<open>Kernel/memory/buddyManager.c\<close>, the second memory manager of the kernel: a binary tree of
  blocks whose states are kept in the array \<open>nodeState\<close>, with the children of node \<open>i\<close> at
  \<open>2 i + 1\<close> and \<open>2 i + 2\<close>, and an eight-byte header with the order in front of each block.

  The array has entries for blocks of 32 bytes (order 5) and more. The model keeps it as a
  function, so an access behind its end reads and writes an entry like any other; that such
  accesses happen, for requests of up to eight bytes, is the subject of one of the properties.
  \<open>spinning\<close> marks a loop of the source that does not end.
\<close>

section \<open>The program\<close>

datatype node_state = FREE | SPLIT | FULL

record buddy =
  poolBase :: addr
  poolSize :: u32
  maxOrder :: nat
  nodeState :: "nat \<Rightarrow> node_state"
  hdr_order :: "addr \<Rightarrow> nat"
  usedBytes :: u32
  freeBytes :: u32
  spinning :: bool

definition HDR_SIZE :: u32 where "HDR_SIZE = 8"
definition MIN_BLOCK_SIZE :: u32 where "MIN_BLOCK_SIZE = ALIGN (HDR_SIZE + ALIGNMENT)"
definition MAX_ORDER_ALLOWED :: nat where "MAX_ORDER_ALLOWED = 22"
definition nodeState_size :: nat where "nodeState_size = 2 ^ (MAX_ORDER_ALLOWED - 5 + 1) - 1"

definition order_size :: "nat \<Rightarrow> u32" where
  "order_size order = push_bit order 1"

definition round_down_pow2 :: "u32 \<Rightarrow> u32" where
  "round_down_pow2 x0 =
     (let x1 = x0 OR drop_bit 1 x0; x2 = x1 OR drop_bit 2 x1; x3 = x2 OR drop_bit 4 x2;
          x4 = x3 OR drop_bit 8 x3; x = x4 OR drop_bit 16 x4
      in x - drop_bit 1 x)"

definition idx_to_offset :: "nat \<Rightarrow> nat \<Rightarrow> nat \<Rightarrow> nat" where
  "idx_to_offset maxO idx order =
     (let depth = maxO - order; firstIdxAtDepth = 2 ^ depth - 1; posInLevel = idx - firstIdxAtDepth
      in posInLevel * 2 ^ order)"

text \<open>
  The least order from \<open>ord\<close> on whose size reaches \<open>need\<close>. The shift is by less than 32, and
  above \<open>2 ^ 31\<close> there is no such order.
\<close>

fun order_from :: "nat \<Rightarrow> nat \<Rightarrow> u32 \<Rightarrow> nat option" where
  "order_from 0 ord need = None"
| "order_from (Suc k) ord need = (if order_size ord < need then order_from k (ord + 1) need else Some ord)"

definition createMemoryManager_buddy :: "buddy \<Rightarrow> addr \<Rightarrow> u32 \<Rightarrow> buddy" where
  "createMemoryManager_buddy s memoryStart memoryBytes =
     (if memoryStart = 0 \<or> memoryBytes < MIN_BLOCK_SIZE then s
      else let p = round_down_pow2 memoryBytes;
               size' = (if p > order_size MAX_ORDER_ALLOWED then order_size MAX_ORDER_ALLOWED else p);
               m = (case order_from 32 0 size' of Some m \<Rightarrow> m | None \<Rightarrow> 0);
               treeNodes = 2 ^ (m + 1 - 5) - 1
           in s\<lparr>poolBase := memoryStart, poolSize := size', maxOrder := m,
                nodeState := (\<lambda>i. if i < treeNodes then FREE else nodeState s i),
                usedBytes := 0, freeBytes := size'\<rparr>)"

definition size_to_order :: "u32 \<Rightarrow> nat option" where
  "size_to_order userSize =
     (let need = ALIGN userSize + HDR_SIZE in
      map_option (\<lambda>ord. if order_size ord < MIN_BLOCK_SIZE then 5 else ord) (order_from 32 0 need))"

text \<open>The search from node \<open>idx\<close> of the given order; the wanted order is never above it.\<close>

fun alloc_rec ::
  "nat \<Rightarrow> nat \<Rightarrow> nat \<Rightarrow> nat \<Rightarrow> (nat \<Rightarrow> node_state) \<Rightarrow> nat option \<times> (nat \<Rightarrow> node_state)" where
  "alloc_rec maxO wantOrder 0 idx ns =
     (if ns idx = FULL then (None, ns)
      else if wantOrder = 0 \<and> ns idx = FREE then (Some (idx_to_offset maxO idx 0), ns(idx := FULL))
      else (None, ns))"
| "alloc_rec maxO wantOrder (Suc childOrd) idx ns =
     (if ns idx = FULL then (None, ns)
      else if Suc childOrd = wantOrder
      then if ns idx = FREE then (Some (idx_to_offset maxO idx (Suc childOrd)), ns(idx := FULL)) else (None, ns)
      else let ns1 = (if ns idx = FREE then ns(idx := SPLIT) else ns);
               leftIdx = 2 * idx + 1; rightIdx = leftIdx + 1
           in case alloc_rec maxO wantOrder childOrd leftIdx ns1 of
                (Some off, ns2) \<Rightarrow> (Some off, ns2)
              | (None, ns2) \<Rightarrow>
                  case alloc_rec maxO wantOrder childOrd rightIdx ns2 of
                    (Some off, ns3) \<Rightarrow> (Some off, ns3)
                  | (None, ns3) \<Rightarrow>
                      (None, if ns3 leftIdx = FREE \<and> ns3 rightIdx = FREE then ns3(idx := FREE) else ns3))"

definition allocMemory_buddy :: "buddy \<Rightarrow> u32 \<Rightarrow> addr \<times> buddy" where
  "allocMemory_buddy s n =
     (if poolBase s = 0 \<or> n = 0 then (0, s)
      else case size_to_order n of
        None \<Rightarrow> (0, s\<lparr>spinning := True\<rparr>)
      | Some wantOrder \<Rightarrow>
          if wantOrder > maxOrder s then (0, s)
          else case alloc_rec (maxOrder s) wantOrder (maxOrder s) 0 (nodeState s) of
            (None, ns) \<Rightarrow> (0, s\<lparr>nodeState := ns\<rparr>)
          | (Some offset, ns) \<Rightarrow>
              let hdr = poolBase s + offset
              in (hdr + unat HDR_SIZE,
                  s\<lparr>nodeState := ns, hdr_order := (hdr_order s)(hdr := wantOrder),
                    usedBytes := usedBytes s + (order_size wantOrder - HDR_SIZE),
                    freeBytes := freeBytes s - order_size wantOrder\<rparr>))"

fun free_rec :: "nat \<Rightarrow> nat \<Rightarrow> nat \<Rightarrow> nat \<Rightarrow> (nat \<Rightarrow> node_state) \<Rightarrow> (nat \<Rightarrow> node_state)" where
  "free_rec blockOrder 0 idx blockOffset ns = (if blockOrder = 0 then ns(idx := FREE) else ns)"
| "free_rec blockOrder (Suc childOrd) idx blockOffset ns =
     (if Suc childOrd < blockOrder then ns
      else if Suc childOrd = blockOrder then ns(idx := FREE)
      else let leftIdx = 2 * idx + 1; rightIdx = leftIdx + 1; halfSize = 2 ^ childOrd;
               ns1 = (if blockOffset AND halfSize \<noteq> 0
                      then free_rec blockOrder childOrd rightIdx (blockOffset - halfSize) ns
                      else free_rec blockOrder childOrd leftIdx blockOffset ns)
           in ns1(idx := if ns1 leftIdx = FREE \<and> ns1 rightIdx = FREE then FREE else SPLIT))"

definition freeMemory_buddy :: "buddy \<Rightarrow> addr \<Rightarrow> buddy" where
  "freeMemory_buddy s ptr =
     (if ptr = 0 \<or> poolBase s = 0 then s
      else let hdr = ptr - unat HDR_SIZE; order = hdr_order s hdr; offset = hdr - poolBase s
           in s\<lparr>nodeState := free_rec order (maxOrder s) 0 offset (nodeState s),
                usedBytes := usedBytes s - (order_size order - HDR_SIZE),
                freeBytes := freeBytes s + order_size order\<rparr>)"

definition getMemoryStatus_buddy :: "buddy \<Rightarrow> MemoryStatus" where
  "getMemoryStatus_buddy s =
     \<lparr>ms_total = poolSize s, ms_used = usedBytes s, ms_free = freeBytes s, ms_base = poolBase s,
      ms_end = poolBase s + unat (poolSize s)\<rparr>"

definition buddy_mm :: "buddy mm" where
  "buddy_mm = \<lparr>mm_alloc = allocMemory_buddy, mm_free = freeMemory_buddy\<rparr>"

section \<open>Block trees\<close>

text \<open>
  The tree that the array stands for. A tree of height \<open>h\<close> covers \<open>2 ^ h\<close> units of 32 bytes.
\<close>

datatype block_tree = Fr | Fu | Sp block_tree block_tree

fun t_alloc :: "nat \<Rightarrow> nat \<Rightarrow> block_tree \<Rightarrow> (nat \<times> block_tree) option" where
  "t_alloc w h Fu = None"
| "t_alloc w 0 Fr = (if w = 0 then Some (0, Fu) else None)"
| "t_alloc w (Suc h) Fr =
     (if w = Suc h then Some (0, Fu) else map_option (\<lambda>(u, l). (u, Sp l Fr)) (t_alloc w h Fr))"
| "t_alloc w 0 (Sp l r) = None"
| "t_alloc w (Suc h) (Sp l r) =
     (if w = Suc h then None
      else case t_alloc w h l of
        Some (u, l') \<Rightarrow> Some (u, Sp l' r)
      | None \<Rightarrow> map_option (\<lambda>(u, r'). (2 ^ h + u, Sp l r')) (t_alloc w h r))"

definition join :: "block_tree \<Rightarrow> block_tree \<Rightarrow> block_tree" where
  "join l r = (if l = Fr \<and> r = Fr then Fr else Sp l r)"

fun t_free :: "nat \<Rightarrow> nat \<Rightarrow> nat \<Rightarrow> block_tree \<Rightarrow> block_tree" where
  "t_free b h u Fr = Fr"
| "t_free b h u Fu = Fr"
| "t_free b 0 u (Sp l r) = Sp l r"
| "t_free b (Suc h) u (Sp l r) = (if 2 ^ h \<le> u then join l (t_free b h (u - 2 ^ h) r) else join (t_free b h u l) r)"

text \<open>The allocated blocks, with their first unit and their height.\<close>

fun t_blocks :: "nat \<Rightarrow> block_tree \<Rightarrow> nat \<Rightarrow> (nat \<times> nat) list" where
  "t_blocks h Fr u = []"
| "t_blocks h Fu u = [(u, h)]"
| "t_blocks 0 (Sp l r) u = []"
| "t_blocks (Suc h) (Sp l r) u = t_blocks h l u @ t_blocks h r (u + 2 ^ h)"

fun t_ok :: "nat \<Rightarrow> block_tree \<Rightarrow> bool" where
  "t_ok h Fr = True"
| "t_ok h Fu = True"
| "t_ok 0 (Sp l r) = False"
| "t_ok (Suc h) (Sp l r) = (t_ok h l \<and> t_ok h r \<and> \<not> (l = Fr \<and> r = Fr))"

lemma blocks_range:
  "(v, b) \<in> set (t_blocks h t u) \<Longrightarrow> u \<le> v \<and> v + 2 ^ b \<le> u + 2 ^ h \<and> b \<le> h \<and> 2 ^ b dvd (v - u)"
proof (induction h t u rule: t_blocks.induct)
  case (4 h l r u)
  then consider "(v, b) \<in> set (t_blocks h l u)" | "(v, b) \<in> set (t_blocks h r (u + 2 ^ h))" by auto
  then show ?case
  proof cases
    case 1
    then show ?thesis using "4.IH"(1) by fastforce
  next
    case 2
    from "4.IH"(2) [OF this] have r: "u + 2 ^ h \<le> v" "v + 2 ^ b \<le> u + 2 ^ h + 2 ^ h" "b \<le> h" "2 ^ b dvd (v - (u + 2 ^ h))"
      by auto
    have "2 ^ b dvd ((2 :: nat) ^ h)" using r(3) by (simp add: le_imp_power_dvd)
    then have "2 ^ b dvd (v - (u + 2 ^ h) + 2 ^ h)" using r(4) dvd_add by blast
    moreover have "v - (u + 2 ^ h) + 2 ^ h = v - u" using r(1) by simp
    ultimately show ?thesis using r by simp
  qed
qed auto

lemma blocks_disjoint:
  "\<lbrakk>(v, b) \<in> set (t_blocks h t u); (v', b') \<in> set (t_blocks h t u); (v, b) \<noteq> (v', b')\<rbrakk>
   \<Longrightarrow> v + 2 ^ b \<le> v' \<or> v' + 2 ^ b' \<le> v"
proof (induction h t u rule: t_blocks.induct)
  case (4 h l r u)
  have side: "x + 2 ^ k \<le> u + 2 ^ h" if "(x, k) \<in> set (t_blocks h l u)" for x k
    using blocks_range [OF that] by simp
  have side': "u + 2 ^ h \<le> x" if "(x, k) \<in> set (t_blocks h r (u + 2 ^ h))" for x k
    using blocks_range [OF that] by simp
  consider "(v, b) \<in> set (t_blocks h l u)" "(v', b') \<in> set (t_blocks h l u)"
    | "(v, b) \<in> set (t_blocks h r (u + 2 ^ h))" "(v', b') \<in> set (t_blocks h r (u + 2 ^ h))"
    | "(v, b) \<in> set (t_blocks h l u)" "(v', b') \<in> set (t_blocks h r (u + 2 ^ h))"
    | "(v, b) \<in> set (t_blocks h r (u + 2 ^ h))" "(v', b') \<in> set (t_blocks h l u)"
    using "4.prems"(1,2) by auto
  then show ?case
  proof cases
    case 1
    then show ?thesis using "4.IH"(1) "4.prems"(3) by blast
  next
    case 2
    then show ?thesis using "4.IH"(2) "4.prems"(3) by blast
  next
    case 3
    then show ?thesis using side side' le_trans by blast
  next
    case 4
    then show ?thesis using side side' le_trans by blast
  qed
qed auto

lemma blocks_shift: "t_blocks h t (u + k) = map (\<lambda>(v, b). (v + k, b)) (t_blocks h t u)"
  by (induction h t u rule: t_blocks.induct) (auto simp: ac_simps)

lemma distinct_blocks: "distinct (map fst (t_blocks h t u))"
proof (induction h t u rule: t_blocks.induct)
  case (4 h l r u)
  have "fst x \<noteq> fst y" if "x \<in> set (t_blocks h l u)" "y \<in> set (t_blocks h r (u + 2 ^ h))" for x y
  proof -
    have "fst x + 2 ^ snd x \<le> u + 2 ^ h" "u + 2 ^ h \<le> fst y"
      using blocks_range [of "fst x" "snd x"] blocks_range [of "fst y" "snd y"] that by auto
    moreover have "0 < (2 :: nat) ^ snd x" by simp
    ultimately show ?thesis by linarith
  qed
  then show ?case using 4 by auto
qed auto

lemma t_alloc_Fr: "w \<le> h \<Longrightarrow> \<exists>l. t_alloc w h Fr = Some (0, l)"
  by (induction h) (auto simp: le_Suc_eq)

lemma t_alloc_spec:
  "\<lbrakk>t_ok h t; t_alloc w h t = Some (v, t')\<rbrakk> \<Longrightarrow> t_ok h t' \<and> t' \<noteq> Fr
     \<and> set (t_blocks h t' u) = insert (u + v, w) (set (t_blocks h t u)) \<and> u + v \<notin> fst ` set (t_blocks h t u)"
proof (induction w h t arbitrary: u v t' rule: t_alloc.induct)
  case (3 w h)
  then show ?case by (auto split: if_splits)
next
  case (5 w h l r)
  show ?case
  proof (cases "t_alloc w h l")
    case (Some a)
    then obtain l' where l': "t_alloc w h l = Some (v, l')" "t' = Sp l' r" using "5.prems"(2) by (auto split: if_splits prod.splits)
    have sw: "w \<noteq> Suc h" using "5.prems"(2) by (auto split: if_splits)
    from "5.IH"(1) [OF sw _ l'(1), of u] "5.prems"(1)
    have L: "t_ok h l'" "l' \<noteq> Fr" "set (t_blocks h l' u) = insert (u + v, w) (set (t_blocks h l u))"
      "u + v \<notin> fst ` set (t_blocks h l u)" by auto
    have "(u + v, w) \<in> set (t_blocks h l' u)" using L(3) by simp
    then have "u + v + 2 ^ w \<le> u + 2 ^ h" using blocks_range by blast
    moreover have "0 < (2 :: nat) ^ w" by simp
    ultimately have "u + v < u + 2 ^ h" by linarith
    then have "u + v \<notin> fst ` set (t_blocks h r (u + 2 ^ h))"
      using blocks_range [of _ _ h r "u + 2 ^ h"] by fastforce
    then show ?thesis using L l'(2) "5.prems"(1) by auto
  next
    case None
    then obtain r' k where r': "t_alloc w h r = Some (k, r')" "t' = Sp l r'" "v = 2 ^ h + k"
      using "5.prems"(2) by (auto split: if_splits)
    have sw: "w \<noteq> Suc h" using "5.prems"(2) by (auto split: if_splits)
    from "5.IH"(2) [OF sw None _ r'(1), of "u + 2 ^ h"] "5.prems"(1)
    have R: "t_ok h r'" "r' \<noteq> Fr" "set (t_blocks h r' (u + 2 ^ h)) = insert (u + v, w) (set (t_blocks h r (u + 2 ^ h)))"
      "u + v \<notin> fst ` set (t_blocks h r (u + 2 ^ h))" by (auto simp: r'(3) ac_simps)
    have "u + v \<notin> fst ` set (t_blocks h l u)"
    proof
      assume "u + v \<in> fst ` set (t_blocks h l u)"
      then obtain b where "(u + v, b) \<in> set (t_blocks h l u)" by auto
      from blocks_range [OF this] have "u + v + 2 ^ b \<le> u + 2 ^ h" by simp
      moreover have "0 < (2 :: nat) ^ b" by simp
      ultimately show False using r'(3) by linarith
    qed
    then show ?thesis using R r'(2) "5.prems"(1) by auto
  qed
qed (auto split: if_splits)

lemma t_free_spec:
  "\<lbrakk>t_ok h t; (v, b) \<in> set (t_blocks h t u)\<rbrakk> \<Longrightarrow> t_ok h (t_free b h (v - u) t)
     \<and> set (t_blocks h (t_free b h (v - u) t) u) = set (t_blocks h t u) - {(v, b)}
     \<and> (w \<le> b \<longrightarrow> t_alloc w h (t_free b h (v - u) t) \<noteq> None)"
proof (induction h t u rule: t_blocks.induct)
  case (2 h u)
  then show ?case using t_alloc_Fr [of w h] by auto
next
  case (4 h l r u)
  have jo: "t_ok (Suc h) (join x y) \<and> t_blocks (Suc h) (join x y) u = t_blocks h x u @ t_blocks h y (u + 2 ^ h)"
    if "t_ok h x" "t_ok h y" for x y using that by (simp add: join_def)
  have al: "t_alloc w (Suc h) (join x y) \<noteq> None" if "w \<le> h" "t_alloc w h x \<noteq> None \<or> t_alloc w h y \<noteq> None" for x y
    using that t_alloc_Fr [of w "Suc h"] by (auto simp: join_def split: option.splits)
  show ?case
  proof (cases "(v, b) \<in> set (t_blocks h l u)")
    case True
    note R = blocks_range [OF True]
    have lt: "v - u < 2 ^ h"
    proof -
      have "0 < (2 :: nat) ^ b" by simp
      then show ?thesis using R by linarith
    qed
    have I: "t_ok h (t_free b h (v - u) l)"
      "set (t_blocks h (t_free b h (v - u) l) u) = set (t_blocks h l u) - {(v, b)}"
      "w \<le> b \<Longrightarrow> t_alloc w h (t_free b h (v - u) l) \<noteq> None" using "4.IH"(1) True "4.prems"(1) by auto
    have nr: "(v, b) \<notin> set (t_blocks h r (u + 2 ^ h))" using blocks_range [of v b h r "u + 2 ^ h"] lt R by auto
    have e: "t_free b (Suc h) (v - u) (Sp l r) = join (t_free b h (v - u) l) r" using lt by simp
    show ?thesis
      unfolding e using jo [OF I(1), of r] I nr "4.prems"(1) R al by auto
  next
    case False
    then have True': "(v, b) \<in> set (t_blocks h r (u + 2 ^ h))" using "4.prems"(2) by simp
    note R = blocks_range [OF True']
    have e: "t_free b (Suc h) (v - u) (Sp l r) = join l (t_free b h (v - (u + 2 ^ h)) r)" using R by (simp add: le_diff_conv2)
    have I: "t_ok h (t_free b h (v - (u + 2 ^ h)) r)"
      "set (t_blocks h (t_free b h (v - (u + 2 ^ h)) r) (u + 2 ^ h)) = set (t_blocks h r (u + 2 ^ h)) - {(v, b)}"
      "w \<le> b \<Longrightarrow> t_alloc w h (t_free b h (v - (u + 2 ^ h)) r) \<noteq> None" using "4.IH"(2) True' "4.prems"(1) by auto
    show ?thesis
      unfolding e using jo [OF _ I(1), of l] I False "4.prems"(1) R al by auto
  qed
qed auto

lemma no_blocks_Fr: "\<lbrakk>t_ok h t; t_blocks h t u = []\<rbrakk> \<Longrightarrow> t = Fr"
  by (induction h t u rule: t_blocks.induct) auto

section \<open>The array stands for a tree\<close>

fun all_free :: "(nat \<Rightarrow> node_state) \<Rightarrow> nat \<Rightarrow> nat \<Rightarrow> bool" where
  "all_free ns i 0 = (ns i = FREE)"
| "all_free ns i (Suc h) = (ns i = FREE \<and> all_free ns (2 * i + 1) h \<and> all_free ns (2 * i + 2) h)"

fun rep :: "(nat \<Rightarrow> node_state) \<Rightarrow> nat \<Rightarrow> nat \<Rightarrow> block_tree \<Rightarrow> bool" where
  "rep ns i h Fr = all_free ns i h"
| "rep ns i 0 Fu = (ns i = FULL)"
| "rep ns i (Suc h) Fu = (ns i = FULL \<and> all_free ns (2 * i + 1) h \<and> all_free ns (2 * i + 2) h)"
| "rep ns i 0 (Sp l r) = False"
| "rep ns i (Suc h) (Sp l r) = (ns i = SPLIT \<and> rep ns (2 * i + 1) h l \<and> rep ns (2 * i + 2) h r)"

text \<open>The entries of a subtree.\<close>

fun desc :: "nat \<Rightarrow> nat \<Rightarrow> nat set" where
  "desc i 0 = {i}"
| "desc i (Suc h) = insert i (desc (2 * i + 1) h \<union> desc (2 * i + 2) h)"

lemma desc_level: "j \<in> desc i h \<Longrightarrow> \<exists>d. (i + 1) * 2 ^ d \<le> j + 1 \<and> j + 1 < (i + 2) * 2 ^ d"
proof (induction h arbitrary: i)
  case 0
  then show ?case by (intro exI [of _ 0]) simp
next
  case (Suc h)
  then consider "j = i" | "j \<in> desc (2 * i + 1) h" | "j \<in> desc (2 * i + 2) h" by auto
  then show ?case
  proof cases
    case 1
    then show ?thesis by (intro exI [of _ 0]) simp
  next
    case 2
    from Suc.IH [OF this] obtain d where d: "(2 * i + 1 + 1) * 2 ^ d \<le> j + 1" "j + 1 < (2 * i + 1 + 2) * 2 ^ d" by auto
    have "(i + 1) * 2 ^ Suc d = (2 * i + 1 + 1) * 2 ^ d" "(2 * i + 1 + 2) * 2 ^ d \<le> (i + 2) * 2 ^ Suc d" by simp_all
    then show ?thesis using d by (intro exI [of _ "Suc d"]) linarith
  next
    case 3
    from Suc.IH [OF this] obtain d where d: "(2 * i + 2 + 1) * 2 ^ d \<le> j + 1" "j + 1 < (2 * i + 2 + 2) * 2 ^ d" by auto
    have "(i + 1) * 2 ^ Suc d \<le> (2 * i + 2 + 1) * 2 ^ d" "(2 * i + 2 + 2) * 2 ^ d = (i + 2) * 2 ^ Suc d" by simp_all
    then show ?thesis using d by (intro exI [of _ "Suc d"]) linarith
  qed
qed

lemma desc_ge: "j \<in> desc i h \<Longrightarrow> i \<le> j"
  by (induction i h rule: desc.induct) auto

lemma desc_children: "j \<in> desc (2 * i + 1) h \<Longrightarrow> j \<noteq> i" "j \<in> desc (2 * i + 2) h \<Longrightarrow> j \<noteq> i"
  using desc_ge by fastforce+

lemma desc_apart: "j \<in> desc (2 * i + 1) h \<Longrightarrow> j \<notin> desc (2 * i + 2) h'"
proof
  assume "j \<in> desc (2 * i + 1) h" "j \<in> desc (2 * i + 2) h'"
  from desc_level [OF this(1)] desc_level [OF this(2)] obtain d e where
    d: "(2 * i + 2) * 2 ^ d \<le> j + 1" "j + 1 < (2 * i + 3) * 2 ^ d"
    and e: "(2 * i + 3) * 2 ^ e \<le> j + 1" "j + 1 < (2 * i + 4) * 2 ^ e" by (auto simp: numeral_eq_Suc)
  consider "d = e" | "d < e" | "e < d" by linarith
  then show False
  proof cases
    case 1
    have "(2 * i + 3) * 2 ^ d < (2 * i + 3) * (2 :: nat) ^ d" using le_less_trans [OF e(1) [folded 1] d(2)] .
    then show False by simp
  next
    case 2
    then have "(2 :: nat) ^ d \<le> 2 ^ e" by simp
    then have "(2 * i + 3) * 2 ^ d \<le> (2 * i + 3) * 2 ^ e" by simp
    then show False using d(2) e(1) by linarith
  next
    case 3
    then have "(2 :: nat) ^ Suc e \<le> 2 ^ d" by (intro power_increasing) simp_all
    then have "(2 * i + 2) * 2 ^ Suc e \<le> (2 * i + 2) * 2 ^ d" by (rule mult_le_mono2)
    moreover have "(2 * i + 4) * 2 ^ e \<le> (4 * i + 4) * (2 :: nat) ^ e" by (rule mult_le_mono1) simp
    moreover have "(4 * i + 4) * 2 ^ e = (2 * i + 2) * (2 :: nat) ^ Suc e" by (simp add: algebra_simps)
    ultimately show False using d(1) e(2) by linarith
  qed
qed

lemma desc_self [simp]: "i \<in> desc i h"
  by (cases h) simp_all

lemma all_free_frame: "(\<And>j. j \<in> desc i h \<Longrightarrow> ns' j = ns j) \<Longrightarrow> all_free ns' i h = all_free ns i h"
  by (induction ns i h rule: all_free.induct) auto

lemma rep_frame: "(\<And>j. j \<in> desc i h \<Longrightarrow> ns' j = ns j) \<Longrightarrow> rep ns' i h t = rep ns i h t"
proof (induction ns i h t rule: rep.induct)
  case (1 ns i h)
  from all_free_frame [OF 1] show ?case by simp
next
  case (2 ns i)
  from 2 [of i] show ?case by simp
next
  case (3 ns i h)
  have "all_free ns' (2 * i + 1) h = all_free ns (2 * i + 1) h"
  proof (rule all_free_frame)
    fix j assume "j \<in> desc (2 * i + 1) h"
    then show "ns' j = ns j" using 3 [of j] by simp
  qed
  moreover have "all_free ns' (2 * i + 2) h = all_free ns (2 * i + 2) h"
  proof (rule all_free_frame)
    fix j assume "j \<in> desc (2 * i + 2) h"
    then show "ns' j = ns j" using 3 [of j] by simp
  qed
  moreover have "ns' i = ns i" using 3 [of i] by simp
  ultimately show ?case by simp
next
  case (5 ns i h l r)
  have "rep ns' (2 * i + 1) h l = rep ns (2 * i + 1) h l"
  proof (rule "5.IH"(1))
    fix j assume "j \<in> desc (2 * i + 1) h"
    then show "ns' j = ns j" using "5.prems" [of j] by simp
  qed
  moreover have "rep ns' (2 * i + 2) h r = rep ns (2 * i + 2) h r"
  proof (rule "5.IH"(2))
    fix j assume "j \<in> desc (2 * i + 2) h"
    then show "ns' j = ns j" using "5.prems" [of j] by simp
  qed
  moreover have "ns' i = ns i" using "5.prems" [of i] by simp
  ultimately show ?case by simp
qed simp

lemma rep_root: "rep ns i h t \<Longrightarrow> ns i = (case t of Fr \<Rightarrow> FREE | Fu \<Rightarrow> FULL | Sp l r \<Rightarrow> SPLIT)"
  by (cases h; cases t) auto

text \<open>An update at a node, or in one half of its subtree, leaves the other parts alone.\<close>

lemma rep_at: "rep (ns(i := x)) (2 * i + 1) h t = rep ns (2 * i + 1) h t"
  "rep (ns(i := x)) (2 * i + 2) h t = rep ns (2 * i + 2) h t"
  "all_free (ns(i := x)) (2 * i + 1) h = all_free ns (2 * i + 1) h"
  "all_free (ns(i := x)) (2 * i + 2) h = all_free ns (2 * i + 2) h"
  by (rule rep_frame, use desc_children in fastforce)
    (rule rep_frame, use desc_children in fastforce,
     rule all_free_frame, use desc_children in fastforce,
     rule all_free_frame, use desc_children in fastforce)

lemmas rep_at_Suc = rep_at [simplified]

lemma rep_left:
  assumes "\<forall>j. j \<notin> desc (2 * i + 1) h \<longrightarrow> ns' j = ns j"
  shows "rep ns' (2 * i + 2) h t = rep ns (2 * i + 2) h t" and "ns' i = ns i"
proof -
  show "rep ns' (2 * i + 2) h t = rep ns (2 * i + 2) h t"
    by (rule rep_frame) (use assms desc_apart in blast)
  show "ns' i = ns i" using assms desc_children(1) by blast
qed

lemma rep_right:
  assumes "\<forall>j. j \<notin> desc (2 * i + 2) h \<longrightarrow> ns' j = ns j"
  shows "rep ns' (2 * i + 1) h t = rep ns (2 * i + 1) h t" and "ns' i = ns i"
proof -
  show "rep ns' (2 * i + 1) h t = rep ns (2 * i + 1) h t"
    by (rule rep_frame) (use assms desc_apart in blast)
  show "ns' i = ns i" using assms desc_children(2) by blast
qed

section \<open>The two recursions act on the tree\<close>

lemma child_position:
  fixes i q :: nat
  assumes "i + 1 = 2 ^ (H - Suc h) + q" and "Suc h \<le> H"
  shows "(2 * i + 1) + 1 = 2 ^ (H - h) + 2 * q" and "(2 * i + 2) + 1 = 2 ^ (H - h) + (2 * q + 1)"
proof -
  have "H - h = Suc (H - Suc h)" using assms(2) by simp
  then have "(2 :: nat) ^ (H - h) = 2 * 2 ^ (H - Suc h)" by simp
  then show "(2 * i + 1) + 1 = 2 ^ (H - h) + 2 * q" and "(2 * i + 2) + 1 = 2 ^ (H - h) + (2 * q + 1)"
    using assms(1) by linarith+
qed

lemma node_offset:
  assumes "i + 1 = 2 ^ (H - h) + q" and "h \<le> H"
  shows "idx_to_offset (H + 5) i (h + 5) = q * 2 ^ (h + 5)"
proof -
  have "i - (2 ^ (H - h) - 1) = q" using assms(1) by simp
  then show ?thesis by (simp add: idx_to_offset_def)
qed

definition alloc_result :: "nat \<Rightarrow> nat \<Rightarrow> nat \<Rightarrow> nat \<Rightarrow> nat \<Rightarrow> (nat \<Rightarrow> node_state) \<Rightarrow> block_tree \<Rightarrow> bool" where
  "alloc_result H w h i q ns t \<longleftrightarrow>
     (case t_alloc w h t of
        None \<Rightarrow> alloc_rec (H + 5) (w + 5) (h + 5) i ns = (None, ns)
      | Some (v, t') \<Rightarrow> \<exists>ns'. alloc_rec (H + 5) (w + 5) (h + 5) i ns = (Some (q * 2 ^ (h + 5) + 32 * v), ns')
          \<and> rep ns' i h t' \<and> (\<forall>j. j \<notin> desc i h \<longrightarrow> ns' j = ns j))"

lemma alloc_at:
  assumes "rep ns i h t" and "i + 1 = 2 ^ (H - h) + q" and "h \<le> H"
  shows "alloc_result H h h i q ns t"
proof -
  note root = rep_root [OF assms(1)]
  obtain k where k: "h + 5 = Suc k" by (metis Suc_eq_plus1_left add.commute add_Suc_right numeral_nat(3))
  have e: "alloc_rec (H + 5) (h + 5) (h + 5) i ns =
      (if ns i = FREE then (Some (q * 2 ^ (h + 5)), ns(i := FULL)) else (None, ns))"
    using node_offset [OF assms(2,3)] unfolding k by (cases "ns i") auto
  show ?thesis
  proof (cases t)
    case Fr
    then have f: "all_free ns i h" using assms(1) by simp
    then have "rep (ns(i := FULL)) i h Fu" by (cases h) (simp_all add: rep_at_Suc)
    moreover have "t_alloc h h Fr = Some (0, Fu)" by (cases h) simp_all
    ultimately show ?thesis unfolding alloc_result_def Fr e using root Fr by auto
  next
    case Fu
    then show ?thesis unfolding alloc_result_def e using root by simp
  next
    case (Sp l r)
    then have "t_alloc h h t = None" by (cases h) simp_all
    then show ?thesis unfolding alloc_result_def e using root Sp by simp
  qed
qed

lemma alloc_below:
  assumes "w \<le> h"
  shows "alloc_rec M (w + 5) (Suc h + 5) i ns =
     (if ns i = FULL then (None, ns)
      else let ns1 = (if ns i = FREE then ns(i := SPLIT) else ns)
           in case alloc_rec M (w + 5) (h + 5) (2 * i + 1) ns1 of
                (Some off, ns2) \<Rightarrow> (Some off, ns2)
              | (None, ns2) \<Rightarrow>
                  case alloc_rec M (w + 5) (h + 5) (2 * i + 2) ns2 of
                    (Some off, ns3) \<Rightarrow> (Some off, ns3)
                  | (None, ns3) \<Rightarrow>
                      (None, if ns3 (2 * i + 1) = FREE \<and> ns3 (2 * i + 2) = FREE then ns3(i := FREE) else ns3))"
proof -
  have e: "Suc h + 5 = Suc (h + 5)" "2 * i + 1 + 1 = 2 * i + 2" by simp_all
  show ?thesis
    unfolding e(1) by (subst alloc_rec.simps(2)) (use assms in \<open>simp only: Let_def e(2); simp\<close>)
qed

lemma alloc_rec_refines:
  "\<lbrakk>w \<le> h; h \<le> H; rep ns i h t; t_ok h t; i + 1 = 2 ^ (H - h) + q\<rbrakk> \<Longrightarrow> alloc_result H w h i q ns t"
proof (induction h arbitrary: i q ns t)
  case 0
  then show ?case using alloc_at by simp
next
  case (Suc h)
  show ?case
  proof (cases "w = Suc h")
    case True
    then show ?thesis using alloc_at Suc.prems by blast
  next
    case False
    then have wh: "w \<le> h" using Suc.prems(1) by simp
    have hH: "h \<le> H" using Suc.prems(2) by simp
    note pos = child_position [OF Suc.prems(5,2)]
    have offs: "2 * q * 2 ^ (h + 5) + 32 * v = q * 2 ^ (Suc h + 5) + 32 * v"
      "(2 * q + 1) * 2 ^ (h + 5) + 32 * v = q * 2 ^ (Suc h + 5) + 32 * (2 ^ h + v)" for v :: nat
      by (simp_all add: power_add algebra_simps)
    note root = rep_root [OF Suc.prems(3)]
    show ?thesis
    proof (cases t)
      case Fu
      then show ?thesis unfolding alloc_result_def alloc_below [OF wh] using root by simp
    next
      case Fr
      let ?n = "ns(i := SPLIT)"
      have free: "all_free ns (2 * i + 1) h" "all_free ns (2 * i + 2) h" using Suc.prems(3) Fr by simp_all
      obtain l where l: "t_alloc w h Fr = Some (0, l)" using t_alloc_Fr [OF wh] by blast
      have "rep ?n (2 * i + 1) h Fr" unfolding rep_at(1) using free by simp
      then have "alloc_result H w h (2 * i + 1) (2 * q) ?n Fr"
        by (rule Suc.IH [OF wh hH _ _ pos(1)]) simp
      then obtain ns' where ns': "alloc_rec (H + 5) (w + 5) (h + 5) (2 * i + 1) ?n = (Some (2 * q * 2 ^ (h + 5) + 32 * 0), ns')"
        "rep ns' (2 * i + 1) h l" "\<forall>j. j \<notin> desc (2 * i + 1) h \<longrightarrow> ns' j = ?n j"
        unfolding alloc_result_def l by auto
      have "rep ns' (2 * i + 2) h Fr = rep ?n (2 * i + 2) h Fr" by (rule rep_left(1) [OF ns'(3)])
      then have rf: "rep ns' (2 * i + 2) h Fr" unfolding rep_at(2) using free by simp
      have "rep ns' i (Suc h) (Sp l Fr)"
        using ns'(2) rf rep_left(2) [OF ns'(3)] by simp
      moreover have "\<forall>j. j \<notin> desc i (Suc h) \<longrightarrow> ns' j = ns j" using ns'(3) by auto
      moreover have "t_alloc w (Suc h) t = Some (0, Sp l Fr)" using l Fr False by simp
      ultimately show ?thesis
        unfolding alloc_result_def alloc_below [OF wh] using root Fr ns'(1) offs(1) [of 0] by auto
    next
      case (Sp l r)
      have R: "ns i = SPLIT" "rep ns (2 * i + 1) h l" "rep ns (2 * i + 2) h r" "t_ok h l" "t_ok h r" "\<not> (l = Fr \<and> r = Fr)"
        using Suc.prems(3,4) Sp by auto
      note L = Suc.IH [OF wh hH R(2,4) pos(1), unfolded alloc_result_def]
      note RR = Suc.IH [OF wh hH R(3,5) pos(2), unfolded alloc_result_def]
      show ?thesis
      proof (cases "t_alloc w h l")
        case (Some a)
        obtain v l' where a: "a = (v, l')" by force
        obtain ns' where ns': "alloc_rec (H + 5) (w + 5) (h + 5) (2 * i + 1) ns = (Some (2 * q * 2 ^ (h + 5) + 32 * v), ns')"
          "rep ns' (2 * i + 1) h l'" "\<forall>j. j \<notin> desc (2 * i + 1) h \<longrightarrow> ns' j = ns j"
          using L unfolding Some a by auto
        have "rep ns' i (Suc h) (Sp l' r)" using ns'(2) rep_left [OF ns'(3)] R by simp
        moreover have "\<forall>j. j \<notin> desc i (Suc h) \<longrightarrow> ns' j = ns j" using ns'(3) by auto
        moreover have "t_alloc w (Suc h) t = Some (v, Sp l' r)" using Some a Sp False by simp
        ultimately show ?thesis
          unfolding alloc_result_def alloc_below [OF wh] using R(1) ns'(1) offs(1) [of v] by auto
      next
        case None
        then have nl: "alloc_rec (H + 5) (w + 5) (h + 5) (2 * i + 1) ns = (None, ns)" using L by simp
        show ?thesis
        proof (cases "t_alloc w h r")
          case (Some a)
          obtain v r' where a: "a = (v, r')" by force
          obtain ns' where ns': "alloc_rec (H + 5) (w + 5) (h + 5) (2 * i + 2) ns = (Some ((2 * q + 1) * 2 ^ (h + 5) + 32 * v), ns')"
            "rep ns' (2 * i + 2) h r'" "\<forall>j. j \<notin> desc (2 * i + 2) h \<longrightarrow> ns' j = ns j"
            using RR unfolding Some a by auto
          have "rep ns' i (Suc h) (Sp l r')" using ns'(2) rep_right [OF ns'(3)] R by simp
          moreover have "\<forall>j. j \<notin> desc i (Suc h) \<longrightarrow> ns' j = ns j" using ns'(3) by auto
          moreover have "t_alloc w (Suc h) t = Some (2 ^ h + v, Sp l r')" using None Some a Sp False by simp
          ultimately show ?thesis
            unfolding alloc_result_def alloc_below [OF wh] using R(1) nl ns'(1) offs(2) [of v] by auto
        next
          case none: None
          then have nr: "alloc_rec (H + 5) (w + 5) (h + 5) (2 * i + 2) ns = (None, ns)" using RR by simp
          have "\<not> (ns (2 * i + 1) = FREE \<and> ns (2 * i + 2) = FREE)"
            using rep_root [OF R(2)] rep_root [OF R(3)] R(6) by (auto split: block_tree.splits)
          moreover have "t_alloc w (Suc h) t = None" using None none Sp False by simp
          ultimately show ?thesis
            unfolding alloc_result_def alloc_below [OF wh] using R(1) nl nr by auto
        qed
      qed
    qed
  qed
qed

lemma half_bit:
  assumes "u < 2 ^ Suc h"
  shows "(32 * u AND 2 ^ (h + 5) \<noteq> 0) \<longleftrightarrow> 2 ^ h \<le> (u :: nat)"
proof -
  have "(32 * u AND 2 ^ (h + 5) \<noteq> 0) \<longleftrightarrow> odd (32 * u div 2 ^ (h + 5))"
    by (simp add: and_exp_eq_0_iff_not_bit bit_iff_odd)
  moreover have "32 * u div 2 ^ (h + 5) = u div 2 ^ h" by (simp add: power_add)
  moreover have "u div 2 ^ h = (if 2 ^ h \<le> u then 1 else 0)"
    using assms by (simp add: div_nat_eqI)
  ultimately show ?thesis by simp
qed

lemma rep_join:
  assumes "rep ns (2 * i + 1) h l" and "rep ns (2 * i + 2) h r"
  shows "rep (ns(i := if ns (2 * i + 1) = FREE \<and> ns (2 * i + 2) = FREE then FREE else SPLIT)) i (Suc h) (join l r)"
proof -
  have "ns (2 * i + 1) = FREE \<and> ns (2 * i + 2) = FREE \<longleftrightarrow> l = Fr \<and> r = Fr"
    using rep_root [OF assms(1)] rep_root [OF assms(2)] by (auto split: block_tree.splits)
  then show ?thesis using assms by (cases "l = Fr \<and> r = Fr") (auto simp: join_def rep_at_Suc)
qed

lemma free_below:
  assumes "b \<le> h" and "u < 2 ^ Suc h"
  shows "free_rec (b + 5) (Suc h + 5) i (32 * u) ns =
     (let ns1 = (if 2 ^ h \<le> u then free_rec (b + 5) (h + 5) (2 * i + 2) (32 * (u - 2 ^ h)) ns
                 else free_rec (b + 5) (h + 5) (2 * i + 1) (32 * u) ns)
      in ns1(i := if ns1 (2 * i + 1) = FREE \<and> ns1 (2 * i + 2) = FREE then FREE else SPLIT))"
proof -
  have e: "Suc h + 5 = Suc (h + 5)" "2 * i + 1 + 1 = 2 * i + 2" by simp_all
  have d: "32 * u - 2 ^ (h + 5) = 32 * (u - 2 ^ h)" by (simp add: power_add)
  show ?thesis
    unfolding e(1) by (subst free_rec.simps(2)) (use assms(1) in \<open>simp only: Let_def e(2) d half_bit [OF assms(2)]; simp\<close>)
qed

lemma free_rec_refines:
  "\<lbrakk>rep ns i h t; t_ok h t; (u, b) \<in> set (t_blocks h t 0)\<rbrakk>
   \<Longrightarrow> rep (free_rec (b + 5) (h + 5) i (32 * u) ns) i h (t_free b h u t)
     \<and> (\<forall>j. j \<notin> desc i h \<longrightarrow> free_rec (b + 5) (h + 5) i (32 * u) ns j = ns j)"
proof (induction h arbitrary: i u ns t)
  case 0
  then show ?case by (cases t) (simp_all add: eval_nat_numeral)
next
  case (Suc h)
  show ?case
  proof (cases t)
    case Fr
    then show ?thesis using Suc.prems by simp
  next
    case Fu
    then have b: "b = Suc h" using Suc.prems by auto
    have e: "Suc h + 5 = Suc (h + 5)" by simp
    have f: "free_rec (b + 5) (Suc h + 5) i (32 * u) ns = ns(i := FREE)" unfolding b e by (subst free_rec.simps(2)) simp
    have "rep (ns(i := FREE)) i (Suc h) Fr" using Suc.prems(1) Fu by (simp only: rep.simps all_free.simps rep_at) simp
    then show ?thesis unfolding f Fu t_free.simps by (rule conjI) simp
  next
    case (Sp l r)
    have R: "rep ns (2 * i + 1) h l" "rep ns (2 * i + 2) h r" "t_ok h l" "t_ok h r"
      using Suc.prems(1,2) Sp by auto
    have u: "u < 2 ^ Suc h"
    proof -
      have "u + 2 ^ b \<le> 2 ^ Suc h" using blocks_range [OF Suc.prems(3)] by simp
      moreover have "0 < (2 :: nat) ^ b" by simp
      ultimately show ?thesis by linarith
    qed
    consider "(u, b) \<in> set (t_blocks h l 0)" | "(u, b) \<in> set (t_blocks h r (0 + 2 ^ h))"
      using Suc.prems(3) Sp by auto
    then show ?thesis
    proof cases
      case 1
      let ?n = "free_rec (b + 5) (h + 5) (2 * i + 1) (32 * u) ns"
      let ?x = "if ?n (2 * i + 1) = FREE \<and> ?n (2 * i + 2) = FREE then FREE else SPLIT"
      note I = Suc.IH [OF R(1,3) 1]
      from blocks_range [OF 1] have b: "b \<le> h" and "u + 2 ^ b \<le> 2 ^ h" by auto
      moreover have "0 < (2 :: nat) ^ b" by simp
      ultimately have lt: "\<not> 2 ^ h \<le> u" by linarith
      have "rep ?n (2 * i + 2) h r" using rep_left(1) [OF I [THEN conjunct2]] R(2) by blast
      then have new: "rep (?n(i := ?x)) i (Suc h) (join (t_free b h u l) r)" using rep_join I by blast
      have keep: "\<forall>j. j \<notin> desc i (Suc h) \<longrightarrow> (?n(i := ?x)) j = ns j" using I by simp
      have f: "free_rec (b + 5) (Suc h + 5) i (32 * u) ns = ?n(i := ?x)"
        unfolding free_below [OF b u] Let_def using lt by simp
      have t: "t_free b (Suc h) u t = (join (t_free b h u l) r)" using lt Sp by simp
      show ?thesis unfolding f t using new keep ..
    next
      case 2
      then have 2: "(u - 2 ^ h, b) \<in> set (t_blocks h r 0)" and ge: "2 ^ h \<le> u"
        unfolding blocks_shift by auto
      let ?n = "free_rec (b + 5) (h + 5) (2 * i + 2) (32 * (u - 2 ^ h)) ns"
      let ?x = "if ?n (2 * i + 1) = FREE \<and> ?n (2 * i + 2) = FREE then FREE else SPLIT"
      note I = Suc.IH [OF R(2,4) 2]
      from blocks_range [OF 2] have b: "b \<le> h" by auto
      have "rep ?n (2 * i + 1) h l" using rep_right(1) [OF I [THEN conjunct2]] R(1) by blast
      then have new: "rep (?n(i := ?x)) i (Suc h) (join l (t_free b h (u - 2 ^ h) r))" using rep_join I by blast
      have keep: "\<forall>j. j \<notin> desc i (Suc h) \<longrightarrow> (?n(i := ?x)) j = ns j" using I by simp
      have f: "free_rec (b + 5) (Suc h + 5) i (32 * u) ns = ?n(i := ?x)"
        unfolding free_below [OF b u] Let_def using ge by simp
      have t: "t_free b (Suc h) u t = (join l (t_free b h (u - 2 ^ h) r))" using ge Sp by simp
      show ?thesis unfolding f t using new keep ..
    qed
  qed
qed

section \<open>Orders\<close>

lemma unat_order_size [simp]: "m < 32 \<Longrightarrow> unat (order_size m) = 2 ^ m"
proof -
  assume "m < 32"
  then have "(2 :: nat) ^ m < 4294967296" using power_strict_increasing [of m 32 "2 :: nat"] by simp
  moreover have "order_size m = of_nat (2 ^ m)" by (simp add: order_size_def push_bit_eq_mult)
  ultimately show "unat (order_size m) = 2 ^ m" by (simp only: unat_of_nat_u32)
qed

lemma order_from_Some:
  "\<lbrakk>order_from k ord need = Some m; ord + k \<le> 32\<rbrakk>
   \<Longrightarrow> ord \<le> m \<and> m < ord + k \<and> unat need \<le> 2 ^ m \<and> (\<forall>j. ord \<le> j \<longrightarrow> unat need \<le> 2 ^ j \<longrightarrow> m \<le> j)"
proof (induction k ord need rule: order_from.induct)
  case (2 k ord need)
  have o: "order_size ord < need \<longleftrightarrow> 2 ^ ord < unat need"
    using 2(3) by (simp add: word_less_nat_alt)
  show ?case
  proof (cases "order_size ord < need")
    case True
    then have "order_from k (ord + 1) need = Some m" using 2(2) by simp
    from 2(1) [OF True this] have I: "ord + 1 \<le> m" "m < ord + 1 + k" "unat need \<le> 2 ^ m"
      "\<forall>j. ord + 1 \<le> j \<longrightarrow> unat need \<le> 2 ^ j \<longrightarrow> m \<le> j" using 2(3) by auto
    have "m \<le> j" if "ord \<le> j" "unat need \<le> 2 ^ j" for j
    proof -
      have "j \<noteq> ord" using that(2) True o by auto
      then show ?thesis using that I(4) by auto
    qed
    then show ?thesis using I by auto
  next
    case False
    then show ?thesis using 2(2) o by (auto simp: not_less)
  qed
qed simp

lemma order_from_None: "\<lbrakk>order_from k ord need = None; ord + k \<le> 32; ord \<le> j; j < ord + k\<rbrakk> \<Longrightarrow> 2 ^ j < unat need"
proof (induction k ord need rule: order_from.induct)
  case (2 k ord need)
  have lt: "order_size ord < need" using 2(2) by (auto split: if_splits)
  then have "2 ^ ord < unat need" using 2(3) by (simp add: word_less_nat_alt)
  moreover have "2 ^ j < unat need" if "ord + 1 \<le> j" using 2(1) [OF lt] 2(2-5) lt that by simp
  ultimately show ?case using 2(4) by (cases "j = ord") auto
qed simp

definition buddy_okreq :: "u32 \<Rightarrow> bool" where
  "buddy_okreq n \<longleftrightarrow> 8 < unat n \<and> unat n \<le> 2 ^ 30"

lemma size_to_order_ok:
  assumes "buddy_okreq n"
  obtains w where "size_to_order n = Some (w + 5)" and "unat n + 8 \<le> 2 ^ (w + 5)" and "w < 27"
    and "\<And>j. unat n + 8 \<le> 2 ^ j \<Longrightarrow> w + 5 \<le> j"
proof -
  have n: "8 < unat n" "unat n \<le> 1073741824" using assms by (simp_all add: buddy_okreq_def)
  have al: "unat (ALIGN n) = (unat n + 7) div 8 * 8" by (rule unat_ALIGN) (use n in linarith)
  have hb: "unat HDR_SIZE = 8" by (simp add: HDR_SIZE_def)
  have need: "unat (ALIGN n + HDR_SIZE) = (unat n + 7) div 8 * 8 + 8"
    using unat_add_no_wrap [of "ALIGN n" HDR_SIZE] al hb n by simp
  let ?d = "(unat n + 7) div 8 * 8 + 8"
  obtain m where m: "order_from 32 0 (ALIGN n + HDR_SIZE) = Some m"
  proof (cases "order_from 32 0 (ALIGN n + HDR_SIZE)")
    case None
    from order_from_None [OF this, of 31] have "2147483648 < ?d" by (simp add: need)
    then show ?thesis using n by linarith
  qed simp
  from order_from_Some [OF m] have M: "m < 32" "?d \<le> 2 ^ m" "\<And>j. ?d \<le> 2 ^ j \<Longrightarrow> m \<le> j" by (auto simp: need)
  have m5: "5 \<le> m"
  proof (rule ccontr)
    assume "\<not> 5 \<le> m"
    then have "(2 :: nat) ^ m \<le> 2 ^ 4" by (intro power_increasing) simp_all
    then show False using M(2) n by simp
  qed
  have m31: "m < 32" using M(1) .
  have "\<not> order_size m < MIN_BLOCK_SIZE"
  proof -
    have "(2 :: nat) ^ 5 \<le> 2 ^ m" using m5 by (intro power_increasing) simp_all
    moreover have "unat MIN_BLOCK_SIZE = 16" by (simp add: MIN_BLOCK_SIZE_def ALIGN_def HDR_SIZE_def ALIGNMENT_def)
    ultimately show ?thesis using M(1) by (simp add: word_less_nat_alt)
  qed
  then have so: "size_to_order n = Some (m - 5 + 5)" using m m5 by (simp add: size_to_order_def Let_def)
  have le: "m \<le> j" if "unat n + 8 \<le> 2 ^ j" for j
  proof -
    have "3 \<le> j"
    proof (rule ccontr)
      assume "\<not> 3 \<le> j"
      then have "(2 :: nat) ^ j \<le> 2 ^ 3" by (intro power_increasing) simp_all
      then show False using that n(1) by simp
    qed
    then have "(2 :: nat) ^ 3 dvd 2 ^ j" by (rule le_imp_power_dvd)
    then obtain k where k: "(2 :: nat) ^ j = 8 * k" by auto
    have "(unat n + 7) div 8 < k" using that unfolding k by (simp add: div_less_iff_less_mult)
    then have "(unat n + 7) div 8 * 8 + 8 \<le> 8 * k" by linarith
    then show ?thesis using M(3) [of j] k by simp
  qed
  show ?thesis
  proof (rule that [OF so])
    show "unat n + 8 \<le> 2 ^ (m - 5 + 5)" using M(2) m5 by simp
    show "m - 5 < 27" using m31 m5 by simp
    show "m - 5 + 5 \<le> j" if "unat n + 8 \<le> 2 ^ j" for j using le [OF that] m5 by simp
  qed
qed

section \<open>The invariant\<close>

fun tree_of :: "(nat \<Rightarrow> node_state) \<Rightarrow> nat \<Rightarrow> nat \<Rightarrow> block_tree" where
  "tree_of ns i 0 = (if ns i = FULL then Fu else Fr)"
| "tree_of ns i (Suc h) =
     (case ns i of FREE \<Rightarrow> Fr | FULL \<Rightarrow> Fu
      | SPLIT \<Rightarrow> Sp (tree_of ns (2 * i + 1) h) (tree_of ns (2 * i + 2) h))"

lemma rep_tree_of: "rep ns i h t \<Longrightarrow> tree_of ns i h = t"
proof (induction ns i h arbitrary: t rule: tree_of.induct)
  case (1 ns i)
  then show ?case by (cases t) auto
next
  case (2 ns i h)
  then show ?case by (cases t) auto
qed

definition b_height :: "buddy \<Rightarrow> nat" where
  "b_height s = maxOrder s - 5"

definition b_tree :: "buddy \<Rightarrow> block_tree" where
  "b_tree s = tree_of (nodeState s) 0 (b_height s)"

definition b_blocks :: "buddy \<Rightarrow> (nat \<times> nat) list" where
  "b_blocks s = t_blocks (b_height s) (b_tree s) 0"

definition payload :: "buddy \<Rightarrow> nat \<Rightarrow> addr" where
  "payload s v = poolBase s + 32 * v + 8"

definition buddy_live :: "buddy \<Rightarrow> addr \<rightharpoonup> nat" where
  "buddy_live s = map_of (map (\<lambda>(v, b). (payload s v, 2 ^ (b + 5) - 8)) (b_blocks s))"

definition taken :: "buddy \<Rightarrow> nat" where
  "taken s = (\<Sum>x \<in> set (b_blocks s). 2 ^ (snd x + 5))"

definition buddy_inv :: "buddy \<Rightarrow> bool" where
  "buddy_inv s \<longleftrightarrow> poolBase s \<noteq> 0 \<and> 5 \<le> maxOrder s \<and> maxOrder s \<le> 22
     \<and> unat (poolSize s) = 2 ^ maxOrder s
     \<and> rep (nodeState s) 0 (b_height s) (b_tree s) \<and> t_ok (b_height s) (b_tree s)
     \<and> (\<forall>(v, b) \<in> set (b_blocks s). hdr_order s (poolBase s + 32 * v) = b + 5)
     \<and> unat (freeBytes s) + taken s = 2 ^ maxOrder s
     \<and> unat (usedBytes s) + 8 * length (b_blocks s) = taken s"

lemma distinct_b_blocks: "distinct (b_blocks s)"
  using distinct_blocks [of "b_height s" "b_tree s" 0] by (simp add: b_blocks_def distinct_map)

lemma live_iff: "buddy_live s p = Some k \<longleftrightarrow> (\<exists>v b. (v, b) \<in> set (b_blocks s) \<and> p = payload s v \<and> k = 2 ^ (b + 5) - 8)"
proof -
  have "map fst (map (\<lambda>(v, b). (payload s v, 2 ^ (b + 5) - 8 :: nat)) (b_blocks s)) = map (payload s) (map fst (b_blocks s))"
    by auto
  moreover have "distinct (map (payload s) (map fst (b_blocks s)))"
    using distinct_blocks [of "b_height s" "b_tree s" 0]
    by (subst distinct_map) (auto simp: b_blocks_def inj_on_def payload_def)
  ultimately have "distinct (map fst (map (\<lambda>(v, b). (payload s v, 2 ^ (b + 5) - 8 :: nat)) (b_blocks s)))"
    by (simp only:)
  from map_of_eq_Some_iff [OF this] show ?thesis by (auto simp: buddy_live_def)
qed

lemma live_None: "buddy_live s (payload s v) = None \<longleftrightarrow> v \<notin> fst ` set (b_blocks s)"
proof -
  have "buddy_live s (payload s v) = None \<longleftrightarrow> (\<forall>k. buddy_live s (payload s v) \<noteq> Some k)" by auto
  then show ?thesis by (force simp: live_iff payload_def)
qed

lemma payload_inj: "payload s v = payload s v' \<longleftrightarrow> v = v'"
  by (simp add: payload_def)

lemma blocks_sum: "t_ok h t \<Longrightarrow> (\<Sum>x \<in> set (t_blocks h t u). 2 ^ snd x) \<le> (2 :: nat) ^ h"
proof (induction h t u rule: t_blocks.induct)
  case (4 h l r u)
  have "(\<Sum>x \<in> set (t_blocks (Suc h) (Sp l r) u). 2 ^ snd x)
    \<le> (\<Sum>x \<in> set (t_blocks h l u). 2 ^ snd x) + (\<Sum>x \<in> set (t_blocks h r (u + 2 ^ h)). (2 :: nat) ^ snd x)"
    by (simp add: sum_Un_nat)
  also have "\<dots> \<le> 2 ^ h + 2 ^ h" using 4 by (intro add_mono) auto
  finally show ?case by simp
qed auto

text \<open>A new or dropped block, seen by the live map and the accounts.\<close>

lemma taken_insert:
  assumes "set (b_blocks s') = insert (v, b) (set (b_blocks s))" and "v \<notin> fst ` set (b_blocks s)"
  shows "taken s' = taken s + 2 ^ (b + 5)" and "length (b_blocks s') = length (b_blocks s) + 1"
proof -
  have n: "(v, b) \<notin> set (b_blocks s)" using assms(2) by force
  then show "taken s' = taken s + 2 ^ (b + 5)" using assms(1) by (simp add: taken_def)
  show "length (b_blocks s') = length (b_blocks s) + 1"
    using distinct_card [OF distinct_b_blocks, of s'] distinct_card [OF distinct_b_blocks, of s] n assms(1) by simp
qed

lemma live_insert:
  assumes "set (b_blocks s') = insert (v, b) (set (b_blocks s))" and "v \<notin> fst ` set (b_blocks s)"
    and "poolBase s' = poolBase s"
  shows "buddy_live s' = (buddy_live s)(payload s v \<mapsto> 2 ^ (b + 5) - 8)"
proof
  fix p
  have pl: "payload s' = payload s" using assms(3) by (simp add: payload_def fun_eq_iff)
  have "buddy_live s' p = Some k \<longleftrightarrow> ((buddy_live s)(payload s v \<mapsto> 2 ^ (b + 5) - 8)) p = Some k" for k
    using assms(1,2) by (force simp: live_iff pl payload_inj)
  then show "buddy_live s' p = ((buddy_live s)(payload s v \<mapsto> 2 ^ (b + 5) - 8)) p"
    by (metis not_None_eq)
qed

lemma live_remove:
  assumes "set (b_blocks s') = set (b_blocks s) - {(v, b)}" and "(v, b) \<in> set (b_blocks s)"
    and "poolBase s' = poolBase s"
  shows "buddy_live s' = (buddy_live s)(payload s v := None)"
proof
  fix p
  have pl: "payload s' = payload s" using assms(3) by (simp add: payload_def fun_eq_iff)
  have uniq: "b' = b" if "(v, b') \<in> set (b_blocks s)" for b'
    using eq_key_imp_eq_value [OF _ that assms(2)] distinct_blocks [of "b_height s" "b_tree s" 0]
    by (simp add: b_blocks_def)
  have "buddy_live s' p = Some k \<longleftrightarrow> ((buddy_live s)(payload s v := None)) p = Some k" for k
    using assms(1) uniq by (force simp: live_iff pl payload_inj)
  then show "buddy_live s' p = ((buddy_live s)(payload s v := None)) p"
    by (metis not_None_eq)
qed

section \<open>The operations\<close>

lemma buddy_order: "buddy_inv s \<Longrightarrow> maxOrder s = b_height s + 5"
  by (simp add: buddy_inv_def b_height_def)

lemma poolBase_b [simp]: "b_height (s\<lparr>nodeState := ns, hdr_order := o', usedBytes := u, freeBytes := f\<rparr>) = b_height s"
  by (simp add: b_height_def)

lemma buddy_alloc_cases:
  assumes "buddy_inv s" and "buddy_okreq n" and "allocMemory_buddy s n = (p, s')"
  obtains (Fail) w where "p = 0" and "s' = s" and "size_to_order n = Some (w + 5)"
      and "w \<le> b_height s \<longrightarrow> t_alloc w (b_height s) (b_tree s) = None"
  | (Ok) v w where "p = payload s v" and "v \<notin> fst ` set (b_blocks s)" and "size_to_order n = Some (w + 5)"
      and "unat n + 8 \<le> 2 ^ (w + 5)" and "set (b_blocks s') = insert (v, w) (set (b_blocks s))"
      and "buddy_inv s'" and "poolBase s' = poolBase s" and "poolSize s' = poolSize s" and "maxOrder s' = maxOrder s"
proof -
  note inv = assms(1) [unfolded buddy_inv_def]
  let ?H = "b_height s" let ?t = "b_tree s"
  have m: "maxOrder s = ?H + 5" by (rule buddy_order [OF assms(1)])
  obtain w where w: "size_to_order n = Some (w + 5)" "unat n + 8 \<le> 2 ^ (w + 5)"
    using size_to_order_ok [OF assms(2)] by metis
  have n0: "n \<noteq> 0" using assms(2) by (auto simp: buddy_okreq_def)
  show ?thesis
  proof (cases "w \<le> ?H")
    case False
    then have "allocMemory_buddy s n = (0, s)" using w(1) n0 inv m by (simp add: allocMemory_buddy_def)
    then show ?thesis using Fail assms(3) w(1) False by auto
  next
    case True
    have "alloc_result ?H w ?H 0 0 (nodeState s) ?t"
      by (rule alloc_rec_refines [OF True]) (use inv in simp_all)
    note R = this [unfolded alloc_result_def]
    have e: "allocMemory_buddy s n = (case alloc_rec (?H + 5) (w + 5) (?H + 5) 0 (nodeState s) of
        (None, ns) \<Rightarrow> (0, s\<lparr>nodeState := ns\<rparr>)
      | (Some off, ns) \<Rightarrow> (poolBase s + off + 8, s\<lparr>nodeState := ns, hdr_order := (hdr_order s)(poolBase s + off := w + 5),
          usedBytes := usedBytes s + (order_size (w + 5) - HDR_SIZE), freeBytes := freeBytes s - order_size (w + 5)\<rparr>))"
    proof -
      obtain x ns where "alloc_rec (?H + 5) (w + 5) (?H + 5) 0 (nodeState s) = (x, ns)" by force
      moreover have "unat HDR_SIZE = 8" by (simp add: HDR_SIZE_def)
      ultimately show ?thesis
        using w(1) n0 inv m True by (cases x) (simp_all add: allocMemory_buddy_def Let_def)
    qed
    show ?thesis
    proof (cases "t_alloc w ?H ?t")
      case None
      then have "allocMemory_buddy s n = (0, s)" using R e by simp
      then show ?thesis using Fail assms(3) w(1) None by simp
    next
      case (Some a)
      obtain v t' where a: "a = (v, t')" by force
      obtain ns where ns: "alloc_rec (?H + 5) (w + 5) (?H + 5) 0 (nodeState s) = (Some (32 * v), ns)" "rep ns 0 ?H t'"
        using R unfolding Some a by auto
      have s': "p = payload s v" "s' = s\<lparr>nodeState := ns, hdr_order := (hdr_order s)(poolBase s + 32 * v := w + 5),
          usedBytes := usedBytes s + (order_size (w + 5) - HDR_SIZE), freeBytes := freeBytes s - order_size (w + 5)\<rparr>"
        using e ns(1) assms(3) by (simp_all add: payload_def)
      have H: "b_height s' = ?H" unfolding s'(2) by simp
      have t': "b_tree s' = t'" using rep_tree_of [OF ns(2)] by (simp add: b_tree_def H) (simp add: s'(2))
      from t_alloc_spec [OF _ Some [unfolded a], of 0] inv
      have T: "t_ok ?H t'" "set (t_blocks ?H t' 0) = insert (v, w) (set (b_blocks s))" "v \<notin> fst ` set (b_blocks s)"
        by (auto simp: b_blocks_def)
      have bl: "set (b_blocks s') = insert (v, w) (set (b_blocks s))" using T(2) by (simp add: b_blocks_def H t')
      note tk = taken_insert [OF bl T(3)]
      have "taken s' = 32 * (\<Sum>x \<in> set (t_blocks ?H t' 0). 2 ^ snd x)"
        by (simp add: taken_def b_blocks_def H t' sum_distrib_left power_add mult.commute)
      also have "\<dots> \<le> 32 * 2 ^ ?H" using blocks_sum [OF T(1)] by simp
      finally have room: "taken s + 2 ^ (w + 5) \<le> 2 ^ maxOrder s" using tk(1) m by (simp add: power_add mult.commute)
      have big: "(2 :: nat) ^ maxOrder s \<le> 4194304"
        using power_increasing [of "maxOrder s" 22 "2 :: nat"] inv by simp
      have w32: "w + 5 < 32" using True inv m by linarith
      have "(2 :: nat) ^ 5 \<le> 2 ^ (w + 5)" by (intro power_increasing) simp_all
      then have sz: "unat (order_size (w + 5) - HDR_SIZE) = 2 ^ (w + 5) - 8"
        using unat_order_size [OF w32] unat_sub_no_wrap [of HDR_SIZE "order_size (w + 5)"] by (simp add: HDR_SIZE_def)
      have "unat (freeBytes s') = unat (freeBytes s) - 2 ^ (w + 5)"
        using unat_order_size [OF w32] unat_sub_no_wrap [of "order_size (w + 5)" "freeBytes s"] room inv s'(2) by simp
      then have free: "unat (freeBytes s') + taken s' = 2 ^ maxOrder s" using tk(1) room inv by linarith
      have "unat (usedBytes s) \<le> taken s" using inv by linarith
      then have "unat (usedBytes s) + (2 ^ (w + 5) - 8) < 4294967296" using room big by linarith
      then have "unat (usedBytes s') = unat (usedBytes s) + (2 ^ (w + 5) - 8)"
        using sz unat_add_no_wrap [of "usedBytes s" "order_size (w + 5) - HDR_SIZE"] s'(2) by simp
      then have used: "unat (usedBytes s') + 8 * length (b_blocks s') = taken s'"
        using tk inv \<open>2 ^ 5 \<le> 2 ^ (w + 5)\<close> by simp
      have hdr: "\<forall>(x, b) \<in> set (b_blocks s'). hdr_order s' (poolBase s' + 32 * x) = b + 5"
      proof (rule ballI, clarify)
        fix x b assume "(x, b) \<in> set (b_blocks s')"
        then consider "x = v" "b = w" | "(x, b) \<in> set (b_blocks s)" "x \<noteq> v" using bl T(3) by force
        then show "hdr_order s' (poolBase s' + 32 * x) = b + 5"
          by cases (use inv in \<open>auto simp: s'(2)\<close>)
      qed
      have rep: "rep (nodeState s') 0 ?H t'" unfolding s'(2) using ns(2) by simp
      have fixed: "poolBase s' = poolBase s" "poolSize s' = poolSize s" "maxOrder s' = maxOrder s" unfolding s'(2) by simp_all
      have "buddy_inv s'"
        unfolding buddy_inv_def H t' using inv fixed hdr free used rep T(1) by simp
      then show ?thesis using Ok s'(1) T(3) w bl fixed by blast
    qed
  qed
qed

lemma buddy_free_live:
  assumes "buddy_inv s" and "(v, b) \<in> set (b_blocks s)" and "s' = freeMemory_buddy s (payload s v)"
  shows "buddy_inv s'" and "set (b_blocks s') = set (b_blocks s) - {(v, b)}" and "poolBase s' = poolBase s"
    and "poolSize s' = poolSize s" and "maxOrder s' = maxOrder s"
    and "w \<le> b \<Longrightarrow> t_alloc w (b_height s') (b_tree s') \<noteq> None"
proof -
  note inv = assms(1) [unfolded buddy_inv_def]
  let ?H = "b_height s" let ?t = "b_tree s"
  have m: "maxOrder s = ?H + 5" by (rule buddy_order [OF assms(1)])
  have mem: "(v, b) \<in> set (t_blocks ?H ?t 0)" using assms(2) by (simp add: b_blocks_def)
  let ?ns = "free_rec (b + 5) (?H + 5) 0 (32 * v) (nodeState s)" let ?t' = "t_free b ?H v ?t"
  have hd: "hdr_order s (poolBase s + 32 * v) = b + 5" using inv assms(2) by auto
  have s': "s' = s\<lparr>nodeState := ?ns, usedBytes := usedBytes s - (order_size (b + 5) - HDR_SIZE),
      freeBytes := freeBytes s + order_size (b + 5)\<rparr>"
    using assms(3) inv m hd by (simp add: freeMemory_buddy_def payload_def Let_def HDR_SIZE_def)
  then show fixed: "poolBase s' = poolBase s" "poolSize s' = poolSize s" "maxOrder s' = maxOrder s" by simp_all
  then have H: "b_height s' = ?H" by (simp add: b_height_def)
  have rep: "rep (nodeState s') 0 ?H ?t'"
    using free_rec_refines [of "nodeState s" 0 ?H ?t v b] inv mem s' by simp
  then have t': "b_tree s' = ?t'" using rep_tree_of by (simp add: b_tree_def H)
  note T = t_free_spec [OF _ mem, simplified]
  have ok: "t_ok ?H ?t'" using T inv by blast
  show bl: "set (b_blocks s') = set (b_blocks s) - {(v, b)}" using T inv by (simp add: b_blocks_def H t')
  show "w \<le> b \<Longrightarrow> t_alloc w (b_height s') (b_tree s') \<noteq> None" using T inv by (simp add: H t')
  have "set (b_blocks s) = insert (v, b) (set (b_blocks s'))" using bl assms(2) by blast
  moreover have "v \<notin> fst ` set (b_blocks s')"
  proof
    assume "v \<in> fst ` set (b_blocks s')"
    then obtain c where "(v, c) \<in> set (b_blocks s')" by force
    then have c: "(v, c) \<in> set (b_blocks s)" "(v, c) \<noteq> (v, b)" using bl by simp_all
    have "c = b" using eq_key_imp_eq_value [OF _ c(1) assms(2)] distinct_blocks [of ?H ?t 0] by (simp add: b_blocks_def)
    then show False using c(2) by simp
  qed
  ultimately have tk: "taken s = taken s' + 2 ^ (b + 5)" "length (b_blocks s) = length (b_blocks s') + 1"
    by (rule taken_insert)+
  have big: "(2 :: nat) ^ maxOrder s \<le> 4194304"
    using power_increasing [of "maxOrder s" 22 "2 :: nat"] inv by simp
  have "b \<le> ?H" using blocks_range [OF mem] by simp
  then have b32: "b + 5 < 32" using inv m by linarith
  have b32': "(2 :: nat) ^ 5 \<le> 2 ^ (b + 5)" by (intro power_increasing) simp_all
  then have sz: "unat (order_size (b + 5) - HDR_SIZE) = 2 ^ (b + 5) - 8"
    using unat_order_size [OF b32] unat_sub_no_wrap [of HDR_SIZE "order_size (b + 5)"] by (simp add: HDR_SIZE_def)
  have "unat (freeBytes s) + 2 ^ (b + 5) < 4294967296" using inv tk big by linarith
  then have "unat (freeBytes s') = unat (freeBytes s) + 2 ^ (b + 5)"
    using unat_order_size [OF b32] unat_add_no_wrap [of "freeBytes s" "order_size (b + 5)"] s' by simp
  then have free: "unat (freeBytes s') + taken s' = 2 ^ maxOrder s" using inv tk by linarith
  have "8 * length (b_blocks s') \<le> taken s'"
  proof -
    have "8 * length (b_blocks s') = (\<Sum>x \<in> set (b_blocks s'). 8)" by (simp add: distinct_card [OF distinct_b_blocks])
    also have "\<dots> \<le> taken s'" unfolding taken_def
      by (intro sum_mono) (use power_increasing [of 3 _ "2 :: nat"] in auto)
    finally show ?thesis .
  qed
  then have "2 ^ (b + 5) - 8 \<le> unat (usedBytes s)" using inv tk by linarith
  then have "unat (usedBytes s') = unat (usedBytes s) - (2 ^ (b + 5) - 8)"
    using sz unat_sub_no_wrap [of "order_size (b + 5) - HDR_SIZE" "usedBytes s"] s' by simp
  then have used: "unat (usedBytes s') + 8 * length (b_blocks s') = taken s'"
    using inv tk b32' \<open>2 ^ (b + 5) - 8 \<le> unat (usedBytes s)\<close> by (simp; linarith)
  have "hdr_order s' = hdr_order s" unfolding s' by simp
  then have hdr: "\<forall>(x, c) \<in> set (b_blocks s'). hdr_order s' (poolBase s' + 32 * x) = c + 5"
    using inv fixed bl by auto
  show "buddy_inv s'"
    unfolding buddy_inv_def H t' using inv fixed hdr free used rep ok by simp
qed

text \<open>The buddy manager keeps the promises of the allocator interface.\<close>

lemma buddy_free_realloc:
  assumes "buddy_inv s" and "buddy_live s p = Some a" and "buddy_okreq n" and "unat n \<le> a"
  shows "fst (allocMemory_buddy (freeMemory_buddy s p) n) \<noteq> 0"
proof
  let ?s = "freeMemory_buddy s p"
  assume null: "fst (allocMemory_buddy ?s n) = 0"
  obtain v b where b: "(v, b) \<in> set (b_blocks s)" "p = payload s v" "a = 2 ^ (b + 5) - 8"
    using assms(2) by (auto simp: live_iff)
  note F = buddy_free_live [OF assms(1) b(1) refl, folded b(2)]
  obtain w where w: "size_to_order n = Some (w + 5)" "\<And>j. unat n + 8 \<le> 2 ^ j \<Longrightarrow> w + 5 \<le> j"
    using size_to_order_ok [OF assms(3)] by metis
  have "(2 :: nat) ^ 5 \<le> 2 ^ (b + 5)" by (intro power_increasing) simp_all
  then have "unat n + 8 \<le> 2 ^ (b + 5)" using assms(4) b(3) by simp
  then have wb: "w \<le> b" using w(2) by fastforce
  have "b \<le> b_height s" using blocks_range [of v b] b(1) by (simp add: b_blocks_def)
  then have "b \<le> b_height ?s" using F(5) by (simp add: b_height_def)
  then have "w \<le> b_height ?s" using wb by simp
  obtain q s' where q: "allocMemory_buddy ?s n = (q, s')" by force
  from F(1) assms(3) q show False
  proof (cases rule: buddy_alloc_cases)
    case (Fail w')
    then show ?thesis using w(1) F(6) [OF wb] \<open>w \<le> b_height ?s\<close> by simp
  next
    case (Ok v' w')
    then show ?thesis using null q by (simp add: payload_def)
  qed
qed

interpretation buddy: memory_manager buddy_mm buddy_inv buddy_live buddy_okreq
proof unfold_locales
  fix s n assume A: "buddy_inv s" "buddy_okreq n"
  obtain p s' where p: "allocMemory_buddy s n = (p, s')" by force
  from A p show "buddy_inv (snd (mm_alloc buddy_mm s n))"
    by (cases rule: buddy_alloc_cases) (use A p in \<open>simp_all add: buddy_mm_def\<close>)
next
  fix s n assume A: "buddy_inv s" "buddy_okreq n" "fst (mm_alloc buddy_mm s n) = 0"
  obtain p s' where p: "allocMemory_buddy s n = (p, s')" by force
  from A(1,2) p show "snd (mm_alloc buddy_mm s n) = s"
    by (cases rule: buddy_alloc_cases) (use A(3) p in \<open>simp_all add: buddy_mm_def payload_def\<close>)
next
  fix s n assume A: "buddy_inv s" "buddy_okreq n" "fst (mm_alloc buddy_mm s n) \<noteq> 0"
  obtain p s' where p: "allocMemory_buddy s n = (p, s')" by force
  from A(1,2) p show "buddy_live s (fst (mm_alloc buddy_mm s n)) = None"
    by (cases rule: buddy_alloc_cases) (use A(3) p in \<open>auto simp add: buddy_mm_def live_None\<close>)
next
  fix s n assume A: "buddy_inv s" "buddy_okreq n" "fst (mm_alloc buddy_mm s n) \<noteq> 0"
  obtain p s' where p: "allocMemory_buddy s n = (p, s')" by force
  from A(1,2) p show "\<exists>sz \<ge> unat n. buddy_live (snd (mm_alloc buddy_mm s n)) = (buddy_live s)(fst (mm_alloc buddy_mm s n) \<mapsto> sz)"
  proof (cases rule: buddy_alloc_cases)
    case (Ok v w)
    then show ?thesis using p live_insert [OF Ok(5,2,7)] by (intro exI [of _ "2 ^ (w + 5) - 8"]) (simp add: buddy_mm_def)
  qed (use A(3) p in \<open>simp add: buddy_mm_def\<close>)
next
  fix s p a assume "buddy_inv s" "buddy_live s p = Some a"
  then show "p \<noteq> 0" by (auto simp: live_iff payload_def)
next
  fix s p a q b assume A: "buddy_inv s" "buddy_live s p = Some a" "buddy_live s q = Some b" "p \<noteq> q"
  then obtain v k u l where B: "(v, k) \<in> set (b_blocks s)" "p = payload s v" "a = 2 ^ (k + 5) - 8"
    "(u, l) \<in> set (b_blocks s)" "q = payload s u" "b = 2 ^ (l + 5) - 8" by (auto simp: live_iff)
  then have "v + 2 ^ k \<le> u \<or> u + 2 ^ l \<le> v"
    using blocks_disjoint [of v k "b_height s" "b_tree s" 0 u l] A(4) by (auto simp: b_blocks_def)
  then show "p + a \<le> q \<or> q + b \<le> p" using B(2,3,5,6) by (auto simp: payload_def power_add)
next
  fix s p a assume A: "buddy_inv s" "buddy_live s p = Some a"
  then obtain v b where b: "(v, b) \<in> set (b_blocks s)" "p = payload s v" by (auto simp: live_iff)
  note F = buddy_free_live [OF A(1) b(1) refl, folded b(2)]
  show "buddy_inv (mm_free buddy_mm s p)" using F(1) by (simp add: buddy_mm_def)
  show "buddy_live (mm_free buddy_mm s p) = (buddy_live s)(p := None)"
    using live_remove [OF F(2) b(1) F(3)] b(2) by (simp add: buddy_mm_def)
next
  fix s show "mm_free buddy_mm s 0 = s" by (simp add: buddy_mm_def freeMemory_buddy_def)
next
  fix s p a n assume "buddy_inv s" "buddy_live s p = Some a" "buddy_okreq n" "unat n \<le> a"
  then show "fst (mm_alloc buddy_mm (mm_free buddy_mm s p) n) \<noteq> 0"
    using buddy_free_realloc by (simp add: buddy_mm_def)
qed

interpretation buddy: kernel_memory buddy_mm buddy_inv buddy_live buddy_okreq
  by unfold_locales (simp_all add: buddy_okreq_def)

section \<open>Creation\<close>

lemma desc_bound: "j \<in> desc i h \<Longrightarrow> j + 2 \<le> (i + 2) * 2 ^ h"
proof (induction i h rule: desc.induct)
  case (2 i h)
  have "(2 * i + 3) * 2 ^ h \<le> (2 * i + 4) * (2 :: nat) ^ h" by (rule mult_le_mono1) simp
  moreover have "(2 * i + 4) * 2 ^ h = (i + 2) * (2 :: nat) ^ Suc h" by (simp add: algebra_simps)
  moreover have "(i + 2) * 1 \<le> (i + 2) * (2 :: nat) ^ Suc h" by (rule mult_le_mono2) simp
  ultimately have "(2 * i + 3) * 2 ^ h \<le> (i + 2) * 2 ^ Suc h" "(2 * i + 4) * 2 ^ h = (i + 2) * 2 ^ Suc h"
    "i + 2 \<le> (i + 2) * 2 ^ Suc h" by simp_all
  then show ?case using 2 by (auto simp: add.commute)
qed simp

lemma all_free_all: "(\<And>j. j \<in> desc i h \<Longrightarrow> ns j = FREE) \<Longrightarrow> all_free ns i h"
  by (induction ns i h rule: all_free.induct) auto

text \<open>
  Smearing: below the highest set bit \<open>k\<close>, the bits within distance \<open>m\<close> of it are set.
\<close>

definition smeared :: "nat \<Rightarrow> nat \<Rightarrow> u32 \<Rightarrow> bool" where
  "smeared k m x \<longleftrightarrow> (\<forall>n. (n \<le> k \<and> k < n + m \<longrightarrow> bit x n) \<and> (k < n \<longrightarrow> \<not> bit x n))"

lemma smear_step: "\<lbrakk>smeared k m x; k < 32\<rbrakk> \<Longrightarrow> smeared k (2 * m) (x OR drop_bit m x)"
  unfolding smeared_def
proof (intro allI conjI impI)
  fix n
  assume S: "\<forall>n. (n \<le> k \<and> k < n + m \<longrightarrow> bit x n) \<and> (k < n \<longrightarrow> \<not> bit x n)" and k: "k < 32"
  show "bit (x OR drop_bit m x) n" if "n \<le> k \<and> k < n + 2 * m"
    using S that k by (cases "k < n + m") (auto simp: bit_simps)
  show "\<not> bit (x OR drop_bit m x) n" if "k < n" using S that by (auto simp: bit_simps)
qed

lemma smeared_32: "\<lbrakk>smeared k 32 x; k < 32\<rbrakk> \<Longrightarrow> x = mask (Suc k)"
  by (rule bit_word_eqI) (auto simp: smeared_def bit_simps not_less less_Suc_eq_le)

lemma highest_bit:
  assumes "x \<noteq> (0 :: u32)"
  obtains k where "k < 32" and "smeared k 1 x" and "2 ^ k \<le> unat x"
proof -
  have fin: "finite {n. bit x n}" by (rule finite_subset [of _ "{..<32}"]) (use bit_imp_le_length [of x] in auto)
  have ne: "{n. bit x n} \<noteq> {}"
  proof
    assume "{n. bit x n} = {}"
    then have "x = 0" by (intro bit_word_eqI) auto
    then show False using assms by simp
  qed
  obtain k where k: "bit x k" "\<And>n. bit x n \<Longrightarrow> n \<le> k"
    using Max_in [OF fin ne] Max_ge [OF fin] by blast
  have "k < 32" using bit_imp_le_length [OF k(1)] by simp
  moreover have "smeared k 1 x" unfolding smeared_def
  proof (intro allI conjI impI)
    fix n
    show "bit x n" if "n \<le> k \<and> k < n + 1"
    proof -
      have "n = k" using that by simp
      then show ?thesis using k(1) by simp
    qed
    show "\<not> bit x n" if "k < n" using k(2) [of n] that by linarith
  qed
  moreover have "2 ^ k \<le> unat x"
  proof (rule ccontr)
    assume "\<not> 2 ^ k \<le> unat x"
    then have "unat x div 2 ^ k = 0" by simp
    then have "\<not> bit (unat x) k" by (simp add: bit_iff_odd)
    then show False using k(1) \<open>k < 32\<close> by (simp add: bit_unsigned_iff)
  qed
  ultimately show ?thesis by (rule that)
qed

lemma unat_mask_u32: "n \<le> 32 \<Longrightarrow> unat (mask n :: u32) = 2 ^ n - 1"
proof -
  assume "n \<le> 32"
  then have "unat (mask n :: u32) = mask n" by (intro bit_eqI) (auto simp: bit_simps)
  then show ?thesis by (simp add: mask_eq_exp_minus_1)
qed

lemma round_down:
  assumes "x \<noteq> 0"
  obtains k where "k < 32" and "unat (round_down_pow2 x) = 2 ^ k" and "2 ^ k \<le> unat x" and "unat x < 2 ^ Suc k"
proof -
  obtain k where k: "k < 32" "smeared k 1 x" "2 ^ k \<le> unat x" using highest_bit [OF assms] .
  note s1 = smear_step [OF k(2,1)]
  note s2 = smear_step [OF s1 k(1), simplified]
  note s3 = smear_step [OF s2 k(1), simplified]
  note s4 = smear_step [OF s3 k(1), simplified]
  note s5 = smeared_32 [OF smear_step [OF s4 k(1), simplified] k(1)]
  have sz: "unat (mask (Suc k) :: u32) = 2 ^ Suc k - 1" "unat (drop_bit 1 (mask (Suc k) :: u32)) = 2 ^ k - 1"
  proof -
    have "drop_bit 1 (mask (Suc k) :: u32) = mask k" using k(1) by (intro bit_word_eqI) (auto simp: bit_simps)
    then show "unat (mask (Suc k) :: u32) = 2 ^ Suc k - 1" "unat (drop_bit 1 (mask (Suc k) :: u32)) = 2 ^ k - 1"
      using unat_mask_u32 [of "Suc k"] unat_mask_u32 [of k] k(1) by (simp_all only:)
  qed
  have "unat (round_down_pow2 x) = 2 ^ Suc k - 1 - (2 ^ k - 1)"
    unfolding round_down_pow2_def Let_def using s5 sz unat_sub_no_wrap [of "drop_bit 1 (mask (Suc k))" "mask (Suc k)"]
    by (simp add: diff_le_mono)
  moreover have "(2 :: nat) ^ Suc k - 1 - (2 ^ k - 1) = 2 ^ k" using one_le_power [of "2 :: nat" k] by simp
  moreover have "unat x < 2 ^ Suc k"
  proof -
    have "x = x AND mask (Suc k)"
      using k(2) by (intro bit_word_eqI) (auto simp: smeared_def bit_simps not_le less_Suc_eq_le)
    then have "unat x = take_bit (Suc k) (unat x)" by (metis take_bit_eq_mask unsigned_take_bit_eq)
    then show ?thesis by (metis take_bit_nat_less_exp)
  qed
  ultimately show ?thesis using that k by simp
qed

lemma buddy_create:
  assumes "0 < a" and "32 \<le> unat sz" and "s = createMemoryManager_buddy s0 a sz"
  shows "buddy_inv s" and "buddy_live s = Map.empty" and "poolBase s = a" and "unat (poolSize s) \<le> unat sz"
    and "unat sz < 2 ^ 23 \<Longrightarrow> unat sz < 2 * unat (poolSize s)" and "nodeState s 0 = FREE"
proof -
  have "sz \<noteq> 0" using assms(2) by auto
  then obtain k where k: "k < 32" "unat (round_down_pow2 sz) = 2 ^ k" "2 ^ k \<le> unat sz" "unat sz < 2 ^ Suc k"
    by (rule round_down)
  have k5: "5 \<le> k"
  proof (rule ccontr)
    assume "\<not> 5 \<le> k"
    then have "(2 :: nat) ^ Suc k \<le> 2 ^ 5" by (intro power_increasing) simp_all
    then show False using k(4) assms(2) by simp
  qed
  let ?K = "min k 22"
  let ?size = "if round_down_pow2 sz > order_size MAX_ORDER_ALLOWED then order_size MAX_ORDER_ALLOWED else round_down_pow2 sz"
  have ma: "MAX_ORDER_ALLOWED = 22" by (simp add: MAX_ORDER_ALLOWED_def)
  have gt: "round_down_pow2 sz > order_size 22 \<longleftrightarrow> 22 < k"
  proof -
    have "order_size 22 < round_down_pow2 sz \<longleftrightarrow> (2 :: nat) ^ 22 < 2 ^ k"
      using k(2) unat_order_size [of 22] by (simp only: word_less_nat_alt)
    then show ?thesis by (simp only: power_strict_increasing_iff one_less_numeral_iff semiring_norm)
  qed
  have size: "unat ?size = 2 ^ ?K" unfolding ma using gt k(1,2) by (auto simp: min_def)
  obtain m where m: "order_from 32 0 ?size = Some m"
  proof (cases "order_from 32 0 ?size")
    case None
    from order_from_None [OF None, of 31] have "2 ^ 31 < (2 :: nat) ^ ?K" unfolding size by simp
    then have "31 < ?K" by (simp only: power_strict_increasing_iff)
    then show ?thesis by simp
  qed simp
  from order_from_Some [OF m] have "(2 :: nat) ^ ?K \<le> 2 ^ m" "m \<le> ?K" unfolding size by auto
  then have mK: "m = ?K" by (simp add: power_increasing_iff)
  have big: "\<not> sz < MIN_BLOCK_SIZE"
    using assms(2) by (simp add: word_less_nat_alt MIN_BLOCK_SIZE_def ALIGN_def HDR_SIZE_def ALIGNMENT_def)
  have s: "s = s0\<lparr>poolBase := a, poolSize := ?size, maxOrder := ?K,
      nodeState := (\<lambda>i. if i < 2 ^ (?K + 1 - 5) - 1 then FREE else nodeState s0 i), usedBytes := 0, freeBytes := ?size\<rparr>"
    unfolding assms(3) createMemoryManager_buddy_def Let_def using m mK big assms(1) by simp
  have P: "poolBase s = a" "poolSize s = ?size" "maxOrder s = ?K" "usedBytes s = 0" "freeBytes s = ?size"
    "\<And>i. i < 2 ^ (?K + 1 - 5) - 1 \<Longrightarrow> nodeState s i = FREE" unfolding s by simp_all
  have K: "5 \<le> ?K" "?K \<le> 22" using k5 by simp_all
  have H: "b_height s = ?K - 5" using P(3) by (simp add: b_height_def)
  have free: "all_free (nodeState s) 0 (b_height s)"
  proof (rule all_free_all)
    fix j assume "j \<in> desc 0 (b_height s)"
    from desc_bound [OF this] have "j + 2 \<le> 2 ^ Suc (?K - 5)" unfolding H by simp
    moreover have "Suc (?K - 5) = ?K + 1 - 5" using K(1) by simp
    ultimately have "j < 2 ^ (?K + 1 - 5) - 1" by simp
    then show "nodeState s j = FREE" by (rule P(6))
  qed
  then have t: "b_tree s = Fr" using rep_tree_of [of "nodeState s" 0 "b_height s" Fr] by (simp add: b_tree_def)
  then have bl: "b_blocks s = []" by (cases "b_height s") (simp_all add: b_blocks_def)
  show "buddy_inv s"
    unfolding buddy_inv_def using P(1-5) assms(1) K size free t bl by (simp add: taken_def)
  show "buddy_live s = Map.empty" using bl by (simp add: buddy_live_def)
  show "poolBase s = a" by (rule P(1))
  have "unat (poolSize s) = 2 ^ ?K" unfolding P(2) by (rule size)
  moreover have "(2 :: nat) ^ ?K \<le> 2 ^ k" by (intro power_increasing) simp_all
  ultimately show "unat (poolSize s) \<le> unat sz" using k(3) by linarith
  show "unat sz < 2 * unat (poolSize s)" if "unat sz < 2 ^ 23"
  proof -
    have "(2 :: nat) ^ k < 2 ^ 23" using that k(3) by linarith
    then have "k < 23" by (simp only: power_strict_increasing_iff)
    then show ?thesis using P(2) size k(4) by (simp add: min_def)
  qed
  show "nodeState s 0 = FREE" using free by (cases "b_height s") simp_all
qed

lemma buddy_run_frame:
  "\<lbrakk>buddy_inv s; legal buddy_mm buddy_live buddy_okreq ops s\<rbrakk>
   \<Longrightarrow> poolBase (mm_run buddy_mm ops s) = poolBase s \<and> poolSize (mm_run buddy_mm ops s) = poolSize s
     \<and> maxOrder (mm_run buddy_mm ops s) = maxOrder s"
proof (induction ops arbitrary: s)
  case (Cons c ops)
  have step: "buddy_inv (mm_step buddy_mm c s)"
    by (rule buddy.step_inv [OF Cons.prems(1)]) (use Cons.prems(2) in simp)
  have "poolBase (mm_step buddy_mm c s) = poolBase s \<and> poolSize (mm_step buddy_mm c s) = poolSize s
    \<and> maxOrder (mm_step buddy_mm c s) = maxOrder s"
  proof (cases c)
    case (Alloc n)
    obtain p s' where p: "allocMemory_buddy s n = (p, s')" by force
    have "buddy_okreq n" using Cons.prems(2) Alloc by simp
    from Cons.prems(1) this p show ?thesis
      by (cases rule: buddy_alloc_cases) (use Alloc p in \<open>simp_all add: buddy_mm_def\<close>)
  next
    case (Free p)
    show ?thesis
    proof (cases "p = 0")
      case False
      then obtain k where "buddy_live s p = Some k" using Cons.prems(2) Free by auto
      then obtain v b where "(v, b) \<in> set (b_blocks s)" "p = payload s v" by (auto simp: live_iff)
      with buddy_free_live(3-5) [OF Cons.prems(1) this(1) refl] Free show ?thesis by (simp add: buddy_mm_def)
    qed (simp add: Free buddy_mm_def freeMemory_buddy_def)
  qed
  then show ?case using Cons.IH [OF step] Cons.prems(2) by simp
qed simp

lemma buddy_live_range:
  assumes "buddy_inv s" and "buddy_live s p = Some n"
  shows "poolBase s + 8 \<le> p" and "p + n \<le> poolBase s + unat (poolSize s)" and "n + 8 dvd p - 8 - poolBase s"
    and "\<exists>b. n + 8 = 2 ^ (b + 5)"
proof -
  obtain v b where b: "(v, b) \<in> set (b_blocks s)" "p = payload s v" "n = 2 ^ (b + 5) - 8"
    using assms(2) by (auto simp: live_iff)
  have e: "n + 8 = 32 * 2 ^ b" using power_increasing [of 3 "b + 5" "2 :: nat"] b(3) by (simp add: power_add)
  from blocks_range [of v b "b_height s" "b_tree s" 0] b(1)
  have v: "v + 2 ^ b \<le> 2 ^ b_height s" "2 ^ b dvd v" by (simp_all add: b_blocks_def)
  have "unat (poolSize s) = 32 * 2 ^ b_height s"
    using assms(1) buddy_order [OF assms(1)] by (simp add: buddy_inv_def power_add)
  then show "p + n \<le> poolBase s + unat (poolSize s)" using v(1) e b(2) by (simp add: payload_def)
  show "poolBase s + 8 \<le> p" using b(2) by (simp add: payload_def)
  show "n + 8 dvd p - 8 - poolBase s" using v(2) unfolding e b(2) payload_def by simp
  show "\<exists>b. n + 8 = 2 ^ (b + 5)" using e by (intro exI [of _ b]) (simp add: power_add)
qed

lemma buddy_empty:
  assumes "buddy_inv s" and "buddy_live s = Map.empty"
  shows "nodeState s 0 = FREE" and "freeBytes s = poolSize s" and "usedBytes s = 0"
proof -
  have "set (b_blocks s) = {}"
  proof (rule ccontr)
    assume "set (b_blocks s) \<noteq> {}"
    then obtain v b where "(v, b) \<in> set (b_blocks s)" by (metis ex_in_conv surj_pair)
    then have "buddy_live s (payload s v) = Some (2 ^ (b + 5) - 8)" by (auto simp: live_iff)
    then show False using assms(2) by simp
  qed
  then have bl: "b_blocks s = []" by simp
  note inv = assms(1) [unfolded buddy_inv_def]
  have t: "b_tree s = Fr" using no_blocks_Fr [of "b_height s" "b_tree s" 0] bl inv by (simp add: b_blocks_def)
  then show "nodeState s 0 = FREE" using inv rep_root [of "nodeState s" 0 "b_height s" Fr] by simp
  have "unat (freeBytes s) = unat (poolSize s)" using inv bl by (simp add: taken_def)
  then show "freeBytes s = poolSize s" by (simp only: unsigned_word_eqI)
  show "usedBytes s = 0" using inv bl by (simp add: taken_def unsigned_eq_0_iff)
qed

text \<open>The leftmost path, as a request takes it in an empty pool.\<close>

lemma alloc_left:
  assumes "\<And>e. e \<le> d \<Longrightarrow> ns ((i + 1) * 2 ^ e - 1) = FREE"
  shows "\<exists>ns'. alloc_rec M (Suc w) (Suc w + d) i ns = (Some (idx_to_offset M ((i + 1) * 2 ^ d - 1) (Suc w)), ns')
    \<and> ns' ((i + 1) * 2 ^ d - 1) = FULL"
  using assms
proof (induction d arbitrary: i ns)
  case 0
  from 0 [of 0] show ?case by simp
next
  case (Suc d)
  let ?n = "ns(i := SPLIT)"
  have p: "(2 * i + 1 + 1) * 2 ^ e - 1 = (i + 1) * 2 ^ Suc e - 1" for e by simp
  have ne: "(i + 1) * 2 ^ Suc e - 1 \<noteq> i" for e
  proof -
    obtain x where x: "x = (i + 1) * (2 :: nat) ^ Suc e" by simp
    have "(i + 1) * 2 \<le> x" unfolding x by (intro mult_le_mono2) simp
    then show ?thesis unfolding x [symmetric] by simp
  qed
  have "\<exists>ns'. alloc_rec M (Suc w) (Suc w + d) (2 * i + 1) ?n
      = (Some (idx_to_offset M ((2 * i + 1 + 1) * 2 ^ d - 1) (Suc w)), ns') \<and> ns' ((2 * i + 1 + 1) * 2 ^ d - 1) = FULL"
  proof (rule Suc.IH)
    fix e assume "e \<le> d"
    then show "?n ((2 * i + 1 + 1) * 2 ^ e - 1) = FREE" unfolding p using ne [of e] Suc.prems [of "Suc e"] by simp
  qed
  then obtain ns' where ns': "alloc_rec M (Suc w) (Suc w + d) (2 * i + 1) ?n
      = (Some (idx_to_offset M ((i + 1) * 2 ^ Suc d - 1) (Suc w)), ns')" "ns' ((i + 1) * 2 ^ Suc d - 1) = FULL"
    unfolding p by blast
  have "ns i = FREE" using Suc.prems [of 0] by simp
  then have "alloc_rec M (Suc w) (Suc w + Suc d) i ns = (Some (idx_to_offset M ((i + 1) * 2 ^ Suc d - 1) (Suc w)), ns')"
    using ns'(1) by (simp add: Let_def)
  then show ?case using ns'(2) by blast
qed

lemma size_to_order_small:
  assumes "0 < unat n" and "unat n \<le> 8"
  shows "size_to_order n = Some 4"
proof -
  have "unat n + 7 < 4294967296" using assms by simp
  then have "unat (ALIGN n) = (unat n + 7) div 8 * 8" by (rule unat_ALIGN)
  moreover have "(unat n + 7) div 8 = 1" using assms by (intro div_nat_eqI) simp_all
  ultimately have "unat (ALIGN n) = unat (8 :: u32)" by simp
  then have "ALIGN n = 8" by (simp only: unsigned_word_eqI)
  moreover have "order_from 32 0 (16 :: u32) = Some 4" by code_simp
  ultimately show ?thesis
    by (simp add: size_to_order_def Let_def HDR_SIZE_def order_size_def MIN_BLOCK_SIZE_def ALIGN_def ALIGNMENT_def)
qed

section \<open>Properties\<close>

definition no_buddy :: buddy where
  "no_buddy = \<lparr>poolBase = 0, poolSize = 0, maxOrder = 0, nodeState = (\<lambda>_. FREE), hdr_order = (\<lambda>_. 0),
     usedBytes = 0, freeBytes = 0, spinning = False\<rparr>"

text \<open>
  C2: from a fresh pool, after any sequence of allocations of more than 8 bytes and releases of
  live pointers, every live block is a power of two in size with its header, lies inside the
  pool at a multiple of that size, and shares no byte with another; the counter of free bytes
  is exact; and when everything has been released the pool is one free block again.
\<close>

theorem buddy_trace_safe:
  assumes "0 < a" and "32 \<le> unat sz" and "legal buddy_mm buddy_live buddy_okreq ops (createMemoryManager_buddy s0 a sz)"
    and "s = mm_run buddy_mm ops (createMemoryManager_buddy s0 a sz)"
  shows "poolBase s = a \<and> unat (poolSize s) \<le> unat sz \<and> unat (poolSize s) = 2 ^ maxOrder s
    \<and> (\<forall>p n. buddy_live s p = Some n \<longrightarrow> a + 8 \<le> p \<and> p + n \<le> a + unat (poolSize s)
          \<and> (\<exists>b. n + 8 = 2 ^ (b + 5)) \<and> n + 8 dvd p - 8 - a)
    \<and> (\<forall>p q m n. buddy_live s p = Some m \<and> buddy_live s q = Some n \<and> p \<noteq> q
          \<longrightarrow> {p - 8..<p + m} \<inter> {q - 8..<q + n} = {})
    \<and> unat (freeBytes s) + (\<Sum>p \<in> dom (buddy_live s). the (buddy_live s p) + 8) = unat (poolSize s)
    \<and> (buddy_live s = Map.empty \<longrightarrow> nodeState s 0 = FREE \<and> freeBytes s = poolSize s \<and> usedBytes s = 0)"
proof -
  note create = buddy_create [OF assms(1,2) refl, of s0]
  have inv: "buddy_inv s" unfolding assms(4) by (rule buddy.run_inv [OF create(1) assms(3)])
  note frame = buddy_run_frame [OF create(1) assms(3), folded assms(4)]
  note range = buddy_live_range [OF inv]
  have dis: "{p - 8..<p + m} \<inter> {q - 8..<q + n} = {}"
    if "buddy_live s p = Some m" "buddy_live s q = Some n" "p \<noteq> q" for p q m n
  proof -
    from that(1) obtain v k where v: "(v, k) \<in> set (b_blocks s)" "p = payload s v" "m = 2 ^ (k + 5) - 8"
      by (auto simp: live_iff)
    from that(2) obtain u l where "(u, l) \<in> set (b_blocks s)" "q = payload s u" "n = 2 ^ (l + 5) - 8"
      by (auto simp: live_iff)
    note B = v this
    have "v + 2 ^ k \<le> u \<or> u + 2 ^ l \<le> v"
      using blocks_disjoint [of v k "b_height s" "b_tree s" 0 u l] that(3) B by (auto simp: b_blocks_def)
    then show ?thesis using B(2,3,5,6) by (auto simp: payload_def power_add)
  qed
  have "(\<Sum>p \<in> dom (buddy_live s). the (buddy_live s p) + 8) = taken s"
  proof -
    have d: "dom (buddy_live s) = (\<lambda>x. payload s (fst x)) ` set (b_blocks s)"
      by (force simp: live_iff dom_def)
    have inj: "inj_on (\<lambda>x. payload s (fst x)) (set (b_blocks s))"
      using distinct_blocks [of "b_height s" "b_tree s" 0]
      by (auto simp: inj_on_def payload_inj b_blocks_def distinct_map)
    have "the (buddy_live s (payload s (fst x))) + 8 = 2 ^ (snd x + 5)" if "x \<in> set (b_blocks s)" for x
    proof -
      have "buddy_live s (payload s (fst x)) = Some (2 ^ (snd x + 5) - 8)"
        using that unfolding live_iff by (intro exI [of _ "fst x"] exI [of _ "snd x"]) simp
      moreover have "(2 :: nat) ^ 5 \<le> 2 ^ (snd x + 5)" by (intro power_increasing) simp_all
      ultimately show ?thesis by simp
    qed
    then show ?thesis unfolding d sum.reindex [OF inj] taken_def by simp
  qed
  then have "unat (freeBytes s) + (\<Sum>p \<in> dom (buddy_live s). the (buddy_live s p) + 8) = unat (poolSize s)"
    "unat (poolSize s) = 2 ^ maxOrder s" using inv by (simp_all add: buddy_inv_def)
  then show ?thesis
    using dis range buddy_empty [OF inv] frame create(3,4) by auto
qed

lemma buddy_trace_safe_witness:
  "let s = mm_run buddy_mm [Alloc 20, Free 4104] (createMemoryManager_buddy no_buddy 4096 64)
   in unat (poolSize s) \<le> 64"
proof -
  have "Option.is_none (buddy_live (snd (allocMemory_buddy (createMemoryManager_buddy no_buddy 4096 64) 20)) 4104) = False"
    by code_simp
  then have "legal buddy_mm buddy_live buddy_okreq [Alloc 20, Free 4104] (createMemoryManager_buddy no_buddy 4096 64)"
    by (simp add: buddy_mm_def buddy_okreq_def Option.is_none_def)
  from buddy_trace_safe [OF _ _ this refl] show ?thesis unfolding Let_def by simp
qed

text \<open>
  C5: the smallest block has order 4, but the table of nodes ends with order 5. In a fresh pool
  of 4 MB, a request of 1 to 8 bytes marks the entry just behind the table as taken, if the
  byte there is 0, and returns the start of the pool.
\<close>

theorem buddy_small_requests:
  assumes "0 < unat n" and "unat n \<le> 8" and "0 < a" and "unat sz = 4194304"
    and "nodeState s0 nodeState_size = FREE" and "allocMemory_buddy (createMemoryManager_buddy s0 a sz) n = (p, s')"
  shows "size_to_order n = Some 4 \<and> p = a + 8 \<and> nodeState s' nodeState_size = FULL"
proof -
  let ?s = "createMemoryManager_buddy s0 a sz"
  have nz: "n \<noteq> 0" using assms(1) by auto
  have "sz = 4194304" using assms(4) by (simp add: word_unat_eq_iff)
  moreover have "round_down_pow2 4194304 = 4194304" by code_simp
  moreover have "order_size 22 = 4194304" by code_simp
  moreover have "order_from 32 0 4194304 = Some 22" by code_simp
  ultimately have s: "poolBase ?s = a" "maxOrder ?s = 22"
    "nodeState ?s = (\<lambda>i. if i < 2 ^ 18 - 1 then FREE else nodeState s0 i)"
    using assms(3) unfolding createMemoryManager_buddy_def Let_def
    by (simp_all add: MAX_ORDER_ALLOWED_def MIN_BLOCK_SIZE_def ALIGN_def HDR_SIZE_def ALIGNMENT_def)
  have sz: "nodeState_size = 2 ^ 18 - 1" by (simp add: nodeState_size_def MAX_ORDER_ALLOWED_def)
  have "nodeState ?s ((0 + 1) * 2 ^ e - 1) = FREE" if "e \<le> 18" for e
  proof (cases "e = 18")
    case True
    then show ?thesis using assms(5) s(3) sz by simp
  next
    case False
    then have "(2 :: nat) ^ e < 2 ^ 18" using that by (intro power_strict_increasing) simp_all
    then have "(2 :: nat) ^ e - 1 < 2 ^ 18 - 1" by (intro diff_less_mono) simp_all
    then show ?thesis using s(3) by simp
  qed
  from alloc_left [where ns = "nodeState ?s" and i = 0, OF this, where d = 18 and M = 22 and w = 3] obtain ns where
    ns: "alloc_rec 22 4 22 0 (nodeState ?s) = (Some (idx_to_offset 22 (2 ^ 18 - 1) 4), ns)" "ns (2 ^ 18 - 1) = FULL"
    by auto
  have "idx_to_offset 22 (2 ^ 18 - 1) 4 = 0" by (simp add: idx_to_offset_def)
  then have "p = a + 8" "nodeState s' = ns"
    using assms(3,6) nz s size_to_order_small [OF assms(1,2)] ns(1)
    by (auto simp: allocMemory_buddy_def Let_def HDR_SIZE_def)
  then show ?thesis using ns(2) sz size_to_order_small [OF assms(1,2)] by simp
qed

lemma buddy_small_requests_witness:
  "\<exists>p s'. allocMemory_buddy (createMemoryManager_buddy no_buddy 4096 4194304) 1 = (p, s') \<and> p = 4104
     \<and> nodeState s' nodeState_size = FULL"
proof -
  obtain p s' where p: "allocMemory_buddy (createMemoryManager_buddy no_buddy 4096 4194304) 1 = (p, s')" by force
  from buddy_small_requests [OF _ _ _ _ _ this] p show ?thesis by (simp add: no_buddy_def)
qed

end
