(* ===== verification/Queue_ADT.thy ===== *)
theory Queue_ADT
  imports Naive_Manager
begin

text \<open>
  \<open>Kernel/queueADT.c\<close>: singly linked FIFO queues whose headers and nodes come from the
  kernel allocator. The first part is the C code over typed heaps of nodes and queue
  headers; the second is the abstract queue heap the rest of the kernel model is written
  against, in which every queue is a list of (node address, datum) pairs and allocation is
  still performed, so that exhaustion of memory stays visible. \<open>qrep\<close> relates the two, and
  every operation is shown to refine its abstract counterpart.
\<close>

section \<open>The program\<close>

record node =
  ndata :: nat
  ntail :: addr

record queueCDT =
  qfirst :: addr
  qlast :: addr

record 'm qheap =
  qmem :: 'm
  nodes :: "addr \<Rightarrow> node"
  queues :: "addr \<Rightarrow> queueCDT"

text \<open>Both structures hold two 8-byte pointers.\<close>

definition sizeof_node :: u32 where
  "sizeof_node = 16"

definition sizeof_queueCDT :: u32 where
  "sizeof_queueCDT = 16"

definition newQueue :: "'m mm \<Rightarrow> 'm qheap \<Rightarrow> addr \<times> 'm qheap" where
  "newQueue M h =
     (let (q, m) = mm_alloc M (qmem h) sizeof_queueCDT; h1 = h\<lparr>qmem := m\<rparr> in
      if q = 0 then (0, h1)
      else (q, h1\<lparr>queues := (queues h1)(q := \<lparr>qfirst = 0, qlast = 0\<rparr>)\<rparr>))"

definition queue :: "'m mm \<Rightarrow> 'm qheap \<Rightarrow> addr \<Rightarrow> nat \<Rightarrow> 'm qheap" where
  "queue M h q element =
     (if q = 0 then h
      else let (newNode, m) = mm_alloc M (qmem h) sizeof_node; h1 = h\<lparr>qmem := m\<rparr> in
        if newNode = 0 then h1
        else let h2 = h1\<lparr>nodes := (nodes h1)(newNode := \<lparr>ndata = element, ntail = 0\<rparr>)\<rparr> in
          if qfirst (queues h2 q) = 0
          then h2\<lparr>queues := (queues h2)(q := \<lparr>qfirst = newNode, qlast = newNode\<rparr>)\<rparr>
          else let l = qlast (queues h2 q) in
            h2\<lparr>nodes := (nodes h2)(l := (nodes h2 l)\<lparr>ntail := newNode\<rparr>),
               queues := (queues h2)(q := (queues h2 q)\<lparr>qlast := newNode\<rparr>)\<rparr>)"

definition dequeue :: "'m mm \<Rightarrow> 'm qheap \<Rightarrow> addr \<Rightarrow> nat \<times> 'm qheap" where
  "dequeue M h q =
     (if q = 0 \<or> qfirst (queues h q) = 0 then (0, h)
      else let temp = qfirst (queues h q);
               d = ndata (nodes h temp);
               c1 = (queues h q)\<lparr>qfirst := ntail (nodes h temp)\<rparr>;
               c2 = (if qfirst c1 = 0 then c1\<lparr>qlast := 0\<rparr> else c1)
           in (d, h\<lparr>queues := (queues h)(q := c2), qmem := mm_free M (qmem h) temp\<rparr>))"

definition isEmpty :: "'m qheap \<Rightarrow> addr \<Rightarrow> bool" where
  "isEmpty h q = (if q = 0 then True else qfirst (queues h q) = 0)"

text \<open>
  The search loop of \<open>removeFromQueue\<close> and the draining loop of \<open>freeQueue\<close> follow pointers
  and need not end on a cyclic heap; \<open>None\<close> stands for not returning.
\<close>

partial_function (option) remove_loop ::
  "'m mm \<Rightarrow> 'm qheap \<Rightarrow> addr \<Rightarrow> nat \<Rightarrow> addr \<Rightarrow> addr \<Rightarrow> (int \<times> 'm qheap) option" where
  "remove_loop M h q element cur prev =
     (if cur = 0 then Some (0, h)
      else if ndata (nodes h cur) = element then
        let h1 = (if prev = 0
                  then let c1 = (queues h q)\<lparr>qfirst := ntail (nodes h cur)\<rparr>;
                           c2 = (if qfirst c1 = 0 then c1\<lparr>qlast := 0\<rparr> else c1)
                       in h\<lparr>queues := (queues h)(q := c2)\<rparr>
                  else let h0 = h\<lparr>nodes := (nodes h)(prev :=
                                  (nodes h prev)\<lparr>ntail := ntail (nodes h cur)\<rparr>)\<rparr>
                       in (if cur = qlast (queues h0 q)
                           then h0\<lparr>queues := (queues h0)(q := (queues h0 q)\<lparr>qlast := prev\<rparr>)\<rparr>
                           else h0))
        in Some (1, h1\<lparr>qmem := mm_free M (qmem h1) cur\<rparr>)
      else remove_loop M h q element (ntail (nodes h cur)) cur)"

definition removeFromQueue ::
  "'m mm \<Rightarrow> 'm qheap \<Rightarrow> addr \<Rightarrow> nat \<Rightarrow> (int \<times> 'm qheap) option" where
  "removeFromQueue M h q element =
     (if q = 0 \<or> qfirst (queues h q) = 0 then Some (0, h)
      else remove_loop M h q element (qfirst (queues h q)) 0)"

partial_function (option) drain_loop :: "'m mm \<Rightarrow> 'm qheap \<Rightarrow> addr \<Rightarrow> 'm qheap option" where
  "drain_loop M h q = (if isEmpty h q then Some h else drain_loop M (snd (dequeue M h q)) q)"

definition freeQueue :: "'m mm \<Rightarrow> 'm qheap \<Rightarrow> addr \<Rightarrow> 'm qheap option" where
  "freeQueue M h q =
     (if q = 0 then Some h
      else map_option (\<lambda>h1. h1\<lparr>qmem := mm_free M (qmem h1) q\<rparr>) (drain_loop M h q))"

section \<open>Abstract queues\<close>

type_synonym qlist = "(addr \<times> nat) list"

record 'm lheap =
  lmem :: 'm
  lq :: "addr \<rightharpoonup> qlist"

definition qnodes :: "'m lheap \<Rightarrow> addr \<Rightarrow> qlist" where
  "qnodes l q = (case lq l q of None \<Rightarrow> [] | Some xs \<Rightarrow> xs)"

definition qdata :: "'m lheap \<Rightarrow> addr \<Rightarrow> nat list" where
  "qdata l q = map snd (qnodes l q)"

definition l_newQueue :: "'m mm \<Rightarrow> 'm lheap \<Rightarrow> addr \<times> 'm lheap" where
  "l_newQueue M l =
     (let (q, m) = mm_alloc M (lmem l) sizeof_queueCDT in
      if q = 0 then (0, l\<lparr>lmem := m\<rparr>) else (q, l\<lparr>lmem := m, lq := (lq l)(q \<mapsto> [])\<rparr>))"

definition l_queue :: "'m mm \<Rightarrow> 'm lheap \<Rightarrow> addr \<Rightarrow> nat \<Rightarrow> 'm lheap" where
  "l_queue M l q element =
     (if q = 0 then l
      else let (n, m) = mm_alloc M (lmem l) sizeof_node in
        if n = 0 then l\<lparr>lmem := m\<rparr>
        else l\<lparr>lmem := m, lq := (lq l)(q \<mapsto> qnodes l q @ [(n, element)])\<rparr>)"

definition l_isEmpty :: "'m lheap \<Rightarrow> addr \<Rightarrow> bool" where
  "l_isEmpty l q \<longleftrightarrow> q = 0 \<or> qnodes l q = []"

definition l_dequeue :: "'m mm \<Rightarrow> 'm lheap \<Rightarrow> addr \<Rightarrow> nat \<times> 'm lheap" where
  "l_dequeue M l q =
     (if l_isEmpty l q then (0, l)
      else (snd (hd (qnodes l q)),
            l\<lparr>lmem := mm_free M (lmem l) (fst (hd (qnodes l q))),
              lq := (lq l)(q \<mapsto> tl (qnodes l q))\<rparr>))"

fun split_at :: "nat \<Rightarrow> qlist \<Rightarrow> (qlist \<times> addr \<times> qlist) option" where
  "split_at e [] = None"
| "split_at e ((n, d) # xs) =
     (if d = e then Some ([], n, xs)
      else map_option (\<lambda>(ys, m, zs). ((n, d) # ys, m, zs)) (split_at e xs))"

definition l_removeFromQueue :: "'m mm \<Rightarrow> 'm lheap \<Rightarrow> addr \<Rightarrow> nat \<Rightarrow> int \<times> 'm lheap" where
  "l_removeFromQueue M l q element =
     (if q = 0 then (0, l)
      else case split_at element (qnodes l q) of
        None \<Rightarrow> (0, l)
      | Some (ys, n, zs) \<Rightarrow> (1, l\<lparr>lmem := mm_free M (lmem l) n, lq := (lq l)(q \<mapsto> ys @ zs)\<rparr>))"

fun free_nodes :: "'m mm \<Rightarrow> 'm \<Rightarrow> qlist \<Rightarrow> 'm" where
  "free_nodes M m [] = m"
| "free_nodes M m (x # xs) = free_nodes M (mm_free M m (fst x)) xs"

definition l_freeQueue :: "'m mm \<Rightarrow> 'm lheap \<Rightarrow> addr \<Rightarrow> 'm lheap" where
  "l_freeQueue M l q =
     (if q = 0 then l
      else l\<lparr>lmem := mm_free M (free_nodes M (lmem l) (qnodes l q)) q, lq := (lq l)(q := None)\<rparr>)"

section \<open>Representation\<close>

fun naddrs :: "qlist \<Rightarrow> addr set" where
  "naddrs [] = {}"
| "naddrs (x # xs) = insert (fst x) (naddrs xs)"

lemma naddrs_append [simp]: "naddrs (xs @ ys) = naddrs xs \<union> naddrs ys"
  by (induction xs) auto

lemma naddrs_map: "set (map fst xs) = naddrs xs"
  by (induction xs) auto

lemma naddrs_image [simp]: "fst ` set xs = naddrs xs"
  by (induction xs) auto

fun chain :: "(addr \<Rightarrow> node) \<Rightarrow> addr \<Rightarrow> qlist \<Rightarrow> bool" where
  "chain h a [] = (a = 0)"
| "chain h a ((n, d) # xs) = (a = n \<and> n \<noteq> 0 \<and> ndata (h n) = d \<and> chain h (ntail (h n)) xs)"

definition last_node :: "qlist \<Rightarrow> addr" where
  "last_node xs = (if xs = [] then 0 else fst (last xs))"

lemma chain_upd [heap_frame]: "n \<notin> naddrs xs \<Longrightarrow> chain (h(n := v)) a xs = chain h a xs"
  by (induction xs arbitrary: a) auto

lemma chain_head: "chain h a xs \<Longrightarrow> a = (if xs = [] then 0 else fst (hd xs))"
  by (cases xs) auto

lemma chain_Nil_iff: "chain h a xs \<Longrightarrow> (a = 0) = (xs = [])"
  by (cases xs) auto

text \<open>Appending a node behind the last one, and unlinking the node after a prefix.\<close>

lemma last_node_simps [simp]:
  "last_node [] = 0" "last_node [x] = fst x" "last_node (x # y # xs) = last_node (y # xs)"
  "last_node (xs @ [x]) = fst x"
  by (simp_all add: last_node_def)

lemma last_node_append [simp]: "ys \<noteq> [] \<Longrightarrow> last_node (xs @ ys) = last_node ys"
  by (simp add: last_node_def)

lemma last_node_in: "xs \<noteq> [] \<Longrightarrow> last_node xs \<in> naddrs xs"
  by (induction xs rule: induct_list012) auto

lemma chain_snoc:
  "\<lbrakk>chain h a xs; xs \<noteq> []; distinct (map fst xs); n \<notin> naddrs xs; n \<noteq> 0;
    h n = \<lparr>ndata = e, ntail = 0\<rparr>\<rbrakk>
   \<Longrightarrow> chain (h(last_node xs := (h (last_node xs))\<lparr>ntail := n\<rparr>)) a (xs @ [(n, e)])"
proof (induction xs arbitrary: a rule: induct_list012)
  case (2 x)
  then show ?case by (cases x) auto
next
  case (3 x y zs)
  moreover have "last_node (y # zs) \<noteq> fst x"
    using 3(5) last_node_in [of "y # zs"] by auto
  ultimately show ?case
    by (cases x) auto
qed simp

lemma chain_unlink:
  "\<lbrakk>chain h a (xs @ (p, d) # (c, e) # ys); distinct (map fst (xs @ (p, d) # (c, e) # ys))\<rbrakk>
   \<Longrightarrow> chain (h(p := (h p)\<lparr>ntail := ntail (h c)\<rparr>)) a (xs @ (p, d) # ys)"
  by (induction xs arbitrary: a) (auto simp: heap_frame image_iff)

lemma chain_append:
  "chain h a (xs @ (c, e) # ys) \<Longrightarrow> c \<noteq> 0 \<and> ndata (h c) = e \<and> chain h (ntail (h c)) ys"
  by (induction xs arbitrary: a) auto

lemma split_at_Some:
  "split_at e xs = Some (ys, n, zs) \<Longrightarrow> xs = ys @ (n, e) # zs \<and> (\<forall>x \<in> set ys. snd x \<noteq> e)"
  by (induction e xs arbitrary: ys rule: split_at.induct) (force split: if_splits)+

lemma split_at_None: "split_at e xs = None \<longleftrightarrow> (\<forall>x \<in> set xs. snd x \<noteq> e)"
  by (induction e xs rule: split_at.induct) auto

lemma split_at_first:
  "\<forall>x \<in> set ys. snd x \<noteq> e \<Longrightarrow> split_at e (ys @ (n, e) # zs) = Some (ys, n, zs)"
  by (induction ys) auto

definition qrep :: "'m qheap \<Rightarrow> 'm lheap \<Rightarrow> bool" where
  "qrep h l \<longleftrightarrow> qmem h = lmem l
     \<and> (\<forall>q xs. lq l q = Some xs
          \<longrightarrow> chain (nodes h) (qfirst (queues h q)) xs \<and> qlast (queues h q) = last_node xs)"

lemma qrepD:
  "\<lbrakk>qrep h l; lq l q = Some xs\<rbrakk> \<Longrightarrow> chain (nodes h) (qfirst (queues h q)) xs"
  "\<lbrakk>qrep h l; lq l q = Some xs\<rbrakk> \<Longrightarrow> qlast (queues h q) = last_node xs"
  "qrep h l \<Longrightarrow> qmem h = lmem l"
  by (simp_all add: qrep_def)

section \<open>Well-formed queue heaps\<close>

definition owned :: "'m lheap \<Rightarrow> addr set" where
  "owned l = dom (lq l) \<union> (\<Union>q. naddrs (qnodes l q))"

definition l_wf :: "('m \<Rightarrow> bool) \<Rightarrow> ('m \<Rightarrow> addr \<rightharpoonup> nat) \<Rightarrow> 'm lheap \<Rightarrow> bool" where
  "l_wf I live l \<longleftrightarrow> I (lmem l)
     \<and> (\<forall>n \<in> owned l. \<exists>sz \<ge> 16. live (lmem l) n = Some sz)
     \<and> (\<forall>q. distinct (map fst (qnodes l q)) \<and> (\<forall>n \<in> naddrs (qnodes l q). lq l n = None))
     \<and> (\<forall>q q'. q \<noteq> q' \<longrightarrow> naddrs (qnodes l q) \<inter> naddrs (qnodes l q') = {})"

text \<open>
  Memory that belongs to no queue is left alone by the queue operations, and they add nothing
  to it: the queues leak no block.
\<close>

definition outside :: "('m \<Rightarrow> addr \<rightharpoonup> nat) \<Rightarrow> 'm lheap \<Rightarrow> addr \<rightharpoonup> nat" where
  "outside live l = (\<lambda>p. if p \<in> owned l then None else live (lmem l) p)"

definition spares :: "('m \<Rightarrow> addr \<rightharpoonup> nat) \<Rightarrow> 'm lheap \<Rightarrow> 'm lheap \<Rightarrow> bool" where
  "spares live l l' \<longleftrightarrow> outside live l' = outside live l"

lemma spares_refl [simp]: "spares live l l"
  by (simp add: spares_def)

lemma spares_trans [trans]: "\<lbrakk>spares live l l'; spares live l' l''\<rbrakk> \<Longrightarrow> spares live l l''"
  by (simp add: spares_def)

lemma qnodes_upd [simp]:
  "qnodes (l\<lparr>lmem := m, lq := (lq l)(q \<mapsto> xs)\<rparr>) q' = (if q' = q then xs else qnodes l q')"
  by (simp add: qnodes_def)

lemma qnodes_upd_None [simp]:
  "qnodes (l\<lparr>lmem := m, lq := (lq l)(q := None)\<rparr>) q' = (if q' = q then [] else qnodes l q')"
  by (simp add: qnodes_def)

lemma qnodes_lmem [simp]: "qnodes (l\<lparr>lmem := m\<rparr>) = qnodes l"
  by (simp add: qnodes_def fun_eq_iff)

lemma qnodes_None: "lq l q = None \<Longrightarrow> qnodes l q = []"
  by (simp add: qnodes_def)

lemma naddrsI: "(n, d) \<in> set xs \<Longrightarrow> n \<in> naddrs xs"
  by (induction xs) auto

lemma owned_node: "n \<in> naddrs (qnodes l q) \<Longrightarrow> n \<in> owned l"
  by (auto simp: owned_def)

lemma owned_upd:
  "owned (l\<lparr>lmem := m, lq := (lq l)(q \<mapsto> xs)\<rparr>)
     = insert q (dom (lq l)) \<union> naddrs xs \<union> (\<Union>q' \<in> - {q}. naddrs (qnodes l q'))"
  by (auto simp: owned_def split: if_splits)

lemma owned_split:
  assumes "lq l q = Some xs"
  shows "owned l = dom (lq l) \<union> naddrs xs \<union> (\<Union>q' \<in> - {q}. naddrs (qnodes l q'))"
proof -
  have "qnodes l q = xs" using assms by (simp add: qnodes_def)
  then show ?thesis unfolding owned_def by blast
qed

lemma node_not_queue: "\<lbrakk>l_wf I lv l; n \<in> naddrs (qnodes l q)\<rbrakk> \<Longrightarrow> lq l n = None"
  by (auto simp: l_wf_def)

lemma nodes_disjoint:
  "\<lbrakk>l_wf I lv l; n \<in> naddrs (qnodes l q); n \<in> naddrs (qnodes l q')\<rbrakk> \<Longrightarrow> q = q'"
  unfolding l_wf_def by blast

lemma l_wf_upd:
  assumes "l_wf I lv l" and "I m" and "distinct (map fst xs)" and "q \<notin> naddrs xs"
    and "\<And>n. n \<in> naddrs xs \<Longrightarrow> lq l n = None"
    and "\<And>n q'. \<lbrakk>n \<in> naddrs xs; q' \<noteq> q\<rbrakk> \<Longrightarrow> n \<notin> naddrs (qnodes l q')"
    and "\<And>q'. q \<notin> naddrs (qnodes l q')"
    and "\<forall>n \<in> owned (l\<lparr>lmem := m, lq := (lq l)(q \<mapsto> xs)\<rparr>). \<exists>sz \<ge> 16. lv m n = Some sz"
  shows "l_wf I lv (l\<lparr>lmem := m, lq := (lq l)(q \<mapsto> xs)\<rparr>)" (is "l_wf I lv ?l")
proof -
  have old: "\<forall>q. distinct (map fst (qnodes l q)) \<and> (\<forall>n \<in> naddrs (qnodes l q). lq l n = None)"
    using assms(1) by (simp add: l_wf_def)
  have "\<forall>q. distinct (map fst (qnodes ?l q)) \<and> (\<forall>n \<in> naddrs (qnodes ?l q). lq ?l n = None)"
    using old assms(3-7) by auto
  moreover have "naddrs (qnodes ?l q1) \<inter> naddrs (qnodes ?l q2) = {}" if "q1 \<noteq> q2" for q1 q2
    using that nodes_disjoint [OF assms(1), of _ q1 q2] assms(6) by auto
  ultimately show ?thesis
    using assms(2,8) by (simp add: l_wf_def)
qed

context kernel_memory
begin

abbreviation wf :: "'a lheap \<Rightarrow> bool" where
  "wf \<equiv> l_wf inv live"

lemma owned_live: "\<lbrakk>wf l; n \<in> owned l\<rbrakk> \<Longrightarrow> \<exists>sz \<ge> 16. live (lmem l) n = Some sz"
  by (simp add: l_wf_def)

lemma queue_nonnull:
  assumes "wf l" and "lq l q = Some xs"
  shows "q \<noteq> 0"
proof -
  have "q \<in> owned l" using assms(2) by (auto simp: owned_def)
  then obtain sz where "live (lmem l) q = Some sz" using owned_live [OF assms(1)] by blast
  then show ?thesis using assms(1) live_nonnull by (auto simp: l_wf_def)
qed

lemma newQueue_cases:
  assumes "wf l" and "l_newQueue M l = (q, l')"
  obtains (Fail) "q = 0" and "l' = l"
  | (Ok) "q \<noteq> 0" and "q \<notin> owned l" and "lq l' = (lq l)(q \<mapsto> [])" and "wf l'"
      and "spares live l l'" and "live (lmem l) q = None"
proof -
  obtain p m where alloc: "mm_alloc M (lmem l) 16 = (p, m)" by force
  have inv: "inv (lmem l)" using assms(1) by (simp add: l_wf_def)
  from inv req16 alloc show ?thesis
  proof (cases rule: alloc_cases)
    case Fail
    then show ?thesis
      using assms(2) alloc that(1) by (simp add: l_newQueue_def sizeof_queueCDT_def)
  next
    case (Ok sz)
    have l': "q = p" "l' = l\<lparr>lmem := m, lq := (lq l)(p \<mapsto> [])\<rparr>"
      using assms(2) alloc Ok by (auto simp: l_newQueue_def sizeof_queueCDT_def)
    have fresh: "p \<notin> owned l"
      using assms(1) Ok(2) by (auto simp: l_wf_def)
    moreover have "qnodes l p = []"
      using fresh by (auto simp: owned_def intro: qnodes_None)
    moreover from this have own: "owned l' = insert p (owned l)"
      by (auto simp: l' owned_upd) (auto simp: owned_def)
    moreover have "wf l'"
      unfolding l'(2)
    proof (rule l_wf_upd [OF assms(1)])
      show "p \<notin> naddrs (qnodes l q')" for q'
        using fresh owned_node by blast
      show "\<forall>n\<in>owned (l\<lparr>lmem := m, lq := (lq l)(p \<mapsto> [])\<rparr>). \<exists>sz\<ge>16. live m n = Some sz"
        using own assms(1) Ok l' by (auto simp: l_wf_def)
    qed (use Ok in simp_all)
    ultimately show ?thesis
      using that(2) Ok l' by (auto simp: spares_def outside_def fun_eq_iff)
  qed
qed

lemma queue_cases:
  assumes "wf l" and "lq l q = Some xs"
  obtains (Fail) "l_queue M l q e = l" and "fst (mm_alloc M (lmem l) 16) = 0"
  | (Ok) n where "lq (l_queue M l q e) = (lq l)(q \<mapsto> xs @ [(n, e)])" and "n \<notin> owned l"
      and "wf (l_queue M l q e)" and "spares live l (l_queue M l q e)"
proof -
  obtain p m where alloc: "mm_alloc M (lmem l) 16 = (p, m)" by force
  have inv: "inv (lmem l)" using assms(1) by (simp add: l_wf_def)
  have "q \<noteq> 0" by (rule queue_nonnull [OF assms])
  have xs: "qnodes l q = xs" using assms(2) by (simp add: qnodes_def)
  from inv req16 alloc show ?thesis
  proof (cases rule: alloc_cases)
    case Fail
    then show ?thesis
      using alloc that(1) by (simp add: l_queue_def sizeof_node_def)
  next
    case (Ok sz)
    have l': "l_queue M l q e = l\<lparr>lmem := m, lq := (lq l)(q \<mapsto> xs @ [(p, e)])\<rparr>" (is "_ = ?l'")
      using alloc Ok xs \<open>q \<noteq> 0\<close> by (simp add: l_queue_def sizeof_node_def)
    have fresh: "p \<notin> owned l"
      using assms(1) Ok(2) by (auto simp: l_wf_def)
    then have p: "p \<noteq> q" "lq l p = None" "\<And>q'. p \<notin> naddrs (qnodes l q')"
      using assms(2) by (auto simp: owned_def)
    have owned': "owned ?l' = insert p (owned l)"
      using xs assms(2) by (auto simp: owned_upd) (auto simp: owned_def)
    have "wf ?l'"
    proof (rule l_wf_upd [OF assms(1) Ok(5)])
      show "distinct (map fst (xs @ [(p, e)]))"
        using assms(1) p(3) [of q] xs by (auto simp: l_wf_def)
      show "q \<notin> naddrs (qnodes l q')" for q'
        using node_not_queue [OF assms(1), of q q'] assms(2) by auto
      then show "q \<notin> naddrs (xs @ [(p, e)])"
        using xs p(1) by auto
      show "lq l n = None" if "n \<in> naddrs (xs @ [(p, e)])" for n
        using that p(2) node_not_queue [OF assms(1), of n q] xs by auto
      show "n \<notin> naddrs (qnodes l q')" if "n \<in> naddrs (xs @ [(p, e)])" "q' \<noteq> q" for n q'
        using that p(3) nodes_disjoint [OF assms(1), of n q q'] xs by auto
      show "\<forall>n\<in>owned ?l'. \<exists>sz\<ge>16. live m n = Some sz"
        using assms(1) Ok owned' by (auto simp: l_wf_def)
    qed
    moreover have "spares live l ?l'"
      using Ok owned' by (auto simp: spares_def outside_def fun_eq_iff)
    ultimately show ?thesis
      using that(2) [of p] fresh l' by simp
  qed
qed

lemma unlink:
  assumes "wf l" and "lq l q = Some (ys @ (n, d) # zs)"
    and "l' = l\<lparr>lmem := mm_free M (lmem l) n, lq := (lq l)(q \<mapsto> ys @ zs)\<rparr>"
  shows "wf l'" and "spares live l l'" and "fst (mm_alloc M (lmem l') 16) \<noteq> 0"
    and "owned l' = owned l - {n}"
proof -
  have nodes: "qnodes l q = ys @ (n, d) # zs" using assms(2) by (simp add: qnodes_def)
  then have "n \<in> owned l" by (auto intro: owned_node [of n l q])
  then obtain sz where sz: "16 \<le> sz" "live (lmem l) n = Some sz" and inv: "inv (lmem l)"
    using assms(1) by (auto simp: l_wf_def)
  have dist: "distinct (map fst (qnodes l q))" using assms(1) by (simp add: l_wf_def)
  have "lq l n = None" using node_not_queue [OF assms(1), of n q] nodes by auto
  moreover have "n \<notin> naddrs (qnodes l q')" if "q' \<noteq> q" for q'
    using that nodes_disjoint [OF assms(1), of n q q'] nodes by auto
  moreover have "n \<notin> naddrs ys" "n \<notin> naddrs zs"
    using dist nodes by auto
  ultimately show own: "owned l' = owned l - {n}"
    unfolding owned_split [OF assms(2)] assms(3) owned_upd using assms(2) by auto
  have live: "live (lmem l') = (live (lmem l))(n := None)"
    using free_live [OF inv sz(2)] assms(3) by simp
  show "wf l'"
    unfolding assms(3)
  proof (rule l_wf_upd [OF assms(1)])
    show "q \<notin> naddrs (qnodes l q')" for q'
      using node_not_queue [OF assms(1), of q q'] assms(2) by auto
    from this [of q] show "q \<notin> naddrs (ys @ zs)"
      using nodes by auto
    show "lq l n = None" if "n \<in> naddrs (ys @ zs)" for n
      using that node_not_queue [OF assms(1), of n q] nodes by auto
    show "n \<notin> naddrs (qnodes l q')" if "n \<in> naddrs (ys @ zs)" "q' \<noteq> q" for n q'
      using that nodes_disjoint [OF assms(1), of n q q'] nodes by auto
    show "\<forall>k\<in>owned (l\<lparr>lmem := mm_free M (lmem l) n, lq := (lq l)(q \<mapsto> ys @ zs)\<rparr>).
        \<exists>sz\<ge>16. live (mm_free M (lmem l) n) k = Some sz"
      using assms(1) own live by (auto simp: l_wf_def assms(3))
  qed (use dist nodes free_inv [OF inv sz(2)] in auto)
  show "spares live l l'" using own live \<open>n \<in> owned l\<close> by (auto simp: spares_def outside_def fun_eq_iff)
  show "fst (mm_alloc M (lmem l') 16) \<noteq> 0"
    using free_realloc [OF inv sz(2) req16] sz(1) assms(3) by simp
qed

text \<open>The operations on the data, when the queue exists.\<close>

lemma dequeue_cases:
  assumes "wf l" and "lq l q = Some xs"
  obtains (Empty) "xs = []" and "l_dequeue M l q = (0, l)"
  | (Ok) n d ys where "xs = (n, d) # ys" and "fst (l_dequeue M l q) = d"
      and "lq (snd (l_dequeue M l q)) = (lq l)(q \<mapsto> ys)" and "wf (snd (l_dequeue M l q))"
      and "spares live l (snd (l_dequeue M l q))"
      and "fst (mm_alloc M (lmem (snd (l_dequeue M l q))) 16) \<noteq> 0"
proof (cases xs)
  case Nil
  then show ?thesis using that(1) assms(2) by (simp add: l_dequeue_def l_isEmpty_def qnodes_def)
next
  case (Cons x ys)
  obtain n d where x: "x = (n, d)" by force
  have "q \<noteq> 0" by (rule queue_nonnull [OF assms])
  then have deq: "l_dequeue M l q
      = (d, l\<lparr>lmem := mm_free M (lmem l) n, lq := (lq l)(q \<mapsto> [] @ ys)\<rparr>)"
    using Cons x assms(2) by (simp add: l_dequeue_def l_isEmpty_def qnodes_def)
  have "lq l q = Some ([] @ (n, d) # ys)"
    using assms(2) Cons x by simp
  note un = unlink [OF assms(1) this refl]
  show ?thesis
    by (rule that(2) [of n d ys]) (use un Cons x deq in simp_all)
qed

lemma remove_cases:
  assumes "wf l" and "lq l q = Some xs"
  obtains (None) "\<forall>x \<in> set xs. snd x \<noteq> e" and "l_removeFromQueue M l q e = (0, l)"
  | (Ok) ys n zs where "xs = ys @ (n, e) # zs" and "\<forall>x \<in> set ys. snd x \<noteq> e"
      and "fst (l_removeFromQueue M l q e) = 1"
      and "lq (snd (l_removeFromQueue M l q e)) = (lq l)(q \<mapsto> ys @ zs)"
      and "wf (snd (l_removeFromQueue M l q e))"
      and "spares live l (snd (l_removeFromQueue M l q e))"
proof (cases "split_at e xs")
  case None
  then have "l_removeFromQueue M l q e = (0, l)"
    using assms(2) by (simp add: l_removeFromQueue_def qnodes_def)
  then show ?thesis
    using that(1) None split_at_None by blast
next
  case (Some r)
  obtain ys n zs where r: "r = (ys, n, zs)" by (cases r)
  then have xs: "xs = ys @ (n, e) # zs" "\<forall>x \<in> set ys. snd x \<noteq> e"
    using split_at_Some Some by blast+
  have "q \<noteq> 0" by (rule queue_nonnull [OF assms])
  then have rem: "l_removeFromQueue M l q e
      = (1, l\<lparr>lmem := mm_free M (lmem l) n, lq := (lq l)(q \<mapsto> ys @ zs)\<rparr>)"
    using Some r assms(2) by (simp add: l_removeFromQueue_def qnodes_def)
  have "lq l q = Some (ys @ (n, e) # zs)"
    using assms(2) xs by simp
  note un = unlink [OF assms(1) this refl]
  show ?thesis
    by (rule that(2) [of ys n zs]) (use un xs rem in simp_all)
qed

text \<open>Releasing an empty queue returns its header; the kernel only frees drained queues.\<close>

lemma freeQueue_empty:
  assumes "wf l" and "lq l q = Some []"
  shows "wf (l_freeQueue M l q)" and "lq (l_freeQueue M l q) = (lq l)(q := None)"
    and "spares live l (l_freeQueue M l q)"
proof -
  have q: "q \<in> owned l" "qnodes l q = []" using assms(2) by (auto simp: owned_def qnodes_def)
  then obtain sz where sz: "16 \<le> sz" "live (lmem l) q = Some sz" and inv: "inv (lmem l)"
    using assms(1) by (auto simp: l_wf_def)
  let ?l = "l\<lparr>lmem := mm_free M (lmem l) q, lq := (lq l)(q := None)\<rparr>"
  have l': "l_freeQueue M l q = ?l"
    using live_nonnull [OF inv sz(2)] q(2) by (simp add: l_freeQueue_def)
  have not_node: "q \<notin> naddrs (qnodes l q')" for q'
    using node_not_queue [OF assms(1), of q q'] assms(2) by auto
  have same: "qnodes ?l = qnodes l"
    using q(2) by (simp add: fun_eq_iff)
  have own: "owned ?l = owned l - {q}"
    using not_node unfolding owned_def same by auto
  have live: "live (lmem ?l) = (live (lmem l))(q := None)"
    using free_live [OF inv sz(2)] by simp
  show "wf (l_freeQueue M l q)"
    using assms(1) own live free_inv [OF inv sz(2)] unfolding l' l_wf_def same by auto
  show "lq (l_freeQueue M l q) = (lq l)(q := None)" "spares live l (l_freeQueue M l q)"
    using own live q(1) by (auto simp: l' spares_def outside_def fun_eq_iff)
qed

text \<open>Refinement: each C operation acts on the lists as its abstract counterpart.\<close>

lemma isEmpty_refines:
  "\<lbrakk>wf l; qrep h l; lq l q = Some xs\<rbrakk> \<Longrightarrow> isEmpty h q = l_isEmpty l q"
  using queue_nonnull [of l q xs] chain_Nil_iff [OF qrepD(1), of h l q xs]
  by (simp add: isEmpty_def l_isEmpty_def qnodes_def)

lemma newQueue_refines:
  assumes "wf l" and "qrep h l"
  shows "fst (newQueue M h) = fst (l_newQueue M l)"
    and "qrep (snd (newQueue M h)) (snd (l_newQueue M l))"
  using assms(2) by (auto simp: newQueue_def l_newQueue_def qrep_def Let_def split: prod.splits)

lemma chain_frame:
  assumes "wf l" and "qrep h l" and "lq l q' = Some ys" and "n \<in> naddrs (qnodes l q)" and "q' \<noteq> q"
  shows "chain ((nodes h)(n := v)) (qfirst (queues h q')) ys"
proof -
  have "n \<notin> naddrs ys"
    using nodes_disjoint [OF assms(1,4), of q'] assms(3,5) by (auto simp: qnodes_def)
  then show ?thesis
    using qrepD(1) [OF assms(2,3)] by (simp add: heap_frame)
qed

lemma queue_refines:
  assumes "wf l" and "qrep h l" and "lq l q = Some xs"
  shows "qrep (queue M h q e) (l_queue M l q e)"
proof -
  obtain n m where alloc: "mm_alloc M (lmem l) 16 = (n, m)" by force
  have q0: "q \<noteq> 0" by (rule queue_nonnull [OF assms(1,3)])
  have rep: "chain (nodes h) (qfirst (queues h q)) xs" "qlast (queues h q) = last_node xs"
    "qmem h = lmem l"
    using assms(2,3) qrepD by blast+
  have xs: "qnodes l q = xs" using assms(3) by (simp add: qnodes_def)
  show ?thesis
  proof (cases "n = 0")
    case True
    then show ?thesis
      using alloc q0 assms(2) rep(3)
      by (simp add: queue_def l_queue_def qrep_def sizeof_node_def)
  next
    case False
    have "live (lmem l) n = None"
      using alloc_fresh [of "lmem l" 16] assms(1) req16 alloc False by (simp add: l_wf_def)
    then have fresh: "n \<notin> owned l"
      using owned_live [OF assms(1)] by fastforce
    then have n_new: "n \<notin> naddrs (qnodes l q')" for q'
      using owned_node by blast
    have l': "l_queue M l q e = l\<lparr>lmem := m, lq := (lq l)(q \<mapsto> xs @ [(n, e)])\<rparr>"
      using alloc False xs q0 by (simp add: l_queue_def sizeof_node_def)
    let ?h1 = "(nodes h)(n := \<lparr>ndata = e, ntail = 0\<rparr>)"
    have others: "chain ?h1 (qfirst (queues h q')) ys" if "lq l q' = Some ys" for q' ys
      using qrepD(1) [OF assms(2) that] n_new [of q'] that by (simp add: qnodes_def heap_frame)
    show ?thesis
    proof (cases "xs = []")
      case True
      then have "queue M h q e = h\<lparr>qmem := m, nodes := ?h1,
          queues := (queues h)(q := \<lparr>qfirst = n, qlast = n\<rparr>)\<rparr>"
        using alloc False q0 rep by (simp add: queue_def sizeof_node_def Let_def)
      then show ?thesis
        using True False others assms(2) by (simp add: l' qrep_def)
    next
      case xs_ne: False
      let ?t = "last_node xs"
      have first: "qfirst (queues h q) \<noteq> 0"
        using chain_Nil_iff [OF rep(1)] xs_ne by simp
      have t: "?t \<in> naddrs (qnodes l q)" using last_node_in [OF xs_ne] xs by simp
      then have "?t \<noteq> n" using n_new by metis
      then have h': "queue M h q e = h\<lparr>qmem := m, nodes := ?h1(?t := (?h1 ?t)\<lparr>ntail := n\<rparr>),
          queues := (queues h)(q := (queues h q)\<lparr>qlast := n\<rparr>)\<rparr>"
        using alloc False q0 rep first by (simp add: queue_def sizeof_node_def Let_def)
      have "distinct (map fst xs)" using assms(1) xs by (auto simp: l_wf_def)
      then have new: "chain (?h1(?t := (?h1 ?t)\<lparr>ntail := n\<rparr>)) (qfirst (queues h q)) (xs @ [(n, e)])"
        by (intro chain_snoc) (use others [OF assms(3)] n_new [of q] xs xs_ne False in auto)
      have frame: "chain (?h1(?t := (?h1 ?t)\<lparr>ntail := n\<rparr>)) (qfirst (queues h q')) ys"
        if "lq l q' = Some ys" "q' \<noteq> q" for q' ys
        using others [OF that(1)] nodes_disjoint [OF assms(1) t, of q'] that
        by (subst chain_upd) (auto simp: qnodes_def)
      show ?thesis
        unfolding qrep_def l' h' using new frame assms(2) by (auto simp: qrep_def)
    qed
  qed
qed

lemma dequeue_refines:
  assumes "wf l" and "qrep h l" and "lq l q = Some xs"
  shows "fst (dequeue M h q) = fst (l_dequeue M l q)"
    and "qrep (snd (dequeue M h q)) (snd (l_dequeue M l q))"
proof -
  have rep: "chain (nodes h) (qfirst (queues h q)) xs" "qlast (queues h q) = last_node xs"
    using assms(2,3) qrepD by blast+
  have xs: "qnodes l q = xs" using assms(3) by (simp add: qnodes_def)
  have "fst (dequeue M h q) = fst (l_dequeue M l q)
    \<and> qrep (snd (dequeue M h q)) (snd (l_dequeue M l q))"
  proof (cases xs)
    case Nil
    then show ?thesis
      using rep xs assms(2) by (simp add: dequeue_def l_dequeue_def l_isEmpty_def)
  next
    case (Cons x ys)
    obtain n d where x: "x = (n, d)" by force
    have "(ntail (nodes h n) = 0) = (ys = [])"
      using rep(1) Cons x chain_Nil_iff by auto
    moreover have "ys \<noteq> [] \<Longrightarrow> last_node xs = last_node ys"
      using Cons by (cases ys) auto
    ultimately show ?thesis
      using rep xs assms(2) Cons x queue_nonnull [OF assms(1,3)]
      by (auto simp: dequeue_def l_dequeue_def l_isEmpty_def Let_def qrep_def)
  qed
  then show "fst (dequeue M h q) = fst (l_dequeue M l q)"
    and "qrep (snd (dequeue M h q)) (snd (l_dequeue M l q))" by auto
qed

text \<open>Unlinking the node \<open>n\<close> behind the prefix \<open>ys\<close>, as the body of the search loop does.\<close>

lemma unlink_refines:
  assumes "wf l" and "qrep h l" and "lq l q = Some (ys @ (n, e) # zs)"
    and "\<forall>x \<in> set ys. snd x \<noteq> e"
  shows "\<exists>r. remove_loop M h q e n (last_node ys) = Some r
    \<and> fst r = fst (l_removeFromQueue M l q e) \<and> qrep (snd r) (snd (l_removeFromQueue M l q e))"
proof -
  let ?xs = "ys @ (n, e) # zs"
  have xs: "qnodes l q = ?xs" using assms(3) by (simp add: qnodes_def)
  then have dist: "distinct (map fst ?xs)" using assms(1) unfolding l_wf_def by metis
  have rep: "chain (nodes h) (qfirst (queues h q)) ?xs" "qlast (queues h q) = last_node ?xs"
    "qmem h = lmem l"
    using qrepD [OF assms(2)] assms(3) by blast+
  have n: "n \<noteq> 0" "ndata (nodes h n) = e" "chain (nodes h) (ntail (nodes h n)) zs"
    using chain_append [OF rep(1)] by auto
  then have tail0: "(ntail (nodes h n) = 0) = (zs = [])" using chain_Nil_iff by blast
  have spec: "l_removeFromQueue M l q e
      = (1, l\<lparr>lmem := mm_free M (lmem l) n, lq := (lq l)(q \<mapsto> ys @ zs)\<rparr>)"
    using queue_nonnull [OF assms(1,3)] split_at_first [OF assms(4)]
    by (simp add: l_removeFromQueue_def xs)
  have last_iff: "n = last_node ?xs \<longleftrightarrow> zs = []"
    using dist last_node_in [of zs] by (cases "zs = []") (auto simp: last_node_def)
  show ?thesis
  proof (cases ys rule: rev_cases)
    case Nil
    then have "zs \<noteq> [] \<Longrightarrow> last_node ?xs = last_node zs" by (cases zs) auto
    then show ?thesis
      using Nil n rep tail0 assms(2) spec
      by (subst remove_loop.simps) (auto simp: Let_def qrep_def)
  next
    case (snoc ys' y)
    obtain p d where y: "y = (p, d)" by force
    let ?h1 = "(nodes h)(p := (nodes h p)\<lparr>ntail := ntail (nodes h n)\<rparr>)"
    have unl: "chain ?h1 (qfirst (queues h q)) (ys @ zs)"
      using chain_unlink [of "nodes h" "qfirst (queues h q)" ys' p d n e zs] rep(1) dist snoc y
      by simp
    have p0: "p \<noteq> 0" using chain_append [of "nodes h" _ ys' p d "(n, e) # zs"] rep(1) snoc y by auto
    have last': "zs \<noteq> [] \<Longrightarrow> last_node ?xs = last_node (ys @ zs)"
      by (cases zs) auto
    have frame: "chain ?h1 (qfirst (queues h q')) ws" if "lq l q' = Some ws" "q' \<noteq> q" for q' ws
      by (rule chain_frame [OF assms(1,2) that(1) _ that(2)]) (simp add: xs snoc y)
    have "remove_loop M h q e n p = Some (1, h\<lparr>qmem := mm_free M (lmem l) n, nodes := ?h1,
        queues := (queues h)(q := \<lparr>qfirst = qfirst (queues h q), qlast = last_node (ys @ zs)\<rparr>)\<rparr>)"
      using n p0 rep last_iff last' snoc y
      by (subst remove_loop.simps) (auto simp: Let_def intro!: qheap.equality queueCDT.equality)
    then show ?thesis
      using unl frame spec snoc y assms(2) by (auto simp: qrep_def)
  qed
qed

lemma remove_loop_refines:
  assumes "wf l" and "qrep h l"
  shows "\<lbrakk>lq l q = Some (ys @ zs); \<forall>x \<in> set ys. snd x \<noteq> e; chain (nodes h) cur zs\<rbrakk>
    \<Longrightarrow> \<exists>r. remove_loop M h q e cur (last_node ys) = Some r
      \<and> fst r = fst (l_removeFromQueue M l q e) \<and> qrep (snd r) (snd (l_removeFromQueue M l q e))"
proof (induction zs arbitrary: ys cur)
  case Nil
  then have "split_at e ys = None" by (simp add: split_at_None)
  then have "l_removeFromQueue M l q e = (0, l)"
    using Nil(1) by (simp add: l_removeFromQueue_def qnodes_def)
  then show ?case
    using Nil(3) assms(2) by (subst remove_loop.simps) simp
next
  case (Cons z zs)
  obtain n d where z: "z = (n, d)" by force
  show ?case
  proof (cases "d = e")
    case True
    then show ?thesis
      using unlink_refines [OF assms, of q ys n e zs] Cons.prems z by auto
  next
    case False
    then have "remove_loop M h q e cur (last_node ys)
        = remove_loop M h q e (ntail (nodes h n)) (last_node (ys @ [z]))"
      using Cons.prems(3) z by (subst remove_loop.simps) auto
    moreover have "\<exists>r. remove_loop M h q e (ntail (nodes h n)) (last_node (ys @ [z])) = Some r
      \<and> fst r = fst (l_removeFromQueue M l q e) \<and> qrep (snd r) (snd (l_removeFromQueue M l q e))"
      by (rule Cons.IH) (use Cons.prems z False in auto)
    ultimately show ?thesis by simp
  qed
qed

lemma removeFromQueue_refines:
  assumes "wf l" and "qrep h l" and "lq l q = Some xs"
  shows "\<exists>h'. removeFromQueue M h q e = Some (fst (l_removeFromQueue M l q e), h')
    \<and> qrep h' (snd (l_removeFromQueue M l q e))"
proof (cases "xs = []")
  case True
  then show ?thesis
    using qrepD(1) [OF assms(2,3)] assms(2,3)
    by (simp add: removeFromQueue_def l_removeFromQueue_def qnodes_def)
next
  case False
  then have "removeFromQueue M h q e = remove_loop M h q e (qfirst (queues h q)) (last_node [])"
    using queue_nonnull [OF assms(1,3)] chain_Nil_iff [OF qrepD(1) [OF assms(2,3)]]
    by (simp add: removeFromQueue_def)
  moreover obtain r where "remove_loop M h q e (qfirst (queues h q)) (last_node []) = Some r"
    "fst r = fst (l_removeFromQueue M l q e)" "qrep (snd r) (snd (l_removeFromQueue M l q e))"
    using remove_loop_refines [OF assms(1,2), of q "[]" xs e "qfirst (queues h q)"]
      qrepD(1) [OF assms(2,3)] assms(3) by auto
  ultimately show ?thesis
    by (cases r) auto
qed

lemma drain_refines:
  assumes "wf l" and "qrep h l" and "lq l q = Some xs"
  shows "\<exists>h'. drain_loop M h q = Some h'
    \<and> qrep h' (l\<lparr>lmem := free_nodes M (lmem l) xs, lq := (lq l)(q \<mapsto> [])\<rparr>)"
  using assms
proof (induction xs arbitrary: h l)
  case Nil
  then show ?case
    using isEmpty_refines [of l h q "[]"] qrepD(1) [OF Nil.prems(2,3)]
    by (subst drain_loop.simps) (auto simp: l_isEmpty_def qnodes_def qrep_def)
next
  case (Cons x xs)
  let ?l = "snd (l_dequeue M l q)"
  have deq: "?l = l\<lparr>lmem := mm_free M (lmem l) (fst x), lq := (lq l)(q \<mapsto> xs)\<rparr>"
    using Cons.prems(3) queue_nonnull [OF Cons.prems(1,3)]
    by (simp add: l_dequeue_def l_isEmpty_def qnodes_def)
  have "wf ?l"
    using Cons.prems(1,3) by (cases rule: dequeue_cases) auto
  moreover have "qrep (snd (dequeue M h q)) ?l"
    by (rule dequeue_refines(2) [OF Cons.prems])
  moreover have "lq ?l q = Some xs" by (simp add: deq)
  ultimately obtain h' where "drain_loop M (snd (dequeue M h q)) q = Some h'"
    "qrep h' (?l\<lparr>lmem := free_nodes M (lmem ?l) xs, lq := (lq ?l)(q \<mapsto> [])\<rparr>)"
    using Cons.IH [of ?l "snd (dequeue M h q)"] by blast
  moreover have "\<not> isEmpty h q"
    using isEmpty_refines [OF Cons.prems] Cons.prems(3) queue_nonnull [OF Cons.prems(1,3)]
    by (simp add: l_isEmpty_def qnodes_def)
  ultimately show ?case
    by (subst drain_loop.simps) (simp add: deq)
qed

lemma freeQueue_refines:
  assumes "wf l" and "qrep h l" and "lq l q = Some xs"
  shows "\<exists>h'. freeQueue M h q = Some h' \<and> qrep h' (l_freeQueue M l q)"
  using drain_refines [OF assms] queue_nonnull [OF assms(1,3)] assms(3)
  by (fastforce simp: freeQueue_def l_freeQueue_def qnodes_def qrep_def)

text \<open>Reading the data of the queues through the operations.\<close>

lemma wf_empty: "inv m \<Longrightarrow> wf \<lparr>lmem = m, lq = Map.empty\<rparr>"
  by (simp add: l_wf_def owned_def qnodes_def)

lemma qdata_queue:
  assumes "wf l" and "lq l q = Some xs" and "fst (mm_alloc M (lmem l) 16) \<noteq> 0"
  shows "qdata (l_queue M l q e) = (qdata l)(q := qdata l q @ [e])"
  using assms(1,2)
proof (cases rule: queue_cases [where e = e])
  case Fail
  then show ?thesis using assms(3) by simp
next
  case (Ok n)
  then show ?thesis using assms(2) by (simp add: qdata_def qnodes_def fun_eq_iff)
qed

lemma qdata_dequeue:
  assumes "wf l" and "lq l q = Some xs"
  shows "qdata (snd (l_dequeue M l q)) = (qdata l)(q := tl (qdata l q))"
    and "qdata l q \<noteq> [] \<Longrightarrow> fst (l_dequeue M l q) = hd (qdata l q)"
proof -
  have "qdata (snd (l_dequeue M l q)) = (qdata l)(q := tl (qdata l q))
    \<and> (qdata l q \<noteq> [] \<longrightarrow> fst (l_dequeue M l q) = hd (qdata l q))"
    using assms
  proof (cases rule: dequeue_cases)
    case Empty
    then show ?thesis using assms(2) by (simp add: qdata_def qnodes_def fun_eq_iff)
  next
    case (Ok n d ys)
    then show ?thesis using assms(2) by (simp add: qdata_def qnodes_def fun_eq_iff)
  qed
  then show "qdata (snd (l_dequeue M l q)) = (qdata l)(q := tl (qdata l q))"
    and "qdata l q \<noteq> [] \<Longrightarrow> fst (l_dequeue M l q) = hd (qdata l q)" by auto
qed

lemma qdata_remove:
  assumes "wf l" and "lq l q = Some xs"
  shows "qdata (snd (l_removeFromQueue M l q e)) = (qdata l)(q := remove1 e (qdata l q))"
  using assms
proof (cases rule: remove_cases [where e = e])
  case None
  moreover from this have "e \<notin> set (qdata l q)" by (auto simp: qdata_def qnodes_def assms(2))
  ultimately show ?thesis by (simp add: remove1_idem fun_eq_iff)
next
  case (Ok ys n zs)
  then have "e \<notin> set (map snd ys)" by auto
  then show ?thesis
    using Ok assms(2) by (auto simp: qdata_def qnodes_def fun_eq_iff remove1_append)
qed

lemma requeue:
  assumes "wf l" and "lq l q = Some ((n, d) # xs)" and "lq l q' = Some ys"
  shows "qdata (l_queue M (snd (l_dequeue M l q)) q' e)
    = (let ds = (qdata l)(q := tl (qdata l q)) in ds(q' := ds q' @ [e]))"
proof -
  let ?l = "snd (l_dequeue M l q)"
  have "wf ?l \<and> lq ?l = (lq l)(q \<mapsto> xs) \<and> fst (mm_alloc M (lmem ?l) 16) \<noteq> 0"
    using assms(1,2) by (cases rule: dequeue_cases) auto
  then show ?thesis
    using qdata_queue [of ?l q' "if q' = q then xs else ys" e] qdata_dequeue(1) [OF assms(1,2)]
      assms(3) by (simp add: Let_def)
qed

end

section \<open>Properties\<close>

text \<open>
  C3: the linked-list operations of \<open>queueADT.c\<close> refine the abstract queues. On a heap whose
  pointers represent the lists, \<open>newQueue\<close>, \<open>queue\<close>, \<open>dequeue\<close>, \<open>isEmpty\<close>,
  \<open>removeFromQueue\<close> and \<open>freeQueue\<close> return what their list counterparts return, leave a heap
  that represents the resulting lists, and the two pointer-chasing loops terminate.
\<close>

theorem queue_refinement:
  assumes "l_wf naive_inv naive_live l" and "qrep h l" and "lq l q = Some xs"
  shows "isEmpty h q = l_isEmpty l q
    \<and> fst (newQueue naive_mm h) = fst (l_newQueue naive_mm l)
    \<and> qrep (snd (newQueue naive_mm h)) (snd (l_newQueue naive_mm l))
    \<and> qrep (queue naive_mm h q e) (l_queue naive_mm l q e)
    \<and> fst (dequeue naive_mm h q) = fst (l_dequeue naive_mm l q)
    \<and> qrep (snd (dequeue naive_mm h q)) (snd (l_dequeue naive_mm l q))
    \<and> (\<exists>h'. removeFromQueue naive_mm h q e = Some (fst (l_removeFromQueue naive_mm l q e), h')
          \<and> qrep h' (snd (l_removeFromQueue naive_mm l q e)))
    \<and> (\<exists>h'. freeQueue naive_mm h q = Some h' \<and> qrep h' (l_freeQueue naive_mm l q))"
  using naive.isEmpty_refines [OF assms] naive.newQueue_refines [OF assms(1,2)]
    naive.queue_refines [OF assms] naive.dequeue_refines [OF assms]
    naive.removeFromQueue_refines [OF assms] naive.freeQueue_refines [OF assms] by blast

definition demo_lheap :: "naive lheap" where
  "demo_lheap = \<lparr>lmem = demo_pool, lq = Map.empty\<rparr>"

definition demo_qheap :: "naive qheap" where
  "demo_qheap = \<lparr>qmem = demo_pool, nodes = (\<lambda>_. \<lparr>ndata = 0, ntail = 0\<rparr>),
     queues = (\<lambda>_. \<lparr>qfirst = 0, qlast = 0\<rparr>)\<rparr>"

lemma demo_lheap_wf: "l_wf naive_inv naive_live demo_lheap"
  unfolding demo_lheap_def by (rule naive.wf_empty) (rule demo_pool_inv)

lemma demo_newQueue:
  "fst (l_newQueue naive_mm demo_lheap) = 4120"
  "lq (snd (l_newQueue naive_mm demo_lheap)) = [4120 \<mapsto> []]"
  by (simp_all add: l_newQueue_def demo_lheap_def sizeof_queueCDT_def naive_eval split_beta)

lemma demo_newQueue_wf: "l_wf naive_inv naive_live (snd (l_newQueue naive_mm demo_lheap))"
  using demo_lheap_wf surjective_pairing
  by (cases rule: naive.newQueue_cases) (auto simp: demo_lheap_wf demo_newQueue)

lemma queue_refinement_witness:
  "let h = snd (newQueue naive_mm demo_qheap) in
   isEmpty h 4120 \<and> fst (dequeue naive_mm (queue naive_mm h 4120 7) 4120) = 7"
proof -
  let ?h = "snd (newQueue naive_mm demo_qheap)" and ?l = "snd (l_newQueue naive_mm demo_lheap)"
  have "qrep demo_qheap demo_lheap"
    by (simp add: qrep_def demo_qheap_def demo_lheap_def)
  then have rep: "qrep ?h ?l"
    by (rule naive.newQueue_refines(2) [OF demo_lheap_wf])
  have q: "lq ?l 4120 = Some []" by (simp add: demo_newQueue)
  have "isEmpty ?h 4120"
    using queue_refinement [OF demo_newQueue_wf rep q] q by (simp add: l_isEmpty_def qnodes_def)
  moreover have "fst (dequeue naive_mm (queue naive_mm ?h 4120 7) 4120) = 7"
    by (simp add: dequeue_def queue_def newQueue_def demo_qheap_def sizeof_node_def
        sizeof_queueCDT_def naive_eval split_beta)
  ultimately show ?thesis by (simp add: Let_def)
qed

text \<open>
  queues are first in, first out, they do not disturb each other, and an element taken
  out can always be put back. On a well-formed heap: \<open>queue\<close> either appends at the end of
  its queue or, only when the allocator is exhausted, changes nothing; \<open>dequeue\<close> returns and
  drops the front; \<open>removeFromQueue\<close> drops the first occurrence and says whether there was
  one; the node that \<open>dequeue\<close> released makes the next \<open>queue\<close> on any queue succeed.
\<close>

theorem queue_behaviour:
  assumes "l_wf naive_inv naive_live l" and "lq l q = Some xs" and "lq l q' = Some ys"
  shows "qdata (l_queue naive_mm l q e) =
        (if fst (allocMemory_naive (lmem l) 16) = 0 then qdata l
         else (qdata l)(q := qdata l q @ [e]))
    \<and> qdata (snd (l_dequeue naive_mm l q)) = (qdata l)(q := tl (qdata l q))
    \<and> fst (l_dequeue naive_mm l q) = (if qdata l q = [] then 0 else hd (qdata l q))
    \<and> qdata (snd (l_removeFromQueue naive_mm l q e)) = (qdata l)(q := remove1 e (qdata l q))
    \<and> fst (l_removeFromQueue naive_mm l q e) = (if e \<in> set (qdata l q) then 1 else 0)
    \<and> (xs \<noteq> [] \<longrightarrow> qdata (l_queue naive_mm (snd (l_dequeue naive_mm l q)) q' e)
         = (let ds = (qdata l)(q := tl (qdata l q)) in ds(q' := ds q' @ [e])))"
proof (intro conjI impI)
  show "qdata (l_queue naive_mm l q e) =
        (if fst (allocMemory_naive (lmem l) 16) = 0 then qdata l
         else (qdata l)(q := qdata l q @ [e]))"
    using naive.qdata_queue [OF assms(1,2), of e] naive.alloc_fail [OF _ naive.req16, of "lmem l"]
      assms(1) by (auto simp: l_queue_def sizeof_node_def l_wf_def split_beta)
  show "qdata (snd (l_dequeue naive_mm l q)) = (qdata l)(q := tl (qdata l q))"
    by (rule naive.qdata_dequeue(1) [OF assms(1,2)])
  show "fst (l_dequeue naive_mm l q) = (if qdata l q = [] then 0 else hd (qdata l q))"
    using naive.qdata_dequeue(2) [OF assms(1,2)]
    by (auto simp: l_dequeue_def l_isEmpty_def qdata_def)
  show "qdata (snd (l_removeFromQueue naive_mm l q e)) = (qdata l)(q := remove1 e (qdata l q))"
    by (rule naive.qdata_remove [OF assms(1,2)])
  show "fst (l_removeFromQueue naive_mm l q e) = (if e \<in> set (qdata l q) then 1 else 0)"
    using assms(1,2) by (cases rule: naive.remove_cases [where e = e])
      (auto simp: qdata_def qnodes_def assms(2))
  show "qdata (l_queue naive_mm (snd (l_dequeue naive_mm l q)) q' e)
      = (let ds = (qdata l)(q := tl (qdata l q)) in ds(q' := ds q' @ [e]))" if "xs \<noteq> []"
    using naive.requeue [OF assms(1) _ assms(3)] assms(2) that
    by (cases xs) (auto simp del: fun_upd_apply)
qed

lemma queue_behaviour_witness:
  "qdata (l_queue naive_mm (snd (l_newQueue naive_mm demo_lheap)) 4120 7) 4120 = [7]"
proof -
  let ?l = "snd (l_newQueue naive_mm demo_lheap)"
  have q: "lq ?l 4120 = Some []" by (simp add: demo_newQueue)
  have "fst (allocMemory_naive (lmem ?l) 16) \<noteq> 0"
    by (simp add: l_newQueue_def demo_lheap_def sizeof_queueCDT_def naive_eval split_beta)
  then show ?thesis
    using queue_behaviour [OF demo_newQueue_wf q q, of 7] q by (simp add: qdata_def qnodes_def)
qed

end
