(* ===== verification/Process_Table.thy ===== *)
theory Process_Table
  imports Queue_ADT
begin

text \<open>
  The process control blocks of \<open>Kernel/include/process.h\<close>, the kernel globals that the
  scheduler works on, and the read-only accessors of \<open>Kernel/process/process.c\<close>.

  A pointer into the table is a natural number: 0 is null and \<open>i + 1\<close> is \<open>&processes[i]\<close>.
  Queues hold such pointers. The kernel runs identity mapped, so reading a field through the
  null pointer yields whatever low memory holds; \<open>nullPid\<close> and \<open>nullForeground\<close> stand for
  the two fields the code can read that way.
\<close>

section \<open>Data\<close>

datatype ProcessState = READY | RUNNING | BLOCKED | EXITED

record Process =
  pname :: string
  pid :: int
  argc :: nat
  argv :: addr
  priority :: nat
  originalPriority :: nat
  foreground :: int
  entryPoint :: addr
  pstate :: ProcessState
  stackBase :: addr
  stackEnd :: addr
  waitReturnValue :: int
  waitPid :: int
  fd_in :: int
  fd_out :: int
  agingCounter :: nat

definition MAX_NAME_LENGTH :: nat where "MAX_NAME_LENGTH = 20"
definition MAX_PROCESSES :: nat where "MAX_PROCESSES = 100"
definition MAX_PRIORITY :: nat where "MAX_PRIORITY = 5"
definition MIN_PRIORITY :: nat where "MIN_PRIORITY = 1"
definition MAX_PID :: int where "MAX_PID = int MAX_PROCESSES"
definition INITPID :: int where "INITPID = 1"
definition SHELLPID :: int where "SHELLPID = 2"
definition NONPID :: int where "NONPID = - 1"
definition STACK_SIZE :: u32 where "STACK_SIZE = 4096"

lemmas process_consts [simp] = MAX_NAME_LENGTH_def MAX_PROCESSES_def MAX_PRIORITY_def
  MIN_PRIORITY_def MAX_PID_def INITPID_def SHELLPID_def NONPID_def STACK_SIZE_def

text \<open>The globals of \<open>scheduler.c\<close>, \<open>process.c\<close> and \<open>time.c\<close>, the queue heap, and the stack
  pointer of the processor.\<close>

record 'm sched =
  lh :: "'m lheap"
  processes :: "nat \<Rightarrow> Process"
  currentProcess :: nat
  quantumsLeft :: nat
  isYield :: bool
  priorityQueues :: "nat \<Rightarrow> addr"
  ticks :: nat
  cpu_rsp :: addr
  nullPid :: int
  nullForeground :: int

section \<open>Accessors\<close>

definition pcb :: "('m, 'z) sched_scheme \<Rightarrow> nat \<Rightarrow> Process" where
  "pcb s p = processes s (p - 1)"

definition upd_pcb :: "nat \<Rightarrow> (Process \<Rightarrow> Process) \<Rightarrow> ('m, 'z) sched_scheme \<Rightarrow> ('m, 'z) sched_scheme"
  where "upd_pcb p f s = s\<lparr>processes := (processes s)(p - 1 := f (processes s (p - 1)))\<rparr>"

definition isValidPID :: "('m, 'z) sched_scheme \<Rightarrow> int \<Rightarrow> bool" where
  "isValidPID s i \<longleftrightarrow> i > 0 \<and> i \<le> MAX_PID \<and> pstate (processes s (nat (i - 1))) \<noteq> EXITED"

definition initProcesses :: "('m, 'z) sched_scheme \<Rightarrow> ('m, 'z) sched_scheme" where
  "initProcesses s = s\<lparr>processes := (\<lambda>i. if i < MAX_PROCESSES
     then (processes s i)\<lparr>pid := int i + 1, pstate := EXITED, argv := 0, argc := 0,
            waitPid := NONPID, fd_in := 0, fd_out := 1\<rparr>
     else processes s i)\<rparr>"

definition checkName :: "string option \<Rightarrow> bool" where
  "checkName nm = (case nm of None \<Rightarrow> False | Some n \<Rightarrow> length n \<le> MAX_NAME_LENGTH)"

fun free_slot_from :: "nat \<Rightarrow> nat \<Rightarrow> (nat \<Rightarrow> Process) \<Rightarrow> int" where
  "free_slot_from 0 i ps = - 1"
| "free_slot_from (Suc k) i ps = (if pstate (ps i) = EXITED then int i else free_slot_from k (i + 1) ps)"

definition getFreeProcess :: "('m, 'z) sched_scheme \<Rightarrow> int" where
  "getFreeProcess s = free_slot_from MAX_PROCESSES 0 (processes s)"

definition getProcessesCount :: "('m, 'z) sched_scheme \<Rightarrow> nat" where
  "getProcessesCount s = length (filter (\<lambda>i. pstate (processes s i) \<noteq> EXITED) [0..<MAX_PROCESSES])"

definition getCurrentProcess :: "('m, 'z) sched_scheme \<Rightarrow> nat" where
  "getCurrentProcess s = currentProcess s"

definition pid_at :: "('m, 'z) sched_scheme \<Rightarrow> nat \<Rightarrow> int" where
  "pid_at s p = (if p = 0 then nullPid s else pid (pcb s p))"

definition getpid :: "('m, 'z) sched_scheme \<Rightarrow> int" where
  "getpid s = pid_at s (getCurrentProcess s)"

definition getProcess :: "('m, 'z) sched_scheme \<Rightarrow> int \<Rightarrow> nat" where
  "getProcess s i =
     (if i \<le> 0 \<or> i > MAX_PID then 0
      else if pstate (processes s (nat (i - 1))) \<noteq> EXITED then nat i
      else 0)"

definition checkPriority :: "nat \<Rightarrow> bool" where
  "checkPriority p \<longleftrightarrow> p \<ge> MIN_PRIORITY \<and> p \<le> MAX_PRIORITY"

fun foreground_from :: "nat \<Rightarrow> nat \<Rightarrow> (nat \<Rightarrow> Process) \<Rightarrow> nat" where
  "foreground_from 0 i ps = 0"
| "foreground_from (Suc k) i ps =
     (if foreground (ps i) \<noteq> 0 \<and> pstate (ps i) \<noteq> EXITED \<and> pid (ps i) \<noteq> INITPID
         \<and> pid (ps i) \<noteq> SHELLPID
      then i + 1 else foreground_from k (i + 1) ps)"

definition getTerminalForegroundProcess :: "('m, 'z) sched_scheme \<Rightarrow> nat" where
  "getTerminalForegroundProcess s = foreground_from MAX_PROCESSES 0 (processes s)"

definition getFileDescriptors :: "('m, 'z) sched_scheme \<Rightarrow> int \<times> (int \<times> int) option" where
  "getFileDescriptors s =
     (if getCurrentProcess s = 0 then (- 1, None)
      else (0, Some (fd_in (pcb s (getCurrentProcess s)), fd_out (pcb s (getCurrentProcess s)))))"

section \<open>Facts\<close>

lemma pcb_upd [simp]:
  "0 < p \<Longrightarrow> 0 < q \<Longrightarrow> pcb (upd_pcb p f s) q = (if q = p then f (pcb s p) else pcb s q)"
  by (auto simp: pcb_def upd_pcb_def)

lemma upd_pcb_fields [simp]:
  "lh (upd_pcb p f s) = lh s" "currentProcess (upd_pcb p f s) = currentProcess s"
  "quantumsLeft (upd_pcb p f s) = quantumsLeft s" "isYield (upd_pcb p f s) = isYield s"
  "priorityQueues (upd_pcb p f s) = priorityQueues s" "ticks (upd_pcb p f s) = ticks s"
  "cpu_rsp (upd_pcb p f s) = cpu_rsp s" "nullPid (upd_pcb p f s) = nullPid s"
  "sched.more (upd_pcb p f s) = sched.more s"
  by (simp_all add: upd_pcb_def)

lemma pcb_other_fields [simp]:
  "pcb (s\<lparr>lh := l\<rparr>) = pcb s" "pcb (s\<lparr>currentProcess := c\<rparr>) = pcb s"
  "pcb (s\<lparr>quantumsLeft := n\<rparr>) = pcb s" "pcb (s\<lparr>isYield := y\<rparr>) = pcb s"
  "pcb (s\<lparr>ticks := n\<rparr>) = pcb s" "pcb (s\<lparr>cpu_rsp := a\<rparr>) = pcb s"
  "pcb (s\<lparr>priorityQueues := f\<rparr>) = pcb s"
  by (simp_all add: pcb_def fun_eq_iff)

lemma free_slot_cases:
  "free_slot_from k i ps = - 1 \<and> (\<forall>j. i \<le> j \<and> j < i + k \<longrightarrow> pstate (ps j) \<noteq> EXITED)
   \<or> (\<exists>j. i \<le> j \<and> j < i + k \<and> free_slot_from k i ps = int j \<and> pstate (ps j) = EXITED
        \<and> (\<forall>m. i \<le> m \<and> m < j \<longrightarrow> pstate (ps m) \<noteq> EXITED))"
proof (induction k arbitrary: i)
  case (Suc k)
  show ?case
  proof (cases "pstate (ps i) = EXITED")
    case True
    then show ?thesis by (intro disjI2 exI [of _ i]) auto
  next
    case False
    then have step: "free_slot_from (Suc k) i ps = free_slot_from k (Suc i) ps"
      by simp
    from Suc [of "Suc i"] show ?thesis
      unfolding step
    proof (elim disjE exE conjE)
      fix j
      assume "Suc i \<le> j" "j < Suc i + k" "free_slot_from k (Suc i) ps = int j"
        "pstate (ps j) = EXITED" "\<forall>m. Suc i \<le> m \<and> m < j \<longrightarrow> pstate (ps m) \<noteq> EXITED"
      then show "free_slot_from k (Suc i) ps = - 1
          \<and> (\<forall>j. i \<le> j \<and> j < i + Suc k \<longrightarrow> pstate (ps j) \<noteq> EXITED)
        \<or> (\<exists>j. i \<le> j \<and> j < i + Suc k \<and> free_slot_from k (Suc i) ps = int j
          \<and> pstate (ps j) = EXITED \<and> (\<forall>m. i \<le> m \<and> m < j \<longrightarrow> pstate (ps m) \<noteq> EXITED))"
        using False by (intro disjI2 exI [of _ j]) (auto simp: le_eq_less_or_eq [of i] Suc_le_eq)
    qed (use False in \<open>auto simp: le_eq_less_or_eq [of i] Suc_le_eq\<close>)
  qed
qed auto

lemma getFreeProcess_cases:
  obtains (Full) "getFreeProcess s = - 1" and "\<forall>j < 100. pstate (processes s j) \<noteq> EXITED"
  | (Slot) j where "j < 100" and "getFreeProcess s = int j" and "pstate (processes s j) = EXITED"
      and "\<forall>m < j. pstate (processes s m) \<noteq> EXITED"
  using free_slot_cases [of 100 0 "processes s"] unfolding getFreeProcess_def by auto

lemma getProcess_cases:
  assumes "getProcess s i = p"
  obtains (Null) "p = 0" and "\<not> isValidPID s i"
  | (Ok) "p = nat i" and "1 \<le> p" and "p \<le> 100" and "isValidPID s i" and "pstate (pcb s p) \<noteq> EXITED"
  using assms by (force simp: getProcess_def isValidPID_def pcb_def nat_diff_distrib split: if_splits)

end
