(* ===== verification/Scheduler.thy ===== *)
theory Scheduler
  imports Process_Table
begin

text \<open>
  \<open>Kernel/process/scheduler.c\<close>: five ready queues, one per priority, served from the highest
  down, a fixed quantum, and an aging pass at every context switch. The timer interrupt of
  \<open>Kernel/asm/interrupts.asm\<close>, which \<open>forceSwitchContext\<close> also raises, is \<open>irq00Handler\<close>.

  The counters are natural numbers: a counter reaches the point where the C types would
  wrap only after \<open>2 ^ 31\<close> context switches without being dispatched.
\<close>

section \<open>The program\<close>

definition DEFAULT_QUANTUM :: nat where "DEFAULT_QUANTUM = 3"
definition AGING_THRESHOLD :: nat where "AGING_THRESHOLD = 15"
definition MAX_AGING_BOOST :: nat where "MAX_AGING_BOOST = 2"

lemmas scheduler_consts [simp] = DEFAULT_QUANTUM_def AGING_THRESHOLD_def MAX_AGING_BOOST_def

fun init_queues :: "'m mm \<Rightarrow> nat list \<Rightarrow> ('m, 'z) sched_scheme \<Rightarrow> ('m, 'z) sched_scheme" where
  "init_queues M [] s = s"
| "init_queues M (i # is) s =
     (let (q, l) = l_newQueue M (lh s) in
      init_queues M is (s\<lparr>lh := l, priorityQueues := (priorityQueues s)(i := q)\<rparr>))"

definition initScheduler :: "'m mm \<Rightarrow> ('m, 'z) sched_scheme \<Rightarrow> ('m, 'z) sched_scheme" where
  "initScheduler M s = (init_queues M [0..<MAX_PRIORITY] s)\<lparr>currentProcess := 0\<rparr>"

definition schedule :: "'m mm \<Rightarrow> nat \<Rightarrow> ('m, 'z) sched_scheme \<Rightarrow> ('m, 'z) sched_scheme" where
  "schedule M p s =
     (if p = 0 \<or> priority (pcb s p) < MIN_PRIORITY \<or> priority (pcb s p) > MAX_PRIORITY then s
      else s\<lparr>lh := l_queue M (lh s) (priorityQueues s (priority (pcb s p) - 1)) p\<rparr>)"

fun unschedule_from ::
  "'m mm \<Rightarrow> nat \<Rightarrow> ('m, 'z) sched_scheme \<Rightarrow> nat \<times> ('m, 'z) sched_scheme" where
  "unschedule_from M 0 s = (0, s)"
| "unschedule_from M (Suc i) s =
     (if \<not> l_isEmpty (lh s) (priorityQueues s i)
      then let (p, l) = l_dequeue M (lh s) (priorityQueues s i) in (p, s\<lparr>lh := l\<rparr>)
      else unschedule_from M i s)"

definition unschedule :: "'m mm \<Rightarrow> ('m, 'z) sched_scheme \<Rightarrow> nat \<times> ('m, 'z) sched_scheme" where
  "unschedule M s = unschedule_from M MAX_PRIORITY s"

text \<open>One process met by the aging pass.\<close>

definition age :: "Process \<Rightarrow> Process" where
  "age p =
     (if pid p = 1 \<or> pid p = 2 then p
      else let p1 = p\<lparr>agingCounter := agingCounter p + 1\<rparr> in
        if agingCounter p1 \<ge> AGING_THRESHOLD \<and> priority p1 < MAX_PRIORITY
        then let boostLevel = agingCounter p1 div AGING_THRESHOLD;
                 boostLevel = (if boostLevel > MAX_AGING_BOOST then MAX_AGING_BOOST else boostLevel);
                 boosted = originalPriority p1 + boostLevel;
                 boosted = (if boosted > MAX_PRIORITY then MAX_PRIORITY else boosted)
             in p1\<lparr>priority := boosted\<rparr>
        else p1)"

text \<open>
  The two loops of the pass: the queue is emptied into a temporary one, then the temporary
  queue is emptied into the ready queues. Each takes as many rounds as its queue is long.
\<close>

fun age_out :: "nat \<Rightarrow> 'm mm \<Rightarrow> addr \<Rightarrow> addr \<Rightarrow> ('m, 'z) sched_scheme \<Rightarrow> ('m, 'z) sched_scheme" where
  "age_out 0 M q t s = s"
| "age_out (Suc k) M q t s =
     (if l_isEmpty (lh s) q then s
      else let (p, l) = l_dequeue M (lh s) q; s1 = s\<lparr>lh := l\<rparr> in
        if p = 0 then s1
        else let s2 = upd_pcb p age s1
             in age_out k M q t (s2\<lparr>lh := l_queue M (lh s2) t p\<rparr>))"

fun age_in :: "nat \<Rightarrow> 'm mm \<Rightarrow> addr \<Rightarrow> ('m, 'z) sched_scheme \<Rightarrow> ('m, 'z) sched_scheme" where
  "age_in 0 M t s = s"
| "age_in (Suc k) M t s =
     (if l_isEmpty (lh s) t then s
      else let (p, l) = l_dequeue M (lh s) t; s1 = s\<lparr>lh := l\<rparr>
           in age_in k M t
                (if p \<noteq> 0
                 then s1\<lparr>lh := l_queue M (lh s1) (priorityQueues s1 (priority (pcb s1 p) - 1)) p\<rparr>
                 else s1))"

definition age_queue :: "'m mm \<Rightarrow> nat \<Rightarrow> ('m, 'z) sched_scheme \<Rightarrow> ('m, 'z) sched_scheme" where
  "age_queue M i s =
     (let q = priorityQueues s i in
      if l_isEmpty (lh s) q then s
      else let (t, l) = l_newQueue M (lh s); s1 = s\<lparr>lh := l\<rparr> in
        if t = 0 then s1
        else let s2 = age_out (length (qnodes (lh s1) q)) M q t s1;
                 s3 = age_in (length (qnodes (lh s2) t)) M t s2
             in s3\<lparr>lh := l_freeQueue M (lh s3) t\<rparr>)"

fun age_queues :: "'m mm \<Rightarrow> nat list \<Rightarrow> ('m, 'z) sched_scheme \<Rightarrow> ('m, 'z) sched_scheme" where
  "age_queues M [] s = s"
| "age_queues M (i # is) s = age_queues M is (age_queue M i s)"

definition applyAging :: "'m mm \<Rightarrow> ('m, 'z) sched_scheme \<Rightarrow> ('m, 'z) sched_scheme" where
  "applyAging M s = age_queues M [0..<MAX_PRIORITY] s"

definition queued :: "('m, 'z) sched_scheme \<Rightarrow> nat list" where
  "queued s = concat (map (\<lambda>i. qdata (lh s) (priorityQueues s i)) [0..<MAX_PRIORITY])"

text \<open>The selection loop takes one process out of the queues per round.\<close>

fun pick :: "nat \<Rightarrow> 'm mm \<Rightarrow> ('m, 'z) sched_scheme \<Rightarrow> ('m, 'z) sched_scheme" where
  "pick fuel M s =
     (let (p, s1) = unschedule M s; s2 = s1\<lparr>currentProcess := p\<rparr> in
      if p = 0 then s2
      else if (pstate (pcb s2 p) = BLOCKED \<or> pstate (pcb s2 p) = EXITED) \<and> fuel \<noteq> 0
      then pick (fuel - 1) M s2
      else s2)"

declare pick.simps [simp del]

text \<open>What a context switch does with the process that held the processor.\<close>

definition retire :: "'m mm \<Rightarrow> addr \<Rightarrow> ('m, 'z) sched_scheme \<Rightarrow> ('m, 'z) sched_scheme" where
  "retire M rsp s =
     (let c = currentProcess s in
      if pstate (pcb s c) = RUNNING
      then schedule M c (upd_pcb c (\<lambda>x. x\<lparr>stackEnd := rsp, pstate := READY,
             priority := originalPriority x\<rparr>) s)
      else if pstate (pcb s c) = BLOCKED \<or> pstate (pcb s c) = EXITED
      then upd_pcb c (\<lambda>x. x\<lparr>stackEnd := rsp\<rparr>) (s\<lparr>quantumsLeft := 0\<rparr>)
      else s)"

definition run_current :: "('m, 'z) sched_scheme \<Rightarrow> ('m, 'z) sched_scheme" where
  "run_current s =
     upd_pcb (currentProcess s) (\<lambda>x. x\<lparr>pstate := RUNNING, agingCounter := 0\<rparr>)
       (s\<lparr>quantumsLeft := DEFAULT_QUANTUM\<rparr>)"

definition switchContext ::
  "'m mm \<Rightarrow> addr \<Rightarrow> ('m, 'z) sched_scheme \<Rightarrow> addr \<times> ('m, 'z) sched_scheme" where
  "switchContext M rsp s =
     (let c = currentProcess s in
      if c = 0
      then let (p, s1) = unschedule M s; s2 = s1\<lparr>currentProcess := p\<rparr> in
        if p = 0 then (rsp, s2)
        else let s3 = run_current s2 in (stackEnd (pcb s3 p), s3)
      else if pstate (pcb s c) = RUNNING \<and> quantumsLeft s > 0 \<and> \<not> isYield s
      then (rsp, s\<lparr>quantumsLeft := quantumsLeft s - 1\<rparr>)
      else let s1 = applyAging M (retire M rsp s);
               s2 = pick (length (queued s1)) M s1;
               p = currentProcess s2
           in if p = 0 then (rsp, s2)
              else let s3 = run_current (s2\<lparr>isYield := False\<rparr>) in (stackEnd (pcb s3 p), s3))"

definition timer_handler :: "('m, 'z) sched_scheme \<Rightarrow> ('m, 'z) sched_scheme" where
  "timer_handler s = s\<lparr>ticks := ticks s + 1\<rparr>"

definition irq00Handler :: "'m mm \<Rightarrow> ('m, 'z) sched_scheme \<Rightarrow> ('m, 'z) sched_scheme" where
  "irq00Handler M s =
     (let s1 = timer_handler s; (rsp, s2) = switchContext M (cpu_rsp s1) s1
      in s2\<lparr>cpu_rsp := rsp\<rparr>)"

definition forceSwitchContext :: "'m mm \<Rightarrow> ('m, 'z) sched_scheme \<Rightarrow> ('m, 'z) sched_scheme" where
  "forceSwitchContext M s = irq00Handler M s"

definition setYield :: "('m, 'z) sched_scheme \<Rightarrow> ('m, 'z) sched_scheme" where
  "setYield s = s\<lparr>isYield := True\<rparr>"

definition yield :: "'m mm \<Rightarrow> ('m, 'z) sched_scheme \<Rightarrow> int \<times> ('m, 'z) sched_scheme" where
  "yield M s = (1, forceSwitchContext M (setYield s))"

definition blockProcess ::
  "'m mm \<Rightarrow> int \<Rightarrow> ('m, 'z) sched_scheme \<Rightarrow> int \<times> ('m, 'z) sched_scheme" where
  "blockProcess M i s =
     (let p = getProcess s i in
      if p = 0 then (1, s)
      else let s1 = upd_pcb p (\<lambda>x. x\<lparr>pstate := BLOCKED\<rparr>) s in
        if pid (pcb s1 p) = pid_at s1 (currentProcess s1) then yield M s1 else (0, s1))"

definition unblockProcess ::
  "'m mm \<Rightarrow> int \<Rightarrow> ('m, 'z) sched_scheme \<Rightarrow> int \<times> ('m, 'z) sched_scheme" where
  "unblockProcess M i s =
     (let p = getProcess s i in
      if p = 0 \<or> pstate (pcb s p) \<noteq> BLOCKED then (- 1, s)
      else (0, schedule M p (upd_pcb p (\<lambda>x. x\<lparr>pstate := READY\<rparr>) s)))"

fun remove_from_queues ::
  "'m mm \<Rightarrow> nat list \<Rightarrow> nat \<Rightarrow> ('m, 'z) sched_scheme \<Rightarrow> ('m, 'z) sched_scheme" where
  "remove_from_queues M [] p s = s"
| "remove_from_queues M (i # is) p s =
     remove_from_queues M is p (s\<lparr>lh := snd (l_removeFromQueue M (lh s) (priorityQueues s i) p)\<rparr>)"

definition unscheduleProcess :: "'m mm \<Rightarrow> nat \<Rightarrow> ('m, 'z) sched_scheme \<Rightarrow> ('m, 'z) sched_scheme" where
  "unscheduleProcess M p s = (if p = 0 then s else remove_from_queues M [0..<MAX_PRIORITY] p s)"

section \<open>Well-formed scheduler states\<close>

definition rq :: "('m, 'z) sched_scheme \<Rightarrow> nat \<Rightarrow> nat list" where
  "rq s i = qdata (lh s) (priorityQueues s i)"

text \<open>
  A priority is never below the one the process was given, and aging lifts it by two levels
  at most.
\<close>

definition prio_ok :: "Process \<Rightarrow> bool" where
  "prio_ok x \<longleftrightarrow> 1 \<le> originalPriority x \<and> originalPriority x \<le> priority x
     \<and> priority x \<le> originalPriority x + 2 \<and> priority x \<le> 5"

definition queues_ok :: "('m \<Rightarrow> bool) \<Rightarrow> ('m \<Rightarrow> addr \<rightharpoonup> nat) \<Rightarrow> ('m, 'z) sched_scheme \<Rightarrow> bool" where
  "queues_ok I lv s \<longleftrightarrow> l_wf I lv (lh s) \<and> (\<forall>i < 5. priorityQueues s i \<in> dom (lq (lh s)))
     \<and> inj_on (priorityQueues s) {..<5}"

text \<open>\<open>rqueued\<close>: the ready queues as a multiset of process pointers.\<close>

definition rqueued :: "('m, 'z) sched_scheme \<Rightarrow> nat multiset" where
  "rqueued s = (\<Sum>i < 5. mset (rq s i))"

definition members_ok :: "('m, 'z) sched_scheme \<Rightarrow> bool" where
  "members_ok s \<longleftrightarrow> (\<forall>p \<in># rqueued s. 1 \<le> p \<and> p \<le> 100 \<and> prio_ok (pcb s p))"

definition sched_wf :: "('m \<Rightarrow> bool) \<Rightarrow> ('m \<Rightarrow> addr \<rightharpoonup> nat) \<Rightarrow> ('m, 'z) sched_scheme \<Rightarrow> bool" where
  "sched_wf I lv s \<longleftrightarrow> queues_ok I lv s
     \<and> members_ok s
     \<and> (\<forall>p. 1 \<le> p \<and> p \<le> 100 \<longrightarrow> pid (pcb s p) = int p
          \<and> (pstate (pcb s p) \<noteq> EXITED \<longrightarrow> prio_ok (pcb s p)))
     \<and> currentProcess s \<le> 100
     \<and> (currentProcess s \<noteq> 0 \<longrightarrow> prio_ok (pcb s (currentProcess s)))"

lemma in_rqueued: "p \<in># rqueued s \<longleftrightarrow> (\<exists>i < 5. p \<in> set (rq s i))"
  by (auto simp: rqueued_def set_mset_sum)

lemma members_pos:
  assumes "members_ok s" and "i < 5" and "p \<in> set (rq s i)"
  shows "0 < p"
proof -
  have "p \<in># rqueued s" using assms(2,3) in_rqueued by blast
  then have "1 \<le> p" using assms(1) by (simp add: members_ok_def)
  then show ?thesis by simp
qed

lemma queued_rq: "queued s = concat (map (rq s) [0..<5])"
  unfolding queued_def rq_def by simp

lemma mset_queued: "mset (queued s) = rqueued s"
  by (simp add: queued_rq rqueued_def numeral_eq_Suc lessThan_Suc ac_simps)

lemma set_queued: "set (queued s) = (\<Union>i<5. set (rq s i))"
  by (auto simp: queued_rq)

text \<open>Changing only the queue heap.\<close>

definition qkeeps :: "('m \<Rightarrow> bool) \<Rightarrow> ('m \<Rightarrow> addr \<rightharpoonup> nat) \<Rightarrow> 'm lheap \<Rightarrow> 'm lheap \<Rightarrow> bool" where
  "qkeeps I lv l l' \<longleftrightarrow> l_wf I lv l' \<and> dom (lq l') = dom (lq l) \<and> spares lv l l'"

lemma qkeeps_trans: "\<lbrakk>qkeeps I lv l l'; qkeeps I lv l' l''\<rbrakk> \<Longrightarrow> qkeeps I lv l l''"
  by (auto simp: qkeeps_def intro: spares_trans)

lemma queues_ok_upd: "\<lbrakk>queues_ok I lv s; qkeeps I lv (lh s) l\<rbrakk> \<Longrightarrow> queues_ok I lv (s\<lparr>lh := l\<rparr>)"
  by (simp add: queues_ok_def qkeeps_def)

lemma rq_upd:
  "\<lbrakk>queues_ok I lv s; i < 5; j < 5; qdata l = (qdata (lh s))(priorityQueues s i := xs)\<rbrakk>
   \<Longrightarrow> rq (s\<lparr>lh := l\<rparr>) j = (if j = i then xs else rq s j)"
  by (auto simp: rq_def queues_ok_def inj_on_def)

lemma rqueued_upd:
  assumes "i < 5" and "\<And>j. j < 5 \<Longrightarrow> rq s' j = (if j = i then xs else rq s j)"
  shows "rqueued s' + mset (rq s i) = rqueued s + mset xs"
proof -
  have "rqueued s' = mset xs + (\<Sum>j \<in> {..<5} - {i}. mset (rq s j))"
    using assms by (simp add: rqueued_def sum.remove [of _ i])
  moreover have "rqueued s = mset (rq s i) + (\<Sum>j \<in> {..<5} - {i}. mset (rq s j))"
    using assms(1) by (simp add: rqueued_def sum.remove [of _ i])
  ultimately show ?thesis by simp
qed

definition lh_only :: "('m, 'z) sched_scheme \<Rightarrow> ('m, 'z) sched_scheme \<Rightarrow> bool" where
  "lh_only s s' \<longleftrightarrow> s' = s\<lparr>lh := lh s'\<rparr>"

lemma lh_only_upd [simp]: "lh_only s (s\<lparr>lh := l\<rparr>)"
  by (simp add: lh_only_def)

lemma lh_only_refl [simp]: "lh_only s s"
  by (simp add: lh_only_def)

lemma lh_only_trans: "\<lbrakk>lh_only s s'; lh_only s' s''\<rbrakk> \<Longrightarrow> lh_only s s''"
  by (cases s; cases s'; cases s'') (simp add: lh_only_def)

lemma lh_only_fields:
  assumes "lh_only s s'"
  shows "pcb s' = pcb s" "processes s' = processes s" "priorityQueues s' = priorityQueues s"
    "currentProcess s' = currentProcess s" "quantumsLeft s' = quantumsLeft s" "isYield s' = isYield s"
    "ticks s' = ticks s" "cpu_rsp s' = cpu_rsp s" "nullPid s' = nullPid s"
    "nullForeground s' = nullForeground s" "sched.more s' = sched.more s"
  using assms by (cases s; cases s'; simp add: lh_only_def pcb_def fun_eq_iff)+

text \<open>Aging touches the priority and the counter of a process only.\<close>

definition aged :: "Process \<Rightarrow> Process \<Rightarrow> bool" where
  "aged x y \<longleftrightarrow> y = x\<lparr>priority := priority y, agingCounter := agingCounter y\<rparr>
     \<and> (prio_ok x \<longrightarrow> prio_ok y)"

lemma aged_refl [simp]: "aged x x"
  by (simp add: aged_def)

lemma aged_trans: "\<lbrakk>aged x y; aged y z\<rbrakk> \<Longrightarrow> aged x z"
  by (cases x; cases y; cases z) (auto simp: aged_def)

lemma aged_fields:
  assumes "aged x y"
  shows "pid y = pid x" "pstate y = pstate x" "originalPriority y = originalPriority x"
    "stackEnd y = stackEnd x" "stackBase y = stackBase x" "argc y = argc x" "argv y = argv x"
    "waitPid y = waitPid x" "foreground y = foreground x" "fd_in y = fd_in x" "fd_out y = fd_out x"
    "waitReturnValue y = waitReturnValue x" "prio_ok x \<Longrightarrow> prio_ok y"
  using assms by (cases x; cases y; auto simp: aged_def)+

lemma aged_age: "aged x (age x)"
  by (cases x) (auto simp: aged_def age_def prio_ok_def Let_def min_def)

definition ages :: "('m, 'z) sched_scheme \<Rightarrow> ('m, 'z) sched_scheme \<Rightarrow> bool" where
  "ages s s' \<longleftrightarrow> s' = s\<lparr>lh := lh s', processes := processes s'\<rparr>
     \<and> (\<forall>p \<ge> 1. aged (pcb s p) (pcb s' p))"

lemma ages_refl [simp]: "ages s s"
  by (simp add: ages_def)

lemma ages_trans: "\<lbrakk>ages s s'; ages s' s''\<rbrakk> \<Longrightarrow> ages s s''"
  by (cases s; cases s'; cases s'') (auto simp: ages_def intro: aged_trans)

lemma ages_lh [simp]: "ages s (s\<lparr>lh := l\<rparr>)"
  by (simp add: ages_def)

lemma ages_fields:
  assumes "ages s s'"
  shows "priorityQueues s' = priorityQueues s" "currentProcess s' = currentProcess s"
    "quantumsLeft s' = quantumsLeft s" "isYield s' = isYield s" "ticks s' = ticks s"
    "cpu_rsp s' = cpu_rsp s" "nullPid s' = nullPid s" "sched.more s' = sched.more s"
  using assms by (cases s; cases s'; simp add: ages_def)+

lemma ages_lh_only: "lh_only s s' \<Longrightarrow> ages s s'"
  by (metis ages_lh lh_only_def)

lemma ages_upd: "0 < p \<Longrightarrow> ages s (upd_pcb p age s)"
  by (auto simp: ages_def aged_age) (simp add: upd_pcb_def)

lemma ages_pcb: "\<lbrakk>ages s s'; 1 \<le> p\<rbrakk> \<Longrightarrow> aged (pcb s p) (pcb s' p)"
  by (simp add: ages_def)

text \<open>Every queued process stands in the queue of its priority.\<close>

definition placed :: "('m, 'z) sched_scheme \<Rightarrow> bool" where
  "placed s \<longleftrightarrow> (\<forall>i < 5. \<forall>p \<in> set (rq s i). priority (pcb s p) = i + 1)"

lemma once_queued:
  assumes "\<forall>p. count (rqueued s) p \<le> 1" and "i < 5" and "j < 5" and "p \<in> set (rq s i)" and "p \<in> set (rq s j)"
  shows "i = j"
proof (rule ccontr)
  assume "i \<noteq> j"
  have "count (mset (rq s i)) p + count (mset (rq s j)) p = (\<Sum>k \<in> {i, j}. count (mset (rq s k)) p)"
    using \<open>i \<noteq> j\<close> by simp
  also have "\<dots> \<le> (\<Sum>k < 5. count (mset (rq s k)) p)"
    by (rule sum_mono2) (use assms in auto)
  also have "\<dots> = count (rqueued s) p"
    by (simp add: rqueued_def count_sum)
  finally have "count (mset (rq s i)) p + count (mset (rq s j)) p \<le> 1"
    using assms(1) le_trans by blast
  moreover have "0 < count (mset (rq s i)) p" "0 < count (mset (rq s j)) p"
    using assms by (simp_all only: count_greater_zero_iff set_mset_mset)
  ultimately show False by linarith
qed

text \<open>The order in which the queues are served, and who may be dispatched.\<close>

definition serving_order :: "('m, 'z) sched_scheme \<Rightarrow> nat list" where
  "serving_order s = rq s 4 @ rq s 3 @ rq s 2 @ rq s 1 @ rq s 0"

definition dispatchable :: "('m, 'z) sched_scheme \<Rightarrow> nat \<Rightarrow> bool" where
  "dispatchable s p \<longleftrightarrow> pstate (pcb s p) \<noteq> BLOCKED \<and> pstate (pcb s p) \<noteq> EXITED"

lemma mset_serving: "mset (serving_order s) = rqueued s"
  by (simp add: serving_order_def rqueued_def numeral_eq_Suc lessThan_Suc ac_simps)

lemma length_queued: "length (queued s) = length (serving_order s)"
  by (metis mset_queued mset_serving size_mset)

lemma less5: "i < 5 \<longleftrightarrow> i = 0 \<or> i = 1 \<or> i = 2 \<or> i = 3 \<or> i = (4 :: nat)"
  by auto

lemma set_serving: "p \<in> set (serving_order s) \<longleftrightarrow> p \<in># rqueued s"
  by (metis mset_serving set_mset_mset)

lemma prio_ok_simps [simp]:
  "prio_ok (x\<lparr>stackEnd := a\<rparr>) = prio_ok x" "prio_ok (x\<lparr>pstate := st\<rparr>) = prio_ok x"
  "prio_ok (x\<lparr>agingCounter := n\<rparr>) = prio_ok x"
  "prio_ok (x\<lparr>priority := originalPriority x\<rparr>) = (1 \<le> originalPriority x \<and> originalPriority x \<le> 5)"
  by (auto simp: prio_ok_def)

lemma prio_ok_original: "prio_ok x \<Longrightarrow> 1 \<le> originalPriority x \<and> originalPriority x \<le> 5"
  by (simp add: prio_ok_def)

text \<open>The running process, once put back, is ready with its own priority.\<close>

definition to_ready :: "addr \<Rightarrow> Process \<Rightarrow> Process" where
  "to_ready rsp x = x\<lparr>stackEnd := rsp, pstate := READY, priority := originalPriority x\<rparr>"

lemma to_ready_simps [simp]:
  "pid (to_ready rsp x) = pid x" "pstate (to_ready rsp x) = READY"
  "priority (to_ready rsp x) = originalPriority x" "originalPriority (to_ready rsp x) = originalPriority x"
  "prio_ok x \<Longrightarrow> prio_ok (to_ready rsp x)"
  by (simp_all add: to_ready_def prio_ok_def)

text \<open>
  \<open>accounted\<close>: at most the current process is running, and no ready process is missing from
  the queues.
\<close>

definition accounted :: "('m, 'z) sched_scheme \<Rightarrow> bool" where
  "accounted s \<longleftrightarrow> (\<forall>p. 1 \<le> p \<and> p \<le> 100 \<longrightarrow>
     (pstate (pcb s p) = RUNNING \<longrightarrow> p = currentProcess s)
     \<and> (pstate (pcb s p) = READY \<longrightarrow> p \<in># rqueued s))"

context kernel_memory
begin

abbreviation qok :: "('a, 'z) sched_scheme \<Rightarrow> bool" where
  "qok \<equiv> queues_ok inv live"

abbreviation swf :: "('a, 'z) sched_scheme \<Rightarrow> bool" where
  "swf \<equiv> sched_wf inv live"

lemma qok_queue:
  assumes "qok s" and "i < 5"
  obtains xs where "wf (lh s)" and "lq (lh s) (priorityQueues s i) = Some xs"
  using assms by (auto simp: queues_ok_def)

lemma enqueue_ready:
  assumes "qok s" and "i < 5" and "s' = s\<lparr>lh := l_queue M (lh s) (priorityQueues s i) p\<rparr>"
  shows "qok s'" and "qkeeps inv live (lh s) (lh s')"
    and "fst (mm_alloc M (lmem (lh s)) 16) = 0 \<Longrightarrow> s' = s"
    and "\<lbrakk>fst (mm_alloc M (lmem (lh s)) 16) \<noteq> 0; j < 5\<rbrakk>
      \<Longrightarrow> rq s' j = (if j = i then rq s i @ [p] else rq s j)"
proof -
  obtain xs where q: "wf (lh s)" "lq (lh s) (priorityQueues s i) = Some xs"
    using qok_queue [OF assms(1,2)] .
  let ?l = "l_queue M (lh s) (priorityQueues s i) p"
  have keep: "qkeeps inv live (lh s) ?l"
    using q by (cases rule: queue_cases [where e = p]) (auto simp: qkeeps_def q)
  then show "qok s'" "qkeeps inv live (lh s) (lh s')"
    using queues_ok_upd [OF assms(1)] assms(3) by simp_all
  show "s' = s" if "fst (mm_alloc M (lmem (lh s)) 16) = 0"
    using that alloc_fail [OF _ req16 that] q(1) assms(3)
    by (auto simp: l_queue_def sizeof_node_def l_wf_def split_beta)
  show "rq s' j = (if j = i then rq s i @ [p] else rq s j)"
    if "fst (mm_alloc M (lmem (lh s)) 16) \<noteq> 0" "j < 5"
    unfolding assms(3)
    using rq_upd [OF assms(1,2) that(2) qdata_queue [OF q that(1)], of p] by (simp add: rq_def)
qed

lemma dequeue_ready:
  assumes "qok s" and "i < 5" and "rq s i = p # ys"
    and "s' = s\<lparr>lh := snd (l_dequeue M (lh s) (priorityQueues s i))\<rparr>"
  shows "qok s'" and "qkeeps inv live (lh s) (lh s')"
    and "fst (l_dequeue M (lh s) (priorityQueues s i)) = p"
    and "fst (mm_alloc M (lmem (lh s')) 16) \<noteq> 0"
    and "j < 5 \<Longrightarrow> rq s' j = (if j = i then ys else rq s j)"
proof -
  obtain xs where q: "wf (lh s)" "lq (lh s) (priorityQueues s i) = Some xs"
    using qok_queue [OF assms(1,2)] .
  let ?l = "snd (l_dequeue M (lh s) (priorityQueues s i))"
  have ne: "xs \<noteq> []" using assms(3) q(2) by (auto simp: rq_def qdata_def qnodes_def)
  have keep: "qkeeps inv live (lh s) ?l \<and> fst (mm_alloc M (lmem ?l) 16) \<noteq> 0"
    using q by (cases rule: dequeue_cases) (auto simp: qkeeps_def q ne)
  then show "qok s'" "qkeeps inv live (lh s) (lh s')" "fst (mm_alloc M (lmem (lh s')) 16) \<noteq> 0"
    using queues_ok_upd [OF assms(1)] assms(4) by simp_all
  show "fst (l_dequeue M (lh s) (priorityQueues s i)) = p"
    using qdata_dequeue(2) [OF q] assms(3) by (simp add: rq_def)
  show "rq s' j = (if j = i then ys else rq s j)" if "j < 5"
    unfolding assms(4) using rq_upd [OF assms(1,2) that qdata_dequeue(1) [OF q]] assms(3)
    by (simp add: rq_def)
qed

text \<open>\<open>unschedule\<close> takes the front of the highest non-empty queue.\<close>

lemma unschedule_from_cases:
  assumes "qok s" and "n \<le> 5" and "unschedule_from M n s = (p, s')"
    and "\<forall>i < 5. 0 \<notin> set (rq s i)"
  obtains (Empty) "p = 0" and "s' = s" and "\<forall>i < n. rq s i = []"
  | (Ok) i ys where "p \<noteq> 0" and "i < n" and "rq s i = p # ys" and "\<forall>j. i < j \<and> j < n \<longrightarrow> rq s j = []"
      and "lh_only s s'" and "qok s'" and "qkeeps inv live (lh s) (lh s')"
      and "\<forall>j < 5. rq s' j = (if j = i then ys else rq s j)"
      and "fst (mm_alloc M (lmem (lh s')) 16) \<noteq> 0"
proof -
  have "(p = 0 \<and> s' = s \<and> (\<forall>i < n. rq s i = []))
    \<or> (\<exists>i ys. p \<noteq> 0 \<and> i < n \<and> rq s i = p # ys \<and> (\<forall>j. i < j \<and> j < n \<longrightarrow> rq s j = [])
      \<and> s' = s\<lparr>lh := snd (l_dequeue M (lh s) (priorityQueues s i))\<rparr>)"
    using assms(2,3)
  proof (induction n)
    case (Suc n)
    have "n < 5" using Suc.prems(1) by simp
    obtain xs where q: "wf (lh s)" "lq (lh s) (priorityQueues s n) = Some xs"
      using qok_queue [OF assms(1) \<open>n < 5\<close>] .
    have emp: "l_isEmpty (lh s) (priorityQueues s n) \<longleftrightarrow> rq s n = []"
      using queue_nonnull [OF q] by (simp add: l_isEmpty_def rq_def qdata_def)
    show ?case
    proof (cases "rq s n")
      case Nil
      then have "unschedule_from M n s = (p, s')" using Suc.prems(2) emp by simp
      from Suc.IH [OF _ this] Suc.prems(1) Nil show ?thesis
        by (fastforce simp: less_Suc_eq)
    next
      case (Cons x ys)
      then have "p = x" "s' = s\<lparr>lh := snd (l_dequeue M (lh s) (priorityQueues s n))\<rparr>"
        using Suc.prems(2) emp dequeue_ready(3) [OF assms(1) \<open>n < 5\<close> Cons refl]
        by (auto simp: split_beta)
      moreover have "x \<noteq> 0" using assms(4) \<open>n < 5\<close> Cons by (auto dest!: spec [of _ n])
      ultimately show ?thesis using Cons by (intro disjI2 exI [of _ n]) auto
    qed
  qed simp
  then show ?thesis
  proof (elim disjE exE conjE)
    fix i ys
    assume a: "p \<noteq> 0" "i < n" "rq s i = p # ys" "\<forall>j. i < j \<and> j < n \<longrightarrow> rq s j = []"
      "s' = s\<lparr>lh := snd (l_dequeue M (lh s) (priorityQueues s i))\<rparr>"
    then have "i < 5" using assms(2) by simp
    from dequeue_ready [OF assms(1) this a(3,5)] show ?thesis
      using Ok [of i ys] a by simp
  qed (rule Empty)
qed

lemma qkeeps_refl: "wf l \<Longrightarrow> qkeeps inv live l l"
  by (simp add: qkeeps_def)

text \<open>Moving the front of one queue to the end of another never fails.\<close>

lemma move_front:
  assumes "wf l" and "lq l q = Some ((n, p) # xs)" and "lq l t = Some ys" and "q \<noteq> t"
    and "l1 = snd (l_dequeue M l q)" and "l2 = l_queue M l1 t p"
  shows "fst (l_dequeue M l q) = p" and "\<not> l_isEmpty l q" and "qkeeps inv live l l2"
    and "lq l2 q = Some xs" and "\<exists>m. lq l2 t = Some (ys @ [(m, p)])"
    and "qdata l2 = (qdata l)(q := map snd xs, t := qdata l t @ [p])"
    and "qkeeps inv live l l1" and "qdata l1 = (qdata l)(q := map snd xs)"
proof -
  have q: "qdata l q = p # map snd xs"
    using assms(2) by (simp add: qdata_def qnodes_def)
  have l1: "wf l1" "lq l1 = (lq l)(q \<mapsto> xs)" "spares live l l1"
    "fst (mm_alloc M (lmem l1) 16) \<noteq> 0" "fst (l_dequeue M l q) = p"
    using assms(1,2,5) by (auto elim: dequeue_cases)
  have t1: "lq l1 t = Some ys" using l1(2) assms(3,4) by simp
  obtain m where l2: "wf l2" "lq l2 = (lq l1)(t \<mapsto> ys @ [(m, p)])" "spares live l1 l2"
    using l1(1) t1 by (cases rule: queue_cases [where e = p]) (use l1(4) assms(6) in auto)
  show "fst (l_dequeue M l q) = p" by (rule l1(5))
  show "\<not> l_isEmpty l q"
    using assms(2) queue_nonnull [OF assms(1,2)] by (simp add: l_isEmpty_def qnodes_def)
  show "qkeeps inv live l l1" using l1 assms(2) by (auto simp: qkeeps_def)
  moreover have "qkeeps inv live l1 l2" using l2 t1 by (auto simp: qkeeps_def)
  ultimately show "qkeeps inv live l l2" by (rule qkeeps_trans)
  show "lq l2 q = Some xs" "\<exists>m. lq l2 t = Some (ys @ [(m, p)])"
    using l2(2) l1(2) assms(4) by auto
  show d1: "qdata l1 = (qdata l)(q := map snd xs)"
    using qdata_dequeue(1) [OF assms(1,2)] assms(5) q by simp
  show "qdata l2 = (qdata l)(q := map snd xs, t := qdata l t @ [p])"
    using qdata_queue [OF l1(1) t1 l1(4), of p] assms(4,6) d1 by simp
qed

lemma age_out_spec:
  assumes "wf (lh s)" and "lq (lh s) q = Some xs" and "lq (lh s) t = Some ys" and "q \<noteq> t"
    and "0 \<notin> set (qdata (lh s) q)" and "s' = age_out (length xs) M q t s"
  shows "qkeeps inv live (lh s) (lh s') \<and> ages s s'
    \<and> qdata (lh s') = (qdata (lh s))(q := [], t := qdata (lh s) t @ qdata (lh s) q)
    \<and> (\<forall>p \<ge> 1. p \<notin> set (qdata (lh s) q) \<longrightarrow> pcb s' p = pcb s p)"
  using assms
proof (induction xs arbitrary: s ys)
  case Nil
  then have "qdata (lh s) q = []" by (simp add: qdata_def qnodes_def)
  then show ?case using Nil by (simp add: qkeeps_refl fun_upd_idem)
next
  case (Cons x xs)
  obtain n p where x: "x = (n, p)" by force
  have q: "qdata (lh s) q = p # map snd xs"
    using Cons.prems(2) x by (simp add: qdata_def qnodes_def)
  then have p: "p \<noteq> 0" using Cons.prems(5) by auto
  note mf = move_front [OF Cons.prems(1) Cons.prems(2) [unfolded x] Cons.prems(3,4) refl refl]
  let ?l1 = "snd (l_dequeue M (lh s) q)"
  let ?s2 = "(upd_pcb p age (s\<lparr>lh := ?l1\<rparr>))\<lparr>lh := l_queue M ?l1 t p\<rparr>"
  have step: "s' = age_out (length xs) M q t ?s2"
    using mf(1,2) p Cons.prems(6) by (simp add: split_beta Let_def)
  have s2: "ages s ?s2"
    by (rule ages_trans [OF ages_trans [OF ages_lh ages_upd] ages_lh]) (use p in simp)
  obtain m where m: "lq (lh ?s2) t = Some (ys @ [(m, p)])" using mf(5) by auto
  have IH: "qkeeps inv live (lh ?s2) (lh s') \<and> ages ?s2 s'
    \<and> qdata (lh s') = (qdata (lh ?s2))(q := [], t := qdata (lh ?s2) t @ qdata (lh ?s2) q)
    \<and> (\<forall>p \<ge> 1. p \<notin> set (qdata (lh ?s2) q) \<longrightarrow> pcb s' p = pcb ?s2 p)"
    by (rule Cons.IH [OF _ _ m]) (use mf step Cons.prems(4,5) q in \<open>auto simp: qkeeps_def\<close>)
  moreover have "qkeeps inv live (lh s) (lh ?s2)"
    using mf(3) by simp
  ultimately show ?case
    using s2 mf(6) q p Cons.prems(4)
    by (auto intro: qkeeps_trans ages_trans simp: fun_upd_twist)
qed

lemma age_in_spec:
  assumes "qok s" and "lq (lh s) t = Some xs" and "t \<notin> priorityQueues s ` {..<5}"
    and "\<forall>p \<in> set (qdata (lh s) t). p \<noteq> 0 \<and> 1 \<le> priority (pcb s p) \<and> priority (pcb s p) \<le> 5"
    and "s' = age_in (length xs) M t s"
  shows "lh_only s s' \<and> qkeeps inv live (lh s) (lh s') \<and> qdata (lh s') t = []
    \<and> (\<forall>i < 5. rq s' i = rq s i @ filter (\<lambda>p. priority (pcb s p) = i + 1) (qdata (lh s) t))"
  using assms
proof (induction xs arbitrary: s)
  case Nil
  then have "qdata (lh s) t = []" by (simp add: qdata_def qnodes_def)
  then show ?case using Nil by (simp add: qkeeps_refl queues_ok_def)
next
  case (Cons x xs)
  obtain n p where x: "x = (n, p)" by force
  have wf: "wf (lh s)" using Cons.prems(1) by (simp add: queues_ok_def)
  have t: "qdata (lh s) t = p # map snd xs"
    using Cons.prems(2) x by (simp add: qdata_def qnodes_def)
  define j where "j = priority (pcb s p) - 1"
  have p: "p \<noteq> 0" "j < 5" "priority (pcb s p) = j + 1"
    using Cons.prems(4) t by (auto simp: j_def)
  obtain ys where ys: "lq (lh s) (priorityQueues s j) = Some ys"
    using qok_queue [OF Cons.prems(1) p(2)] .
  have tj: "t \<noteq> priorityQueues s j" using Cons.prems(3) p(2) by auto
  note mf = move_front [OF wf Cons.prems(2) [unfolded x] ys tj refl refl]
  let ?l1 = "snd (l_dequeue M (lh s) t)"
  let ?s2 = "s\<lparr>lh := l_queue M ?l1 (priorityQueues s j) p\<rparr>"
  have step: "s' = age_in (length xs) M t ?s2"
    using mf(1,2) p(1) Cons.prems(5) by (simp add: split_beta Let_def j_def)
  have s2: "rq ?s2 i = (if i = j then rq s j @ [p] else rq s i)" if "i < 5" for i
  proof -
    have "t \<noteq> priorityQueues s i" using that Cons.prems(3) by auto
    moreover have "priorityQueues s i = priorityQueues s j \<longleftrightarrow> i = j"
      using that p(2) Cons.prems(1) by (auto simp: queues_ok_def inj_on_def)
    ultimately show ?thesis using mf(6) by (auto simp: rq_def)
  qed
  have "lh_only ?s2 s' \<and> qkeeps inv live (lh ?s2) (lh s') \<and> qdata (lh s') t = []
    \<and> (\<forall>i < 5. rq s' i = rq ?s2 i @ filter (\<lambda>p. priority (pcb ?s2 p) = i + 1) (qdata (lh ?s2) t))"
  proof (rule Cons.IH)
    show "qok ?s2" using queues_ok_upd [OF Cons.prems(1)] mf(3) by simp
  qed (use mf(4,6) step Cons.prems(3,4) t tj in auto)
  moreover have "qkeeps inv live (lh s) (lh ?s2)" using mf(3) by simp
  moreover have "qdata (lh ?s2) t = map snd xs" using mf(6) tj by simp
  moreover from calculation have "lh_only s s'"
    using lh_only_trans [OF lh_only_upd] by blast
  ultimately show ?case
    using s2 t p(3) by (auto intro: qkeeps_trans)
qed

text \<open>
  One queue of the pass: its processes are aged and then stand, in order, at the end of the
  queues their priorities name. If no temporary queue can be allocated nothing happens.
\<close>

lemma qkeeps_open_close:
  assumes "qkeeps inv live l l'" and "lq l' t = Some []"
  shows "wf (l_freeQueue M l' t)" and "dom (lq (l_freeQueue M l' t)) = dom (lq l) - {t}"
    and "spares live l (l_freeQueue M l' t)"
    and "qdata (l_freeQueue M l' t) = qdata l'"
proof -
  have wf: "wf l'" using assms(1) by (simp add: qkeeps_def)
  note fr = freeQueue_empty [OF wf assms(2)]
  show "wf (l_freeQueue M l' t)" by (rule fr(1))
  show "dom (lq (l_freeQueue M l' t)) = dom (lq l) - {t}" using assms fr(2) by (auto simp: qkeeps_def)
  show "spares live l (l_freeQueue M l' t)"
    using assms(1) fr(3) spares_trans by (auto simp: qkeeps_def)
  show "qdata (l_freeQueue M l' t) = qdata l'"
    using fr(2) assms(2) by (simp add: fun_eq_iff qdata_def qnodes_def)
qed

lemma age_queue_spec:
  assumes "qok s" and "i < 5" and "\<forall>p \<in> set (rq s i). 1 \<le> p \<and> prio_ok (pcb s p)"
    and "s' = age_queue M i s"
  shows "qok s' \<and> qkeeps inv live (lh s) (lh s') \<and> ages s s'
    \<and> (rq s i = [] \<longrightarrow> s' = s)
    \<and> (s' = s \<or> (\<forall>j < 5. rq s' j = (if j = i then [] else rq s j)
                   @ filter (\<lambda>p. priority (pcb s' p) = j + 1) (rq s i)))
    \<and> (\<forall>p \<ge> 1. p \<notin> set (rq s i) \<longrightarrow> pcb s' p = pcb s p)"
proof -
  obtain xs where q: "wf (lh s)" "lq (lh s) (priorityQueues s i) = Some xs"
    using qok_queue [OF assms(1,2)] .
  let ?q = "priorityQueues s i"
  have emp: "l_isEmpty (lh s) ?q \<longleftrightarrow> rq s i = []"
    using queue_nonnull [OF q] by (simp add: l_isEmpty_def rq_def qdata_def)
  obtain t l where t: "l_newQueue M (lh s) = (t, l)" by force
  show ?thesis
  proof (cases "rq s i = []")
    case True
    then show ?thesis using assms(1,4) emp q(1) by (simp add: age_queue_def qkeeps_refl)
  next
    case nonempty: False
    from q(1) t show ?thesis
    proof (cases rule: newQueue_cases)
      case Fail
      then show ?thesis using assms(1,4) emp q(1) t nonempty
        by (simp add: age_queue_def qkeeps_refl Let_def)
    next
      case Ok
      have t_fresh: "t \<notin> dom (lq (lh s))" using Ok(2) by (simp add: owned_def)
      have pq_t: "priorityQueues s j \<noteq> t" if "j < 5" for j
        using that assms(1) t_fresh by (auto simp: queues_ok_def)
      let ?s1 = "s\<lparr>lh := l\<rparr>"
      have data1: "qdata l = qdata (lh s)"
        using Ok(3) t_fresh by (auto simp: fun_eq_iff qdata_def qnodes_def split: option.splits)
      have q1: "lq (lh ?s1) ?q = Some xs" "lq (lh ?s1) t = Some []" "?q \<noteq> t"
        using Ok(3) q(2) pq_t assms(2) by auto
      define s2 where "s2 = age_out (length xs) M ?q t ?s1"
      have "0 \<notin> set (qdata (lh ?s1) ?q)"
        using assms(3) data1 by (force simp: rq_def)
      then have o: "qkeeps inv live l (lh s2)" "ages ?s1 s2"
        "qdata (lh s2) = (qdata (lh s))(?q := [], t := rq s i)"
        "\<forall>p \<ge> 1. p \<notin> set (rq s i) \<longrightarrow> pcb s2 p = pcb s p"
        using age_out_spec [of ?s1 ?q xs t "[]" s2] q1 Ok(4) s2_def data1 t_fresh
        by (auto simp: rq_def qdata_def qnodes_def split: option.splits)
      have dom2: "dom (lq (lh s2)) = insert t (dom (lq (lh s)))"
        using o(1) Ok(3) by (auto simp: qkeeps_def)
      have same2: "priorityQueues s2 = priorityQueues s"
        using ages_fields(1) [OF o(2)] by simp
      have ok2: "qok s2" using o(1) same2 assms(1) dom2 by (auto simp: queues_ok_def qkeeps_def)
      obtain ys where ys: "lq (lh s2) t = Some ys" using dom2 by auto
      define s3 where "s3 = age_in (length ys) M t s2"
      have prio2: "\<forall>p \<in> set (qdata (lh s2) t). p \<noteq> 0 \<and> 1 \<le> priority (pcb s2 p) \<and> priority (pcb s2 p) \<le> 5"
        using o(3) assms(3) ages_pcb [OF o(2)] by (fastforce dest: aged_fields(13) simp: prio_ok_def)
      have t_pq: "t \<notin> priorityQueues s2 ` {..<5}" using pq_t same2 by auto
      note r = age_in_spec [OF ok2 ys t_pq prio2 s3_def]
      then have r3: "lh_only s2 s3" "qkeeps inv live (lh s2) (lh s3)" "qdata (lh s3) t = []"
        "\<forall>j < 5. rq s3 j = rq s2 j @ filter (\<lambda>p. priority (pcb s2 p) = j + 1) (rq s i)"
        using o(3) by auto
      have keeps3: "qkeeps inv live l (lh s3)" by (rule qkeeps_trans [OF o(1) r3(2)])
      have "t \<in> dom (lq (lh s3))" using keeps3 Ok(3) by (simp add: qkeeps_def)
      then have t3: "lq (lh s3) t = Some []" using r3(3) by (auto simp: qdata_def qnodes_def)
      note c = qkeeps_open_close [OF keeps3 t3]
      have s': "s' = s3\<lparr>lh := l_freeQueue M (lh s3) t\<rparr>"
        using assms(4) emp nonempty t Ok(1) q1(1) ys
        by (simp add: age_queue_def Let_def qnodes_def s2_def [symmetric] s3_def)
      have keeps: "qkeeps inv live (lh s) (lh s')"
        using c(1,2) spares_trans [OF Ok(5) c(3)] Ok(3) t_fresh s' by (auto simp: qkeeps_def)
      have ag: "ages s s'"
        using ages_trans [OF ages_trans [OF ages_lh o(2)] ages_trans [OF ages_lh_only [OF r3(1)] ages_lh]]
        unfolding s' by blast
      have pcb': "pcb s' = pcb s2" using s' lh_only_fields(1) [OF r3(1)] by simp
      have pq': "priorityQueues s' = priorityQueues s" using ages_fields(1) [OF ag] .
      have "rq s' j = rq s3 j" if "j < 5" for j
        using c(4) s' by (simp add: rq_def)
      moreover have "rq s2 j = (if j = i then [] else rq s j)" if "j < 5" for j
        using o(3) same2 that pq_t [OF that] assms(1,2) by (auto simp: rq_def queues_ok_def inj_on_def)
      ultimately have "\<forall>j < 5. rq s' j = (if j = i then [] else rq s j)
          @ filter (\<lambda>p. priority (pcb s' p) = j + 1) (rq s i)"
        using r3(4) pcb' by simp
      moreover have "qok s'" using keeps pq' assms(1) by (auto simp: queues_ok_def qkeeps_def)
      ultimately show ?thesis using keeps ag nonempty o(4) pcb' by auto
    qed
  qed
qed

lemma rqueued_redistribute:
  assumes "i < 5" and "\<forall>j < 5. rq s' j = (if j = i then [] else rq s j) @ filter (\<lambda>p. f p = j + 1) (rq s i)"
    and "\<forall>p \<in> set (rq s i). 1 \<le> f p \<and> f p \<le> (5 :: nat)"
  shows "rqueued s' = rqueued s"
proof -
  have split: "(\<Sum>j < 5. mset (filter (\<lambda>p. f p = j + 1) xs)) = mset xs"
    if "\<forall>p \<in> set xs. 1 \<le> f p \<and> f p \<le> (5 :: nat)" for xs
    using that
  proof (induction xs)
    case (Cons x xs)
    then have x: "f x - 1 < 5" "f x = f x - 1 + 1" by auto
    have "(\<Sum>j < 5. mset (filter (\<lambda>p. f p = j + 1) (x # xs)))
        = (\<Sum>j < 5. (if j = f x - 1 then {#x#} else {#}) + mset (filter (\<lambda>p. f p = j + 1) xs))"
      by (rule sum.cong) (use x in auto)
    also have "\<dots> = {#x#} + mset xs"
      using Cons x by (simp add: sum.distrib)
    finally show ?case by simp
  qed simp
  have "rqueued s' = (\<Sum>j < 5. mset (if j = i then [] else rq s j))
      + (\<Sum>j < 5. mset (filter (\<lambda>p. f p = j + 1) (rq s i)))"
    using assms(2) by (simp add: rqueued_def sum.distrib)
  also have "(\<Sum>j < 5. mset (if j = i then [] else rq s j)) = (\<Sum>j \<in> {..<5} - {i}. mset (rq s j))"
    using assms(1) by (simp add: sum.remove [of _ i])
  also have "(\<Sum>j < 5. mset (filter (\<lambda>p. f p = j + 1) (rq s i))) = mset (rq s i)"
    by (rule split [OF assms(3)])
  finally show ?thesis
    using assms(1) by (simp add: rqueued_def sum.remove [of _ i])
qed

lemma age_queue_keeps:
  assumes "qok s" and "members_ok s" and "i < 5" and "s' = age_queue M i s"
  shows "qok s'" and "qkeeps inv live (lh s) (lh s')" and "ages s s'" and "rqueued s' = rqueued s"
    and "members_ok s'" and "\<lbrakk>\<forall>p. count (rqueued s) p \<le> 1; placed s\<rbrakk> \<Longrightarrow> placed s'"
proof -
  have m: "\<forall>p \<in> set (rq s i). 1 \<le> p \<and> prio_ok (pcb s p)"
    using assms(2,3) by (auto simp: members_ok_def in_rqueued)
  note sp = age_queue_spec [OF assms(1,3) m assms(4)]
  then show "qok s'" "qkeeps inv live (lh s) (lh s')" and ag: "ages s s'" by blast+
  have prio: "1 \<le> priority (pcb s' p) \<and> priority (pcb s' p) \<le> 5" if "p \<in> set (rq s i)" for p
    using that m ages_pcb [OF ag, of p] aged_fields(13) [of "pcb s p" "pcb s' p"]
    by (auto simp: prio_ok_def)
  have same: "s' = s \<or> (\<forall>j < 5. rq s' j = (if j = i then [] else rq s j)
                   @ filter (\<lambda>p. priority (pcb s' p) = j + 1) (rq s i))"
    using sp by blast
  then show rqd: "rqueued s' = rqueued s"
    using rqueued_redistribute [OF assms(3), of s' s "\<lambda>p. priority (pcb s' p)"] prio by blast
  show "members_ok s'"
    using assms(2) ages_pcb [OF ag] aged_fields(13) rqd by (fastforce simp: members_ok_def)
  show "placed s'" if once: "\<forall>p. count (rqueued s) p \<le> 1" and pl: "placed s"
  proof (cases "s' = s")
    case False
    then have rq': "rq s' j = (if j = i then [] else rq s j)
        @ filter (\<lambda>p. priority (pcb s' p) = j + 1) (rq s i)" if "j < 5" for j
      using same that by blast
    have "priority (pcb s' p) = j + 1" if "j < 5" "j \<noteq> i" "p \<in> set (rq s j)" for j p
    proof -
      have "p \<notin> set (rq s i)"
        using once_queued [OF once that(1) assms(3) that(3)] that(2) by blast
      moreover have "1 \<le> p"
        using assms(2) that by (auto simp: members_ok_def in_rqueued)
      ultimately have "pcb s' p = pcb s p" using sp by blast
      then show ?thesis using pl that by (simp add: placed_def)
    qed
    then show ?thesis using rq' by (auto simp: placed_def)
  qed (use pl in simp)
qed

lemma applyAging_keeps:
  assumes "qok s" and "members_ok s" and "s' = applyAging M s"
  shows "qok s'" and "qkeeps inv live (lh s) (lh s')" and "ages s s'" and "rqueued s' = rqueued s"
    and "members_ok s'" and "\<lbrakk>\<forall>p. count (rqueued s) p \<le> 1; placed s\<rbrakk> \<Longrightarrow> placed s'"
proof -
  have "qok s' \<and> qkeeps inv live (lh s) (lh s') \<and> ages s s' \<and> rqueued s' = rqueued s \<and> members_ok s'
    \<and> ((\<forall>p. count (rqueued s) p \<le> 1) \<and> placed s \<longrightarrow> placed s')"
    if "\<forall>i \<in> set is. i < 5" "s' = age_queues M is s" "qok s" "members_ok s" for "is" s
    using that
  proof (induction "is" arbitrary: s)
    case Nil
    then show ?case by (simp add: qkeeps_refl queues_ok_def)
  next
    case (Cons i "is")
    let ?s1 = "age_queue M i s"
    have i: "i < 5" using Cons.prems(1) by simp
    note k = age_queue_keeps [OF Cons.prems(3,4) i refl]
    have "qok s' \<and> qkeeps inv live (lh ?s1) (lh s') \<and> ages ?s1 s' \<and> rqueued s' = rqueued ?s1
      \<and> members_ok s' \<and> ((\<forall>p. count (rqueued ?s1) p \<le> 1) \<and> placed ?s1 \<longrightarrow> placed s')"
      by (rule Cons.IH) (use Cons.prems k in auto)
    then show ?case using k qkeeps_trans ages_trans by (metis (no_types, lifting))
  qed
  from this [of "[0..<5]" s] assms
  show "qok s'" and "qkeeps inv live (lh s) (lh s')" and "ages s s'" and "rqueued s' = rqueued s"
    and "members_ok s'" and "\<lbrakk>\<forall>p. count (rqueued s) p \<le> 1; placed s\<rbrakk> \<Longrightarrow> placed s'"
    by (simp_all add: applyAging_def)
qed

lemma unschedule_cases:
  assumes "qok s" and "0 \<notin> set (serving_order s)" and "unschedule M s = (p, s')"
  obtains (Empty) "p = 0" and "s' = s" and "serving_order s = []"
  | (Ok) "p \<noteq> 0" and "serving_order s = p # serving_order s'" and "lh_only s s'" and "qok s'"
      and "qkeeps inv live (lh s) (lh s')" and "fst (mm_alloc M (lmem (lh s')) 16) \<noteq> 0"
      and "placed s \<Longrightarrow> placed s' \<and> (\<forall>q \<in> set (serving_order s'). priority (pcb s q) \<le> priority (pcb s p))"
proof -
  have z: "\<forall>i < 5. 0 \<notin> set (rq s i)" using assms(2) by (auto simp: less5 serving_order_def)
  have "unschedule_from M 5 s = (p, s')" using assms(3) by (simp add: unschedule_def)
  from assms(1) order_refl this z show ?thesis
  proof (cases rule: unschedule_from_cases)
    case Empty
    then show ?thesis using that(1) by (simp add: serving_order_def)
  next
    case (Ok i ys)
    have so: "serving_order s = p # serving_order s'"
      using Ok(2,3,4,8) by (auto simp: less5 serving_order_def)
    have pl: "placed s' \<and> (\<forall>q \<in> set (serving_order s'). priority (pcb s q) \<le> priority (pcb s p))"
      if "placed s"
    proof
      show "placed s'"
        using that Ok(2,3,8) lh_only_fields(1) [OF Ok(5)] by (auto simp: placed_def)
      show "\<forall>q \<in> set (serving_order s'). priority (pcb s q) \<le> priority (pcb s p)"
      proof
        fix q assume "q \<in> set (serving_order s')"
        then obtain j where j: "j < 5" "q \<in> set (rq s' j)" by (auto simp: set_serving in_rqueued)
        then have "j \<le> i" using Ok(4,8) by (metis empty_iff leI list.set(1) nat_neq_iff)
        moreover have "q \<in> set (rq s j)" using j Ok(3,8) by (auto split: if_splits)
        moreover have "priority (pcb s p) = i + 1" "priority (pcb s q) = j + 1"
          using that j(1) Ok(2,3) calculation(2) by (auto simp: placed_def)
        ultimately show "priority (pcb s q) \<le> priority (pcb s p)" by simp
      qed
    qed
    show ?thesis by (rule that(2)) (use Ok so pl in auto)
  qed
qed

lemma serving_currentProcess [simp]:
  "serving_order (s\<lparr>currentProcess := c\<rparr>) = serving_order s" "placed (s\<lparr>currentProcess := c\<rparr>) = placed s"
  "qok (s\<lparr>currentProcess := c\<rparr>) = qok s" "dispatchable (s\<lparr>currentProcess := c\<rparr>) = dispatchable s"
  by (simp_all add: serving_order_def rq_def placed_def queues_ok_def dispatchable_def fun_eq_iff)

lemma lh_only_current:
  "\<lbrakk>lh_only s s1; lh_only (s1\<lparr>currentProcess := c\<rparr>) s'\<rbrakk> \<Longrightarrow> lh_only (s\<lparr>currentProcess := c\<rparr>) s'"
  by (cases s; cases s1; cases s') (auto simp: lh_only_def)

lemma pick_spec:
  assumes "qok s" and "0 \<notin> set (serving_order s)" and "length (serving_order s) \<le> fuel"
    and "s' = pick fuel M s"
  shows "qok s' \<and> qkeeps inv live (lh s) (lh s') \<and> lh_only (s\<lparr>currentProcess := currentProcess s'\<rparr>) s'
    \<and> (placed s \<longrightarrow> placed s')
    \<and> (currentProcess s' = 0 \<and> serving_order s' = [] \<and> (\<forall>p \<in> set (serving_order s). \<not> dispatchable s p)
      \<or> (\<exists>xs. currentProcess s' \<noteq> 0 \<and> serving_order s = xs @ currentProcess s' # serving_order s'
          \<and> (\<forall>p \<in> set xs. \<not> dispatchable s p) \<and> dispatchable s (currentProcess s')
          \<and> fst (mm_alloc M (lmem (lh s')) 16) \<noteq> 0
          \<and> (placed s \<longrightarrow> (\<forall>q \<in> set (serving_order s').
                priority (pcb s q) \<le> priority (pcb s (currentProcess s'))))))"
  using assms
proof (induction fuel arbitrary: s)
  case (0 s)
  then have none: "serving_order s = []" by simp
  obtain p s1 where u: "unschedule M s = (p, s1)" by force
  have "p = 0 \<and> s1 = s"
    using 0(1,2) u by (cases rule: unschedule_cases) (use none in auto)
  then have "s' = s\<lparr>currentProcess := 0\<rparr>" using 0(4) u by (simp add: pick.simps)
  then show ?case
    using none 0(1) by (simp add: qkeeps_refl queues_ok_def)
next
  case (Suc fuel s)
  obtain p s1 where u: "unschedule M s = (p, s1)" by force
  from Suc.prems(1,2) u show ?case
  proof (cases rule: unschedule_cases)
    case Empty
    then have "s' = s\<lparr>currentProcess := 0\<rparr>" using Suc.prems(4) u by (simp add: pick.simps)
    then show ?thesis using Empty Suc.prems(1) by (simp add: qkeeps_refl queues_ok_def)
  next
    case Ok
    let ?s2 = "s1\<lparr>currentProcess := p\<rparr>"
    have pcb1: "pcb s1 = pcb s" using lh_only_fields(1) [OF Ok(3)] .
    then have disp1: "dispatchable s1 = dispatchable s" by (simp add: dispatchable_def fun_eq_iff)
    show ?thesis
    proof (cases "dispatchable s p")
      case True
      then have "s' = ?s2"
        using Suc.prems(4) u Ok(1) pcb1 by (subst (asm) pick.simps) (simp add: dispatchable_def)
      moreover have "lh_only (s\<lparr>currentProcess := p\<rparr>) ?s2"
        using Ok(3) by (cases s; cases s1) (simp add: lh_only_def)
      ultimately show ?thesis using Ok True by (auto intro: exI [of _ "[]"])
    next
      case False
      then have s': "s' = pick fuel M ?s2"
        using Suc.prems(4) u Ok(1) pcb1 by (subst (asm) pick.simps) (auto simp: dispatchable_def)
      have pre: "qok ?s2" "0 \<notin> set (serving_order ?s2)" "length (serving_order ?s2) \<le> fuel"
        using Ok(2,4) Suc.prems(2,3) by simp_all
      note IH = Suc.IH [OF pre s']
      have keep: "qkeeps inv live (lh s) (lh s')" using IH Ok(5) by (auto intro: qkeeps_trans)
      have only: "lh_only (s\<lparr>currentProcess := currentProcess s'\<rparr>) s'"
        using IH lh_only_current [OF Ok(3)] by simp
      have pl: "placed s \<longrightarrow> placed s'" using IH Ok(7) by simp
      from IH have "currentProcess s' = 0 \<and> serving_order s' = []
          \<and> (\<forall>p \<in> set (serving_order s1). \<not> dispatchable s p)
        \<or> (\<exists>xs. currentProcess s' \<noteq> 0 \<and> serving_order s1 = xs @ currentProcess s' # serving_order s'
          \<and> (\<forall>p \<in> set xs. \<not> dispatchable s p) \<and> dispatchable s (currentProcess s')
          \<and> fst (mm_alloc M (lmem (lh s')) 16) \<noteq> 0
          \<and> (placed s1 \<longrightarrow> (\<forall>q \<in> set (serving_order s').
                priority (pcb s q) \<le> priority (pcb s (currentProcess s')))))"
        by (simp add: disp1 pcb1)
      then show ?thesis
      proof (elim disjE exE conjE)
        fix xs
        assume "currentProcess s' \<noteq> 0" "serving_order s1 = xs @ currentProcess s' # serving_order s'"
          "\<forall>p \<in> set xs. \<not> dispatchable s p" "dispatchable s (currentProcess s')"
          "fst (mm_alloc M (lmem (lh s')) 16) \<noteq> 0"
          "placed s1 \<longrightarrow> (\<forall>q \<in> set (serving_order s').
              priority (pcb s q) \<le> priority (pcb s (currentProcess s')))"
        then show ?thesis
          using IH keep only pl Ok(2,7) False by (intro conjI disjI2 exI [of _ "p # xs"]) auto
      qed (use IH keep only pl Ok(2) False in auto)
    qed
  qed
qed

text \<open>The process that loses the processor goes back to the end of the queue of its own priority.\<close>

lemma rq_upd_pcb [simp]: "rq (upd_pcb p f s) = rq s" "qok (upd_pcb p f s) = qok s"
    "rqueued (upd_pcb p f s) = rqueued s"
  by (simp_all add: rq_def fun_eq_iff queues_ok_def rqueued_def)

lemma rq_quantums [simp]: "rq (s\<lparr>quantumsLeft := n\<rparr>) = rq s" "qok (s\<lparr>quantumsLeft := n\<rparr>) = qok s"
    "rqueued (s\<lparr>quantumsLeft := n\<rparr>) = rqueued s"
  by (simp_all add: rq_def fun_eq_iff queues_ok_def rqueued_def)

lemma swfD:
  assumes "swf s"
  shows "qok s" and "members_ok s" and "currentProcess s \<le> 100"
    and "\<lbrakk>1 \<le> p; p \<le> 100\<rbrakk> \<Longrightarrow> pid (pcb s p) = int p"
    and "\<lbrakk>1 \<le> p; p \<le> 100; pstate (pcb s p) \<noteq> EXITED\<rbrakk> \<Longrightarrow> prio_ok (pcb s p)"
    and "currentProcess s \<noteq> 0 \<Longrightarrow> prio_ok (pcb s (currentProcess s))"
    and "0 \<notin> set (serving_order s)"
  using assms by (auto simp: sched_wf_def members_ok_def set_serving)

lemma schedule_spec:
  assumes "swf s" and "1 \<le> p" and "p \<le> 100" and "prio_ok (pcb s p)" and "s' = schedule M p s"
  shows "swf s'" and "qkeeps inv live (lh s) (lh s')" and "lh_only s s'"
    and "fst (mm_alloc M (lmem (lh s)) 16) = 0 \<Longrightarrow> s' = s"
    and "\<lbrakk>fst (mm_alloc M (lmem (lh s)) 16) \<noteq> 0; j < 5\<rbrakk>
      \<Longrightarrow> rq s' j = (if j = priority (pcb s p) - 1 then rq s j @ [p] else rq s j)"
    and "fst (mm_alloc M (lmem (lh s)) 16) \<noteq> 0 \<Longrightarrow> rqueued s' = add_mset p (rqueued s)"
proof -
  let ?i = "priority (pcb s p) - 1"
  have i: "?i < 5" using assms(4) by (auto simp: prio_ok_def)
  have s': "s' = s\<lparr>lh := l_queue M (lh s) (priorityQueues s ?i) p\<rparr>"
    using assms(2,4,5) by (auto simp: schedule_def prio_ok_def)
  note e = enqueue_ready [OF swfD(1) [OF assms(1)] i s']
  show keep: "qkeeps inv live (lh s) (lh s')" and only: "lh_only s s'"
    using e(2) s' by simp_all
  show fail: "s' = s" if "fst (mm_alloc M (lmem (lh s)) 16) = 0" using e(3) [OF that] .
  show rq': "rq s' j = (if j = ?i then rq s j @ [p] else rq s j)"
    if "fst (mm_alloc M (lmem (lh s)) 16) \<noteq> 0" "j < 5" for j
    using e(4) [OF that] by auto
  show rqd: "rqueued s' = add_mset p (rqueued s)" if "fst (mm_alloc M (lmem (lh s)) 16) \<noteq> 0"
    using rqueued_upd [OF i, of s' "rq s ?i @ [p]" s] rq' [OF that] by simp
  have mem: "set_mset (rqueued s') \<subseteq> insert p (set_mset (rqueued s))"
    using fail rqd by (cases "fst (mm_alloc M (lmem (lh s)) 16) = 0") auto
  have "members_ok s'"
    using mem swfD(2) [OF assms(1)] assms(2-4) lh_only_fields(1) [OF only]
    unfolding members_ok_def by auto
  then show "swf s'"
    using assms(1) e(1) lh_only_fields [OF only] by (simp add: sched_wf_def)
qed

lemma swf_upd_pcb:
  assumes "swf s" and "1 \<le> p" and "p \<le> 100" and "pid (f (pcb s p)) = pid (pcb s p)"
    and "prio_ok (f (pcb s p))"
  shows "swf (upd_pcb p f s)"
proof -
  have "members_ok (upd_pcb p f s)"
    using swfD(2) [OF assms(1)] assms(2,5) by (auto simp: members_ok_def)
  then show ?thesis
    using assms by (auto simp: sched_wf_def)
qed

lemma swf_fields [simp]:
  "swf (s\<lparr>quantumsLeft := n\<rparr>) = swf s" "swf (s\<lparr>isYield := y\<rparr>) = swf s"
  "swf (s\<lparr>ticks := n\<rparr>) = swf s" "swf (s\<lparr>cpu_rsp := a\<rparr>) = swf s"
  by (simp_all add: sched_wf_def members_ok_def rqueued_def rq_def queues_ok_def)

lemma retire_spec:
  assumes "swf s" and "currentProcess s \<noteq> 0" and "s' = retire M rsp s"
  shows "swf s'" and "qkeeps inv live (lh s) (lh s')"
    and "currentProcess s' = currentProcess s" and "isYield s' = isYield s"
    and "\<And>q. \<lbrakk>1 \<le> q; q \<noteq> currentProcess s\<rbrakk> \<Longrightarrow> pcb s' q = pcb s q"
    and "pcb s' (currentProcess s) = (if pstate (pcb s (currentProcess s)) = RUNNING
        then to_ready rsp (pcb s (currentProcess s))
        else if pstate (pcb s (currentProcess s)) = READY then pcb s (currentProcess s)
        else (pcb s (currentProcess s))\<lparr>stackEnd := rsp\<rparr>)"
    and "rqueued s' = (if pstate (pcb s (currentProcess s)) = RUNNING
        \<and> fst (mm_alloc M (lmem (lh s)) 16) \<noteq> 0
        then add_mset (currentProcess s) (rqueued s) else rqueued s)"
    and "\<lbrakk>placed s; currentProcess s \<notin># rqueued s\<rbrakk> \<Longrightarrow> placed s'"
proof -
  let ?c = "currentProcess s"
  have c: "1 \<le> ?c" "?c \<le> 100" "prio_ok (pcb s ?c)"
    using swfD [OF assms(1)] assms(2) by auto
  have pos: "0 < p" if "i < 5" "p \<in> set (rq s i)" for i p
    using members_pos [OF swfD(2) [OF assms(1)] that] .
  have "swf s' \<and> qkeeps inv live (lh s) (lh s') \<and> currentProcess s' = ?c \<and> isYield s' = isYield s
    \<and> (\<forall>q. 1 \<le> q \<and> q \<noteq> ?c \<longrightarrow> pcb s' q = pcb s q)
    \<and> pcb s' ?c = (if pstate (pcb s ?c) = RUNNING then to_ready rsp (pcb s ?c)
        else if pstate (pcb s ?c) = READY then pcb s ?c else (pcb s ?c)\<lparr>stackEnd := rsp\<rparr>)
    \<and> rqueued s' = (if pstate (pcb s ?c) = RUNNING \<and> fst (mm_alloc M (lmem (lh s)) 16) \<noteq> 0
        then add_mset ?c (rqueued s) else rqueued s)
    \<and> (placed s \<and> ?c \<notin># rqueued s \<longrightarrow> placed s')"
  proof (cases "pstate (pcb s ?c) = RUNNING")
    case True
    let ?s1 = "upd_pcb ?c (to_ready rsp) s"
    have s': "s' = schedule M ?c ?s1"
      using True assms(3) by (simp add: retire_def to_ready_def [abs_def] Let_def)
    have wf1: "swf ?s1" by (rule swf_upd_pcb) (use assms(1) c in auto)
    have p1: "prio_ok (pcb ?s1 ?c)" using c by simp
    note sc = schedule_spec [OF wf1 c(1,2) p1 s']
    have pl: "placed s'" if "placed s" "?c \<notin># rqueued s"
    proof -
      have 1: "placed ?s1" using that c(1) pos
        by (auto simp: placed_def in_rqueued)
      show ?thesis
      proof (cases "fst (mm_alloc M (lmem (lh s)) 16) = 0")
        case True
        then show ?thesis using sc(4) 1 by simp
      next
        case False
        then have "rq s' j = (if j = originalPriority (pcb s ?c) - 1 then rq s j @ [?c] else rq s j)"
          if "j < 5" for j
          using sc(5) [of j] that c(1) by simp
        then show ?thesis
          using 1 lh_only_fields(1) [OF sc(3)] c by (auto simp: placed_def prio_ok_def)
      qed
    qed
    show ?thesis
      using True c sc(1,2,4,6) lh_only_fields [OF sc(3)] pl by auto
  next
    case False
    show ?thesis
    proof (cases "pstate (pcb s ?c) = READY")
      case True
      then show ?thesis
        using assms False by (simp add: retire_def Let_def qkeeps_refl sched_wf_def queues_ok_def)
    next
      case notready: False
      then have st: "pstate (pcb s ?c) = BLOCKED \<or> pstate (pcb s ?c) = EXITED"
        using False by (cases "pstate (pcb s ?c)") auto
      then have s': "s' = upd_pcb ?c (\<lambda>x. x\<lparr>stackEnd := rsp\<rparr>) (s\<lparr>quantumsLeft := 0\<rparr>)"
        using False assms(3) by (simp add: retire_def Let_def)
      have "swf s'" unfolding s' by (rule swf_upd_pcb) (use assms(1) c in auto)
      moreover have "wf (lh s)" using assms(1) by (simp add: sched_wf_def queues_ok_def)
      moreover have "placed s'" if "placed s" "?c \<notin># rqueued s"
        using that c(1) pos by (auto simp: s' placed_def in_rqueued)
      ultimately show ?thesis
        using c False notready by (auto simp: s' qkeeps_refl)
    qed
  qed
  then show "swf s'" and "qkeeps inv live (lh s) (lh s')"
    and "currentProcess s' = currentProcess s" and "isYield s' = isYield s"
    and "\<And>q. \<lbrakk>1 \<le> q; q \<noteq> currentProcess s\<rbrakk> \<Longrightarrow> pcb s' q = pcb s q"
    and "pcb s' (currentProcess s) = (if pstate (pcb s (currentProcess s)) = RUNNING
        then to_ready rsp (pcb s (currentProcess s))
        else if pstate (pcb s (currentProcess s)) = READY then pcb s (currentProcess s)
        else (pcb s (currentProcess s))\<lparr>stackEnd := rsp\<rparr>)"
    and "rqueued s' = (if pstate (pcb s (currentProcess s)) = RUNNING
        \<and> fst (mm_alloc M (lmem (lh s)) 16) \<noteq> 0
        then add_mset (currentProcess s) (rqueued s) else rqueued s)"
    and "\<lbrakk>placed s; currentProcess s \<notin># rqueued s\<rbrakk> \<Longrightarrow> placed s'"
    by blast+
qed

lemma swf_only_current:
  assumes "swf s" and "lh_only (s\<lparr>currentProcess := c\<rparr>) s'" and "qok s'" and "c \<le> 100"
    and "c \<noteq> 0 \<Longrightarrow> prio_ok (pcb s c)" and "set_mset (rqueued s') \<subseteq> set_mset (rqueued s)"
  shows "swf s'"
proof -
  note f = lh_only_fields [OF assms(2)]
  have "members_ok s'"
    using swfD(2) [OF assms(1)] assms(6) f(1) by (auto simp: members_ok_def)
  then show ?thesis
    using assms f by (auto simp: sched_wf_def)
qed

lemma swf_ages:
  assumes "swf s" and "ages s s'" and "qok s'" and "members_ok s'"
  shows "swf s'"
proof -
  have "pid (pcb s' p) = pid (pcb s p) \<and> pstate (pcb s' p) = pstate (pcb s p)
      \<and> (prio_ok (pcb s p) \<longrightarrow> prio_ok (pcb s' p))" if "1 \<le> p" for p
    using aged_fields [OF ages_pcb [OF assms(2) that]] by blast
  moreover have "currentProcess s' = currentProcess s" by (rule ages_fields(2) [OF assms(2)])
  ultimately show ?thesis
    using assms(1,3,4) unfolding sched_wf_def by (metis One_nat_def Suc_leI neq0_conv)
qed

lemma run_current_spec:
  assumes "swf s" and "currentProcess s \<noteq> 0" and "s' = run_current s"
  shows "swf s'" and "lh s' = lh s" and "currentProcess s' = currentProcess s"
    and "isYield s' = isYield s" and "quantumsLeft s' = 3" and "serving_order s' = serving_order s"
    and "rqueued s' = rqueued s"
    and "\<And>q. 1 \<le> q \<Longrightarrow> pcb s' q = (if q = currentProcess s
        then (pcb s q)\<lparr>pstate := RUNNING, agingCounter := 0\<rparr> else pcb s q)"
    and "placed s' = placed s"
proof -
  let ?c = "currentProcess s"
  have c: "1 \<le> ?c" "?c \<le> 100" "prio_ok (pcb s ?c)"
    using swfD [OF assms(1)] assms(2) by auto
  show "swf s'"
    unfolding assms(3) run_current_def by (rule swf_upd_pcb) (use assms(1) c in auto)
  show "lh s' = lh s" "currentProcess s' = ?c" "isYield s' = isYield s" "quantumsLeft s' = 3"
    "rqueued s' = rqueued s"
    by (simp_all add: assms(3) run_current_def)
  have rq': "rq s' = rq s" by (simp add: assms(3) run_current_def)
  then show "serving_order s' = serving_order s" by (simp add: serving_order_def)
  show pcb': "pcb s' q = (if q = ?c then (pcb s q)\<lparr>pstate := RUNNING, agingCounter := 0\<rparr> else pcb s q)"
    if "1 \<le> q" for q
    using that c(1) by (simp add: assms(3) run_current_def)
  have "priority (pcb s' p) = priority (pcb s p)" if "i < 5" "p \<in> set (rq s i)" for i p
    using pcb' [of p] members_pos [OF swfD(2) [OF assms(1)] that] by simp
  then show "placed s' = placed s" by (auto simp: placed_def rq')
qed

lemma switch_spec:
  assumes "swf s" and "currentProcess s \<noteq> 0"
    and "\<not> (pstate (pcb s (currentProcess s)) = RUNNING \<and> 0 < quantumsLeft s \<and> \<not> isYield s)"
    and "s1 = applyAging M (retire M rsp s)" and "switchContext M rsp s = (r, s')"
  shows "swf s' \<and> qkeeps inv live (lh s) (lh s') \<and> swf s1
    \<and> (currentProcess s' = 0 \<and> r = rsp \<and> serving_order s' = []
          \<and> (\<forall>p \<in> set (serving_order s1). \<not> dispatchable s1 p)
          \<and> (\<forall>p \<ge> 1. pcb s' p = pcb s1 p)
      \<or> (\<exists>xs. let p = currentProcess s' in p \<noteq> 0 \<and> serving_order s1 = xs @ p # serving_order s'
          \<and> (\<forall>x \<in> set xs. \<not> dispatchable s1 x) \<and> dispatchable s1 p
          \<and> r = stackEnd (pcb s1 p) \<and> quantumsLeft s' = 3 \<and> \<not> isYield s'
          \<and> (\<forall>q \<ge> 1. pcb s' q = (if q = p then (pcb s1 p)\<lparr>pstate := RUNNING, agingCounter := 0\<rparr>
                                 else pcb s1 q))
          \<and> fst (mm_alloc M (lmem (lh s')) 16) \<noteq> 0
          \<and> (placed s1 \<longrightarrow> placed s' \<and> (\<forall>q \<in> set (serving_order s').
                priority (pcb s1 q) \<le> priority (pcb s1 p)))))"
proof -
  let ?s0 = "retire M rsp s"
  note rt = retire_spec [OF assms(1,2) refl, where rsp = rsp]
  note ag = applyAging_keeps [OF swfD(1,2) [OF rt(1)] assms(4)]
  have wf1: "swf s1" by (rule swf_ages [OF rt(1) ag(3,1,5)])
  define s2 where "s2 = pick (length (queued s1)) M s1"
  note pk = pick_spec [OF swfD(1) [OF wf1] swfD(7) [OF wf1] _ s2_def, unfolded length_queued, OF order_refl]
  have keep2: "qkeeps inv live (lh s) (lh s2)"
    using qkeeps_trans [OF qkeeps_trans [OF rt(2) ag(2)]] pk by blast
  have res: "(r, s') = (if currentProcess s2 = 0 then (rsp, s2)
      else let s3 = run_current (s2\<lparr>isYield := False\<rparr>) in (stackEnd (pcb s3 (currentProcess s2)), s3))"
    using assms(5) unfolding switchContext_def Let_def s2_def assms(4) if_not_P [OF assms(2)]
      if_not_P [OF assms(3)] by simp
  have only: "lh_only (s1\<lparr>currentProcess := currentProcess s2\<rparr>) s2" and qok2: "qok s2" using pk by blast+
  have pcb2: "pcb s2 = pcb s1" using lh_only_fields(1) [OF only] by simp
  from pk consider (idle) "currentProcess s2 = 0" "serving_order s2 = []"
      "\<forall>p \<in> set (serving_order s1). \<not> dispatchable s1 p"
    | (go) xs where "currentProcess s2 \<noteq> 0" "serving_order s1 = xs @ currentProcess s2 # serving_order s2"
      "\<forall>p \<in> set xs. \<not> dispatchable s1 p" "dispatchable s1 (currentProcess s2)"
      "fst (mm_alloc M (lmem (lh s2)) 16) \<noteq> 0"
      "placed s1 \<longrightarrow> placed s2 \<and> (\<forall>q \<in> set (serving_order s2).
          priority (pcb s1 q) \<le> priority (pcb s1 (currentProcess s2)))"
    by (elim conjE disjE exE) blast+
  then show ?thesis
  proof cases
    case idle
    then have "r = rsp" "s' = s2" using res by simp_all
    moreover have "rqueued s2 = {#}" using mset_serving [of s2] idle(2) by simp
    then have "swf s2" by (intro swf_only_current [OF wf1 only qok2]) (use idle in auto)
    ultimately show ?thesis using idle keep2 wf1 pcb2 by simp
  next
    case go
    let ?p = "currentProcess s2"
    have "?p \<in># rqueued s1" using go(2) set_serving [of ?p s1] by simp
    then have p: "?p \<le> 100" "prio_ok (pcb s1 ?p)" "1 \<le> ?p"
      using swfD(2) [OF wf1] by (auto simp: members_ok_def)
    have "set_mset (rqueued s2) \<subseteq> set_mset (rqueued s1)"
      using go(2) by (auto simp: set_serving [symmetric])
    then have wf2: "swf (s2\<lparr>isYield := False\<rparr>)"
      using swf_only_current [OF wf1 only qok2 p(1)] p(2) by simp
    have nz: "currentProcess (s2\<lparr>isYield := False\<rparr>) \<noteq> 0" using go(1) by simp
    let ?s3 = "run_current (s2\<lparr>isYield := False\<rparr>)"
    note rc = run_current_spec [OF wf2 nz refl]
    have s': "s' = ?s3" "r = stackEnd (pcb ?s3 ?p)" using res go(1) by (simp_all add: Let_def)
    have so: "serving_order s' = serving_order s2"
      using rc(6) s' by (simp add: serving_order_def rq_def)
    have pl: "placed s' = placed s2" using rc(9) s' by (simp add: placed_def rq_def)
    have pcb': "\<forall>q \<ge> 1. pcb s' q = (if q = ?p then (pcb s1 ?p)\<lparr>pstate := RUNNING, agingCounter := 0\<rparr>
        else pcb s1 q)"
      using rc(8) s' pcb2 by simp
    then have r: "r = stackEnd (pcb s1 ?p)" using s' p(3) by simp
    have fields: "currentProcess s' = ?p" "lh s' = lh s2" "quantumsLeft s' = 3" "\<not> isYield s'" "swf s'"
      using rc(1-5) s' by simp_all
    show ?thesis
      unfolding Let_def fields so pl
      by (intro conjI disjI2 exI [of _ xs]) (use go fields so pl pcb' r keep2 wf1 in simp_all)
  qed
qed

lemma switch_idle_start:
  assumes "swf s" and "currentProcess s = 0" and "switchContext M rsp s = (r, s')"
  shows "swf s'" and "qkeeps inv live (lh s) (lh s')"
    and "currentProcess s' = 0 \<and> serving_order s = [] \<and> s' = s \<and> r = rsp
      \<or> currentProcess s' \<noteq> 0 \<and> serving_order s = currentProcess s' # serving_order s'
        \<and> r = stackEnd (pcb s (currentProcess s'))
        \<and> (\<forall>q \<ge> 1. pcb s' q = (if q = currentProcess s'
             then (pcb s q)\<lparr>pstate := RUNNING, agingCounter := 0\<rparr> else pcb s q))"
    and "placed s \<Longrightarrow> placed s'"
    and "currentProcess s' \<noteq> 0 \<Longrightarrow> fst (mm_alloc M (lmem (lh s')) 16) \<noteq> 0"
    and "currentProcess s' \<noteq> 0 \<Longrightarrow> quantumsLeft s' = 3 \<and> isYield s' = isYield s"
proof -
  obtain p s1 where u: "unschedule M s = (p, s1)" by force
  have "swf s' \<and> qkeeps inv live (lh s) (lh s')
    \<and> (currentProcess s' = 0 \<and> serving_order s = [] \<and> s' = s \<and> r = rsp
      \<or> currentProcess s' \<noteq> 0 \<and> serving_order s = currentProcess s' # serving_order s'
        \<and> r = stackEnd (pcb s (currentProcess s'))
        \<and> (\<forall>q \<ge> 1. pcb s' q = (if q = currentProcess s'
             then (pcb s q)\<lparr>pstate := RUNNING, agingCounter := 0\<rparr> else pcb s q)))
    \<and> (placed s \<longrightarrow> placed s') \<and> (currentProcess s' \<noteq> 0 \<longrightarrow> fst (mm_alloc M (lmem (lh s')) 16) \<noteq> 0
         \<and> quantumsLeft s' = 3 \<and> isYield s' = isYield s)"
    using swfD(1,7) [OF assms(1)] u
  proof (cases rule: unschedule_cases)
    case Empty
    then have "s' = s" "r = rsp"
      using assms(2,3) u by (cases s; simp add: switchContext_def)+
    then show ?thesis using Empty assms(1,2) by (simp add: qkeeps_refl sched_wf_def queues_ok_def)
  next
    case Ok
    let ?s2 = "s1\<lparr>currentProcess := p\<rparr>"
    have "p \<in># rqueued s" using Ok(2) set_serving [of p s] by simp
    then have p: "p \<le> 100" "prio_ok (pcb s p)" "1 \<le> p"
      using swfD(2) [OF assms(1)] by (auto simp: members_ok_def)
    have only: "lh_only (s\<lparr>currentProcess := p\<rparr>) ?s2"
      using Ok(3) by (cases s; cases s1) (simp add: lh_only_def)
    have rqs: "rqueued ?s2 = rqueued s1" by (simp add: rqueued_def rq_def)
    have sub: "set_mset (rqueued s1) \<subseteq> set_mset (rqueued s)"
      using Ok(2) by (auto simp: set_serving [symmetric])
    have wf2: "swf ?s2"
      by (rule swf_only_current [OF assms(1) only _ p(1)]) (use Ok(4) p(2) sub rqs in auto)
    have nz: "currentProcess ?s2 \<noteq> 0" using Ok(1) by simp
    note rc = run_current_spec [OF wf2 nz refl]
    have pcb1: "pcb s1 = pcb s" using lh_only_fields(1) [OF Ok(3)] .
    have s': "s' = run_current ?s2" "r = stackEnd (pcb s' p)"
      using assms(2,3) u Ok(1) by (auto simp: switchContext_def Let_def)
    then show ?thesis
      using rc Ok p pcb1 lh_only_fields(6) [OF Ok(3)] by simp
  qed
  then show "swf s'" and "qkeeps inv live (lh s) (lh s')"
    and "currentProcess s' = 0 \<and> serving_order s = [] \<and> s' = s \<and> r = rsp
      \<or> currentProcess s' \<noteq> 0 \<and> serving_order s = currentProcess s' # serving_order s'
        \<and> r = stackEnd (pcb s (currentProcess s'))
        \<and> (\<forall>q \<ge> 1. pcb s' q = (if q = currentProcess s'
             then (pcb s q)\<lparr>pstate := RUNNING, agingCounter := 0\<rparr> else pcb s q))"
    and "placed s \<Longrightarrow> placed s'"
    and "currentProcess s' \<noteq> 0 \<Longrightarrow> fst (mm_alloc M (lmem (lh s')) 16) \<noteq> 0"
    and "currentProcess s' \<noteq> 0 \<Longrightarrow> quantumsLeft s' = 3 \<and> isYield s' = isYield s"
    by blast+
qed

lemma switch_swf:
  assumes "swf s"
  shows "swf (snd (switchContext M rsp s))"
    and "qkeeps inv live (lh s) (lh (snd (switchContext M rsp s)))"
proof -
  obtain r s' where sw: "switchContext M rsp s = (r, s')" by force
  have "swf s' \<and> qkeeps inv live (lh s) (lh s')"
  proof (cases "currentProcess s = 0")
    case True
    then show ?thesis using switch_idle_start [OF assms True sw] by blast
  next
    case nz: False
    show ?thesis
    proof (cases "pstate (pcb s (currentProcess s)) = RUNNING \<and> 0 < quantumsLeft s \<and> \<not> isYield s")
      case True
      then have "s' = s\<lparr>quantumsLeft := quantumsLeft s - 1\<rparr>"
        using sw nz by (simp add: switchContext_def)
      then show ?thesis using assms swfD(1) [OF assms] by (auto simp: qkeeps_refl queues_ok_def)
    next
      case False
      then show ?thesis using switch_spec [OF assms nz False refl sw] by blast
    qed
  qed
  then show "swf (snd (switchContext M rsp s))"
    and "qkeeps inv live (lh s) (lh (snd (switchContext M rsp s)))" by (simp_all add: sw)
qed

lemma aging_states:
  assumes "swf s" and "s1 = applyAging M s" and "1 \<le> p"
  shows "pstate (pcb s1 p) = pstate (pcb s p)" and "rqueued s1 = rqueued s"
    and "originalPriority (pcb s1 p) = originalPriority (pcb s p)"
  using applyAging_keeps [OF swfD(1,2) [OF assms(1)] assms(2)] assms(3)
    aged_fields(2,3) [OF ages_pcb, of s s1 p] by blast+

lemma switch_accounted:
  assumes "swf s" and "accounted s"
    and "\<lbrakk>currentProcess s \<noteq> 0; pstate (pcb s (currentProcess s)) = RUNNING\<rbrakk>
      \<Longrightarrow> fst (mm_alloc M (lmem (lh s)) 16) \<noteq> 0"
    and "s' = snd (switchContext M rsp s)"
  shows "accounted s'"
    and "currentProcess s' = 0 \<Longrightarrow> \<forall>p. 1 \<le> p \<and> p \<le> 100 \<longrightarrow> pstate (pcb s' p) \<noteq> READY"
    and "currentProcess s' \<noteq> 0 \<Longrightarrow> pstate (pcb s' (currentProcess s')) = RUNNING"
proof -
  obtain r where sw: "switchContext M rsp s = (r, s')" using assms(4) by (cases "switchContext M rsp s") auto
  have "accounted s' \<and> (currentProcess s' = 0 \<longrightarrow> (\<forall>p. 1 \<le> p \<and> p \<le> 100 \<longrightarrow> pstate (pcb s' p) \<noteq> READY))
    \<and> (currentProcess s' \<noteq> 0 \<longrightarrow> pstate (pcb s' (currentProcess s')) = RUNNING)"
  proof (cases "currentProcess s = 0")
    case True
    from switch_idle_start(3) [OF assms(1) True sw] show ?thesis
    proof (elim disjE conjE, goal_cases)
      case 1
      then show ?case using assms(2) True by (auto simp: accounted_def set_serving [symmetric])
    next
      case 2
      then show ?case
        using assms(2) True by (fastforce simp: accounted_def set_serving [symmetric])
    qed
  next
    case nz: False
    show ?thesis
    proof (cases "pstate (pcb s (currentProcess s)) = RUNNING \<and> 0 < quantumsLeft s \<and> \<not> isYield s")
      case True
      then have "s' = s\<lparr>quantumsLeft := quantumsLeft s - 1\<rparr>"
        using sw nz by (simp add: switchContext_def)
      then show ?thesis using assms(2) nz True by (simp add: accounted_def)
    next
      case False
      define s1 where "s1 = applyAging M (retire M rsp s)"
      note rt = retire_spec [OF assms(1) nz refl, where rsp = rsp]
      note ag = aging_states [OF rt(1) s1_def]
      have acc1: "pstate (pcb s1 p) \<noteq> RUNNING \<and> (pstate (pcb s1 p) = READY \<longrightarrow> p \<in> set (serving_order s1))"
        if "1 \<le> p" "p \<le> 100" for p
        using assms(2,3) that ag(1,2) [OF that(1)] rt(5) [OF that(1)] rt(6,7) nz unfolding accounted_def set_serving
        by (cases "p = currentProcess s") (auto split: if_splits)
      from switch_spec [OF assms(1) nz False s1_def sw]
      consider "currentProcess s' = 0" "\<forall>p \<in> set (serving_order s1). \<not> dispatchable s1 p"
          "\<forall>p \<ge> 1. pcb s' p = pcb s1 p"
        | xs where "currentProcess s' \<noteq> 0" "serving_order s1 = xs @ currentProcess s' # serving_order s'"
          "\<forall>x \<in> set xs. \<not> dispatchable s1 x"
          "\<forall>q \<ge> 1. pcb s' q = (if q = currentProcess s'
             then (pcb s1 (currentProcess s'))\<lparr>pstate := RUNNING, agingCounter := 0\<rparr> else pcb s1 q)"
        unfolding Let_def by (elim conjE disjE exE) blast+
      then show ?thesis
      proof cases
        case 1
        have "pstate (pcb s1 p) \<noteq> READY" if "1 \<le> p" "p \<le> 100" for p
          using acc1 [OF that] 1(2) by (auto simp: dispatchable_def)
        then show ?thesis using acc1 1 by (simp add: accounted_def)
      next
        case 2
        then show ?thesis
          using acc1 by (fastforce simp: accounted_def dispatchable_def set_serving [symmetric])
      qed
    qed
  qed
  then show "accounted s'"
    and "currentProcess s' = 0 \<Longrightarrow> \<forall>p. 1 \<le> p \<and> p \<le> 100 \<longrightarrow> pstate (pcb s' p) \<noteq> READY"
    and "currentProcess s' \<noteq> 0 \<Longrightarrow> pstate (pcb s' (currentProcess s')) = RUNNING" by blast+
qed

end

end
