(* ===== verification/Scheduler_Properties.thy ===== *)
theory Scheduler_Properties
  imports Scheduler
begin

text \<open>
  What the scheduler guarantees, on top of the per-operation lemmas of \<open>Scheduler\<close>: the
  invariant of context switches, the dispatch order, conservation of processes by aging, the
  length of a quantum, blocking and unblocking, and the limit of aging.
\<close>

section \<open>Ticks\<close>

lemma irq00_fields:
  "irq00Handler M s = (let sw = switchContext M (cpu_rsp s) (s\<lparr>ticks := ticks s + 1\<rparr>)
     in (snd sw)\<lparr>cpu_rsp := fst sw\<rparr>)"
  by (simp add: irq00Handler_def timer_handler_def Let_def split_beta)

lemma rq_misc [simp]:
  "rqueued (s\<lparr>cpu_rsp := a\<rparr>) = rqueued s" "rqueued (s\<lparr>ticks := n\<rparr>) = rqueued s"
  "placed (s\<lparr>cpu_rsp := a\<rparr>) = placed s" "placed (s\<lparr>ticks := n\<rparr>) = placed s"
  "accounted (s\<lparr>cpu_rsp := a\<rparr>) = accounted s" "accounted (s\<lparr>ticks := n\<rparr>) = accounted s"
  "serving_order (s\<lparr>cpu_rsp := a\<rparr>) = serving_order s" "serving_order (s\<lparr>ticks := n\<rparr>) = serving_order s"
  "rqueued (s\<lparr>isYield := y\<rparr>) = rqueued s" "placed (s\<lparr>isYield := y\<rparr>) = placed s"
  "accounted (s\<lparr>isYield := y\<rparr>) = accounted s" "serving_order (s\<lparr>isYield := y\<rparr>) = serving_order s"
  by (simp_all add: rqueued_def rq_def placed_def accounted_def serving_order_def)

text \<open>
  \<open>crowded k v s\<close>: some process of priority \<open>k\<close> or more is running or ready, and \<open>v\<close> is ready
  with a priority more than two below \<open>k\<close>.
\<close>

definition crowded :: "nat \<Rightarrow> nat \<Rightarrow> ('m, 'z) sched_scheme \<Rightarrow> bool" where
  "crowded k v s \<longleftrightarrow> currentProcess s \<noteq> 0 \<and> pstate (pcb s (currentProcess s)) = RUNNING
     \<and> currentProcess s \<notin># rqueued s
     \<and> (\<forall>p \<in># rqueued s. pstate (pcb s p) = READY) \<and> (\<forall>p. count (rqueued s) p \<le> 1) \<and> placed s
     \<and> (\<exists>h. (h = currentProcess s \<or> h \<in># rqueued s) \<and> k \<le> originalPriority (pcb s h))
     \<and> v \<in># rqueued s \<and> originalPriority (pcb s v) + 2 < k"

lemma add_mset_once:
  assumes "\<forall>x. count (add_mset p A) x \<le> 1"
  shows "\<forall>x. count A x \<le> 1"
proof
  fix x
  show "count A x \<le> 1" using assms [THEN spec, of x] by (simp split: if_splits)
qed

lemma add_mset_not_once: "\<forall>x. count (add_mset p A) x \<le> 1 \<Longrightarrow> p \<notin># A"
  by (drule spec [of _ p]) (simp add: not_in_iff)

context kernel_memory
begin

definition can_queue :: "('a, 'z) sched_scheme \<Rightarrow> bool" where
  "can_queue s \<longleftrightarrow> fst (mm_alloc M (lmem (lh s)) 16) \<noteq> 0"

lemma crowded_switch:
  assumes "swf s" and "crowded k v s" and "can_queue s" and "switchContext M rsp s = (r, s')"
  shows "swf s' \<and> crowded k v s' \<and> can_queue s'"
proof -
  let ?c = "currentProcess s"
  have c: "?c \<noteq> 0" "pstate (pcb s ?c) = RUNNING" "?c \<notin># rqueued s"
    "\<forall>p \<in># rqueued s. pstate (pcb s p) = READY" "\<forall>p. count (rqueued s) p \<le> 1" "placed s"
    "v \<in># rqueued s" "originalPriority (pcb s v) + 2 < k"
    using assms(2) by (auto simp: crowded_def)
  obtain h where h: "h = ?c \<or> h \<in># rqueued s" "k \<le> originalPriority (pcb s h)"
    using assms(2) by (auto simp: crowded_def)
  show ?thesis
  proof (cases "0 < quantumsLeft s \<and> \<not> isYield s")
    case True
    then have "s' = s\<lparr>quantumsLeft := quantumsLeft s - 1\<rparr>"
      using assms(4) c(1,2) by (simp add: switchContext_def)
    then show ?thesis using assms by (simp add: crowded_def can_queue_def placed_def)
  next
    case False
    then have sw: "\<not> (pstate (pcb s ?c) = RUNNING \<and> 0 < quantumsLeft s \<and> \<not> isYield s)" by blast
    define s1 where "s1 = applyAging M (retire M rsp s)"
    note rt = retire_spec [OF assms(1) c(1) refl, where rsp = rsp]
    note ag = applyAging_keeps [OF swfD(1,2) [OF rt(1)] s1_def]
    have rq0: "rqueued (retire M rsp s) = add_mset ?c (rqueued s)"
      using rt(7) c(2) assms(3) by (simp add: can_queue_def)
    then have rq1: "rqueued s1 = add_mset ?c (rqueued s)" using ag(4) by simp
    have once1: "\<forall>p. count (rqueued s1) p \<le> 1"
      using rq1 c(3,5) by (auto simp: not_in_iff)
    have pl1: "placed s1" using ag(6) rt(8) c(3,6) rq0 rq1 once1 by simp
    have orig1: "originalPriority (pcb s1 p) = originalPriority (pcb s p)"
      and st1: "p \<in># rqueued s1 \<Longrightarrow> pstate (pcb s1 p) = READY" if "1 \<le> p" for p
      using aged_fields(2,3) [OF ages_pcb [OF ag(3) that]] rt(5) [OF that] rt(6) c(2,4) rq1
      by (cases "p = ?c"; auto)+
    from switch_spec [OF assms(1) c(1) sw s1_def assms(4)] have wf': "swf s'" "swf s1" by blast+
    have mem1: "1 \<le> p \<and> prio_ok (pcb s1 p)" if "p \<in># rqueued s1" for p
      using swfD(2) [OF wf'(2)] that by (auto simp: members_ok_def)
    have h1: "h \<in># rqueued s1" "v \<in># rqueued s1" using h c(7) rq1 by auto
    then have "\<exists>p \<in> set (serving_order s1). dispatchable s1 p"
      using st1 mem1 by (intro bexI [of _ h]) (auto simp: dispatchable_def set_serving)
    with switch_spec [OF assms(1) c(1) sw s1_def assms(4)]
    obtain xs where p: "currentProcess s' \<noteq> 0" "serving_order s1 = xs @ currentProcess s' # serving_order s'"
      "\<forall>x \<in> set xs. \<not> dispatchable s1 x"
      "\<forall>q \<ge> 1. pcb s' q = (if q = currentProcess s'
         then (pcb s1 (currentProcess s'))\<lparr>pstate := RUNNING, agingCounter := 0\<rparr> else pcb s1 q)"
      "can_queue s'" "placed s'"
      "\<forall>q \<in> set (serving_order s'). priority (pcb s1 q) \<le> priority (pcb s1 (currentProcess s'))"
      unfolding Let_def can_queue_def using pl1 by (elim conjE disjE exE) blast+
    let ?p = "currentProcess s'"
    have "xs = []"
    proof (rule ccontr)
      assume "xs \<noteq> []"
      then have "hd xs \<in># rqueued s1" "hd xs \<in> set xs"
        using p(2) by (auto simp: set_serving [symmetric])
      then show False using p(3) st1 mem1 by (auto simp: dispatchable_def)
    qed
    then have rq': "rqueued s1 = add_mset ?p (rqueued s')"
      using p(2) mset_serving [of s1] mset_serving [of s'] by simp
    have pr: "k \<le> priority (pcb s1 ?p)"
    proof (cases "h = ?p")
      case True
      then show ?thesis using mem1 [OF h1(1)] h(2) orig1 [of h] by (auto simp: prio_ok_def)
    next
      case False
      then have "h \<in> set (serving_order s')" using h1(1) rq' by (simp add: set_serving)
      then have "priority (pcb s1 h) \<le> priority (pcb s1 ?p)" using p(7) by blast
      then show ?thesis using mem1 [OF h1(1)] h(2) orig1 [of h] by (auto simp: prio_ok_def)
    qed
    have vp: "v \<noteq> ?p"
      using pr mem1 [OF h1(2)] orig1 [of v] c(8) by (auto simp: prio_ok_def)
    have notin: "?p \<notin># rqueued s'"
      using once1 rq' by (metis add_mset_not_once)
    have pcb': "pstate (pcb s' q) = pstate (pcb s1 q) \<and> originalPriority (pcb s' q) = originalPriority (pcb s1 q)"
      if "1 \<le> q" "q \<noteq> ?p" for q using p(4) that by simp
    have orig': "originalPriority (pcb s' q) = originalPriority (pcb s q)" if "1 \<le> q" for q
      using p(4) orig1 that by (cases "q = ?p") auto
    have "crowded k v s'"
      unfolding crowded_def
    proof (intro conjI)
      show "pstate (pcb s' ?p) = RUNNING" using p(1,4) by simp
      show "\<forall>q \<in># rqueued s'. pstate (pcb s' q) = READY"
        using pcb' st1 mem1 rq' notin by (metis insert_iff set_mset_add_mset_insert)
      show "\<forall>q. count (rqueued s') q \<le> 1"
        using once1 rq' by (metis add_mset_once)
      show "\<exists>h. (h = ?p \<or> h \<in># rqueued s') \<and> k \<le> originalPriority (pcb s' h)"
        using h1(1) rq' h(2) orig' [of h] mem1 [OF h1(1)] by (intro exI [of _ h]) auto
      show "v \<in># rqueued s'" using h1(2) rq' vp by simp
      show "originalPriority (pcb s' v) + 2 < k" using c(8) orig' [of v] mem1 [OF h1(2)] by simp
    qed (use p notin in auto)
    then show ?thesis using wf' p(5) by simp
  qed
qed

lemma irq00_crowded:
  assumes "swf s" and "crowded k v s" and "can_queue s"
  shows "swf (irq00Handler M s) \<and> crowded k v (irq00Handler M s) \<and> can_queue (irq00Handler M s)"
proof -
  let ?s = "s\<lparr>ticks := ticks s + 1\<rparr>"
  obtain r s' where sw: "switchContext M (cpu_rsp s) ?s = (r, s')" by force
  have "swf ?s" "crowded k v ?s" "can_queue ?s"
    using assms by (simp_all add: crowded_def can_queue_def)
  from crowded_switch [OF this sw] show ?thesis
    by (simp only: irq00_fields sw Let_def fst_conv snd_conv) (simp add: crowded_def can_queue_def)
qed

lemma ticks_crowded:
  assumes "swf s" and "crowded k v s" and "can_queue s"
  shows "swf ((irq00Handler M ^^ n) s) \<and> crowded k v ((irq00Handler M ^^ n) s)
    \<and> can_queue ((irq00Handler M ^^ n) s)"
  by (induction n) (use assms irq00_crowded in auto)

text \<open>While the quantum lasts a tick only counts.\<close>

lemma quantum_tick:
  assumes "currentProcess s \<noteq> 0" and "pstate (pcb s (currentProcess s)) = RUNNING" and "\<not> isYield s"
    and "k \<le> quantumsLeft s"
  shows "(irq00Handler M ^^ k) s = s\<lparr>quantumsLeft := quantumsLeft s - k, ticks := ticks s + k\<rparr>"
  using assms(4)
proof (induction k)
  case (Suc k)
  let ?s = "s\<lparr>quantumsLeft := quantumsLeft s - k, ticks := ticks s + k\<rparr>"
  have "irq00Handler M ?s = s\<lparr>quantumsLeft := quantumsLeft s - Suc k, ticks := ticks s + Suc k\<rparr>"
    using assms(1-3) Suc.prems by (simp add: irq00_fields switchContext_def Let_def)
  then show ?case using Suc by simp
qed simp

lemma switch_saves_context:
  assumes "swf s" and "currentProcess s = c" and "c \<noteq> 0" and "pstate (pcb s c) = RUNNING"
    and "quantumsLeft s = 0 \<or> isYield s" and "can_queue s" and "switchContext M rsp s = (r, s')"
  shows "stackEnd (pcb s' c) = rsp" and "quantumsLeft s' = 3" and "currentProcess s' \<noteq> 0"
    and "pstate (pcb s' (currentProcess s')) = RUNNING"
    and "c = currentProcess s' \<or> c \<in># rqueued s' \<and> pstate (pcb s' c) = READY"
proof -
  have sw: "\<not> (pstate (pcb s (currentProcess s)) = RUNNING \<and> 0 < quantumsLeft s \<and> \<not> isYield s)"
    using assms(5) by auto
  have nz: "currentProcess s \<noteq> 0" using assms(2,3) by simp
  define s1 where "s1 = applyAging M (retire M rsp s)"
  note rt = retire_spec [OF assms(1) nz refl, where rsp = rsp]
  note ag = applyAging_keeps [OF swfD(1,2) [OF rt(1)] s1_def]
  have "c \<in># rqueued s1"
    using ag(4) rt(7) assms(2,4,6) by (simp add: can_queue_def)
  then have c1: "c \<in> set (serving_order s1)" by (simp add: set_serving)
  have c0: "1 \<le> c" using assms(3) by simp
  have pc: "stackEnd (pcb s1 c) = rsp" "pstate (pcb s1 c) = READY"
    using aged_fields(2,4) [OF ages_pcb [OF ag(3) c0]] rt(6) assms(2,4) by (simp_all add: to_ready_def)
  then have "\<exists>p \<in> set (serving_order s1). dispatchable s1 p"
    using c1 by (intro bexI [of _ c]) (auto simp: dispatchable_def)
  with switch_spec [OF assms(1) nz sw s1_def assms(7)]
  obtain xs where p: "currentProcess s' \<noteq> 0" "serving_order s1 = xs @ currentProcess s' # serving_order s'"
    "\<forall>x \<in> set xs. \<not> dispatchable s1 x" "quantumsLeft s' = 3"
    "\<forall>q \<ge> 1. pcb s' q = (if q = currentProcess s'
       then (pcb s1 (currentProcess s'))\<lparr>pstate := RUNNING, agingCounter := 0\<rparr> else pcb s1 q)"
    unfolding Let_def by (elim conjE disjE exE) blast+
  show "stackEnd (pcb s' c) = rsp" using p(5) c0 pc(1) by (cases "c = currentProcess s'") auto
  show "quantumsLeft s' = 3" "currentProcess s' \<noteq> 0" using p(1,4) by auto
  show "pstate (pcb s' (currentProcess s')) = RUNNING" using p(1,5) by simp
  have "c \<notin> set xs" using p(3) pc(2) by (auto simp: dispatchable_def)
  then show "c = currentProcess s' \<or> c \<in># rqueued s' \<and> pstate (pcb s' c) = READY"
    using c1 p(2,5) pc(2) c0 by (auto simp: set_serving [symmetric])
qed

text \<open>Start-up creates five empty queues.\<close>

lemma init_queues_spec:
  assumes "wf (lh s)" and "distinct is" and "s' = init_queues M is s"
    and "\<forall>i \<in> set is. priorityQueues s' i \<noteq> 0"
  shows "wf (lh s') \<and> processes s' = processes s \<and> nullPid s' = nullPid s
    \<and> (\<forall>i. i \<notin> set is \<longrightarrow> priorityQueues s' i = priorityQueues s i)
    \<and> (\<forall>i \<in> set is. lq (lh s') (priorityQueues s' i) = Some [] \<and> lq (lh s) (priorityQueues s' i) = None)
    \<and> inj_on (priorityQueues s') (set is) \<and> (\<forall>q xs. lq (lh s) q = Some xs \<longrightarrow> lq (lh s') q = Some xs)"
  using assms
proof (induction "is" arbitrary: s)
  case (Cons i "is")
  obtain q l where nq: "l_newQueue M (lh s) = (q, l)" by force
  let ?s1 = "s\<lparr>lh := l, priorityQueues := (priorityQueues s)(i := q)\<rparr>"
  have s': "s' = init_queues M is ?s1" using Cons.prems(3) nq by simp
  from Cons.prems(1) nq have l: "(q \<noteq> 0 \<longrightarrow> q \<notin> owned (lh s) \<and> lq l = (lq (lh s))(q \<mapsto> [])) \<and> wf l
      \<and> (q = 0 \<longrightarrow> l = lh s)"
    by (cases rule: newQueue_cases) (use Cons.prems(1) in auto)
  have IH: "wf (lh s') \<and> processes s' = processes ?s1 \<and> nullPid s' = nullPid ?s1
    \<and> (\<forall>i. i \<notin> set is \<longrightarrow> priorityQueues s' i = priorityQueues ?s1 i)
    \<and> (\<forall>i \<in> set is. lq (lh s') (priorityQueues s' i) = Some [] \<and> lq (lh ?s1) (priorityQueues s' i) = None)
    \<and> inj_on (priorityQueues s') (set is) \<and> (\<forall>q xs. lq (lh ?s1) q = Some xs \<longrightarrow> lq (lh s') q = Some xs)"
    by (rule Cons.IH) (use Cons.prems l s' in auto)
  then have q: "priorityQueues s' i = q" using Cons.prems(2) by auto
  then have "q \<noteq> 0" using Cons.prems(4) by auto
  then have q': "lq (lh s) q = None" "lq l = (lq (lh s))(q \<mapsto> [])" using l by (auto simp: owned_def)
  from IH have e: "\<forall>j \<in> set is. lq (lh s') (priorityQueues s' j) = Some [] \<and> lq l (priorityQueues s' j) = None"
    and inj: "inj_on (priorityQueues s') (set is)"
    and old: "\<And>p xs. lq l p = Some xs \<Longrightarrow> lq (lh s') p = Some xs"
    and others: "wf (lh s') \<and> processes s' = processes s \<and> nullPid s' = nullPid s"
    and pq: "\<forall>j. j \<notin> set (i # is) \<longrightarrow> priorityQueues s' j = priorityQueues s j"
    by simp_all
  have new: "\<forall>j \<in> set is. priorityQueues s' j \<noteq> q \<and> lq (lh s) (priorityQueues s' j) = None"
  proof
    fix j assume "j \<in> set is"
    then have "lq l (priorityQueues s' j) = None" using e by blast
    then show "priorityQueues s' j \<noteq> q \<and> lq (lh s) (priorityQueues s' j) = None"
      using q'(2) by (cases "priorityQueues s' j = q") simp_all
  qed
  have keep: "lq (lh s') p = Some xs" if "lq (lh s) p = Some xs" for p xs
    by (rule old) (use that q' in auto)
  have "lq (lh s') q = Some []" by (rule old) (simp add: q'(2))
  moreover have "inj_on (priorityQueues s') (set (i # is))"
    using inj q new by (auto simp: inj_on_def)
  ultimately show ?case
    using e new q q'(1) keep others pq by simp
qed auto

lemma initScheduler_spec:
  assumes "wf (lh s)" and "s' = initScheduler M s" and "\<forall>i < 5. priorityQueues s' i \<noteq> 0"
    and "\<forall>p. 1 \<le> p \<and> p \<le> 100 \<longrightarrow> pid (pcb s p) = int p \<and> (pstate (pcb s p) \<noteq> EXITED \<longrightarrow> prio_ok (pcb s p))"
  shows "swf s'" and "currentProcess s' = 0" and "processes s' = processes s" and "rqueued s' = {#}"
    and "placed s'"
proof -
  let ?s = "init_queues M [0..<5] s"
  have s': "s' = ?s\<lparr>currentProcess := 0\<rparr>" using assms(2) by (simp add: initScheduler_def)
  have i: "wf (lh ?s)" "processes ?s = processes s" "inj_on (priorityQueues ?s) {..<5}"
    "\<forall>i < 5. lq (lh ?s) (priorityQueues ?s i) = Some []"
    using init_queues_spec [OF assms(1) _ refl, of "[0..<5]"] assms(3) s'
    by (auto simp: atLeast0LessThan)
  have rq: "rq s' i = []" if "i < 5" for i using i(4) that s' by (simp add: rq_def qdata_def qnodes_def)
  then show e: "rqueued s' = {#}" by (simp add: rqueued_def)
  show "placed s'" using rq by (simp add: placed_def)
  show p: "processes s' = processes s" "currentProcess s' = 0" using s' i by simp_all
  then have pcb': "pcb s' = pcb s" by (simp add: pcb_def fun_eq_iff)
  show "swf s'" unfolding sched_wf_def members_ok_def e pcb'
    using i s' assms(4) by (auto simp: queues_ok_def)
qed

text \<open>Blocking the current process takes it off the processor and out of the queues.\<close>

lemma block_self:
  assumes "swf s" and "accounted s" and "currentProcess s = c" and "c \<noteq> 0" and "c \<notin># rqueued s"
    and "pstate (pcb s c) = RUNNING" and "blockProcess M (int c) s = (r, s')"
  shows "r = 1" and "swf s'" and "accounted s'" and "pstate (pcb s' c) = BLOCKED"
    and "c \<notin># rqueued s'" and "currentProcess s' \<noteq> c" and "stackEnd (pcb s' c) = cpu_rsp s"
proof -
  have c: "1 \<le> c" "c \<le> 100" "pid (pcb s c) = int c" "prio_ok (pcb s c)"
    using swfD(3,4,6) [OF assms(1)] assms(3,4) by auto
  have get: "getProcess s (int c) = c"
    using c assms(6) by (simp add: getProcess_def pcb_def nat_diff_distrib)
  define sb where "sb = (upd_pcb c (\<lambda>x. x\<lparr>pstate := BLOCKED\<rparr>) s)\<lparr>isYield := True, ticks := ticks s + 1\<rparr>"
  obtain r' s'' where sw: "switchContext M (cpu_rsp s) sb = (r', s'')" by force
  have res: "r = 1" "s' = s''\<lparr>cpu_rsp := r'\<rparr>"
    using assms(3,4,7) c get sw
    by (auto simp: blockProcess_def yield_def forceSwitchContext_def irq00_fields setYield_def
        pid_at_def Let_def sb_def)
  have wfb: "swf sb"
    unfolding sb_def by (simp, rule swf_upd_pcb) (use assms(1) c in auto)
  have fb: "currentProcess sb = c" "pcb sb c = (pcb s c)\<lparr>pstate := BLOCKED\<rparr>" "rqueued sb = rqueued s"
    "\<And>q. \<lbrakk>1 \<le> q; q \<noteq> c\<rbrakk> \<Longrightarrow> pcb sb q = pcb s q"
    using assms(3) c(1) by (simp_all add: sb_def)
  have "(pstate (pcb sb p) = RUNNING \<longrightarrow> p = currentProcess sb)
      \<and> (pstate (pcb sb p) = READY \<longrightarrow> p \<in># rqueued sb)" if "1 \<le> p" "p \<le> 100" for p
    using assms(2,3) fb that by (cases "p = c") (simp_all add: accounted_def)
  then have accb: "accounted sb" by (simp add: accounted_def)
  have nz: "currentProcess sb \<noteq> 0" using fb(1) assms(4) by simp
  have stop: "\<not> (pstate (pcb sb (currentProcess sb)) = RUNNING \<and> 0 < quantumsLeft sb \<and> \<not> isYield sb)"
    using fb by simp
  have acc'': "accounted s''"
    by (rule switch_accounted(1) [OF wfb accb, where rsp = "cpu_rsp s"]) (use fb sw in simp_all)
  define s1 where "s1 = applyAging M (retire M (cpu_rsp s) sb)"
  note rt = retire_spec [OF wfb nz refl, where rsp = "cpu_rsp s"]
  note ag = applyAging_keeps [OF swfD(1,2) [OF rt(1)] s1_def]
  have rq1: "rqueued s1 = rqueued s" using ag(4) rt(7) fb by simp
  have pc1: "pstate (pcb s1 c) = BLOCKED" "stackEnd (pcb s1 c) = cpu_rsp s"
    using aged_fields(2,4) [OF ages_pcb [OF ag(3) c(1)]] rt(6) fb by simp_all
  note spec = switch_spec [OF wfb nz stop s1_def sw]
  have notc: "c \<notin> set (serving_order s1)" using rq1 assms(5) by (simp add: set_serving)
  have "c \<noteq> currentProcess s'' \<and> c \<notin># rqueued s'' \<and> pcb s'' c = pcb s1 c"
    using spec unfolding Let_def
  proof (elim conjE disjE exE, goal_cases)
    case 1
    then show ?case using assms(4) c(1) by (simp add: set_serving [symmetric])
  next
    case (2 xs)
    then show ?case using notc c(1) by (auto simp: set_serving [symmetric])
  qed
  then show "c \<notin># rqueued s'" "currentProcess s' \<noteq> c" "pstate (pcb s' c) = BLOCKED"
    "stackEnd (pcb s' c) = cpu_rsp s"
    using res pc1 by simp_all
  show "swf s'" "accounted s'" "r = 1" using res spec acc'' by simp_all
qed

lemma unblock_spec:
  assumes "swf s" and "1 \<le> p" and "p \<le> 100" and "pstate (pcb s p) = BLOCKED" and "can_queue s"
    and "unblockProcess M (int p) s = (r, s')"
  shows "r = 0" and "swf s'" and "pstate (pcb s' p) = READY" and "rqueued s' = add_mset p (rqueued s)"
    and "\<And>q. \<lbrakk>1 \<le> q; q \<noteq> p\<rbrakk> \<Longrightarrow> pcb s' q = pcb s q" and "currentProcess s' = currentProcess s"
proof -
  have get: "getProcess s (int p) = p"
    using assms(2-4) by (simp add: getProcess_def pcb_def nat_diff_distrib)
  let ?s = "upd_pcb p (\<lambda>x. x\<lparr>pstate := READY\<rparr>) s"
  have pr: "prio_ok (pcb s p)" by (rule swfD(5) [OF assms(1-3)]) (simp add: assms(4))
  have wf1: "swf ?s" by (rule swf_upd_pcb [OF assms(1-3)]) (use pr in auto)
  have res: "r = 0" "s' = schedule M p ?s"
    using assms(2,4,6) get by (auto simp: unblockProcess_def Let_def)
  have pr1: "prio_ok (pcb ?s p)" using pr assms(2) by simp
  note sc = schedule_spec [OF wf1 assms(2,3) pr1 res(2)]
  have al: "fst (mm_alloc M (lmem (lh ?s)) 16) \<noteq> 0" using assms(5) by (simp add: can_queue_def)
  show "r = 0" "swf s'" by (fact res(1) sc(1))+
  show "rqueued s' = add_mset p (rqueued s)" using sc(6) [OF al] by simp
  show "pstate (pcb s' p) = READY" "currentProcess s' = currentProcess s"
    using lh_only_fields(1,4) [OF sc(3)] assms(2) by simp_all
  show "pcb s' q = pcb s q" if "1 \<le> q" "q \<noteq> p" for q
    using lh_only_fields(1) [OF sc(3)] assms(2) that by simp
qed

end

section \<open>Start-up in a pool with room\<close>

lemma tailroom_newQueue:
  assumes "tailroom (40 + m) (lmem l)" and "8 \<le> m"
  shows "fst (l_newQueue naive_mm l) \<noteq> 0" and "tailroom m (lmem (snd (l_newQueue naive_mm l)))"
  using tailroom_alloc16 [OF assms]
  by (simp_all add: l_newQueue_def sizeof_queueCDT_def split_beta)

lemma tailroom_queue:
  assumes "tailroom (40 + m) (lmem l)" and "8 \<le> m"
  shows "tailroom m (lmem (l_queue naive_mm l q e))"
  using tailroom_alloc16 [OF assms] tailroom_mono [OF assms(1), of m]
  by (simp add: l_queue_def sizeof_node_def split_beta)

lemma tailroom_init_queues:
  assumes "tailroom (40 * length is + m) (lmem (lh s))" and "8 \<le> m" and "distinct is"
  shows "tailroom m (lmem (lh (init_queues naive_mm is s)))
    \<and> (\<forall>i \<in> set is. priorityQueues (init_queues naive_mm is s) i \<noteq> 0)
    \<and> (\<forall>i. i \<notin> set is \<longrightarrow> priorityQueues (init_queues naive_mm is s) i = priorityQueues s i)"
  using assms
proof (induction "is" arbitrary: s)
  case (Cons i "is")
  let ?nq = "l_newQueue naive_mm (lh s)"
  let ?s = "s\<lparr>lh := snd ?nq, priorityQueues := (priorityQueues s)(i := fst ?nq)\<rparr>"
  have nq: "fst ?nq \<noteq> 0" "tailroom (40 * length is + m) (lmem (snd ?nq))"
    using tailroom_newQueue [of "40 * length is + m" "lh s"] Cons.prems by (simp_all add: ac_simps)
  have "init_queues naive_mm (i # is) s = init_queues naive_mm is ?s"
    by (simp add: split_beta)
  then show ?case
    using Cons.IH [of ?s] nq Cons.prems by auto
qed simp

lemma tailroom_initScheduler:
  assumes "tailroom (200 + m) (lmem (lh s))" and "8 \<le> m"
  shows "tailroom m (lmem (lh (initScheduler naive_mm s)))"
    and "\<forall>i < 5. priorityQueues (initScheduler naive_mm s) i \<noteq> 0"
  using tailroom_init_queues [of "[0..<5]" m s] assms by (simp_all add: initScheduler_def)

section \<open>A small system\<close>

text \<open>
  Process 3 has priority 4 and process 4 has priority 1; both are ready, in a pool of
  1024 bytes. After the first context switch process 3 runs.
\<close>

definition demo_process :: "nat \<Rightarrow> Process" where
  "demo_process i = \<lparr>pname = ''p'', pid = int i + 1, argc = 0, argv = 0,
     priority = (if i = 2 then 4 else 1), originalPriority = (if i = 2 then 4 else 1),
     foreground = 0, entryPoint = 0, pstate = (if i = 2 \<or> i = 3 then READY else EXITED),
     stackBase = 0, stackEnd = 1000 * i, waitReturnValue = 0, waitPid = - 1, fd_in = 0, fd_out = 1,
     agingCounter = 0\<rparr>"

definition demo_boot :: "naive sched" where
  "demo_boot = initScheduler naive_mm \<lparr>lh = demo_lheap, processes = demo_process,
     currentProcess = 0, quantumsLeft = 0, isYield = False, priorityQueues = (\<lambda>_. 0), ticks = 0,
     cpu_rsp = 7, nullPid = 0, nullForeground = 0\<rparr>"

definition demo_ready :: "naive sched" where
  "demo_ready = schedule naive_mm 4 (schedule naive_mm 3 demo_boot)"

definition demo_running :: "naive sched" where
  "demo_running = snd (switchContext naive_mm 7 demo_ready)"

abbreviation naive_swf :: "(naive, 'z) sched_scheme \<Rightarrow> bool" where
  "naive_swf \<equiv> sched_wf naive_inv naive_live"

lemma demo_boot_facts:
  "naive_swf demo_boot" "currentProcess demo_boot = 0" "rqueued demo_boot = {#}" "placed demo_boot"
  "pcb demo_boot = (\<lambda>p. demo_process (p - 1))" "tailroom 800 (lmem (lh demo_boot))"
proof -
  let ?s = "\<lparr>lh = demo_lheap, processes = demo_process,
     currentProcess = 0, quantumsLeft = 0, isYield = False, priorityQueues = (\<lambda>_. 0), ticks = 0,
     cpu_rsp = 7, nullPid = 0, nullForeground = 0\<rparr> :: naive sched"
  have "tailroom 1000 (lmem (lh ?s))"
    using demo_pool_inv(1,2) by (simp add: tailroom_def demo_lheap_def)
  then have t: "tailroom 800 (lmem (lh demo_boot))" "\<forall>i < 5. priorityQueues demo_boot i \<noteq> 0"
    using tailroom_initScheduler [of 800 ?s] by (simp_all add: demo_boot_def)
  have "\<forall>p. 1 \<le> p \<and> p \<le> 100 \<longrightarrow> pid (pcb ?s p) = int p \<and> (pstate (pcb ?s p) \<noteq> EXITED \<longrightarrow> prio_ok (pcb ?s p))"
    by (auto simp: pcb_def demo_process_def prio_ok_def)
  from naive.initScheduler_spec [OF _ demo_boot_def t(2) this] demo_lheap_wf
  show "naive_swf demo_boot" "currentProcess demo_boot = 0" "rqueued demo_boot = {#}"
    "placed demo_boot" "pcb demo_boot = (\<lambda>p. demo_process (p - 1))"
    by (simp_all add: pcb_def fun_eq_iff)
  show "tailroom 800 (lmem (lh demo_boot))" by (rule t)
qed

lemma demo_schedule:
  assumes "naive_swf s" and "tailroom (40 + m) (lmem (lh s))" and "8 \<le> m" and "1 \<le> p" and "p \<le> 100"
    and "prio_ok (pcb s p)" and "placed s"
  shows "naive_swf (schedule naive_mm p s)" "rqueued (schedule naive_mm p s) = add_mset p (rqueued s)"
    "tailroom m (lmem (lh (schedule naive_mm p s)))" "pcb (schedule naive_mm p s) = pcb s"
    "placed (schedule naive_mm p s)" "currentProcess (schedule naive_mm p s) = currentProcess s"
    "\<forall>j < 5. rq (schedule naive_mm p s) j
      = (if j = priority (pcb s p) - 1 then rq s j @ [p] else rq s j)"
proof -
  have al: "fst (mm_alloc naive_mm (lmem (lh s)) 16) \<noteq> 0"
    using tailroom_alloc16 [OF assms(2,3)] by simp
  note sp = naive.schedule_spec [OF assms(1,4,5,6) refl]
  show "naive_swf (schedule naive_mm p s)" by (rule sp(1))
  show "rqueued (schedule naive_mm p s) = add_mset p (rqueued s)" by (rule sp(6) [OF al])
  show "pcb (schedule naive_mm p s) = pcb s" "currentProcess (schedule naive_mm p s) = currentProcess s"
    by (rule lh_only_fields [OF sp(3)])+
  show "tailroom m (lmem (lh (schedule naive_mm p s)))"
    using tailroom_queue [OF assms(2,3)] tailroom_mono [OF assms(2), of m] by (simp add: schedule_def)
  show rq': "\<forall>j < 5. rq (schedule naive_mm p s) j
      = (if j = priority (pcb s p) - 1 then rq s j @ [p] else rq s j)"
    by (intro allI impI) (rule sp(5) [OF al])
  show "placed (schedule naive_mm p s)"
    unfolding placed_def lh_only_fields(1) [OF sp(3)]
  proof (intro allI impI ballI)
    fix i q assume i: "i < 5" and q: "q \<in> set (rq (schedule naive_mm p s) i)"
    have "rq (schedule naive_mm p s) i = (if i = priority (pcb s p) - 1 then rq s i @ [p] else rq s i)"
      by (rule sp(5) [OF al i])
    then have "q \<in> set (rq s i) \<or> q = p \<and> i = priority (pcb s p) - 1"
      using q by (cases "i = priority (pcb s p) - 1") (simp_all add: disj_commute)
    then show "priority (pcb s q) = i + 1"
    proof
      assume "q \<in> set (rq s i)"
      then show ?thesis using assms(7) i by (simp add: placed_def)
    next
      assume "q = p \<and> i = priority (pcb s p) - 1"
      then show ?thesis using assms(6) by (simp add: prio_ok_def)
    qed
  qed
qed

lemma demo_ready_facts:
  "naive_swf demo_ready" "currentProcess demo_ready = 0" "rqueued demo_ready = {#3, 4#}"
  "placed demo_ready" "pcb demo_ready = (\<lambda>p. demo_process (p - 1))"
  "tailroom 720 (lmem (lh demo_ready))" "serving_order demo_ready = [3, 4]"
proof -
  let ?s = "schedule naive_mm 3 demo_boot"
  have n: "8 \<le> (760 :: nat)" "1 \<le> (3 :: nat)" "3 \<le> (100 :: nat)" "8 \<le> (720 :: nat)"
    "1 \<le> (4 :: nat)" "4 \<le> (100 :: nat)" by simp_all
  have p3: "prio_ok (pcb demo_boot 3)" by (simp add: demo_boot_facts(5) demo_process_def prio_ok_def)
  have t3: "tailroom (40 + 760) (lmem (lh demo_boot))" using demo_boot_facts(6) by simp
  note a = demo_schedule [OF demo_boot_facts(1) t3 n(1-3) p3 demo_boot_facts(4)]
  have p4: "prio_ok (pcb ?s 4)" by (simp add: a(4) demo_boot_facts(5) demo_process_def prio_ok_def)
  have t4: "tailroom (40 + 720) (lmem (lh ?s))" using a(3) by simp
  note b = demo_schedule [OF a(1) t4 n(4-6) p4 a(5)]
  show "naive_swf demo_ready" "placed demo_ready" "tailroom 720 (lmem (lh demo_ready))"
    unfolding demo_ready_def by (rule b)+
  show "currentProcess demo_ready = 0"
    unfolding demo_ready_def b(6) a(6) by (rule demo_boot_facts)
  show "rqueued demo_ready = {#3, 4#}"
    unfolding demo_ready_def b(2) a(2) demo_boot_facts(3) by simp
  show "pcb demo_ready = (\<lambda>p. demo_process (p - 1))"
    unfolding demo_ready_def b(4) a(4) by (rule demo_boot_facts)
  have "rq demo_boot i = []" if "i < 5" for i
    using demo_boot_facts(3) that in_rqueued [of _ demo_boot] by (cases "rq demo_boot i") fastforce+
  then have "rq demo_ready i = (if i = 3 then [3] else if i = 0 then [4] else [])" if "i < 5" for i
    unfolding demo_ready_def using a(7) b(7) that
    by (simp add: a(4) demo_boot_facts(5) demo_process_def)
  then show "serving_order demo_ready = [3, 4]" by (simp add: serving_order_def)
qed

lemma demo_running_facts:
  "naive_swf demo_running" "currentProcess demo_running = 3" "rqueued demo_running = {#4#}"
  "serving_order demo_running = [4]"
  "pcb demo_running 3 = (demo_process 2)\<lparr>pstate := RUNNING\<rparr>" "pcb demo_running 4 = demo_process 3"
  "placed demo_running" "fst (allocMemory_naive (lmem (lh demo_running)) 16) \<noteq> 0"
  "quantumsLeft demo_running = 3" "\<not> isYield demo_running" "accounted demo_running"
proof -
  obtain r where sw: "switchContext naive_mm 7 demo_ready = (r, demo_running)"
    unfolding demo_running_def by (cases "switchContext naive_mm 7 demo_ready") simp
  note i = naive.switch_idle_start [OF demo_ready_facts(1,2) sw]
  show "naive_swf demo_running" by (rule i(1))
  show c: "currentProcess demo_running = 3" and so: "serving_order demo_running = [4]"
    using i(3) demo_ready_facts(7) by auto
  show "placed demo_running" by (rule i(4) [OF demo_ready_facts(4)])
  show "fst (allocMemory_naive (lmem (lh demo_running)) 16) \<noteq> 0"
    using i(5) c by simp
  have "\<not> isYield demo_ready"
    by (simp add: demo_ready_def demo_boot_def schedule_def initScheduler_def upt_rec split_beta)
  then show "quantumsLeft demo_running = 3" "\<not> isYield demo_running" using i(6) c by simp_all
  have "accounted demo_ready"
    unfolding accounted_def demo_ready_facts(3,5) by (auto simp: demo_process_def)
  then show "accounted demo_running"
    by (rule naive.switch_accounted(1) [OF demo_ready_facts(1) _ _ demo_running_def])
      (simp add: demo_ready_facts(2))
  show "rqueued demo_running = {#4#}" using mset_serving [of demo_running] so by simp
  have "\<forall>q \<ge> 1. pcb demo_running q = (if q = 3
      then (pcb demo_ready q)\<lparr>pstate := RUNNING, agingCounter := 0\<rparr> else pcb demo_ready q)"
    using i(3) c by auto
  then show "pcb demo_running 3 = (demo_process 2)\<lparr>pstate := RUNNING\<rparr>"
    and "pcb demo_running 4 = demo_process 3"
    by (simp_all add: demo_ready_facts(5) demo_process_def)
qed

section \<open>Properties\<close>

text \<open>
  C6: a context switch keeps the scheduler well formed (queue memory, membership, priorities
  between the assigned one and two above it), leaves at most the current process running, and
  loses no ready process. It ends without a current process only when no process is ready,
  and otherwise with a current process that is running. The one condition is that, when a
  running process is to be put back, a queue node can be allocated for it.
\<close>

theorem switch_invariant:
  assumes "sched_wf naive_inv naive_live s" and "accounted s"
    and "currentProcess s \<noteq> 0 \<and> pstate (pcb s (currentProcess s)) = RUNNING
      \<longrightarrow> fst (allocMemory_naive (lmem (lh s)) 16) \<noteq> 0"
    and "s' = snd (switchContext naive_mm rsp s)"
  shows "sched_wf naive_inv naive_live s' \<and> accounted s'
    \<and> (currentProcess s' = 0 \<longrightarrow> (\<forall>p. 1 \<le> p \<and> p \<le> 100 \<longrightarrow> pstate (pcb s' p) \<noteq> READY))
    \<and> (currentProcess s' \<noteq> 0 \<longrightarrow> pstate (pcb s' (currentProcess s')) = RUNNING)"
proof -
  have al: "fst (mm_alloc naive_mm (lmem (lh s)) 16) \<noteq> 0"
    if "currentProcess s \<noteq> 0" "pstate (pcb s (currentProcess s)) = RUNNING"
    using assms(3) that by simp
  note acc = naive.switch_accounted [OF assms(1,2) al assms(4)]
  have "sched_wf naive_inv naive_live s'"
    unfolding assms(4) by (rule naive.switch_swf(1) [OF assms(1)])
  then show ?thesis using acc by blast
qed

lemma switch_invariant_witness: "accounted demo_running"
proof -
  have "accounted demo_ready"
    unfolding accounted_def demo_ready_facts(3,5) by (auto simp: demo_process_def)
  then show ?thesis
    using switch_invariant [OF demo_ready_facts(1) _ _ demo_running_def] demo_ready_facts(2) by simp
qed

text \<open>
  C7: strict priority with first-in first-out inside a level. When the current process stops
  running, the queues are aged and then served from the highest priority down; the process
  dispatched is the first in that order that is neither blocked nor exited, exactly the
  entries in front of it are dropped, and it gets a fresh quantum and its saved stack
  pointer. If there is none the processor keeps the old stack pointer and no process is current.
\<close>

theorem switch_dispatch_order:
  assumes "sched_wf naive_inv naive_live s" and "currentProcess s \<noteq> 0"
    and "\<not> (pstate (pcb s (currentProcess s)) = RUNNING \<and> 0 < quantumsLeft s \<and> \<not> isYield s)"
    and "s1 = applyAging naive_mm (retire naive_mm rsp s)"
    and "switchContext naive_mm rsp s = (r, s')"
  shows "case filter (dispatchable s1) (serving_order s1) of
      [] \<Rightarrow> currentProcess s' = 0 \<and> r = rsp \<and> serving_order s' = []
    | p # ps \<Rightarrow> currentProcess s' = p \<and> r = stackEnd (pcb s1 p) \<and> quantumsLeft s' = 3
        \<and> \<not> isYield s' \<and> serving_order s' = tl (dropWhile (\<lambda>x. \<not> dispatchable s1 x) (serving_order s1))"
  using naive.switch_spec [OF assms]
proof (elim conjE disjE exE, goal_cases)
  case 1
  then show ?case by simp
next
  case (2 xs)
  let ?p = "currentProcess s'"
  from 2 have so: "serving_order s1 = xs @ ?p # serving_order s'" and xs: "\<forall>x \<in> set xs. \<not> dispatchable s1 x"
    and p: "dispatchable s1 ?p" "r = stackEnd (pcb s1 ?p)" "quantumsLeft s' = 3" "\<not> isYield s'"
    by (simp_all add: Let_def)
  have "filter (dispatchable s1) (serving_order s1) = ?p # filter (dispatchable s1) (serving_order s')"
    using so xs p(1) by simp
  moreover have "dropWhile (\<lambda>x. \<not> dispatchable s1 x) (serving_order s1) = ?p # serving_order s'"
    using so xs p(1) by (simp add: dropWhile_append3)
  ultimately show ?case using p by simp
qed

lemma switch_dispatch_order_witness:
  "let s = setYield demo_running in
   fst (switchContext naive_mm 7 s) \<in> {7} \<union> range (\<lambda>p. stackEnd (pcb (applyAging naive_mm (retire naive_mm 7 s)) p))"
proof -
  let ?s = "setYield demo_running"
  have wf: "sched_wf naive_inv naive_live ?s"
    using demo_running_facts(1) by (simp add: setYield_def)
  have c: "currentProcess ?s \<noteq> 0" "\<not> (pstate (pcb ?s (currentProcess ?s)) = RUNNING \<and> 0 < quantumsLeft ?s \<and> \<not> isYield ?s)"
    using demo_running_facts(2) by (simp_all add: setYield_def)
  from switch_dispatch_order [OF wf c refl surjective_pairing, of 7] show ?thesis
    by (auto simp: Let_def split: list.splits)
qed

text \<open>
  C8: aging never loses or duplicates a queued process, even with the allocator exhausted: the
  multiset of queued processes is unchanged, no process changes state or assigned priority,
  and effective priorities stay between the assigned one and two above it, at most five.
\<close>

theorem aging_conserves:
  assumes "sched_wf naive_inv naive_live s"
  shows "rqueued (applyAging naive_mm s) = rqueued s
    \<and> sched_wf naive_inv naive_live (applyAging naive_mm s)
    \<and> (\<forall>p \<ge> 1. pstate (pcb (applyAging naive_mm s) p) = pstate (pcb s p)
          \<and> originalPriority (pcb (applyAging naive_mm s) p) = originalPriority (pcb s p)
          \<and> stackEnd (pcb (applyAging naive_mm s) p) = stackEnd (pcb s p))
    \<and> (\<forall>p \<in># rqueued s. let x = pcb (applyAging naive_mm s) p in
          originalPriority x \<le> priority x \<and> priority x \<le> originalPriority x + 2 \<and> priority x \<le> 5)"
proof -
  let ?s = "applyAging naive_mm s"
  note k = naive.applyAging_keeps [OF naive.swfD(1,2) [OF assms] refl]
  have wf: "sched_wf naive_inv naive_live ?s" by (rule naive.swf_ages [OF assms k(3,1,5)])
  have "prio_ok (pcb ?s p)" if "p \<in># rqueued s" for p
    using k(4,5) that by (simp add: members_ok_def)
  then show ?thesis
    using k(4) wf aged_fields(2,3,4) [OF ages_pcb [OF k(3)]] by (simp add: prio_ok_def Let_def)
qed

lemma aging_conserves_witness: "rqueued (applyAging naive_mm demo_ready) = {#3, 4#}"
  using aging_conserves [OF demo_ready_facts(1)] demo_ready_facts(3) by simp



text \<open>
  a quantum is three ticks. A running process that does not yield sees three timer ticks
  that change nothing but the tick and quantum counters; at the fourth its stack pointer is
  saved, and it is either dispatched again or waits, ready, in the queues, while some process
  starts a new quantum.
\<close>

theorem quantum_length:
  assumes "sched_wf naive_inv naive_live s" and "currentProcess s = c" and "c \<noteq> 0"
    and "pstate (pcb s c) = RUNNING" and "\<not> isYield s" and "quantumsLeft s = DEFAULT_QUANTUM"
    and "fst (allocMemory_naive (lmem (lh s)) 16) \<noteq> 0" and "s4 = (irq00Handler naive_mm ^^ 4) s"
  shows "(\<forall>k \<le> 3. (irq00Handler naive_mm ^^ k) s = s\<lparr>quantumsLeft := 3 - k, ticks := ticks s + k\<rparr>)
    \<and> stackEnd (pcb s4 c) = cpu_rsp s \<and> quantumsLeft s4 = DEFAULT_QUANTUM
    \<and> (currentProcess s4 = c \<or> c \<in># rqueued s4 \<and> pstate (pcb s4 c) = READY)"
proof -
  have tick: "(irq00Handler naive_mm ^^ k) s = s\<lparr>quantumsLeft := 3 - k, ticks := ticks s + k\<rparr>"
    if "k \<le> 3" for k
    using naive.quantum_tick [of s k] assms(2-6) that by simp
  let ?s3 = "s\<lparr>quantumsLeft := 0, ticks := ticks s + 3\<rparr>"
  let ?t = "?s3\<lparr>ticks := ticks ?s3 + 1\<rparr>"
  obtain r s' where sw: "switchContext naive_mm (cpu_rsp s) ?t = (r, s')" by force
  have "s4 = irq00Handler naive_mm ((irq00Handler naive_mm ^^ 3) s)"
    by (simp add: assms(8) numeral_eq_Suc)
  then have s4: "s4 = s'\<lparr>cpu_rsp := r\<rparr>"
    using tick [of 3] sw by (simp add: irq00_fields)
  have "sched_wf naive_inv naive_live ?t" using assms(1) by simp
  note sv = naive.switch_saves_context [OF this _ assms(3) _ _ _ sw]
  have "stackEnd (pcb s' c) = cpu_rsp s" "quantumsLeft s' = 3"
    "c = currentProcess s' \<or> c \<in># rqueued s' \<and> pstate (pcb s' c) = READY"
    using sv(1,2,5) assms(2,4,7) by (simp_all add: naive.can_queue_def)
  then show ?thesis using tick s4 by auto
qed

lemma quantum_length_witness: "quantumsLeft ((irq00Handler naive_mm ^^ 4) demo_running) = 3"
  using quantum_length [OF demo_running_facts(1,2)] demo_running_facts(5,8,9,10) by simp

text \<open>
  blocking and unblocking. A running process that blocks itself is neither current nor
  queued afterwards, with its stack pointer saved, and no other process is disturbed as far
  as being accounted for goes; unblocking it makes it ready and queued once, and unblocking
  a process that is not blocked is refused without effect.
\<close>

theorem block_then_unblock:
  assumes "sched_wf naive_inv naive_live s" and "accounted s" and "currentProcess s = c" and "c \<noteq> 0"
    and "c \<notin># rqueued s" and "pstate (pcb s c) = RUNNING"
    and "blockProcess naive_mm (int c) s = (r, s')" and "unblockProcess naive_mm (int c) s' = (r', s'')"
  shows "r = 1 \<and> pstate (pcb s' c) = BLOCKED \<and> c \<notin># rqueued s' \<and> currentProcess s' \<noteq> c
    \<and> stackEnd (pcb s' c) = cpu_rsp s \<and> sched_wf naive_inv naive_live s' \<and> accounted s'
    \<and> (fst (allocMemory_naive (lmem (lh s')) 16) \<noteq> 0 \<longrightarrow>
         r' = 0 \<and> pstate (pcb s'' c) = READY \<and> rqueued s'' = add_mset c (rqueued s') \<and> accounted s'')
    \<and> unblockProcess naive_mm (int c) s = (- 1, s)"
proof -
  note b = naive.block_self [OF assms(1-7)]
  have c: "1 \<le> c" "c \<le> 100" using naive.swfD(3) [OF assms(1)] assms(3,4) by auto
  have "r' = 0 \<and> pstate (pcb s'' c) = READY \<and> rqueued s'' = add_mset c (rqueued s') \<and> accounted s''"
    if "fst (allocMemory_naive (lmem (lh s')) 16) \<noteq> 0"
  proof -
    have "naive.can_queue s'" using that by (simp add: naive.can_queue_def)
    note u = naive.unblock_spec [OF b(2) c b(4) this assms(8)]
    have "(pstate (pcb s'' p) = RUNNING \<longrightarrow> p = currentProcess s'')
        \<and> (pstate (pcb s'' p) = READY \<longrightarrow> p \<in># rqueued s'')" if "1 \<le> p" "p \<le> 100" for p
      using b(3) that u(3-6) by (cases "p = c") (auto simp: accounted_def)
    then show ?thesis using u by (simp add: accounted_def)
  qed
  moreover have "unblockProcess naive_mm (int c) s = (- 1, s)"
    using c assms(6) by (simp add: unblockProcess_def getProcess_def pcb_def Let_def nat_diff_distrib)
  ultimately show ?thesis using b by blast
qed

lemma block_then_unblock_witness:
  "pstate (pcb (snd (blockProcess naive_mm 3 demo_running)) 3) = BLOCKED"
  using block_then_unblock [OF demo_running_facts(1,11,2) _ _ _ surjective_pairing surjective_pairing]
    demo_running_facts(3,5) by simp

end
