(* ===== verification/Kernel_Lib.thy ===== *)
theory Kernel_Lib
  imports Prelude
begin

text \<open>
  \<open>Kernel/lib.c\<close>: block copies, string length and comparison and decimal conversion, over a
  byte memory. \<open>cstr\<close> relates a memory to the string it holds; the rest of the kernel model
  works with strings, and the lemmas here are what justifies that.
\<close>

type_synonym mem = "nat \<Rightarrow> u8"

section \<open>The program\<close>

fun memset_loop :: "mem \<Rightarrow> addr \<Rightarrow> u8 \<Rightarrow> nat \<Rightarrow> mem" where
  "memset_loop m dst chr 0 = m"
| "memset_loop m dst chr (Suc n) = memset_loop (m(dst + n := chr)) dst chr n"

definition memset :: "mem \<Rightarrow> addr \<Rightarrow> int \<Rightarrow> nat \<Rightarrow> addr \<times> mem" where
  "memset m dst c len = (dst, memset_loop m dst (word_of_int c) len)"

text \<open>A 32-bit load and store, little endian, as one assignment \<open>d[i] = s[i]\<close> of the wide loop.\<close>

definition copy_word :: "mem \<Rightarrow> addr \<Rightarrow> addr \<Rightarrow> mem" where
  "copy_word m d s = m(d := m s, d + 1 := m (s + 1), d + 2 := m (s + 2), d + 3 := m (s + 3))"

fun copy_words :: "nat \<Rightarrow> nat \<Rightarrow> mem \<Rightarrow> addr \<Rightarrow> addr \<Rightarrow> mem" where
  "copy_words 0 i m d s = m"
| "copy_words (Suc k) i m d s = copy_words k (i + 1) (copy_word m (d + 4 * i) (s + 4 * i)) d s"

fun copy_bytes :: "nat \<Rightarrow> nat \<Rightarrow> mem \<Rightarrow> addr \<Rightarrow> addr \<Rightarrow> mem" where
  "copy_bytes 0 i m d s = m"
| "copy_bytes (Suc k) i m d s = copy_bytes k (i + 1) (m(d + i := m (s + i))) d s"

definition memcpy :: "mem \<Rightarrow> addr \<Rightarrow> addr \<Rightarrow> nat \<Rightarrow> addr \<times> mem" where
  "memcpy m destination source len =
     (if destination mod 4 = 0 \<and> source mod 4 = 0 \<and> len mod 4 = 0
      then (destination, copy_words (len div 4) 0 m destination source)
      else (destination, copy_bytes len 0 m destination source))"

text \<open>The scans look for a zero byte and need not end; \<open>None\<close> stands for not returning.\<close>

partial_function (option) strlen_loop :: "mem \<Rightarrow> addr \<Rightarrow> nat \<Rightarrow> nat option" where
  "strlen_loop m str len =
     (if str \<noteq> 0 \<and> m (str + len) \<noteq> 0 then strlen_loop m str (len + 1) else Some len)"

definition strlen :: "mem \<Rightarrow> addr \<Rightarrow> nat option" where
  "strlen m str = strlen_loop m str 0"

partial_function (option) strcmp_loop :: "mem \<Rightarrow> addr \<Rightarrow> addr \<Rightarrow> int option" where
  "strcmp_loop m str1 str2 =
     (if m str1 \<noteq> 0 \<and> m str2 \<noteq> 0
      then if m str1 \<noteq> m str2 then Some (sint (m str1) - sint (m str2))
           else strcmp_loop m (str1 + 1) (str2 + 1)
      else Some (sint (m str1) - sint (m str2)))"

definition strcmp_mem :: "mem \<Rightarrow> addr \<Rightarrow> addr \<Rightarrow> int option" where
  "strcmp_mem m str1 str2 =
     (if str1 = 0 \<or> str2 = 0
      then Some (if str1 = str2 then 0 else if str1 = 0 then - 1 else 1)
      else strcmp_loop m str1 str2)"

text \<open>\<open>itoa\<close>: the digits come out least significant first and are then reversed in place.\<close>

fun itoa_digits :: "nat \<Rightarrow> nat \<Rightarrow> string" where
  "itoa_digits fuel v =
     char_of (v mod 10 + 48) # (if fuel = 0 \<or> v div 10 = 0 then [] else itoa_digits (fuel - 1) (v div 10))"

declare itoa_digits.simps [simp del]

fun reverse_loop :: "nat \<Rightarrow> nat \<Rightarrow> string \<Rightarrow> string" where
  "reverse_loop 0 j xs = xs"
| "reverse_loop (Suc k) j xs =
     reverse_loop k (j + 1) (xs[j := xs ! (length xs - j - 1), length xs - j - 1 := xs ! j])"

definition itoa :: "int \<Rightarrow> string" where
  "itoa v =
     (let ds = itoa_digits (nat (abs v)) (nat (abs v));
          buf = (if v < 0 then ds @ ''-'' else ds)
      in reverse_loop (length buf div 2) 0 buf)"

section \<open>Block operations\<close>

lemma memset_loop_spec:
  "memset_loop m dst c n x = (if dst \<le> x \<and> x < dst + n then c else m x)"
  by (induction n arbitrary: m) auto

lemma copy_bytes_spec:
  "\<lbrakk>{d + i..<d + i + k} \<inter> {s + i..<s + i + k} = {}\<rbrakk>
   \<Longrightarrow> copy_bytes k i m d s x = (if d + i \<le> x \<and> x < d + i + k then m (s + (x - d)) else m x)"
proof (induction k arbitrary: i m)
  case (Suc k)
  let ?m = "m(d + i := m (s + i))"
  have sub: "{d + (i + 1)..<d + (i + 1) + k} \<inter> {s + (i + 1)..<s + (i + 1) + k} = {}"
    using Suc.prems by fastforce
  have "copy_bytes (Suc k) i m d s x
      = (if d + (i + 1) \<le> x \<and> x < d + (i + 1) + k then ?m (s + (x - d)) else ?m x)"
    by (simp only: copy_bytes.simps copy_words.simps Suc.IH [OF sub])
  moreover have "s + (x - d) \<noteq> d + i" if "d + (i + 1) \<le> x" "x < d + (i + 1) + k"
  proof
    assume eq: "s + (x - d) = d + i"
    have "d + i \<in> {d + i..<d + i + Suc k}" by simp
    moreover have "s + (x - d) \<in> {s + i..<s + i + Suc k}" using that by auto
    ultimately show False using Suc.prems eq by auto
  qed
  ultimately show ?case by auto
qed auto

lemma copy_words_spec:
  "\<lbrakk>{d + 4 * i..<d + 4 * i + 4 * k} \<inter> {s + 4 * i..<s + 4 * i + 4 * k} = {}\<rbrakk>
   \<Longrightarrow> copy_words k i m d s x
     = (if d + 4 * i \<le> x \<and> x < d + 4 * i + 4 * k then m (s + (x - d)) else m x)"
proof (induction k arbitrary: i m)
  case (Suc k)
  let ?m = "copy_word m (d + 4 * i) (s + 4 * i)"
  have sub: "{d + 4 * (i + 1)..<d + 4 * (i + 1) + 4 * k} \<inter> {s + 4 * (i + 1)..<s + 4 * (i + 1) + 4 * k} = {}"
    using Suc.prems by fastforce
  have "copy_words (Suc k) i m d s x
      = (if d + 4 * (i + 1) \<le> x \<and> x < d + 4 * (i + 1) + 4 * k then ?m (s + (x - d)) else ?m x)"
    by (simp only: copy_bytes.simps copy_words.simps Suc.IH [OF sub])
  moreover have "?m y = m y" if "y < d + 4 * i \<or> d + 4 * i + 4 \<le> y" for y
    using that by (auto simp: copy_word_def)
  moreover have "s + (x - d) < d + 4 * i \<or> d + 4 * i + 4 \<le> s + (x - d)"
    if "d + 4 * (i + 1) \<le> x" "x < d + 4 * (i + 1) + 4 * k"
  proof (rule ccontr)
    assume "\<not> ?thesis"
    then have "s + (x - d) \<in> {d + 4 * i..<d + 4 * i + 4 * Suc k} \<inter> {s + 4 * i..<s + 4 * i + 4 * Suc k}"
      using that by auto
    then show False using Suc.prems by auto
  qed
  moreover have "?m (d + 4 * i + j) = m (s + 4 * i + j)" if "j < 4" for j
    using that by (auto simp: copy_word_def numeral_eq_Suc less_Suc_eq)
  moreover have "\<exists>j < 4. x = d + 4 * i + j" if "d + 4 * i \<le> x" "x < d + 4 * i + 4"
    using that by (intro exI [of _ "x - (d + 4 * i)"]) auto
  ultimately show ?case
    by (auto simp: not_le) (metis add.commute add.assoc add_diff_cancel_left')+
qed auto

section \<open>Strings\<close>

definition byte :: "char \<Rightarrow> u8" where
  "byte c = of_nat (of_char c)"

lemma unat_byte [simp]: "unat (byte c) = of_char c"
  by (simp add: byte_def unat_of_nat)

lemma byte_inj [simp]: "byte c = byte d \<longleftrightarrow> c = d"
  by (metis unat_byte of_char_eq_iff)

definition nulfree :: "string \<Rightarrow> bool" where
  "nulfree s \<longleftrightarrow> CHR 0x00 \<notin> set s"

lemma byte_0 [simp]: "byte c = 0 \<longleftrightarrow> c = CHR 0x00"
proof -
  have "byte (CHR 0x00) = 0" by (simp add: byte_def)
  then show ?thesis by (metis byte_inj)
qed

fun cstr :: "mem \<Rightarrow> addr \<Rightarrow> string \<Rightarrow> bool" where
  "cstr m p [] = (m p = 0)"
| "cstr m p (c # cs) = (m p = byte c \<and> c \<noteq> CHR 0x00 \<and> cstr m (p + 1) cs)"

text \<open>Comparison of strings as the kernel computes it; \<open>char\<close> is signed.\<close>

fun strcmp :: "string \<Rightarrow> string \<Rightarrow> int" where
  "strcmp (a # as) (b # bs) = (if a \<noteq> b then sint (byte a) - sint (byte b) else strcmp as bs)"
| "strcmp (a # as) [] = sint (byte a)"
| "strcmp [] (b # bs) = - sint (byte b)"
| "strcmp [] [] = 0"

lemma strlen_loop_cstr:
  "\<lbrakk>cstr m (p + n) str; p \<noteq> 0\<rbrakk> \<Longrightarrow> strlen_loop m p n = Some (n + length str)"
proof (induction str arbitrary: n)
  case Nil
  then show ?case by (subst strlen_loop.simps) simp
next
  case (Cons c cs)
  then show ?case by (subst strlen_loop.simps) simp
qed

lemma strcmp_loop_cstr:
  "\<lbrakk>cstr m p a; cstr m q b\<rbrakk> \<Longrightarrow> strcmp_loop m p q = Some (strcmp a b)"
proof (induction a b arbitrary: p q rule: strcmp.induct)
  case (1 a as b bs)
  then show ?case by (subst strcmp_loop.simps) auto
qed (subst strcmp_loop.simps; simp)+

lemma sint_inj: "sint (v :: u8) = sint w \<longleftrightarrow> v = w"
  by (rule signed_word_eqI [THEN iffI]) auto

lemma strcmp_eq_0: "\<lbrakk>nulfree a; nulfree b\<rbrakk> \<Longrightarrow> strcmp a b = 0 \<longleftrightarrow> a = b"
  by (induction a b rule: strcmp.induct) (auto simp: nulfree_def signed_eq_0_iff sint_inj)

section \<open>Decimal numerals\<close>

fun undigits :: "string \<Rightarrow> nat" where
  "undigits [] = 0"
| "undigits (c # cs) = of_char c - 48 + 10 * undigits cs"

lemma of_char_digit [simp]: "d < 10 \<Longrightarrow> of_char (char_of (d + 48) :: char) = (d + 48 :: nat)"
  by simp

lemma itoa_digits_value: "v \<le> fuel \<Longrightarrow> undigits (itoa_digits fuel v) = v"
proof (induction fuel arbitrary: v)
  case 0
  then show ?case by (subst itoa_digits.simps) simp
next
  case (Suc fuel)
  have "v div 10 \<le> fuel" using Suc.prems by linarith
  then show ?case
    using Suc.IH [of "v div 10"] by (subst itoa_digits.simps) auto
qed

lemma itoa_digits_set: "c \<in> set (itoa_digits fuel v) \<Longrightarrow> 48 \<le> (of_char c :: nat) \<and> (of_char c :: nat) < 58"
proof (induction fuel arbitrary: v)
  case 0
  then show ?case by (subst (asm) itoa_digits.simps) simp
next
  case (Suc fuel)
  then show ?case by (subst (asm) (2) itoa_digits.simps) (auto split: if_splits)
qed

lemma reverse_loop_length [simp]: "length (reverse_loop k j xs) = length xs"
  by (induction k arbitrary: j xs) auto

lemma reverse_loop_nth:
  "\<lbrakk>2 * (j + k) \<le> length xs; i < length xs\<rbrakk>
   \<Longrightarrow> reverse_loop k j xs ! i
     = (if j \<le> i \<and> i < j + k \<or> length xs - (j + k) \<le> i \<and> i < length xs - j
        then xs ! (length xs - i - 1) else xs ! i)"
proof (induction k arbitrary: j xs)
  case (Suc k)
  let ?ys = "xs[j := xs ! (length xs - j - 1), length xs - j - 1 := xs ! j]"
  have len: "length ?ys = length xs" by simp
  have IH: "reverse_loop k (j + 1) ?ys ! i
      = (if j + 1 \<le> i \<and> i < j + 1 + k \<or> length xs - (j + 1 + k) \<le> i \<and> i < length xs - (j + 1)
         then ?ys ! (length xs - i - 1) else ?ys ! i)"
    using Suc.IH [of "j + 1" ?ys] Suc.prems by simp
  have jn: "j < length xs" "length xs - j - 1 < length xs" "j \<noteq> length xs - j - 1"
    using Suc.prems by auto
  have ys: "?ys ! l = (if l = j \<or> l = length xs - j - 1 then xs ! (length xs - l - 1) else xs ! l)"
    if "l < length xs" for l
    using that jn by (auto simp: nth_list_update)
  have i: "i < length xs" "length xs - i - 1 < length xs" using Suc.prems by auto
  consider "i = j" | "i = length xs - j - 1" | "i \<noteq> j" "i \<noteq> length xs - j - 1" by blast
  then show ?case
  proof cases
    case 1
    then show ?thesis unfolding reverse_loop.simps IH ys [OF i(1)] ys [OF i(2)] using Suc.prems by auto
  next
    case 2
    then show ?thesis unfolding reverse_loop.simps IH ys [OF i(1)] ys [OF i(2)] using Suc.prems by auto
  next
    case 3
    then have "length xs - i - 1 \<noteq> j" "length xs - i - 1 \<noteq> length xs - j - 1" using Suc.prems by auto
    moreover have "(j + 1 \<le> i \<and> i < j + 1 + k \<or> length xs - (j + 1 + k) \<le> i \<and> i < length xs - (j + 1))
      \<longleftrightarrow> (j \<le> i \<and> i < j + Suc k \<or> length xs - (j + Suc k) \<le> i \<and> i < length xs - j)"
      using 3 Suc.prems by auto
    ultimately show ?thesis
      unfolding reverse_loop.simps IH ys [OF i(1)] ys [OF i(2)] using 3 by simp
  qed
qed auto

lemma reverse_loop_rev: "reverse_loop (length xs div 2) 0 xs = rev xs"
proof (rule nth_equalityI)
  fix i assume i: "i < length (reverse_loop (length xs div 2) 0 xs)"
  have "2 * (length xs div 2) \<le> length xs" by simp
  moreover have "i < length xs div 2 \<or> length xs - length xs div 2 \<le> i \<or> length xs - i - 1 = i"
    using i by auto
  ultimately show "reverse_loop (length xs div 2) 0 xs ! i = rev xs ! i"
    using i by (auto simp: reverse_loop_nth rev_nth)
qed simp

lemma itoa_rev:
  "itoa v = rev (itoa_digits (nat (abs v)) (nat (abs v)) @ (if v < 0 then ''-'' else []))"
  by (simp add: itoa_def Let_def reverse_loop_rev)

section \<open>Properties\<close>

text \<open>
  \<open>memcpy\<close> copies. For regions that do not overlap, whichever of the wide or the bytewise
  loop the alignment selects, the destination ends up with the source's bytes and no other
  byte of memory changes.
\<close>

theorem memcpy_copies:
  assumes "{destination..<destination + len} \<inter> {source..<source + len} = {}"
  shows "fst (memcpy m destination source len) = destination
    \<and> (\<forall>i < len. snd (memcpy m destination source len) (destination + i) = m (source + i))
    \<and> (\<forall>x. x < destination \<or> destination + len \<le> x \<longrightarrow> snd (memcpy m destination source len) x = m x)"
proof (cases "destination mod 4 = 0 \<and> source mod 4 = 0 \<and> len mod 4 = 0")
  case True
  then have len: "4 * (len div 4) = len" by auto
  then show ?thesis
    using True copy_words_spec [of destination 0 "len div 4" source m] assms by (simp add: memcpy_def)
next
  case False
  then show ?thesis
    unfolding memcpy_def if_not_P [OF False]
    using copy_bytes_spec [of destination 0 len source m] assms by simp
qed

lemma memcpy_copies_witness:
  "snd (memcpy (\<lambda>i. of_nat i) 100 8 12) 103 = 11 \<and> snd (memcpy (\<lambda>i. of_nat i) 101 8 5) 104 = 11"
  using memcpy_copies [of 100 12 8 "\<lambda>i. of_nat i"] memcpy_copies [of 101 5 8 "\<lambda>i. of_nat i"]
  by (auto dest!: spec [of _ 3])

text \<open>
  the scans of \<open>strlen\<close> and \<open>strcmp\<close> end on zero-terminated strings and compute the
  length and the lexicographic difference; two strings compare equal exactly when they are.
\<close>

theorem strings_in_memory:
  assumes "cstr m p a" and "cstr m q b" and "p \<noteq> 0" and "q \<noteq> 0"
  shows "strlen m p = Some (length a) \<and> strcmp_mem m p q = Some (strcmp a b)
    \<and> (strcmp a b = 0 \<longleftrightarrow> a = b)"
proof -
  have free: "nulfree x" if "cstr m r x" for r x
    using that by (induction x arbitrary: r) (auto simp: nulfree_def)
  show ?thesis
    using strlen_loop_cstr [of m p 0 a] strcmp_loop_cstr [OF assms(1,2)] assms
      strcmp_eq_0 [OF free free, OF assms(1,2)] by (simp add: strlen_def strcmp_mem_def)
qed

lemma strings_in_memory_witness:
  "let m = (\<lambda>i. if i = 1 \<or> i = 5 then byte CHR ''a'' else if i = 6 then byte CHR ''b'' else 0) in
   strlen m 1 = Some 1 \<and> strcmp_mem m 1 5 = Some (- 98)"
proof -
  let ?m = "\<lambda>i :: nat. if i = 1 \<or> i = 5 then byte CHR ''a'' else if i = 6 then byte CHR ''b'' else 0"
  have "cstr ?m 1 ''a''" "cstr ?m 5 ''ab''" by simp_all
  from strings_in_memory [OF this] show ?thesis
    by (simp add: Let_def byte_def)
qed

text \<open>
  decimal conversion is faithful: different integers give different strings, and the string
  of a natural number is its digits, most significant first.
\<close>

theorem itoa_injective: "itoa v = itoa w \<longleftrightarrow> v = w"
proof
  assume "itoa v = itoa w"
  then have eq: "itoa_digits (nat (abs v)) (nat (abs v)) @ (if v < 0 then ''-'' else [])
      = itoa_digits (nat (abs w)) (nat (abs w)) @ (if w < 0 then ''-'' else [])"
    by (simp only: itoa_rev rev_is_rev_conv)
  have minus: "CHR ''-'' \<notin> set (itoa_digits f u)" for f u
    using itoa_digits_set [of "CHR ''-''" f u] by auto
  have sign: "v < 0 \<longleftrightarrow> w < 0"
    using arg_cong [OF eq, of set] minus by (auto split: if_splits)
  then have "itoa_digits (nat (abs v)) (nat (abs v)) = itoa_digits (nat (abs w)) (nat (abs w))"
    using eq by (auto split: if_splits)
  then have "nat (abs v) = nat (abs w)"
    using itoa_digits_value [OF order_refl] by metis
  then show "v = w" using sign by auto
qed simp

end
