(* ===== verification/Semaphores.thy ===== *)
theory Semaphores
  imports Scheduler_Properties Kernel_Lib
begin

text \<open>
  \<open>Kernel/semaphoreManager.c\<close>: a table of 500 counting semaphores with queues of waiting
  process identifiers.

  System calls run with interrupts off, so an operation is atomic up to the point where it
  puts the caller to sleep. \<open>semWait\<close> therefore returns an outcome: \<open>Ret v\<close> when the call
  returns \<open>v\<close>, or \<open>Sleep\<close> when the caller was queued and blocked, in which case the state is
  the one after the context switch and \<open>semWait_resume\<close> is what the caller executes when it
  is dispatched again. Two flags record what C leaves undefined: \<open>hung\<close> is set when a
  spinlock that is already held would be acquired (the only processor spins forever), and
  \<open>stray\<close> when memory outside the table is written.
\<close>

section \<open>The program\<close>

definition MAX_SEMS :: nat where "MAX_SEMS = 500"
definition S_MAX_NAME_LENGTH :: nat where "S_MAX_NAME_LENGTH = 28"

lemmas sem_consts [simp] = MAX_SEMS_def S_MAX_NAME_LENGTH_def

record sem_t =
  svalue :: int
  used :: bool
  locked :: bool
  waiting :: addr
  openedBy :: "nat \<Rightarrow> bool"
  sname :: string

record 'm sem_state = "'m sched" +
  sems :: "nat \<Rightarrow> sem_t"
  hung :: bool
  stray :: bool

datatype 'a outcome = Ret 'a | Sleep

definition upd_sem :: "nat \<Rightarrow> (sem_t \<Rightarrow> sem_t) \<Rightarrow> ('m, 'z) sem_state_scheme \<Rightarrow> ('m, 'z) sem_state_scheme"
  where "upd_sem i f s = s\<lparr>sems := (sems s)(i := f (sems s i))\<rparr>"

definition acquire_spinlock :: "nat \<Rightarrow> ('m, 'z) sem_state_scheme \<Rightarrow> ('m, 'z) sem_state_scheme" where
  "acquire_spinlock i s =
     (if locked (sems s i) then s\<lparr>hung := True\<rparr> else upd_sem i (\<lambda>x. x\<lparr>locked := True\<rparr>) s)"

definition release_spinlock :: "nat \<Rightarrow> ('m, 'z) sem_state_scheme \<Rightarrow> ('m, 'z) sem_state_scheme" where
  "release_spinlock i s = upd_sem i (\<lambda>x. x\<lparr>locked := False\<rparr>) s"

definition initSemManager :: "('m, 'z) sem_state_scheme \<Rightarrow> ('m, 'z) sem_state_scheme" where
  "initSemManager s = s\<lparr>sems := (\<lambda>i. if i < MAX_SEMS
     then (sems s i)\<lparr>used := False, locked := False, waiting := 0\<rparr> else sems s i)\<rparr>"

fun free_sem_from :: "nat \<Rightarrow> nat \<Rightarrow> (nat \<Rightarrow> sem_t) \<Rightarrow> int" where
  "free_sem_from 0 i ss = - 1"
| "free_sem_from (Suc k) i ss = (if \<not> used (ss i) then int i else free_sem_from k (i + 1) ss)"

definition findFreeSem :: "('m, 'z) sem_state_scheme \<Rightarrow> int" where
  "findFreeSem s = free_sem_from MAX_SEMS 0 (sems s)"

text \<open>
  The name as \<open>strcmp\<close> reads it: up to the first zero byte, which may lie beyond the 28 bytes
  of the field, in the value and the flag of the next semaphore; the padding behind them is
  zero. (Behind the last semaphore of the table the model puts the zero at once.)
\<close>

definition le_bytes :: "int \<Rightarrow> string" where
  "le_bytes v = map (\<lambda>k. char_of (nat ((v div 256 ^ k) mod 256))) [0, 1, 2, 3]"

definition name_bytes :: "('m, 'z) sem_state_scheme \<Rightarrow> nat \<Rightarrow> string" where
  "name_bytes s i = sname (sems s i) @
     (if i + 1 < MAX_SEMS
      then le_bytes (svalue (sems s (i + 1))) @ [char_of (if used (sems s (i + 1)) then 1 else 0 :: nat)]
      else [])"

definition sem_name :: "('m, 'z) sem_state_scheme \<Rightarrow> nat \<Rightarrow> string" where
  "sem_name s i = takeWhile (\<lambda>c. c \<noteq> CHR 0x00) (name_bytes s i)"

fun find_name_from :: "nat \<Rightarrow> nat \<Rightarrow> ('m, 'z) sem_state_scheme \<Rightarrow> string \<Rightarrow> int" where
  "find_name_from 0 i s nm = - 1"
| "find_name_from (Suc k) i s nm =
     (if used (sems s i) \<and> strcmp (sem_name s i) nm = 0 then int i else find_name_from k (i + 1) s nm)"

definition findSemByName :: "('m, 'z) sem_state_scheme \<Rightarrow> string \<Rightarrow> int" where
  "findSemByName s nm = find_name_from MAX_SEMS 0 s nm"

definition semExists :: "('m, 'z) sem_state_scheme \<Rightarrow> int \<Rightarrow> bool" where
  "semExists s semId \<longleftrightarrow> \<not> (semId < 0 \<or> semId \<ge> int MAX_SEMS \<or> \<not> used (sems s (nat semId)))"

text \<open>\<open>openedBy[getpid()]\<close>: index 100 is the first byte of the name, which follows the array.\<close>

definition get_opened :: "('m, 'z) sem_state_scheme \<Rightarrow> nat \<Rightarrow> bool" where
  "get_opened s i =
     (if getpid s = 100 then sname (sems s i) ! 0 \<noteq> CHR 0x00 else openedBy (sems s i) (nat (getpid s)))"

definition set_opened :: "nat \<Rightarrow> bool \<Rightarrow> ('m, 'z) sem_state_scheme \<Rightarrow> ('m, 'z) sem_state_scheme" where
  "set_opened i b s =
     (let p = getpid s in
      if 0 \<le> p \<and> p < int MAX_PROCESSES
      then upd_sem i (\<lambda>x. x\<lparr>openedBy := (openedBy x)(nat p := b)\<rparr>) s
      else if p = 100
      then upd_sem i (\<lambda>x. x\<lparr>sname := (sname x)[0 := (if b then CHR 0x01 else CHR 0x00)]\<rparr>) s
      else s\<lparr>stray := True\<rparr>)"

definition semCreate ::
  "'m mm \<Rightarrow> string \<Rightarrow> int \<Rightarrow> ('m, 'z) sem_state_scheme \<Rightarrow> int \<times> ('m, 'z) sem_state_scheme" where
  "semCreate M nm v s =
     (if length nm > S_MAX_NAME_LENGTH \<or> findSemByName s nm \<noteq> - 1 then (- 1, s)
      else let semId = findFreeSem s in
        if semId < 0 then (- 1, s)
        else let i = nat semId; (q, l) = l_newQueue M (lh s);
                 s1 = upd_sem i (\<lambda>x. x\<lparr>svalue := v, used := True, waiting := q,
                        sname := nm @ drop (length nm) (sname x), openedBy := (\<lambda>_. False)\<rparr>) (s\<lparr>lh := l\<rparr>)
             in (semId, set_opened i True s1))"

definition semOpen :: "string \<Rightarrow> ('m, 'z) sem_state_scheme \<Rightarrow> int \<times> ('m, 'z) sem_state_scheme" where
  "semOpen nm s =
     (let semId = findSemByName s nm in
      if semId < 0 \<or> \<not> used (sems s (nat semId)) then (- 1, s)
      else (semId, set_opened (nat semId) True s))"

definition semClose :: "int \<Rightarrow> ('m, 'z) sem_state_scheme \<Rightarrow> int \<times> ('m, 'z) sem_state_scheme" where
  "semClose semId s =
     (if semId < 0 \<or> \<not> used (sems s (nat semId)) \<or> \<not> get_opened s (nat semId) then (- 1, s)
      else if semId \<ge> int MAX_SEMS then (0, s\<lparr>stray := True\<rparr>)
      else (0, set_opened (nat semId) False s))"

text \<open>The loop of \<open>semWait\<close>, entered with the lock held.\<close>

definition semWait_loop ::
  "'m mm \<Rightarrow> nat \<Rightarrow> ('m, 'z) sem_state_scheme \<Rightarrow> int outcome \<times> ('m, 'z) sem_state_scheme" where
  "semWait_loop M i s =
     (if svalue (sems s i) = 0
      then let p = getpid s;
               s1 = s\<lparr>lh := l_queue M (lh s) (waiting (sems s i)) (nat p)\<rparr>;
               s2 = release_spinlock i s1
           in (Sleep, snd (blockProcess M p s2))
      else (Ret 0, release_spinlock i (upd_sem i (\<lambda>x. x\<lparr>svalue := svalue x - 1\<rparr>) s)))"

definition semWait ::
  "'m mm \<Rightarrow> int \<Rightarrow> ('m, 'z) sem_state_scheme \<Rightarrow> int outcome \<times> ('m, 'z) sem_state_scheme" where
  "semWait M semId s =
     (if semId < 0 then (Ret (- 1), s)
      else if semId \<ge> int MAX_SEMS then (Ret (- 1), s\<lparr>stray := True\<rparr>)
      else let i = nat semId; s1 = acquire_spinlock i s in
        if \<not> used (sems s1 i) then (Ret (- 1), release_spinlock i s1)
        else semWait_loop M i s1)"

definition semWait_resume ::
  "'m mm \<Rightarrow> nat \<Rightarrow> ('m, 'z) sem_state_scheme \<Rightarrow> int outcome \<times> ('m, 'z) sem_state_scheme" where
  "semWait_resume M i s = semWait_loop M i (acquire_spinlock i s)"

text \<open>Waking: one round per entry of the queue, or per unit that became available.\<close>

fun wake :: "nat \<Rightarrow> 'm mm \<Rightarrow> addr \<Rightarrow> ('m, 'z) sem_state_scheme \<Rightarrow> ('m, 'z) sem_state_scheme" where
  "wake 0 M q s = s"
| "wake (Suc k) M q s =
     (if l_isEmpty (lh s) q then s
      else let (p, l) = l_dequeue M (lh s) q
           in wake k M q (snd (unblockProcess M (int p) (s\<lparr>lh := l\<rparr>))))"

definition wake_all :: "'m mm \<Rightarrow> addr \<Rightarrow> ('m, 'z) sem_state_scheme \<Rightarrow> ('m, 'z) sem_state_scheme" where
  "wake_all M q s = wake (length (qnodes (lh s) q)) M q s"

definition semPost ::
  "'m mm \<Rightarrow> int \<Rightarrow> ('m, 'z) sem_state_scheme \<Rightarrow> int \<times> ('m, 'z) sem_state_scheme" where
  "semPost M semId s =
     (if semId < 0 \<or> semId \<ge> int MAX_SEMS then (- 1, s)
      else let i = nat semId; s1 = acquire_spinlock i s in
        if \<not> used (sems s1 i) then (- 1, release_spinlock i s1)
        else let s2 = upd_sem i (\<lambda>x. x\<lparr>svalue := svalue x + 1\<rparr>) s1;
                 s3 = wake_all M (waiting (sems s2 i)) s2
             in (0, release_spinlock i s3))"

definition semDestroy ::
  "'m mm \<Rightarrow> int \<Rightarrow> ('m, 'z) sem_state_scheme \<Rightarrow> int \<times> ('m, 'z) sem_state_scheme" where
  "semDestroy M semId s =
     (if semId < 0 then (- 1, s\<lparr>stray := True\<rparr>)
      else if semId \<ge> int MAX_SEMS then (0, s\<lparr>stray := True\<rparr>)
      else let i = nat semId; s1 = acquire_spinlock i s;
               s2 = upd_sem i (\<lambda>x. x\<lparr>used := False\<rparr>) s1;
               s3 = wake_all M (waiting (sems s2 i)) s2;
               s4 = s3\<lparr>lh := l_freeQueue M (lh s3) (waiting (sems s3 i))\<rparr>
           in (0, release_spinlock i s4))"

definition semSetValue ::
  "'m mm \<Rightarrow> int \<Rightarrow> int \<Rightarrow> ('m, 'z) sem_state_scheme \<Rightarrow> int \<times> ('m, 'z) sem_state_scheme" where
  "semSetValue M semId newValue s =
     (if semId < 0 \<or> semId \<ge> int MAX_SEMS \<or> newValue < 0 then (- 1, s)
      else let i = nat semId; s1 = acquire_spinlock i s in
        if \<not> used (sems s1 i) then (- 1, release_spinlock i s1)
        else let oldValue = svalue (sems s1 i);
                 s2 = upd_sem i (\<lambda>x. x\<lparr>svalue := newValue\<rparr>) s1;
                 s3 = (if newValue > oldValue
                       then wake (nat (newValue - oldValue)) M (waiting (sems s2 i)) s2 else s2)
             in (0, release_spinlock i s3))"

section \<open>What the scheduler leaves alone\<close>

text \<open>The scheduler does not touch the globals of the other components.\<close>

named_theorems more_frame

lemma upd_pcb_more [more_frame]: "sched.more (upd_pcb p f s) = sched.more s"
  by (simp add: upd_pcb_def)

lemma schedule_more [more_frame]: "sched.more (schedule M p s) = sched.more s"
  by (simp add: schedule_def)

lemma unschedule_more [more_frame]: "sched.more (snd (unschedule M s)) = sched.more s"
proof -
  have "sched.more (snd (unschedule_from M n s)) = sched.more s" for n
    by (induction n) (auto simp: split_beta)
  then show ?thesis by (simp add: unschedule_def)
qed

lemma age_out_more [more_frame]: "sched.more (age_out k M q t s) = sched.more s"
  by (induction k arbitrary: s) (auto simp: split_beta Let_def more_frame)

lemma age_in_more [more_frame]: "sched.more (age_in k M t s) = sched.more s"
  by (induction k arbitrary: s) (auto simp: split_beta Let_def)

lemma age_queue_more [more_frame]: "sched.more (age_queue M i s) = sched.more s"
  by (simp add: age_queue_def Let_def split_beta more_frame)

lemma age_queues_more [more_frame]: "sched.more (age_queues M is s) = sched.more s"
  by (induction "is" arbitrary: s) (simp_all add: more_frame)

lemma applyAging_more [more_frame]: "sched.more (applyAging M s) = sched.more s"
  by (simp add: applyAging_def more_frame)

lemma pick_more [more_frame]: "sched.more (pick k M s) = sched.more s"
proof (induction k arbitrary: s)
  case (0 s)
  show ?case using unschedule_more [of M s] by (subst pick.simps) (simp add: split_beta Let_def)
next
  case (Suc k s)
  show ?case
    using unschedule_more [of M s] Suc by (subst pick.simps) (simp add: split_beta Let_def)
qed

lemma run_current_more [more_frame]: "sched.more (run_current s) = sched.more s"
  by (simp add: run_current_def more_frame)

lemma retire_more [more_frame]: "sched.more (retire M rsp s) = sched.more s"
  by (simp add: retire_def Let_def more_frame)

lemma switchContext_more [more_frame]: "sched.more (snd (switchContext M rsp s)) = sched.more s"
  by (simp add: switchContext_def Let_def split_beta more_frame)

lemma irq00_more [more_frame]: "sched.more (irq00Handler M s) = sched.more s"
  by (simp add: irq00_fields Let_def more_frame)

lemma blockProcess_more [more_frame]: "sched.more (snd (blockProcess M i s)) = sched.more s"
  by (simp add: blockProcess_def yield_def forceSwitchContext_def setYield_def Let_def more_frame)

lemma unblockProcess_more [more_frame]: "sched.more (snd (unblockProcess M i s)) = sched.more s"
  by (simp add: unblockProcess_def Let_def more_frame)

lemma same_more:
  assumes "sched.more s' = sched.more s"
  shows "sems s' = sems s" "hung s' = hung s" "stray s' = stray s"
    "sem_state.more s' = sem_state.more s"
  using assms by (cases s; cases s'; simp)+

text \<open>The table of ready queues is written by \<open>initScheduler\<close> only.\<close>

named_theorems pq_frame

lemma schedule_pq [pq_frame]: "priorityQueues (schedule M p s) = priorityQueues s"
  by (simp add: schedule_def)

lemma unschedule_from_pq [pq_frame]: "priorityQueues (snd (unschedule_from M n s)) = priorityQueues s"
  by (induction n) (auto simp: split_beta)

lemma unschedule_pq [pq_frame]: "priorityQueues (snd (unschedule M s)) = priorityQueues s"
  by (simp add: unschedule_def pq_frame)

lemma age_out_pq [pq_frame]: "priorityQueues (age_out k M q t s) = priorityQueues s"
  by (induction k arbitrary: s) (auto simp: split_beta Let_def)

lemma age_in_pq [pq_frame]: "priorityQueues (age_in k M t s) = priorityQueues s"
  by (induction k arbitrary: s) (auto simp: split_beta Let_def)

lemma age_queue_pq [pq_frame]: "priorityQueues (age_queue M i s) = priorityQueues s"
  by (simp add: age_queue_def Let_def split_beta pq_frame)

lemma age_queues_pq [pq_frame]: "priorityQueues (age_queues M is s) = priorityQueues s"
  by (induction "is" arbitrary: s) (simp_all add: pq_frame)

lemma pick_pq [pq_frame]: "priorityQueues (pick k M s) = priorityQueues s"
  by (induction k arbitrary: s; subst pick.simps) (simp_all add: split_beta Let_def pq_frame)

lemma retire_pq [pq_frame]: "priorityQueues (retire M rsp s) = priorityQueues s"
  by (simp add: retire_def Let_def pq_frame)

lemma run_current_pq [pq_frame]: "priorityQueues (run_current s) = priorityQueues s"
  by (simp add: run_current_def)

lemma switchContext_pq [pq_frame]: "priorityQueues (snd (switchContext M rsp s)) = priorityQueues s"
  by (simp add: switchContext_def Let_def split_beta pq_frame applyAging_def)

text \<open>Queues other than the ready queues keep their contents across scheduling.\<close>

lemma qdata_l_queue_other [simp]: "w \<noteq> q \<Longrightarrow> qdata (l_queue M l q e) w = qdata l w"
  by (simp add: l_queue_def qdata_def qnodes_def split_beta)

lemma qdata_l_dequeue_other [simp]: "w \<noteq> q \<Longrightarrow> qdata (snd (l_dequeue M l q)) w = qdata l w"
  by (simp add: l_dequeue_def qdata_def qnodes_def)

lemma qdata_l_newQueue_other: "w \<noteq> fst (l_newQueue M l) \<Longrightarrow> qdata (snd (l_newQueue M l)) w = qdata l w"
  by (auto simp: l_newQueue_def qdata_def qnodes_def split_beta split: if_splits)

lemma qdata_l_freeQueue_other [simp]: "w \<noteq> q \<Longrightarrow> qdata (l_freeQueue M l q) w = qdata l w"
  by (simp add: l_freeQueue_def qdata_def qnodes_def)

named_theorems other_queue

lemma not_ready_queue [simp]: "w \<notin> range (priorityQueues s) \<Longrightarrow> (w = priorityQueues s i) = False"
  by (metis rangeI)

lemma schedule_other [other_queue]:
  "w \<notin> range (priorityQueues s) \<Longrightarrow> qdata (lh (schedule M p s)) w = qdata (lh s) w"
  by (auto simp: schedule_def)

lemma unschedule_other [other_queue]:
  "w \<notin> range (priorityQueues s) \<Longrightarrow> qdata (lh (snd (unschedule M s))) w = qdata (lh s) w
     \<and> priorityQueues (snd (unschedule M s)) = priorityQueues s"
proof -
  have "w \<notin> range (priorityQueues s) \<Longrightarrow> qdata (lh (snd (unschedule_from M n s))) w = qdata (lh s) w
     \<and> priorityQueues (snd (unschedule_from M n s)) = priorityQueues s" for n
    by (induction n) (auto simp: split_beta)
  then show "w \<notin> range (priorityQueues s) \<Longrightarrow> qdata (lh (snd (unschedule M s))) w = qdata (lh s) w
     \<and> priorityQueues (snd (unschedule M s)) = priorityQueues s"
    by (simp add: unschedule_def)
qed

lemma age_out_other:
  "\<lbrakk>w \<noteq> q; w \<noteq> t\<rbrakk> \<Longrightarrow> qdata (lh (age_out k M q t s)) w = qdata (lh s) w
     \<and> priorityQueues (age_out k M q t s) = priorityQueues s"
  by (induction k arbitrary: s) (auto simp: split_beta Let_def)

lemma age_in_other:
  "\<lbrakk>w \<noteq> t; w \<notin> range (priorityQueues s)\<rbrakk> \<Longrightarrow> qdata (lh (age_in k M t s)) w = qdata (lh s) w
     \<and> priorityQueues (age_in k M t s) = priorityQueues s"
proof (induction k arbitrary: s)
  case (Suc k)
  then show ?case by (auto simp: split_beta Let_def)
qed simp

lemma pick_other:
  "w \<notin> range (priorityQueues s) \<Longrightarrow> qdata (lh (pick k M s)) w = qdata (lh s) w
     \<and> priorityQueues (pick k M s) = priorityQueues s"
proof (induction k arbitrary: s)
  case (0 s)
  then show ?case
    using unschedule_other [of w s M] by (subst (1 2) pick.simps) (simp add: split_beta Let_def)
next
  case (Suc k s)
  let ?t = "(snd (unschedule M s))\<lparr>currentProcess := fst (unschedule M s)\<rparr>"
  from Suc show ?case
    using unschedule_other [of w s M] Suc.IH [of ?t]
    by (subst (1 2) pick.simps) (simp add: split_beta Let_def)
qed

lemma retire_other:
  "w \<notin> range (priorityQueues s) \<Longrightarrow> qdata (lh (retire M rsp s)) w = qdata (lh s) w
     \<and> priorityQueues (retire M rsp s) = priorityQueues s"
  by (simp add: retire_def Let_def schedule_other) (simp add: schedule_def)

lemma run_current_other:
  "lh (run_current s) = lh s \<and> priorityQueues (run_current s) = priorityQueues s"
  by (simp add: run_current_def)

section \<open>Well-formed semaphores\<close>

definition sem_wait_list :: "('m, 'z) sem_state_scheme \<Rightarrow> nat \<Rightarrow> nat list" where
  "sem_wait_list s i = qdata (lh s) (waiting (sems s i))"

text \<open>
  A semaphore in use has a queue of its own, its waiters are process numbers, its value is not
  negative, and nobody waits while the value is positive.
\<close>

definition sem_ok :: "('m, 'z) sem_state_scheme \<Rightarrow> nat \<Rightarrow> bool" where
  "sem_ok s i \<longleftrightarrow> waiting (sems s i) \<in> dom (lq (lh s)) \<and> waiting (sems s i) \<notin> range (priorityQueues s)
     \<and> (\<forall>p \<in> set (sem_wait_list s i). 1 \<le> p \<and> p \<le> 100)
     \<and> 0 \<le> svalue (sems s i) \<and> (0 < svalue (sems s i) \<longrightarrow> sem_wait_list s i = [])"

definition sem_inv ::
  "('m \<Rightarrow> bool) \<Rightarrow> ('m \<Rightarrow> addr \<rightharpoonup> nat) \<Rightarrow> ('m, 'z) sem_state_scheme \<Rightarrow> bool" where
  "sem_inv I lv s \<longleftrightarrow> sched_wf I lv s
     \<and> (\<forall>i < 500. \<not> locked (sems s i) \<and> (used (sems s i) \<longrightarrow> sem_ok s i))
     \<and> (\<forall>i < 500. \<forall>j < 500. used (sems s i) \<and> used (sems s j) \<and> i \<noteq> j
          \<longrightarrow> waiting (sems s i) \<noteq> waiting (sems s j))"

lemma sems_frame [simp]:
  "sched_wf I lv (s\<lparr>sems := x\<rparr>) = sched_wf I lv s" "pcb (s\<lparr>sems := x\<rparr>) = pcb s"
  "rqueued (s\<lparr>sems := x\<rparr>) = rqueued s" "accounted (s\<lparr>sems := x\<rparr>) = accounted s"
  "getpid (s\<lparr>sems := x\<rparr>) = getpid s"
  by (simp_all add: sched_wf_def queues_ok_def members_ok_def rqueued_def rq_def pcb_def fun_eq_iff
      accounted_def getpid_def pid_at_def getCurrentProcess_def)

lemma not_locked_upd: "\<not> locked x \<Longrightarrow> x\<lparr>svalue := v, locked := False\<rparr> = x\<lparr>svalue := v\<rparr>"
  by (cases x) simp

lemma upd_sem_fields [simp]:
  "sems (upd_sem i f s) = (sems s)(i := f (sems s i))" "lh (upd_sem i f s) = lh s"
  "priorityQueues (upd_sem i f s) = priorityQueues s" "currentProcess (upd_sem i f s) = currentProcess s"
  "hung (upd_sem i f s) = hung s" "stray (upd_sem i f s) = stray s" "pcb (upd_sem i f s) = pcb s"
  "rqueued (upd_sem i f s) = rqueued s" "sched_wf I lv (upd_sem i f s) = sched_wf I lv s"
  "accounted (upd_sem i f s) = accounted s" "getpid (upd_sem i f s) = getpid s"
  "cpu_rsp (upd_sem i f s) = cpu_rsp s"
  by (simp_all add: upd_sem_def)

text \<open>
  Runs: what the running process and the timer can do with semaphores that stay in use. A
  sleeping caller of \<open>semWait\<close> goes on with \<open>EResume\<close>. An event that returns nothing to a
  caller is answered \<open>Sleep\<close>.
\<close>

datatype sem_event = EWait int | EResume nat | EPost int | ETick

fun sem_exec ::
  "'m mm \<Rightarrow> sem_event \<Rightarrow> ('m, 'z) sem_state_scheme \<Rightarrow> int outcome \<times> ('m, 'z) sem_state_scheme" where
  "sem_exec M (EWait k) s = (if currentProcess s = 0 then (Sleep, s) else semWait M k s)"
| "sem_exec M (EResume i) s =
     (if currentProcess s = 0 \<or> i \<ge> MAX_SEMS \<or> \<not> used (sems s i) then (Sleep, s) else semWait_resume M i s)"
| "sem_exec M (EPost k) s =
     (if currentProcess s = 0 then (Sleep, s) else let (r, s') = semPost M k s in (Ret r, s'))"
| "sem_exec M ETick s = (Sleep, irq00Handler M s)"

fun sem_run :: "'m mm \<Rightarrow> sem_event list \<Rightarrow> ('m, 'z) sem_state_scheme
    \<Rightarrow> (sem_event \<times> int outcome) list \<times> ('m, 'z) sem_state_scheme" where
  "sem_run M [] s = ([], s)"
| "sem_run M (e # es) s =
     (let (r, s1) = sem_exec M e s; (log, s2) = sem_run M es s1 in ((e, r) # log, s2))"

definition acquired :: "nat \<Rightarrow> (sem_event \<times> int outcome) list \<Rightarrow> nat" where
  "acquired i log = length (filter (\<lambda>(e, r). (e = EWait (int i) \<or> e = EResume i) \<and> r = Ret 0) log)"

definition posted :: "nat \<Rightarrow> (sem_event \<times> int outcome) list \<Rightarrow> nat" where
  "posted i log = length (filter (\<lambda>(e, r). e = EPost (int i) \<and> r = Ret 0) log)"

context kernel_memory
begin

lemma age_queue_other:
  assumes "qok s" and "w \<in> dom (lq (lh s))" and "w \<notin> range (priorityQueues s)"
  shows "qdata (lh (age_queue M i s)) w = qdata (lh s) w"
    and "priorityQueues (age_queue M i s) = priorityQueues s"
proof -
  obtain t l where t: "l_newQueue M (lh s) = (t, l)" by force
  let ?s1 = "s\<lparr>lh := l\<rparr>"
  have wf: "wf (lh s)" using assms(1) by (simp add: queues_ok_def)
  have "qdata (lh (age_queue M i s)) w = qdata (lh s) w
    \<and> priorityQueues (age_queue M i s) = priorityQueues s"
  proof (cases "l_isEmpty (lh s) (priorityQueues s i)")
    case False
    from wf t show ?thesis
    proof (cases rule: newQueue_cases)
      case Fail
      then show ?thesis using t False by (simp add: age_queue_def)
    next
      case Ok
      then have wt: "w \<noteq> t" using assms(2) by (auto simp: owned_def)
      then have w1: "qdata l w = qdata (lh s) w" using qdata_l_newQueue_other [of w M "lh s"] t by simp
      have o: "qdata (lh (age_out k M (priorityQueues s i) t ?s1)) w = qdata l w
        \<and> priorityQueues (age_out k M (priorityQueues s i) t ?s1) = priorityQueues s" for k
        using age_out_other [of w "priorityQueues s i" t k M ?s1] wt assms(3) by simp
      show ?thesis
        using t False Ok(1) wt w1 o
          age_in_other [of w t "age_out (length (qnodes l (priorityQueues s i))) M (priorityQueues s i) t ?s1"]
          assms(3) by (simp add: age_queue_def Let_def)
    qed
  qed (simp add: age_queue_def)
  then show "qdata (lh (age_queue M i s)) w = qdata (lh s) w"
    and "priorityQueues (age_queue M i s) = priorityQueues s" by simp_all
qed

lemma age_queues_other:
  assumes "qok s" and "members_ok s" and "w \<in> dom (lq (lh s))" and "w \<notin> range (priorityQueues s)"
    and "\<forall>i \<in> set is. i < 5"
  shows "qdata (lh (age_queues M is s)) w = qdata (lh s) w
    \<and> priorityQueues (age_queues M is s) = priorityQueues s"
  using assms
proof (induction "is" arbitrary: s)
  case (Cons i "is")
  note k = age_queue_keeps [OF Cons.prems(1,2) _ refl, where i = i]
  note o = age_queue_other [OF Cons.prems(1,3,4), of i]
  from Cons.IH [of "age_queue M i s"] Cons.prems k o show ?case by (simp add: qkeeps_def)
qed simp

lemma switch_other:
  assumes "swf s" and "w \<in> dom (lq (lh s))" and "w \<notin> range (priorityQueues s)"
  shows "qdata (lh (snd (switchContext M rsp s))) w = qdata (lh s) w"
    and "priorityQueues (snd (switchContext M rsp s)) = priorityQueues s"
proof -
  let ?s' = "snd (switchContext M rsp s)"
  have "qdata (lh ?s') w = qdata (lh s) w \<and> priorityQueues ?s' = priorityQueues s"
  proof (cases "currentProcess s = 0")
    case True
    then show ?thesis
      using unschedule_other [of w s M] assms(3)
      by (simp add: switchContext_def Let_def split_beta run_current_other)
  next
    case False
    note rt = retire_spec [OF assms(1) False refl, where rsp = rsp]
    note ro = retire_other [OF assms(3), of M rsp]
    have ag: "qdata (lh (applyAging M (retire M rsp s))) w = qdata (lh s) w
        \<and> priorityQueues (applyAging M (retire M rsp s)) = priorityQueues s"
      using age_queues_other [OF swfD(1,2) [OF rt(1)], of w "[0..<5]"] rt(2) ro assms(2,3)
      by (simp add: applyAging_def qkeeps_def)
    then show ?thesis
      using False assms(3) pick_other [of w "applyAging M (retire M rsp s)" _ M]
      by (simp add: switchContext_def Let_def run_current_other)
  qed
  then show "qdata (lh ?s') w = qdata (lh s) w" and "priorityQueues ?s' = priorityQueues s" by simp_all
qed

text \<open>A step of the scheduler, as the other users of the queues see it.\<close>

definition sched_step :: "('a, 'z) sched_scheme \<Rightarrow> ('a, 'z) sched_scheme \<Rightarrow> bool" where
  "sched_step s t \<longleftrightarrow> swf t \<and> qkeeps inv live (lh s) (lh t) \<and> priorityQueues t = priorityQueues s
     \<and> sched.more t = sched.more s
     \<and> (\<forall>w \<in> dom (lq (lh s)). w \<notin> range (priorityQueues s) \<longrightarrow> qdata (lh t) w = qdata (lh s) w)"

lemma sched_step_trans: "\<lbrakk>sched_step s t; sched_step t u\<rbrakk> \<Longrightarrow> sched_step s u"
  by (auto simp: sched_step_def qkeeps_def intro: spares_trans)

lemma step_refl: "swf s \<Longrightarrow> sched_step s s"
  using qkeeps_refl swfD(1) by (auto simp: sched_step_def queues_ok_def)

lemma step_switch:
  assumes "swf s"
  shows "sched_step s (snd (switchContext M rsp s))"
  using switch_swf [OF assms] switch_other [OF assms]
  by (auto simp: sched_step_def more_frame pq_frame)

lemma step_fields [simp]:
  "sched_step (s\<lparr>ticks := n\<rparr>) t = sched_step s t" "sched_step s (t\<lparr>cpu_rsp := a\<rparr>) = sched_step s t"
  "sched_step (s\<lparr>isYield := y\<rparr>) t = sched_step s t"
  by (simp_all add: sched_step_def)

lemma step_irq00:
  assumes "swf s"
  shows "sched_step s (irq00Handler M s)"
  using step_switch [of "s\<lparr>ticks := ticks s + 1\<rparr>" "cpu_rsp s"] assms
  by (simp add: irq00_fields Let_def)

lemma step_upd_pcb:
  assumes "swf s" and "1 \<le> p" and "p \<le> 100" and "pid (f (pcb s p)) = pid (pcb s p)"
    and "prio_ok (f (pcb s p))"
  shows "sched_step s (upd_pcb p f s)"
  using swf_upd_pcb [OF assms(1-3), of f] assms(4,5) step_refl [OF assms(1)]
  by (simp add: sched_step_def)

lemma step_block:
  assumes "swf s"
  shows "sched_step s (snd (blockProcess M i s))"
proof (cases rule: getProcess_cases [where s = s and i = i, OF refl, case_names Null Ok])
  case Null
  then show ?thesis using step_refl [OF assms] by (simp add: blockProcess_def Let_def)
next
  case Ok
  let ?s = "upd_pcb (getProcess s i) (\<lambda>x. x\<lparr>pstate := BLOCKED\<rparr>) s"
  have st: "sched_step s ?s"
    using step_upd_pcb [OF assms Ok(2,3)] swfD(5) [OF assms Ok(2,3,5)] by (simp add: prio_ok_def)
  then have "swf (?s\<lparr>isYield := True\<rparr>)" by (simp add: sched_step_def)
  from step_irq00 [OF this] have "sched_step ?s (irq00Handler M (?s\<lparr>isYield := True\<rparr>))" by simp
  then show ?thesis
    using st Ok(2) sched_step_trans
    by (auto simp: blockProcess_def yield_def setYield_def forceSwitchContext_def Let_def)
qed

lemma step_schedule:
  assumes "swf s" and "1 \<le> p" and "p \<le> 100" and "prio_ok (pcb s p)"
  shows "sched_step s (schedule M p s)"
  using schedule_spec [OF assms refl] schedule_other
  by (auto simp: sched_step_def more_frame pq_frame)

lemma step_unblock:
  assumes "swf s"
  shows "sched_step s (snd (unblockProcess M i s))"
proof (cases rule: getProcess_cases [where s = s and i = i, OF refl, case_names Null Ok])
  case Null
  then show ?thesis using step_refl [OF assms] by (simp add: unblockProcess_def Let_def)
next
  case Ok
  let ?s = "upd_pcb (getProcess s i) (\<lambda>x. x\<lparr>pstate := READY\<rparr>) s"
  have pr: "prio_ok (pcb s (getProcess s i))" by (rule swfD(5) [OF assms Ok(2,3,5)])
  then have st: "sched_step s ?s"
    using step_upd_pcb [OF assms Ok(2,3)] by (simp add: prio_ok_def)
  then have "swf ?s" by (simp add: sched_step_def)
  from step_schedule [OF this Ok(2,3)] pr Ok(2) have "sched_step ?s (schedule M (getProcess s i) ?s)"
    by (simp add: prio_ok_def)
  with st show ?thesis
    using sched_step_trans step_refl [OF assms] by (auto simp: unblockProcess_def Let_def)
qed

lemma unblock_blocked:
  assumes "swf s" and "1 \<le> p" and "p \<le> 100" and "can_queue s" and "s' = snd (unblockProcess M (int p) s)"
  shows "rqueued s' = (if pstate (pcb s p) = BLOCKED then add_mset p (rqueued s) else rqueued s)"
    and "\<And>q. 1 \<le> q \<Longrightarrow> pcb s' q = (if q = p \<and> pstate (pcb s p) = BLOCKED
           then (pcb s q)\<lparr>pstate := READY\<rparr> else pcb s q)"
    and "currentProcess s' = currentProcess s"
proof -
  have skip: "s' = s" if "pstate (pcb s p) \<noteq> BLOCKED"
  proof -
    have "getProcess s (int p) = 0 \<or> getProcess s (int p) = p"
      by (cases rule: getProcess_cases [where s = s and i = "int p", OF refl]) auto
    then show ?thesis using that assms(5) by (auto simp: unblockProcess_def Let_def)
  qed
  have done': "s' = schedule M p (upd_pcb p (\<lambda>x. x\<lparr>pstate := READY\<rparr>) s)" if "pstate (pcb s p) = BLOCKED"
  proof -
    have "getProcess s (int p) = p"
      using assms(2,3) that by (simp add: getProcess_def pcb_def nat_diff_distrib)
    then show ?thesis using that assms(2,5) by (simp add: unblockProcess_def Let_def)
  qed
  obtain r where r: "unblockProcess M (int p) s = (r, s')" using assms(5) by (metis prod.collapse)
  show "rqueued s' = (if pstate (pcb s p) = BLOCKED then add_mset p (rqueued s) else rqueued s)"
    using unblock_spec(4) [OF assms(1-3) _ assms(4) r] skip by auto
  show "currentProcess s' = currentProcess s"
    using skip done' by (cases "pstate (pcb s p) = BLOCKED") (auto simp: schedule_def)
  show "pcb s' q = (if q = p \<and> pstate (pcb s p) = BLOCKED then (pcb s q)\<lparr>pstate := READY\<rparr> else pcb s q)"
    if "1 \<le> q" for q
  proof (cases "pstate (pcb s p) = BLOCKED")
    case True
    have "pcb s' = pcb (upd_pcb p (\<lambda>x. x\<lparr>pstate := READY\<rparr>) s)"
      unfolding done' [OF True] by (simp add: schedule_def pcb_def fun_eq_iff)
    then show ?thesis using that assms(2) True by simp
  qed (simp add: skip)
qed

text \<open>Operations on a queue that is not a ready queue.\<close>

lemma swf_other_queue:
  assumes "swf s" and "qkeeps inv live (lh s) l" and "w \<notin> range (priorityQueues s)"
    and "\<And>v. v \<noteq> w \<Longrightarrow> qdata l v = qdata (lh s) v"
  shows "swf (s\<lparr>lh := l\<rparr>)" and "rqueued (s\<lparr>lh := l\<rparr>) = rqueued s"
proof -
  have rq: "rq (s\<lparr>lh := l\<rparr>) i = rq s i" for i
    using assms(3,4) by (simp add: rq_def) (metis rangeI)
  then show rqd: "rqueued (s\<lparr>lh := l\<rparr>) = rqueued s" by (simp add: rqueued_def)
  show "swf (s\<lparr>lh := l\<rparr>)"
    using assms(1,2) rqd queues_ok_upd [of inv live s l] by (simp add: sched_wf_def members_ok_def)
qed

lemma dequeue_other:
  assumes "swf s" and "w \<in> dom (lq (lh s))" and "w \<notin> range (priorityQueues s)"
    and "qdata (lh s) w = p # xs" and "l_dequeue M (lh s) w = (d, l)"
  shows "d = p" and "\<not> l_isEmpty (lh s) w" and "qdata l w = xs" and "qkeeps inv live (lh s) l"
    and "swf (s\<lparr>lh := l\<rparr>)" and "rqueued (s\<lparr>lh := l\<rparr>) = rqueued s" and "can_queue (s\<lparr>lh := l\<rparr>)"
proof -
  obtain ns where ns: "lq (lh s) w = Some ns" using assms(2) by blast
  have wf: "wf (lh s)" using swfD(1) [OF assms(1)] by (simp add: queues_ok_def)
  have l: "l = snd (l_dequeue M (lh s) w)" "d = fst (l_dequeue M (lh s) w)" using assms(5) by simp_all
  have nn: "ns \<noteq> []" using ns assms(4) by (auto simp: qdata_def qnodes_def)
  have res: "d = p \<and> qdata l w = xs \<and> qkeeps inv live (lh s) l \<and> fst (mm_alloc M (lmem l) 16) \<noteq> 0"
    using wf ns
  proof (cases rule: dequeue_cases)
    case Empty
    then show ?thesis using nn by simp
  next
    case (Ok n e ys)
    have "e = p" "map snd ys = xs" using assms(4) ns Ok(1) by (simp_all add: qdata_def qnodes_def)
    moreover have "dom (lq l) = dom (lq (lh s))" unfolding l Ok(3) using ns by auto
    ultimately show ?thesis using Ok unfolding l [symmetric] by (simp add: qdata_def qnodes_def qkeeps_def)
  qed
  then show "d = p" "qdata l w = xs" and kp: "qkeeps inv live (lh s) l" and "can_queue (s\<lparr>lh := l\<rparr>)"
    by (simp_all add: can_queue_def)
  show "\<not> l_isEmpty (lh s) w" using ns nn queue_nonnull [OF wf ns] by (simp add: l_isEmpty_def qnodes_def)
  have "qdata l v = qdata (lh s) v" if "v \<noteq> w" for v
    using qdata_l_dequeue_other [OF that, of M "lh s"] assms(5) by simp
  from swf_other_queue [OF assms(1) kp assms(3) this]
  show "swf (s\<lparr>lh := l\<rparr>)" and "rqueued (s\<lparr>lh := l\<rparr>) = rqueued s" by blast+
qed

definition woken :: "nat list \<Rightarrow> ('a, 'z) sched_scheme \<Rightarrow> nat set" where
  "woken xs s = {p \<in> set xs. pstate (pcb s p) = BLOCKED}"

lemma wake_spec:
  assumes "swf s" and "w \<in> dom (lq (lh s))" and "w \<notin> range (priorityQueues s)"
    and "qdata (lh s) w = xs" and "\<forall>p \<in> set xs. 1 \<le> p \<and> p \<le> 100" and "s' = wake k M w s"
  shows "swf s' \<and> qkeeps inv live (lh s) (lh s') \<and> priorityQueues s' = priorityQueues s
    \<and> sched.more s' = sched.more s \<and> qdata (lh s') w = drop k xs
    \<and> (\<forall>v \<in> dom (lq (lh s)). v \<noteq> w \<and> v \<notin> range (priorityQueues s) \<longrightarrow> qdata (lh s') v = qdata (lh s) v)
    \<and> currentProcess s' = currentProcess s
    \<and> rqueued s' = rqueued s + mset_set (woken (take k xs) s)
    \<and> (\<forall>q \<ge> 1. pcb s' q = (if q \<in> woken (take k xs) s then (pcb s q)\<lparr>pstate := READY\<rparr> else pcb s q))"
  using assms
proof (induction k arbitrary: s xs)
  case 0
  then show ?case using step_refl [OF 0(1)] by (simp add: sched_step_def woken_def)
next
  case (Suc k s xs)
  show ?case
  proof (cases xs)
    case Nil
    then have "l_isEmpty (lh s) w" using Suc.prems(4) by (simp add: qdata_def l_isEmpty_def)
    then show ?thesis using Nil Suc.prems step_refl [OF Suc.prems(1)] by (simp add: sched_step_def woken_def)
  next
    case (Cons p ys)
    obtain d l where d: "l_dequeue M (lh s) w = (d, l)" by force
    define s1 where "s1 = s\<lparr>lh := l\<rparr>"
    note dq = dequeue_other [OF Suc.prems(1-3) Suc.prems(4) [unfolded Cons] d, folded s1_def]
    have p: "1 \<le> p" "p \<le> 100" using Suc.prems(5) Cons by auto
    define s2 where "s2 = snd (unblockProcess M (int p) s1)"
    note st = step_unblock [OF dq(5), of "int p", folded s2_def]
    note ub = unblock_blocked [OF dq(5) p dq(7) s2_def]
    have s': "s' = wake k M w s2" using Suc.prems(6) dq(1,2) d by (simp add: s2_def s1_def)
    have s1: "priorityQueues s1 = priorityQueues s" "sched.more s1 = sched.more s" "lh s1 = l"
      "currentProcess s1 = currentProcess s" "pcb s1 = pcb s"
      by (simp_all add: s1_def pcb_def fun_eq_iff)
    have domw: "dom (lq l) = dom (lq (lh s))" using dq(4) by (simp add: qkeeps_def)
    have w2: "qdata (lh s2) w = ys" "w \<in> dom (lq (lh s2))" "w \<notin> range (priorityQueues s2)"
      "dom (lq (lh s2)) = dom (lq (lh s))" "priorityQueues s2 = priorityQueues s"
    proof -
      show "priorityQueues s2 = priorityQueues s" using st s1(1) by (simp add: sched_step_def)
      then show "w \<notin> range (priorityQueues s2)" using Suc.prems(3) by simp
      show dm: "dom (lq (lh s2)) = dom (lq (lh s))"
        using st s1(3) domw by (simp add: sched_step_def qkeeps_def)
      then show "w \<in> dom (lq (lh s2))" using Suc.prems(2) by blast
      show "qdata (lh s2) w = ys"
        using st s1(1,3) domw dq(3) Suc.prems(2,3) by (simp add: sched_step_def)
    qed
    have ys: "\<forall>q \<in> set ys. 1 \<le> q \<and> q \<le> 100" using Suc.prems(5) Cons by simp
    from st have "swf s2" by (simp add: sched_step_def)
    note IH = Suc.IH [OF this w2(2,3,1) ys s']
    have kp: "qkeeps inv live (lh s) (lh s2)"
      using st dq(4) s1(3) qkeeps_trans [of inv live "lh s" l "lh s2"] by (simp add: sched_step_def)
    have wk: "woken (take k ys) s2 = woken (take (Suc k) xs) s - (if pstate (pcb s p) = BLOCKED then {p} else {})"
    proof -
      have "pstate (pcb s2 q) = BLOCKED \<longleftrightarrow> pstate (pcb s q) = BLOCKED \<and> q \<noteq> p"
        if "q \<in> set (take k ys)" for q
        using ub(2) [of q] ys s1(5) in_set_takeD [OF that] by (auto split: if_splits)
      then show ?thesis using Cons by (auto simp: woken_def)
    qed
    have pk: "pstate (pcb s p) = BLOCKED \<Longrightarrow> p \<in> woken (take (Suc k) xs) s" using Cons by (simp add: woken_def)
    have "rqueued s' = rqueued s + mset_set (woken (take (Suc k) xs) s)"
    proof (cases "pstate (pcb s p) = BLOCKED")
      case True
      then have "mset_set (woken (take (Suc k) xs) s) = add_mset p (mset_set (woken (take k ys) s2))"
        using wk pk mset_set.remove [of "woken (take (Suc k) xs) s" p] by (simp add: woken_def)
      then show ?thesis using IH ub(1) dq(6) True s1 by simp
    next
      case False
      then show ?thesis using IH wk ub(1) dq(6) s1 by simp
    qed
    moreover have "pcb s' q = (if q \<in> woken (take (Suc k) xs) s then (pcb s q)\<lparr>pstate := READY\<rparr> else pcb s q)"
      if "1 \<le> q" for q
    proof -
      have "pcb s' q = (if q \<in> woken (take k ys) s2 then (pcb s2 q)\<lparr>pstate := READY\<rparr> else pcb s2 q)"
        using IH that by blast
      then show ?thesis
        unfolding wk ub(2) [OF that] s1(5) using pk by (cases "q = p"; simp)
    qed
    moreover have "qdata (lh s') v = qdata (lh s) v"
      if "v \<in> dom (lq (lh s))" "v \<noteq> w" "v \<notin> range (priorityQueues s)" for v
    proof -
      have "qdata (lh s') v = qdata (lh s2) v" using IH that w2(4,5) by simp
      moreover have "qdata (lh s2) v = qdata l v"
        using st that(1,3) domw s1(1,3) by (simp add: sched_step_def)
      ultimately show ?thesis
        using qdata_l_dequeue_other [OF that(2), of M "lh s"] d by simp
    qed
    moreover have "qkeeps inv live (lh s) (lh s')"
      using IH kp qkeeps_trans [of inv live "lh s" "lh s2" "lh s'"] by blast
    moreover have "sched.more s' = sched.more s" "currentProcess s' = currentProcess s"
      using IH s1 ub(3) st by (simp_all add: sched_step_def)
    moreover have "swf s'" "priorityQueues s' = priorityQueues s" "qdata (lh s') w = drop (Suc k) xs"
      using IH w2(5) Cons by simp_all
    ultimately show ?thesis by blast
  qed
qed

section \<open>The operations keep semaphores well formed\<close>

abbreviation swfs :: "('a, 'z) sem_state_scheme \<Rightarrow> bool" where
  "swfs \<equiv> sem_inv inv live"

lemma can_queue_upd_sem [simp]: "can_queue (upd_sem i f s) = can_queue s"
  by (simp add: can_queue_def)

lemma sem_invD:
  assumes "swfs s" and "i < 500" and "used (sems s i)"
  shows "swf s" and "\<not> locked (sems s i)" and "waiting (sems s i) \<in> dom (lq (lh s))"
    and "waiting (sems s i) \<notin> range (priorityQueues s)"
    and "\<forall>p \<in> set (sem_wait_list s i). 1 \<le> p \<and> p \<le> 100" and "0 \<le> svalue (sems s i)"
    and "0 < svalue (sems s i) \<Longrightarrow> sem_wait_list s i = []"
  using assms by (auto simp: sem_inv_def sem_ok_def)

lemma sem_inv_step:
  assumes "swfs s" and "sched_step s t"
  shows "swfs t" and "sems t = sems s" and "hung t = hung s" and "stray t = stray s"
    and "\<lbrakk>i < 500; used (sems s i)\<rbrakk> \<Longrightarrow> sem_wait_list t i = sem_wait_list s i"
proof -
  have m: "sched.more t = sched.more s" using assms(2) by (simp add: sched_step_def)
  note sm = same_more [OF m]
  show "sems t = sems s" "hung t = hung s" "stray t = stray s" by (fact sm)+
  have wl: "sem_wait_list t i = sem_wait_list s i" if "i < 500" "used (sems s i)" for i
    using assms(2) sem_invD(3,4) [OF assms(1) that] by (simp add: sched_step_def sem_wait_list_def sm)
  then show "\<lbrakk>i < 500; used (sems s i)\<rbrakk> \<Longrightarrow> sem_wait_list t i = sem_wait_list s i" .
  have d: "dom (lq (lh t)) = dom (lq (lh s))" "priorityQueues t = priorityQueues s" "swf t"
    using assms(2) by (simp_all add: sched_step_def qkeeps_def)
  have "sem_ok t i" if "i < 500" "used (sems s i)" for i
    using assms(1) that wl [OF that] by (simp add: sem_inv_def sem_ok_def d sm)
  then show "swfs t" using assms(1) d(3) by (simp add: sem_inv_def sm)
qed

text \<open>Changing the value and the queue of one semaphore.\<close>

lemma sem_inv_one:
  assumes "swfs s" and "i < 500" and "used (sems s i)" and "swf t"
    and "sems t = (sems s)(i := (sems s i)\<lparr>svalue := v, locked := False\<rparr>)"
    and "dom (lq (lh t)) = dom (lq (lh s))" and "priorityQueues t = priorityQueues s"
    and "\<And>q. \<lbrakk>q \<noteq> waiting (sems s i); q \<in> dom (lq (lh s)); q \<notin> range (priorityQueues s)\<rbrakk>
      \<Longrightarrow> qdata (lh t) q = qdata (lh s) q"
    and "\<forall>p \<in> set (qdata (lh t) (waiting (sems s i))). 1 \<le> p \<and> p \<le> 100" and "0 \<le> v"
    and "0 < v \<Longrightarrow> qdata (lh t) (waiting (sems s i)) = []"
  shows "swfs t"
proof -
  have ok: "sem_ok t j" if j: "j < 500" "used (sems s j)" for j
  proof (cases "j = i")
    case True
    then show ?thesis
      using sem_invD(3,4) [OF assms(1-3)] assms(5-7,9-11) by (simp add: sem_ok_def sem_wait_list_def)
  next
    case False
    then have "waiting (sems s j) \<noteq> waiting (sems s i)"
      using assms(1-3) j by (auto simp: sem_inv_def)
    then have "sem_wait_list t j = sem_wait_list s j"
      using assms(8) sem_invD(3,4) [OF assms(1) j] False assms(5) by (simp add: sem_wait_list_def)
    then show ?thesis
      using assms(1) j False assms(5-7) by (simp add: sem_inv_def sem_ok_def)
  qed
  show ?thesis
    using assms(1,4) ok unfolding sem_inv_def assms(5) by simp
qed

lemma semPost_spec:
  assumes "swfs s" and "i < 500" and "used (sems s i)" and "semPost M (int i) s = (r, s')"
  shows "r = 0" and "swfs s'" and "sems s' = (sems s)(i := (sems s i)\<lparr>svalue := svalue (sems s i) + 1\<rparr>)"
    and "sem_wait_list s' i = []" and "hung s' = hung s" and "stray s' = stray s"
    and "currentProcess s' = currentProcess s"
    and "rqueued s' = rqueued s + mset_set (woken (sem_wait_list s i) s)"
    and "\<And>q. 1 \<le> q \<Longrightarrow> pcb s' q = (if q \<in> woken (sem_wait_list s i) s
           then (pcb s q)\<lparr>pstate := READY\<rparr> else pcb s q)"
    and "\<And>j. \<lbrakk>j < 500; used (sems s j); j \<noteq> i\<rbrakk> \<Longrightarrow> sem_wait_list s' j = sem_wait_list s j"
proof -
  note D = sem_invD [OF assms(1-3)]
  let ?w = "waiting (sems s i)"
  define s2 where "s2 = upd_sem i (\<lambda>x. x\<lparr>locked := True, svalue := svalue x + 1\<rparr>) s"
  define s3 where "s3 = wake_all M ?w s2"
  have r: "r = 0" "s' = release_spinlock i s3"
    using assms(2-4) D(2) by (simp_all add: semPost_def acquire_spinlock_def Let_def s2_def s3_def upd_sem_def)
  have s2: "swf s2" "?w \<in> dom (lq (lh s2))" "?w \<notin> range (priorityQueues s2)"
    "qdata (lh s2) ?w = sem_wait_list s i"
    using D(1,3,4) by (simp_all add: s2_def sem_wait_list_def)
  have k: "s3 = wake (length (sem_wait_list s i)) M ?w s2"
    by (simp add: s3_def wake_all_def s2_def sem_wait_list_def qdata_def)
  note W = wake_spec [OF s2 D(5) k, simplified]
  have m: "sems s3 = sems s2" "hung s3 = hung s2" "stray s3 = stray s2"
    using same_more [of s3 s2] W by simp_all
  show "r = 0" by (fact r)
  show se: "sems s' = (sems s)(i := (sems s i)\<lparr>svalue := svalue (sems s i) + 1\<rparr>)"
    using D(2) by (simp add: r release_spinlock_def m s2_def not_locked_upd)
  show "sem_wait_list s' i = []"
    using W by (simp add: sem_wait_list_def r release_spinlock_def m s2_def)
  show "hung s' = hung s" "stray s' = stray s" by (simp_all add: r release_spinlock_def m s2_def)
  have wk: "woken (sem_wait_list s i) s2 = woken (sem_wait_list s i) s" by (simp add: woken_def s2_def)
  show "currentProcess s' = currentProcess s"
    and "rqueued s' = rqueued s + mset_set (woken (sem_wait_list s i) s)"
    using W wk by (simp_all add: r release_spinlock_def s2_def)
  show "pcb s' q = (if q \<in> woken (sem_wait_list s i) s then (pcb s q)\<lparr>pstate := READY\<rparr> else pcb s q)"
    if "1 \<le> q" for q
    using W that unfolding wk by (simp add: r release_spinlock_def s2_def)
  have oth: "qdata (lh s') q = qdata (lh s) q"
    if "q \<noteq> ?w" "q \<in> dom (lq (lh s))" "q \<notin> range (priorityQueues s)" for q
    using W that by (simp add: r release_spinlock_def s2_def)
  show "swfs s'"
    by (rule sem_inv_one [OF assms(1-3), where v = "svalue (sems s i) + 1"])
      (use W D(2,6) oth in \<open>simp_all add: se not_locked_upd\<close>,
        simp_all add: r release_spinlock_def s2_def qkeeps_def)
  show "sem_wait_list s' j = sem_wait_list s j" if "j < 500" "used (sems s j)" "j \<noteq> i" for j
    using oth sem_invD(3,4) [OF assms(1) that(1,2)] that assms(1-3)
    by (auto simp: sem_wait_list_def se sem_inv_def)
qed

text \<open>Both entries into the waiting loop run it on the locked semaphore.\<close>

lemma semWait_enter:
  assumes "swfs s" and "i < 500" and "used (sems s i)"
  shows "semWait M (int i) s = semWait_loop M i (upd_sem i (\<lambda>x. x\<lparr>locked := True\<rparr>) s)"
    and "semWait_resume M i s = semWait_loop M i (upd_sem i (\<lambda>x. x\<lparr>locked := True\<rparr>) s)"
  using assms sem_invD(2) [OF assms]
  by (simp_all add: semWait_def semWait_resume_def acquire_spinlock_def upd_sem_def Let_def)

lemma semWait_take:
  assumes "swfs s" and "i < 500" and "used (sems s i)" and "0 < svalue (sems s i)"
    and "semWait_loop M i (upd_sem i (\<lambda>x. x\<lparr>locked := True\<rparr>) s) = (r, s')"
  shows "r = Ret 0" and "s' = s\<lparr>sems := (sems s)(i := (sems s i)\<lparr>svalue := svalue (sems s i) - 1\<rparr>)\<rparr>"
    and "swfs s'"
proof -
  note D = sem_invD [OF assms(1-3)]
  show r: "r = Ret 0" and s': "s' = s\<lparr>sems := (sems s)(i := (sems s i)\<lparr>svalue := svalue (sems s i) - 1\<rparr>)\<rparr>"
    using assms(4,5) D(2)
    by (simp_all add: semWait_loop_def release_spinlock_def upd_sem_def not_locked_upd)
  show "swfs s'"
    by (rule sem_inv_one [OF assms(1-3), where v = "svalue (sems s i) - 1"])
      (use D assms(4) in \<open>simp_all add: s' not_locked_upd sem_wait_list_def\<close>)
qed

text \<open>Queueing the caller.\<close>

lemma queue_other:
  assumes "swf s" and "w \<in> dom (lq (lh s))" and "w \<notin> range (priorityQueues s)"
    and "l = l_queue M (lh s) w p"
  shows "qkeeps inv live (lh s) l" and "swf (s\<lparr>lh := l\<rparr>)" and "rqueued (s\<lparr>lh := l\<rparr>) = rqueued s"
    and "qdata l w = qdata (lh s) w \<or> qdata l w = qdata (lh s) w @ [p]"
    and "can_queue s \<Longrightarrow> qdata l w = qdata (lh s) w @ [p]"
    and "q \<noteq> w \<Longrightarrow> qdata l q = qdata (lh s) q"
proof -
  obtain xs where xs: "lq (lh s) w = Some xs" using assms(2) by blast
  have wf: "wf (lh s)" using swfD(1) [OF assms(1)] by (simp add: queues_ok_def)
  show kp: "qkeeps inv live (lh s) l"
    using wf xs
  proof (cases rule: queue_cases [where e = p])
    case Fail
    then show ?thesis using assms(4) qkeeps_refl [OF wf] by simp
  next
    case (Ok n)
    then show ?thesis using assms(4) xs by (auto simp: qkeeps_def)
  qed
  show "qdata l w = qdata (lh s) w \<or> qdata l w = qdata (lh s) w @ [p]"
    using wf xs
  proof (cases rule: queue_cases [where e = p])
    case (Ok n)
    then show ?thesis using assms(4) xs by (simp add: qdata_def qnodes_def)
  qed (simp add: assms(4))
  show "qdata l w = qdata (lh s) w @ [p]" if "can_queue s"
    using qdata_queue [OF wf xs, of p] that assms(4) by (simp add: can_queue_def)
  have o: "qdata l q = qdata (lh s) q" if "q \<noteq> w" for q using that assms(4) by simp
  then show "q \<noteq> w \<Longrightarrow> qdata l q = qdata (lh s) q" .
  from swf_other_queue [OF assms(1) kp assms(3) o]
  show "swf (s\<lparr>lh := l\<rparr>)" and "rqueued (s\<lparr>lh := l\<rparr>) = rqueued s" by blast+
qed

lemma semWait_sleep:
  assumes "swfs s" and "i < 500" and "used (sems s i)" and "svalue (sems s i) = 0"
    and "currentProcess s \<noteq> 0"
    and "semWait_loop M i (upd_sem i (\<lambda>x. x\<lparr>locked := True\<rparr>) s) = (r, s')"
  defines "c \<equiv> currentProcess s"
  shows "r = Sleep" and "swfs s'" and "sems s' = sems s" and "hung s' = hung s" and "stray s' = stray s"
    and "can_queue s \<Longrightarrow> sem_wait_list s' i = sem_wait_list s i @ [c]"
    and "\<exists>t. t = s\<lparr>lh := l_queue M (lh s) (waiting (sems s i)) c\<rparr> \<and> swf t \<and> rqueued t = rqueued s
      \<and> pcb t = pcb s \<and> s' = snd (blockProcess M (int c) t)"
proof -
  note D = sem_invD [OF assms(1-3)]
  let ?w = "waiting (sems s i)"
  have c: "1 \<le> c" "c \<le> 100" "getpid s = int c"
    using swfD(3,4) [OF D(1)] assms(5) by (auto simp: c_def getpid_def getCurrentProcess_def pid_at_def)
  define l where "l = l_queue M (lh s) ?w c"
  define t where "t = s\<lparr>lh := l\<rparr>"
  note Q = queue_other [OF D(1,3,4) l_def]
  have rel: "(sems s)(i := (sems s i)\<lparr>locked := False\<rparr>) = sems s"
    using D(2) by (cases "sems s i") (auto simp: fun_eq_iff)
  have "release_spinlock i ((upd_sem i (\<lambda>x. x\<lparr>locked := True\<rparr>) s)\<lparr>lh := l\<rparr>) = t"
    using rel by (simp add: release_spinlock_def upd_sem_def t_def)
  then have "(r, s') = (Sleep, snd (blockProcess M (int c) t))"
    using assms(4,6) c(3) by (simp add: semWait_loop_def Let_def l_def)
  then show r: "r = Sleep" and s': "\<exists>t. t = s\<lparr>lh := l_queue M (lh s) ?w c\<rparr> \<and> swf t
      \<and> rqueued t = rqueued s \<and> pcb t = pcb s \<and> s' = snd (blockProcess M (int c) t)"
    using Q(2,3) by (simp_all add: t_def l_def pcb_def fun_eq_iff)
  have tf: "sems t = sems s" "hung t = hung s" "stray t = stray s" "lh t = l"
    "priorityQueues t = priorityQueues s"
    by (simp_all add: t_def)
  have "qdata l q = qdata (lh s) q" if "q \<noteq> ?w" for q using Q(6) that .
  moreover have "\<forall>p \<in> set (qdata l ?w). 1 \<le> p \<and> p \<le> 100"
    using Q(4) D(5) c(1,2) by (auto simp: sem_wait_list_def)
  moreover have "(sems s)(i := (sems s i)\<lparr>svalue := 0, locked := False\<rparr>) = sems s"
    using assms(4) D(2) by (cases "sems s i") (auto simp: fun_eq_iff)
  ultimately have wt: "swfs t"
    by (intro sem_inv_one [OF assms(1-3), where v = 0 and t = t])
      (use Q(1,2) in \<open>simp_all add: tf qkeeps_def t_def [symmetric]\<close>)
  have st: "sched_step t s'" using step_block s' [folded l_def t_def] by auto
  note I = sem_inv_step [OF wt st]
  show "swfs s'" "sems s' = sems s" "hung s' = hung s" "stray s' = stray s" using I tf by simp_all
  show "sem_wait_list s' i = sem_wait_list s i @ [c]" if "can_queue s"
    using I(5) [of i] assms(2,3) Q(5) that tf by (simp add: sem_wait_list_def)
qed

lemma sem_refused:
  assumes "swfs s" and "\<not> (0 \<le> k \<and> k < 500 \<and> used (sems s (nat k)))"
  shows "\<exists>b. semWait M k s = (Ret (- 1), s\<lparr>stray := b\<rparr>)" and "semPost M k s = (- 1, s)"
proof -
  have same: "release_spinlock (nat k) (acquire_spinlock (nat k) s) = s"
    "used (sems (acquire_spinlock (nat k) s) (nat k)) = used (sems s (nat k))" if "0 \<le> k" "k < 500"
  proof -
    have nl: "\<not> locked (sems s (nat k))" using assms(1) that by (simp add: sem_inv_def)
    then have "(sems s)(nat k := (sems s (nat k))\<lparr>locked := False\<rparr>) = sems s"
      by (cases "sems s (nat k)") (auto simp: fun_eq_iff)
    with nl show "release_spinlock (nat k) (acquire_spinlock (nat k) s) = s"
      by (simp add: release_spinlock_def acquire_spinlock_def upd_sem_def)
    show "used (sems (acquire_spinlock (nat k) s) (nat k)) = used (sems s (nat k))"
      by (simp add: acquire_spinlock_def)
  qed
  have e: "\<exists>b. s = s\<lparr>stray := b\<rparr>" by (rule exI [of _ "stray s"]) simp
  show "semPost M k s = (- 1, s)"
    using assms(2) same by (auto simp: semPost_def Let_def)
  show "\<exists>b. semWait M k s = (Ret (- 1), s\<lparr>stray := b\<rparr>)"
    using assms(2) same e by (auto simp: semWait_def Let_def)
qed

lemma sem_inv_stray [simp]: "swfs (s\<lparr>stray := b\<rparr>) = swfs s"
  by (simp add: sem_inv_def sem_ok_def sem_wait_list_def sched_wf_def queues_ok_def members_ok_def
      rqueued_def rq_def pcb_def)

lemma sem_exec_spec:
  assumes "swfs s" and "i < 500" and "used (sems s i)" and "sem_exec M e s = (r, s')"
  shows "swfs s' \<and> hung s' = hung s \<and> used (sems s' i)
    \<and> svalue (sems s' i) + int (acquired i [(e, r)]) = svalue (sems s i) + int (posted i [(e, r)])"
proof -
  have wait: ?thesis
    if c: "currentProcess s \<noteq> 0" and j: "j < 500" "used (sems s j)"
      and e: "e = EWait (int j) \<or> e = EResume j"
      and l: "semWait_loop M j (upd_sem j (\<lambda>x. x\<lparr>locked := True\<rparr>) s) = (r, s')" for j
  proof (cases "svalue (sems s j) = 0")
    case True
    from semWait_sleep [OF assms(1) j True c l] show ?thesis
      using assms(3) e by (auto simp: acquired_def posted_def)
  next
    case False
    then have "0 < svalue (sems s j)" using sem_invD(6) [OF assms(1) j] by simp
    from semWait_take [OF assms(1) j this l] show ?thesis
      using assms(3) e by (auto simp: acquired_def posted_def)
  qed
  show ?thesis
  proof (cases e)
    case (EWait k)
    show ?thesis
    proof (cases "currentProcess s \<noteq> 0 \<and> 0 \<le> k \<and> k < 500 \<and> used (sems s (nat k))")
      case True
      then show ?thesis
        using wait [of "nat k"] semWait_enter(1) [OF assms(1), of "nat k"] assms(4) EWait by auto
    next
      case False
      then show ?thesis
        using assms EWait sem_refused(1) [OF assms(1), of k]
        by (cases "currentProcess s = 0") (auto simp: acquired_def posted_def)
    qed
  next
    case (EResume k)
    then show ?thesis
      using wait [of k] semWait_enter(2) [OF assms(1), of k] assms
      by (cases "currentProcess s = 0 \<or> k \<ge> MAX_SEMS \<or> \<not> used (sems s k)")
        (auto simp: acquired_def posted_def)
  next
    case (EPost k)
    obtain v t where post: "semPost M k s = (v, t)" by force
    show ?thesis
    proof (cases "currentProcess s \<noteq> 0 \<and> 0 \<le> k \<and> k < 500 \<and> used (sems s (nat k))")
      case True
      then have "semPost M (int (nat k)) s = (v, t)" using post by simp
      from semPost_spec [OF assms(1) _ _ this] show ?thesis
        using True post assms EPost by (auto simp: acquired_def posted_def)
    next
      case False
      then show ?thesis
        using assms EPost sem_refused(2) [OF assms(1), of k]
        by (cases "currentProcess s = 0") (auto simp: acquired_def posted_def)
    qed
  next
    case ETick
    have "swf s" using assms(1) by (simp add: sem_inv_def)
    from sem_inv_step [OF assms(1) step_irq00 [OF this]] show ?thesis
      using ETick assms by (auto simp: acquired_def posted_def)
  qed
qed

lemma sem_run_spec:
  assumes "swfs s" and "i < 500" and "used (sems s i)" and "sem_run M es s = (log, s')"
  shows "swfs s' \<and> hung s' = hung s \<and> used (sems s' i)
    \<and> svalue (sems s' i) + int (acquired i log) = svalue (sems s i) + int (posted i log)"
  using assms
proof (induction es arbitrary: s log)
  case Nil
  then show ?case by (simp add: acquired_def posted_def)
next
  case (Cons e es)
  obtain r s1 where e: "sem_exec M e s = (r, s1)" by force
  obtain log1 where l: "sem_run M es s1 = (log1, s')" "log = (e, r) # log1"
    using Cons.prems(4) e by (auto split: prod.splits)
  note S = sem_exec_spec [OF Cons.prems(1-3) e]
  have "acquired i log = acquired i [(e, r)] + acquired i log1"
    "posted i log = posted i [(e, r)] + posted i log1"
    by (simp_all add: acquired_def posted_def l(2))
  then show ?case using Cons.IH [OF _ Cons.prems(2) _ l(1)] S by simp
qed

end

end
