(* ===== verification/Semaphore_Properties.thy ===== *)
theory Semaphore_Properties
  imports Semaphores
begin

text \<open>
  The properties of \<open>Kernel/semaphoreManager.c\<close>, and what \<open>semCreate\<close> does to the table: the
  library lemmas are proved for any kernel memory, the properties are stated for the naive
  memory manager.
\<close>

section \<open>Finding slots and names\<close>

lemma free_sem_from_cases:
  "free_sem_from k i ss = - 1
    \<or> (\<exists>j. free_sem_from k i ss = int j \<and> i \<le> j \<and> j < i + k \<and> \<not> used (ss j))"
proof (induction k arbitrary: i)
  case (Suc k)
  from Suc [of "Suc i"] show ?case by (cases "used (ss i)") auto
qed simp

lemma find_name_from_none:
  "find_name_from k i s nm = - 1 \<longleftrightarrow> (\<forall>j. i \<le> j \<and> j < i + k \<longrightarrow> \<not> (used (sems s j) \<and> strcmp (sem_name s j) nm = 0))"
proof (induction k arbitrary: i)
  case (Suc k)
  have "i \<le> j \<and> j < i + Suc k \<longleftrightarrow> j = i \<or> (i + 1 \<le> j \<and> j < i + 1 + k)" for j by auto
  then have "(\<forall>j. i \<le> j \<and> j < i + Suc k \<longrightarrow> P j) \<longleftrightarrow> P i \<and> (\<forall>j. i + 1 \<le> j \<and> j < i + 1 + k \<longrightarrow> P j)" for P
    by metis
  then show ?case using Suc [of "i + 1"] by simp
qed auto

lemma find_name_from_first:
  assumes "i \<le> j" and "j < i + k" and "used (sems s j) \<and> strcmp (sem_name s j) nm = 0"
    and "\<forall>m. i \<le> m \<and> m < j \<longrightarrow> \<not> (used (sems s m) \<and> strcmp (sem_name s m) nm = 0)"
  shows "find_name_from k i s nm = int j"
  using assms
proof (induction k arbitrary: i)
  case (Suc k)
  show ?case
  proof (cases "i = j")
    case False
    then show ?thesis using Suc.prems Suc.IH [of "i + 1"] by simp
  qed (use Suc.prems in simp)
qed simp

text \<open>A name with its zero byte inside the field is read without the neighbouring fields.\<close>

definition terminated :: "('m, 'z) sem_state_scheme \<Rightarrow> nat \<Rightarrow> bool" where
  "terminated s i \<longleftrightarrow> CHR 0x00 \<in> set (sname (sems s i))"

lemma takeWhile_append_stop: "\<exists>x \<in> set xs. \<not> P x \<Longrightarrow> takeWhile P (xs @ ys) = takeWhile P xs"
  by (induction xs) auto

lemma sem_name_terminated:
  "terminated s i \<Longrightarrow> sem_name s i = takeWhile (\<lambda>c. c \<noteq> CHR 0x00) (sname (sems s i))"
  unfolding sem_name_def name_bytes_def terminated_def by (rule takeWhile_append_stop) blast

lemma nulfree_sem_name: "nulfree (sem_name s i)"
  by (auto simp: nulfree_def sem_name_def dest: set_takeWhileD)

lemma takeWhile_written:
  assumes "nulfree nm" and "length nm < length old"
  shows "takeWhile (\<lambda>c. c \<noteq> CHR 0x00) (nm @ drop (length nm) old) = nm \<longleftrightarrow> old ! length nm = CHR 0x00"
proof -
  have "drop (length nm) old = old ! length nm # drop (Suc (length nm)) old"
    using assms(2) by (rule Cons_nth_drop_Suc [symmetric])
  moreover have "takeWhile (\<lambda>c. c \<noteq> CHR 0x00) (nm @ ys) = nm @ takeWhile (\<lambda>c. c \<noteq> CHR 0x00) ys" for ys
    using assms(1) by (intro takeWhile_append2) (auto simp: nulfree_def)
  ultimately show ?thesis by simp
qed

context kernel_memory
begin

lemma semCreate_spec:
  assumes "swfs s" and "semCreate M nm v s = (r, s')" and "r \<noteq> - 1" and "0 \<le> v"
    and "waiting (sems s' (nat r)) \<noteq> 0" and "\<forall>i \<ge> 5. priorityQueues s i = 0"
    and "0 \<le> getpid s" and "getpid s < 100"
  defines "i \<equiv> nat r"
  shows "swfs s'" and "0 \<le> r" and "i < 500" and "\<not> used (sems s i)"
    and "\<exists>q. sems s' = (sems s)(i := (sems s i)\<lparr>svalue := v, used := True, waiting := q,
      sname := nm @ drop (length nm) (sname (sems s i)), openedBy := (\<lambda>_. False)(nat (getpid s) := True)\<rparr>)"
    and "sem_wait_list s' i = []" and "hung s' = hung s" and "stray s' = stray s"
    and "rqueued s' = rqueued s" and "pcb s' = pcb s" and "currentProcess s' = currentProcess s"
    and "\<forall>j < 500. used (sems s j) \<longrightarrow> sem_wait_list s' j = sem_wait_list s j"
    and "length nm \<le> 28" and "findSemByName s nm = - 1" and "getpid s' = getpid s"
    and "spares live (lh s) (lh s')" and "priorityQueues s' = priorityQueues s"
proof -
  obtain q l where q: "l_newQueue M (lh s) = (q, l)" by force
  have ok: "length nm \<le> 28" "findSemByName s nm = - 1" "\<not> findFreeSem s < 0"
    using assms(2,3) by (auto simp: semCreate_def Let_def split: if_splits)
  then show "length nm \<le> 28" "findSemByName s nm = - 1" by blast+
  obtain j where j: "findFreeSem s = int j" "j < 500" "\<not> used (sems s j)"
    using ok(3) free_sem_from_cases [of MAX_SEMS 0 "sems s"] by (auto simp: findFreeSem_def)
  have gp: "getpid (upd_sem j f (s\<lparr>lh := l\<rparr>)) = getpid s" for f
    by (simp add: getpid_def getCurrentProcess_def pid_at_def upd_sem_def)
  have s': "r = int j" "s' = s\<lparr>lh := l, sems := (sems s)(j := (sems s j)\<lparr>svalue := v, used := True,
      waiting := q, sname := nm @ drop (length nm) (sname (sems s j)),
      openedBy := (\<lambda>_. False)(nat (getpid s) := True)\<rparr>)\<rparr>"
    using assms(2,7,8) ok j(1) q gp
    by (simp_all add: semCreate_def Let_def set_opened_def) (simp_all add: upd_sem_def)
  have i: "i = j" by (simp add: i_def s'(1))
  show "0 \<le> r" "i < 500" "\<not> used (sems s i)" using j s'(1) i by simp_all
  show "\<exists>q. sems s' = (sems s)(i := (sems s i)\<lparr>svalue := v, used := True, waiting := q,
      sname := nm @ drop (length nm) (sname (sems s i)), openedBy := (\<lambda>_. False)(nat (getpid s) := True)\<rparr>)"
    by (rule exI [of _ q]) (simp add: s'(2) i)
  have q0: "q \<noteq> 0" using assms(5) by (simp add: s')
  have swf: "swf s" using assms(1) by (simp add: sem_inv_def)
  have wf: "wf (lh s)" using swfD(1) [OF swf] by (simp add: queues_ok_def)
  have new: "q \<notin> owned (lh s)" "lq l = (lq (lh s))(q \<mapsto> [])" "wf l" "spares live (lh s) l"
    using newQueue_cases [OF wf q] q0 by blast+
  have pq: "q \<notin> range (priorityQueues s)"
  proof
    assume "q \<in> range (priorityQueues s)"
    then obtain k where "q = priorityQueues s k" by blast
    then show False
      using q0 assms(6) swfD(1) [OF swf] new(1)
      by (cases "k < 5") (auto simp: queues_ok_def owned_def)
  qed
  have ql: "qdata l = (qdata (lh s))(q := [])"
    unfolding qdata_def qnodes_def new(2) by (auto simp: fun_eq_iff)
  have ready: "rq s' k = rq s k" for k
    using pq by (simp add: rq_def s'(2) ql) (metis rangeI)
  then show rqd: "rqueued s' = rqueued s" by (simp add: rqueued_def)
  show pc: "pcb s' = pcb s" by (simp add: s'(2) pcb_def fun_eq_iff)
  show "currentProcess s' = currentProcess s" "hung s' = hung s" "stray s' = stray s"
    "priorityQueues s' = priorityQueues s" "spares live (lh s) (lh s')"
    using new(4) by (simp_all add: s'(2))
  show "getpid s' = getpid s" by (simp add: s'(2) getpid_def getCurrentProcess_def pid_at_def)
  have swf': "swf s'"
    using swf rqd pc new(2,3) by (auto simp: sched_wf_def queues_ok_def members_ok_def s'(2))
  have wl: "sem_wait_list s' k = sem_wait_list s k" if "k < 500" "used (sems s k)" for k
  proof -
    have "waiting (sems s k) \<noteq> q"
      using sem_invD(3) [OF assms(1) that] new(1) by (auto simp: owned_def)
    moreover have "k \<noteq> j" using that j(3) by blast
    ultimately show ?thesis by (simp add: sem_wait_list_def s'(2) ql)
  qed
  then show "\<forall>k < 500. used (sems s k) \<longrightarrow> sem_wait_list s' k = sem_wait_list s k" by blast
  show wn: "sem_wait_list s' i = []" by (simp add: sem_wait_list_def s'(2) ql i)
  have fresh: "waiting (sems s k) \<noteq> q" if "k < 500" "used (sems s k)" for k
    using sem_invD(3) [OF assms(1) that] new(1) by (auto simp: owned_def)
  have ok': "sem_ok s' k" if "k < 500" "used (sems s' k)" for k
  proof (cases "k = j")
    case True
    then show ?thesis using wn i pq assms(4) new(2) by (simp add: sem_ok_def s'(2) sem_wait_list_def)
  next
    case False
    then have u: "used (sems s k)" using that(2) by (simp add: s'(2))
    have "sem_ok s k" using assms(1) that(1) u by (simp add: sem_inv_def)
    then show ?thesis using wl [OF that(1) u] False new(2) by (auto simp: sem_ok_def s'(2))
  qed
  have unlocked: "\<not> locked (sems s' k)" if "k < 500" for k
    using assms(1) that by (simp add: sem_inv_def s'(2))
  have "waiting (sems s' k) \<noteq> waiting (sems s' m)"
    if "k < 500" "m < 500" "used (sems s' k)" "used (sems s' m)" "k \<noteq> m" for k m
    using that fresh assms(1) by (auto simp: s'(2) sem_inv_def split: if_splits)
  then show "swfs s'" using swf' ok' unlocked by (simp add: sem_inv_def)
qed

text \<open>What a name finds after a creation.\<close>

lemma lookup_created:
  assumes "swfs s" and "semCreate M nm v s = (r, s')" and "r \<noteq> - 1" and "0 \<le> v"
    and "waiting (sems s' (nat r)) \<noteq> 0" and "\<forall>i \<ge> 5. priorityQueues s i = 0"
    and "0 \<le> getpid s" and "getpid s < 100" and "nulfree nm" and "length nm < 28"
    and "length (sname (sems s (nat r))) = 28" and "\<forall>j < 500. j \<noteq> nat r \<longrightarrow> terminated s j"
    and "CHR 0x00 \<in> set (drop (length nm) (sname (sems s (nat r))))"
  shows "findSemByName s' nm = (if sname (sems s (nat r)) ! length nm = CHR 0x00 then r else - 1)"
proof -
  let ?i = "nat r"
  note C = semCreate_spec [OF assms(1-8)]
  obtain q where se: "sems s' = (sems s)(?i := (sems s ?i)\<lparr>svalue := v, used := True, waiting := q,
      sname := nm @ drop (length nm) (sname (sems s ?i)), openedBy := (\<lambda>_. False)(nat (getpid s) := True)\<rparr>)"
    using C(5) by blast
  have old: "\<not> (used (sems s j) \<and> strcmp (sem_name s j) nm = 0)" if "j < 500" for j
    using C(14) that by (simp add: findSemByName_def find_name_from_none)
  have name: "sem_name s' j = sem_name s j" if "j < 500" "j \<noteq> ?i" for j
    using sem_name_terminated [of s j] sem_name_terminated [of s' j] assms(12) that
    by (simp add: terminated_def se)
  have other: "\<not> (used (sems s' j) \<and> strcmp (sem_name s' j) nm = 0)" if "j < 500" "j \<noteq> ?i" for j
    using old [OF that(1)] name [OF that] that by (simp add: se)
  have own: "sem_name s' ?i = takeWhile (\<lambda>c. c \<noteq> CHR 0x00) (nm @ drop (length nm) (sname (sems s ?i)))"
    using sem_name_terminated [of s' ?i] assms(13) by (simp add: terminated_def se)
  have hit: "strcmp (sem_name s' ?i) nm = 0 \<longleftrightarrow> sname (sems s ?i) ! length nm = CHR 0x00"
    using takeWhile_written [OF assms(9), of "sname (sems s ?i)"] assms(10,11)
      strcmp_eq_0 [OF nulfree_sem_name assms(9), of s' ?i] by (simp add: own)
  show ?thesis
  proof (cases "sname (sems s ?i) ! length nm = CHR 0x00")
    case True
    then have "find_name_from 500 0 s' nm = int ?i"
      using hit other C(3) by (intro find_name_from_first) (auto simp: se)
    then show ?thesis using True C(2) by (simp add: findSemByName_def)
  next
    case False
    then have "find_name_from 500 0 s' nm = - 1"
      using hit other unfolding find_name_from_none by (metis add_0)
    then show ?thesis using False by (simp add: findSemByName_def)
  qed
qed

end

section \<open>A concrete semaphore table\<close>

definition demo_slot :: "string \<Rightarrow> sem_t" where
  "demo_slot nm = \<lparr>svalue = 0, used = False, locked = False, waiting = 0, openedBy = (\<lambda>_. False),
     sname = nm @ replicate (28 - length nm) (CHR 0x00)\<rparr>"

definition demo_table :: "naive sem_state" where
  "demo_table = sched.extend demo_running
     \<lparr>sems = (\<lambda>i. if i = 0 then demo_slot ''mutex2'' else demo_slot ''''), hung = False, stray = False\<rparr>"

text \<open>The scheduler part of a state decides what the scheduler predicates say of it.\<close>

lemma extend_frame:
  "sched_wf I lv (sched.extend s x) = sched_wf I lv s" "rqueued (sched.extend s x) = rqueued s"
  "pcb (sched.extend s x) = pcb s" "accounted (sched.extend s x) = accounted s"
  "lh (sched.extend s x) = lh s" "currentProcess (sched.extend s x) = currentProcess s"
  "priorityQueues (sched.extend s x) = priorityQueues s" "getpid (sched.extend s x) = getpid s"
  "cpu_rsp (sched.extend s x) = cpu_rsp s" "sched.more (sched.extend s x) = x"
  by (simp_all add: sched.defs sched_wf_def queues_ok_def members_ok_def rqueued_def rq_def pcb_def
      accounted_def getpid_def getCurrentProcess_def pid_at_def fun_eq_iff)

lemma demo_queues: "i \<ge> 5 \<Longrightarrow> priorityQueues demo_running i = 0"
  by (simp add: demo_running_def demo_ready_def pq_frame demo_boot_def initScheduler_def upt_rec split_beta)

lemma demo_table_sems:
  "sems demo_table = (\<lambda>i. if i = 0 then demo_slot ''mutex2'' else demo_slot '''')"
  "hung demo_table = False" "stray demo_table = False"
  by (simp_all add: demo_table_def sched.defs)

lemma demo_table_facts:
  "sem_inv naive_inv naive_live demo_table" "currentProcess demo_table = 3" "getpid demo_table = 3"
  "\<forall>i \<ge> 5. priorityQueues demo_table i = 0" "accounted demo_table" "rqueued demo_table = {#4#}"
  "pstate (pcb demo_table 3) = RUNNING" "pstate (pcb demo_table 4) = READY"
  "fst (allocMemory_naive (lmem (lh demo_table)) 16) \<noteq> 0"
proof -
  show "currentProcess demo_table = 3" "\<forall>i \<ge> 5. priorityQueues demo_table i = 0"
    "accounted demo_table" "rqueued demo_table = {#4#}"
    "fst (allocMemory_naive (lmem (lh demo_table)) 16) \<noteq> 0"
    using demo_running_facts demo_queues by (simp_all add: demo_table_def extend_frame)
  show "pstate (pcb demo_table 3) = RUNNING" "pstate (pcb demo_table 4) = READY"
    using demo_running_facts(5,6) by (simp_all add: demo_table_def extend_frame demo_process_def)
  have "pid (pcb demo_running 3) = 3" using demo_running_facts(5) by (simp add: demo_process_def)
  then show "getpid demo_table = 3"
    using demo_running_facts(2)
    by (simp add: demo_table_def extend_frame getpid_def getCurrentProcess_def pid_at_def)
  have u: "used (sems demo_table i) = False" "locked (sems demo_table i) = False" for i
    by (simp_all add: demo_table_sems demo_slot_def)
  have "sched_wf naive_inv naive_live demo_table"
    using demo_running_facts(1) by (simp add: demo_table_def extend_frame)
  then show "sem_inv naive_inv naive_live demo_table" by (simp add: sem_inv_def u)
qed

definition demo_mutex :: "int \<Rightarrow> naive sem_state" where
  "demo_mutex v = snd (semCreate naive_mm ''mu'' v demo_table)"

lemma demo_create:
  "semCreate naive_mm ''mu'' v demo_table = (0, demo_mutex v)" "waiting (sems (demo_mutex v) 0) \<noteq> 0"
proof -
  have none: "findSemByName demo_table ''mu'' = - 1"
    by (simp add: findSemByName_def find_name_from_none demo_table_sems demo_slot_def)
  have "free_sem_from (Suc 499) 0 (sems demo_table) = 0"
    by (subst free_sem_from.simps) (simp add: demo_table_sems demo_slot_def)
  then have free: "findFreeSem demo_table = 0" by (simp add: findFreeSem_def)
  obtain q l where q: "l_newQueue naive_mm (lh demo_table) = (q, l)" by force
  have q0: "q \<noteq> 0"
    using q demo_table_facts(9) by (auto simp: l_newQueue_def sizeof_queueCDT_def split_beta split: if_splits)
  have "getpid (upd_sem 0 f (demo_table\<lparr>lh := l\<rparr>)) = 3" for f
    using demo_table_facts(2,3) by (simp add: getpid_def getCurrentProcess_def pid_at_def upd_sem_def)
  then have "fst (semCreate naive_mm ''mu'' v demo_table) = 0
      \<and> waiting (sems (snd (semCreate naive_mm ''mu'' v demo_table)) 0) \<noteq> 0"
    using none free q q0 by (simp add: semCreate_def Let_def set_opened_def)
  then show "semCreate naive_mm ''mu'' v demo_table = (0, demo_mutex v)" "waiting (sems (demo_mutex v) 0) \<noteq> 0"
    by (simp_all add: demo_mutex_def prod_eq_iff)
qed

lemma demo_mutex_facts:
  assumes "0 \<le> v"
  shows "sem_inv naive_inv naive_live (demo_mutex v)" "used (sems (demo_mutex v) 0)"
    "svalue (sems (demo_mutex v) 0) = v" "sem_wait_list (demo_mutex v) 0 = []"
    "currentProcess (demo_mutex v) = 3" "accounted (demo_mutex v)" "3 \<notin># rqueued (demo_mutex v)"
    "pstate (pcb (demo_mutex v) 3) = RUNNING" "hung (demo_mutex v) = False"
proof -
  note C = naive.semCreate_spec [OF demo_table_facts(1) demo_create(1) _ assms _ demo_table_facts(4)]
  have "(0 :: int) \<noteq> - 1" "waiting (sems (demo_mutex v) (nat 0)) \<noteq> 0" "0 \<le> getpid demo_table"
    "getpid demo_table < 100"
    using demo_create(2) demo_table_facts(3) by simp_all
  note D = C [OF this]
  obtain q where "sems (demo_mutex v) = (sems demo_table)(nat 0 := (sems demo_table (nat 0))\<lparr>svalue := v,
      used := True, waiting := q, sname := ''mu'' @ drop (length ''mu'') (sname (sems demo_table (nat 0))),
      openedBy := (\<lambda>_. False)(nat (getpid demo_table) := True)\<rparr>)"
    using D(5) by blast
  then show "used (sems (demo_mutex v) 0)" "svalue (sems (demo_mutex v) 0) = v" by simp_all
  show "sem_inv naive_inv naive_live (demo_mutex v)" "sem_wait_list (demo_mutex v) 0 = []"
    "currentProcess (demo_mutex v) = 3" "hung (demo_mutex v) = False"
    "3 \<notin># rqueued (demo_mutex v)" "pstate (pcb (demo_mutex v) 3) = RUNNING"
    using D demo_table_facts demo_table_sems by simp_all
  show "accounted (demo_mutex v)"
    using demo_table_facts(5) D(9-11) by (simp add: accounted_def)
qed

section \<open>Properties\<close>



text \<open>
  a post on a semaphore in use returns 0, adds one to its value, empties its queue, and
  makes every waiter that is blocked ready and queued exactly once. Nothing else about any
  process or any other semaphore changes.
\<close>

theorem semPost_wakes_all:
  assumes "sem_inv naive_inv naive_live s" and "i < 500" and "used (sems s i)"
    and "semPost naive_mm (int i) s = (r, s')"
    and "W = {p \<in> set (sem_wait_list s i). pstate (pcb s p) = BLOCKED}"
  shows "r = 0 \<and> sems s' = (sems s)(i := (sems s i)\<lparr>svalue := svalue (sems s i) + 1\<rparr>)
    \<and> sem_wait_list s' i = [] \<and> rqueued s' = rqueued s + mset_set W
    \<and> (\<forall>p \<ge> 1. pcb s' p = (if p \<in> W then (pcb s p)\<lparr>pstate := READY\<rparr> else pcb s p))
    \<and> currentProcess s' = currentProcess s
    \<and> (\<forall>j < 500. used (sems s j) \<and> j \<noteq> i \<longrightarrow> sem_wait_list s' j = sem_wait_list s j)"
proof -
  note P = naive.semPost_spec [OF assms(1-4)]
  have "naive.woken (sem_wait_list s i) s = W" by (simp add: naive.woken_def assms(5))
  then show ?thesis using P by blast
qed

lemma semPost_wakes_all_witness: "fst (semPost naive_mm 0 (demo_mutex 1)) = 0
    \<and> svalue (sems (snd (semPost naive_mm 0 (demo_mutex 1))) 0) = 2"
proof -
  have v: "(0 :: int) \<le> 1" by simp
  have p: "semPost naive_mm (int 0) (demo_mutex 1)
      = (fst (semPost naive_mm 0 (demo_mutex 1)), snd (semPost naive_mm 0 (demo_mutex 1)))" by simp
  show ?thesis
    using semPost_wakes_all [OF demo_mutex_facts(1) [OF v] _ demo_mutex_facts(2) [OF v] p refl]
      demo_mutex_facts(3) [OF v] by simp
qed

text \<open>
  a wait, first entered or resumed, takes a unit and returns 0 when there is one, changing
  nothing else. When there is none, the running caller goes to the end of the queue, is
  blocked, not queued as ready and no longer current, and its stack pointer is saved: it
  cannot go on before a post.
\<close>

theorem semWait_takes_or_blocks:
  assumes "sem_inv naive_inv naive_live s" and "i < 500" and "used (sems s i)" and "accounted s"
    and "currentProcess s = c" and "c \<noteq> 0" and "c \<notin># rqueued s" and "pstate (pcb s c) = RUNNING"
    and "semWait naive_mm (int i) s = (r, s')"
  shows "semWait_resume naive_mm i s = (r, s')
    \<and> (0 < svalue (sems s i) \<longrightarrow> r = Ret 0
      \<and> s' = s\<lparr>sems := (sems s)(i := (sems s i)\<lparr>svalue := svalue (sems s i) - 1\<rparr>)\<rparr>)
    \<and> (svalue (sems s i) = 0 \<longrightarrow> r = Sleep \<and> sems s' = sems s \<and> pstate (pcb s' c) = BLOCKED
      \<and> c \<notin># rqueued s' \<and> currentProcess s' \<noteq> c \<and> stackEnd (pcb s' c) = cpu_rsp s \<and> accounted s'
      \<and> (fst (allocMemory_naive (lmem (lh s)) 16) \<noteq> 0 \<longrightarrow> sem_wait_list s' i = sem_wait_list s i @ [c]))"
proof -
  note E = naive.semWait_enter [OF assms(1-3)]
  have l: "semWait_loop naive_mm i (upd_sem i (\<lambda>x. x\<lparr>locked := True\<rparr>) s) = (r, s')"
    using E(1) assms(9) by simp
  moreover have "0 < svalue (sems s i) \<longrightarrow> r = Ret 0
      \<and> s' = s\<lparr>sems := (sems s)(i := (sems s i)\<lparr>svalue := svalue (sems s i) - 1\<rparr>)\<rparr>"
    using naive.semWait_take [OF assms(1-3) _ l] by blast
  moreover have "svalue (sems s i) = 0 \<longrightarrow> r = Sleep \<and> sems s' = sems s \<and> pstate (pcb s' c) = BLOCKED
      \<and> c \<notin># rqueued s' \<and> currentProcess s' \<noteq> c \<and> stackEnd (pcb s' c) = cpu_rsp s \<and> accounted s'
      \<and> (fst (allocMemory_naive (lmem (lh s)) 16) \<noteq> 0 \<longrightarrow> sem_wait_list s' i = sem_wait_list s i @ [c])"
  proof
    assume z: "svalue (sems s i) = 0"
    have c: "currentProcess s \<noteq> 0" using assms(5,6) by simp
    note S = naive.semWait_sleep [OF assms(1-3) z c l, unfolded assms(5)]
    obtain t where t: "t = s\<lparr>lh := l_queue naive_mm (lh s) (waiting (sems s i)) c\<rparr>" "naive_swf t"
      "rqueued t = rqueued s" "pcb t = pcb s" "s' = snd (blockProcess naive_mm (int c) t)"
      using S(7) by blast
    have "accounted t" "currentProcess t = c" "cpu_rsp t = cpu_rsp s"
      using assms(4,5) t(1,3,4) by (simp_all add: accounted_def)
    moreover obtain v where "blockProcess naive_mm (int c) t = (v, s')" using t(5) by (metis prod.collapse)
    ultimately show "r = Sleep \<and> sems s' = sems s \<and> pstate (pcb s' c) = BLOCKED
      \<and> c \<notin># rqueued s' \<and> currentProcess s' \<noteq> c \<and> stackEnd (pcb s' c) = cpu_rsp s \<and> accounted s'
      \<and> (fst (allocMemory_naive (lmem (lh s)) 16) \<noteq> 0 \<longrightarrow> sem_wait_list s' i = sem_wait_list s i @ [c])"
      using naive.block_self [of t c] t(2-4) assms(6-8) S(1,3,6) by (simp add: naive.can_queue_def)
  qed
  ultimately show ?thesis using E assms(9) by simp
qed

lemma semWait_takes_or_blocks_witness: "fst (semWait naive_mm 0 (demo_mutex 0)) = Sleep
    \<and> fst (semWait naive_mm 0 (demo_mutex 1)) = Ret 0"
proof -
  have v: "(0 :: int) \<le> 0" "(0 :: int) \<le> 1" by simp_all
  have w: "semWait naive_mm (int 0) (demo_mutex k)
      = (fst (semWait naive_mm 0 (demo_mutex k)), snd (semWait naive_mm 0 (demo_mutex k)))" for k by simp
  show ?thesis
    using semWait_takes_or_blocks [OF demo_mutex_facts(1) [OF v(1)] _ demo_mutex_facts(2) [OF v(1)]
        demo_mutex_facts(6,5) [OF v(1)] _ demo_mutex_facts(7,8) [OF v(1)] w]
      semWait_takes_or_blocks [OF demo_mutex_facts(1) [OF v(2)] _ demo_mutex_facts(2) [OF v(2)]
        demo_mutex_facts(6,5) [OF v(2)] _ demo_mutex_facts(7,8) [OF v(2)] w]
      demo_mutex_facts(3) [OF v(1)] demo_mutex_facts(3) [OF v(2)] by simp
qed

text \<open>
  C11: a created semaphore is found by its name only when the slot it took holds a zero byte
  behind the copied characters. \<open>semCreate\<close> copies the characters without their terminator,
  so in a slot that a longer name has used before, the new semaphore keeps the tail of the
  old name: the creation reports success and \<open>semOpen\<close> of the same name fails.
\<close>

theorem semCreate_lookup:
  assumes "sem_inv naive_inv naive_live s" and "semCreate naive_mm nm v s = (r, s')" and "r \<noteq> - 1"
    and "0 \<le> v" and "waiting (sems s' (nat r)) \<noteq> 0" and "\<forall>i \<ge> 5. priorityQueues s i = 0"
    and "0 \<le> getpid s" and "getpid s < 100" and "nulfree nm" and "length nm < 28"
    and "length (sname (sems s (nat r))) = 28" and "\<forall>j < 500. j \<noteq> nat r \<longrightarrow> terminated s j"
    and "CHR 0x00 \<in> set (drop (length nm) (sname (sems s (nat r))))"
  shows "sem_inv naive_inv naive_live s' \<and> semExists s' r \<and> svalue (sems s' (nat r)) = v
    \<and> sem_wait_list s' (nat r) = []
    \<and> fst (semOpen nm s') = (if sname (sems s (nat r)) ! length nm = CHR 0x00 then r else - 1)"
proof -
  note C = naive.semCreate_spec [OF assms(1-8)]
  note L = naive.lookup_created [OF assms]
  obtain q where se: "sems s' = (sems s)(nat r := (sems s (nat r))\<lparr>svalue := v, used := True, waiting := q,
      sname := nm @ drop (length nm) (sname (sems s (nat r))), openedBy := (\<lambda>_. False)(nat (getpid s) := True)\<rparr>)"
    using C(5) by blast
  have "r < 500" using C(2,3) by linarith
  then show ?thesis
    using C(1,2,6) L by (simp add: semExists_def se semOpen_def)
qed

lemma semCreate_lookup_witness:
  "fst (semCreate naive_mm ''mu'' 1 demo_table) = 0 \<and> semExists (demo_mutex 1) 0
   \<and> fst (semOpen ''mu'' (demo_mutex 1)) = - 1"
proof -
  have "\<forall>j < 500. j \<noteq> nat 0 \<longrightarrow> terminated demo_table j"
    by (auto simp: terminated_def demo_table_sems demo_slot_def)
  from semCreate_lookup [OF demo_table_facts(1) demo_create(1) _ _ _ demo_table_facts(4) _ _ _ _ _ this, of 1]
  show ?thesis
    using demo_create demo_table_facts(3)
    by (simp add: demo_table_sems demo_slot_def nulfree_def eval_nat_numeral)
qed

end
