(* ===== verification/Video.thy ===== *)
theory Video
  imports Prelude
begin

text \<open>
  \<open>Kernel/drivers/video.c\<close>: a linear frame buffer of three-byte colours. The frame buffer is
  a function from the offset behind its base address to bytes; the geometry that the VBE block
  reports is part of the state and no function writes it.

  Coordinates are 64-bit in the source. An offset is reduced modulo \<open>2 ^ 64\<close> once, where it is
  used: the product and the sum wrap there whatever representative the coordinates have.
  \<open>scrollVideoMemoryUp\<close> brackets its work with \<open>_cli\<close> and \<open>_sti\<close>, which have no counterpart here.
\<close>

section \<open>The program\<close>

record video =
  framebuffer :: "nat \<Rightarrow> u8"
  pitch :: nat
  width :: nat
  height :: nat
  bpp :: nat

definition blue :: "u32 \<Rightarrow> u8" where "blue c = ucast (c AND 0xFF)"
definition green :: "u32 \<Rightarrow> u8" where "green c = ucast (drop_bit 8 c AND 0xFF)"
definition red :: "u32 \<Rightarrow> u8" where "red c = ucast (drop_bit 16 c AND 0xFF)"

text \<open>The byte offset of a pixel, and the three stores.\<close>

definition pixel_offset :: "video \<Rightarrow> nat \<Rightarrow> nat \<Rightarrow> nat" where
  "pixel_offset v x y = (x * (bpp v div 8) + y * pitch v) mod 2 ^ 64"

definition store3 :: "nat \<Rightarrow> u8 \<Rightarrow> u8 \<Rightarrow> u8 \<Rightarrow> video \<Rightarrow> video" where
  "store3 off b g r v = v\<lparr>framebuffer := (framebuffer v)(off := b, off + 1 := g, off + 2 := r)\<rparr>"

definition putPixel :: "u32 \<Rightarrow> nat \<Rightarrow> nat \<Rightarrow> video \<Rightarrow> video" where
  "putPixel hexColor x y v = store3 (pixel_offset v x y) (blue hexColor) (green hexColor) (red hexColor) v"

definition drawRectangle :: "u32 \<Rightarrow> nat \<Rightarrow> nat \<Rightarrow> nat \<Rightarrow> nat \<Rightarrow> video \<Rightarrow> video" where
  "drawRectangle hexColor w h initial_pos_x initial_pos_y v =
     fold (\<lambda>j. fold (\<lambda>i. putPixel hexColor (initial_pos_x + i) (initial_pos_y + j)) [0..<w]) [0..<h] v"

definition drawCircle :: "u32 \<Rightarrow> nat \<Rightarrow> nat \<Rightarrow> nat \<Rightarrow> video \<Rightarrow> video" where
  "drawCircle hexColor topLeftX topLeftY diameter v =
     (let radius = int (diameter div 2);
          centerX = int topLeftX + radius;
          centerY = int topLeftY + radius
      in fold (\<lambda>y. fold (\<lambda>x v. if x * x + y * y \<le> radius * radius
                               then putPixel hexColor (nat ((centerX + x) mod 2 ^ 64)) (nat ((centerY + y) mod 2 ^ 64)) v
                               else v) [- radius..radius - 1]) [- radius..radius - 1] v)"

definition getWindowHeight :: "video \<Rightarrow> nat" where "getWindowHeight v = height v"

definition getWindowWidth :: "video \<Rightarrow> nat" where "getWindowWidth v = width v"

text \<open>The two loops that write a row of pixels.\<close>

definition fill_row :: "u32 \<Rightarrow> nat \<Rightarrow> video \<Rightarrow> video" where
  "fill_row c y v = fold (\<lambda>x v. store3 (pixel_offset v x y) (blue c) (green c) (red c) v)
     [0..<getWindowWidth v] v"

definition copy_row :: "nat \<Rightarrow> nat \<Rightarrow> video \<Rightarrow> video" where
  "copy_row y y' v = fold (\<lambda>x v. let offset = pixel_offset v x y; new_offset = pixel_offset v x y'
       in store3 offset (framebuffer v new_offset) (framebuffer v (new_offset + 1))
            (framebuffer v (new_offset + 2)) v)
     [0..<getWindowWidth v] v"

definition fillVideoMemory :: "u32 \<Rightarrow> video \<Rightarrow> video" where
  "fillVideoMemory hexColor v = fold (fill_row hexColor) [0..<getWindowHeight v] v"

text \<open>The second loop starts at \<open>height - scroll\<close> in a 16-bit counter.\<close>

definition scrollVideoMemoryUp :: "nat \<Rightarrow> u32 \<Rightarrow> video \<Rightarrow> video" where
  "scrollVideoMemoryUp scroll fillColor v =
     (let h = getWindowHeight v;
          v1 = fold (\<lambda>y. copy_row y (y + scroll)) [0..<h - scroll] v;
          start = nat ((int h - int scroll) mod 2 ^ 16)
      in fold (fill_row fillColor) [start..<h] v1)"

section \<open>Pixels\<close>

text \<open>Writing leaves the geometry alone.\<close>

lemma store3_geometry [simp]:
  "pitch (store3 o' b g r v) = pitch v" "width (store3 o' b g r v) = width v"
  "height (store3 o' b g r v) = height v" "bpp (store3 o' b g r v) = bpp v"
  "pixel_offset (store3 o' b g r v) x y = pixel_offset v x y"
  by (simp_all add: store3_def pixel_offset_def)

definition same_geometry :: "video \<Rightarrow> video \<Rightarrow> bool" where
  "same_geometry v v' \<longleftrightarrow> pitch v' = pitch v \<and> width v' = width v \<and> height v' = height v \<and> bpp v' = bpp v"

lemma same_geometry_refl [simp]: "same_geometry v v"
  by (simp add: same_geometry_def)

lemma same_geometry_trans: "\<lbrakk>same_geometry v v'; same_geometry v' v''\<rbrakk> \<Longrightarrow> same_geometry v v''"
  by (simp add: same_geometry_def)

lemma same_geometry_store3 [simp]: "same_geometry v (store3 o' b g r v') = same_geometry v v'"
  by (simp add: same_geometry_def)

lemma same_geometry_fold: "(\<And>x v. same_geometry v (f x v)) \<Longrightarrow> same_geometry v (fold f xs v)"
proof (induction xs arbitrary: v)
  case (Cons x xs)
  have "same_geometry v (f x v)" by (rule Cons.prems)
  moreover have "same_geometry (f x v) (fold f xs (f x v))" by (rule Cons.IH) (rule Cons.prems)
  ultimately show ?case using same_geometry_trans by simp
qed simp

lemma geometry [simp]:
  "same_geometry v (putPixel c x y v)" "same_geometry v (fill_row c y v)"
  "same_geometry v (copy_row y y' v)" "same_geometry v (drawRectangle c w h a b v)"
  "same_geometry v (fillVideoMemory c v)" "same_geometry v (scrollVideoMemoryUp n c v)"
proof -
  show 1: "same_geometry v (putPixel c x y v)" for x y v by (simp add: putPixel_def)
  show 2: "same_geometry v (fill_row c y v)" for c y v
    unfolding fill_row_def by (rule same_geometry_fold) simp
  show 3: "same_geometry v (copy_row y y' v)" for y y' v
    unfolding copy_row_def by (rule same_geometry_fold) (simp add: Let_def)
  show "same_geometry v (drawRectangle c w h a b v)"
    unfolding drawRectangle_def by (intro same_geometry_fold) (rule 1)
  show "same_geometry v (fillVideoMemory c v)"
    unfolding fillVideoMemory_def by (intro same_geometry_fold) (rule 2)
  have "same_geometry v (fold (\<lambda>y. copy_row y (y + n)) xs v)" for xs
    by (rule same_geometry_fold) (rule 3)
  moreover have "same_geometry v (fold (fill_row c) xs v)" for xs v
    by (rule same_geometry_fold) (rule 2)
  ultimately show "same_geometry v (scrollVideoMemoryUp n c v)"
    unfolding scrollVideoMemoryUp_def Let_def using same_geometry_trans by blast
qed

text \<open>
  A mode in which the rows do not overlap: three bytes a pixel at least, a row within the
  pitch, and the whole frame addressable.
\<close>

definition mode_ok :: "video \<Rightarrow> bool" where
  "mode_ok v \<longleftrightarrow> 3 \<le> bpp v div 8 \<and> width v * (bpp v div 8) \<le> pitch v
     \<and> pitch v * (height v + 1) < 2 ^ 64 \<and> height v < 2 ^ 16 \<and> width v < 2 ^ 16"

definition getPixel :: "video \<Rightarrow> nat \<Rightarrow> nat \<Rightarrow> u8 \<times> u8 \<times> u8" where
  "getPixel v x y = (let off = pixel_offset v x y
     in (framebuffer v off, framebuffer v (off + 1), framebuffer v (off + 2)))"

definition rgb :: "u32 \<Rightarrow> u8 \<times> u8 \<times> u8" where "rgb c = (blue c, green c, red c)"

definition inside :: "video \<Rightarrow> nat \<Rightarrow> nat \<Rightarrow> bool" where
  "inside v x y \<longleftrightarrow> x < width v \<and> y < height v"

lemma geometry_inside [simp]: "same_geometry v v' \<Longrightarrow> inside v' x y = inside v x y"
  by (simp add: same_geometry_def inside_def)

lemma geometry_mode: "same_geometry v v' \<Longrightarrow> mode_ok v \<Longrightarrow> mode_ok v'"
  by (simp add: same_geometry_def mode_ok_def)

lemma row_bound:
  assumes "mode_ok v" and "x < width v"
  shows "x * (bpp v div 8) + 3 \<le> pitch v"
proof -
  have "(x + 1) * (bpp v div 8) \<le> width v * (bpp v div 8)" using assms(2) by (intro mult_right_mono) auto
  then show ?thesis using assms(1) by (simp add: mode_ok_def)
qed

lemma offset_plain:
  assumes "mode_ok v" and "inside v x y"
  shows "pixel_offset v x y = x * (bpp v div 8) + y * pitch v"
proof -
  have "(y + 1) * pitch v \<le> height v * pitch v" using assms(2) by (intro mult_right_mono) (auto simp: inside_def)
  then have "x * (bpp v div 8) + y * pitch v < 2 ^ 64"
    using row_bound [OF assms(1), of x] assms by (simp add: mode_ok_def inside_def algebra_simps)
  then show ?thesis by (simp add: pixel_offset_def)
qed

lemma offsets_apart:
  assumes "mode_ok v" and "inside v x y" and "inside v x' y'" and "(x, y) \<noteq> (x', y')"
  shows "pixel_offset v x y + 3 \<le> pixel_offset v x' y' \<or> pixel_offset v x' y' + 3 \<le> pixel_offset v x y"
proof -
  have one: "a * B + b * P + 3 \<le> a' * B + b' * P"
    if "b < b' \<or> b = b' \<and> a < a'" "a * B + 3 \<le> P" "3 \<le> B" for a a' b b' B P :: nat
  proof (cases "b < b'")
    case True
    then have "(b + 1) * P \<le> b' * P" by (intro mult_right_mono) auto
    then show ?thesis using that(2) by (simp add: algebra_simps)
  next
    case False
    then have "(a + 1) * B \<le> a' * B" using that(1) by (intro mult_right_mono) auto
    then show ?thesis using that False by (simp add: algebra_simps)
  qed
  have "y < y' \<or> y = y' \<and> x < x' \<or> y' < y \<or> y = y' \<and> x' < x" using assms(4) by auto
  then show ?thesis
    unfolding offset_plain [OF assms(1,2)] offset_plain [OF assms(1,3)]
    using one [of y y' x x' "bpp v div 8" "pitch v"] one [of y' y x' x "bpp v div 8" "pitch v"]
      row_bound [OF assms(1), of x] row_bound [OF assms(1), of x'] assms(1-3)
    by (simp only: mode_ok_def inside_def) blast
qed

lemma getPixel_store3:
  assumes "mode_ok v" and "inside v x y" and "inside v x' y'"
  shows "getPixel (store3 (pixel_offset v x y) b g r v) x' y'
    = (if (x', y') = (x, y) then (b, g, r) else getPixel v x' y')"
proof (cases "(x', y') = (x, y)")
  case True
  then show ?thesis unfolding getPixel_def Let_def store3_geometry by (simp add: store3_def)
next
  case False
  then have "pixel_offset v x y + 3 \<le> pixel_offset v x' y' \<or> pixel_offset v x' y' + 3 \<le> pixel_offset v x y"
    using offsets_apart [OF assms(1,2,3)] by auto
  with False show ?thesis
    unfolding getPixel_def Let_def store3_geometry by (elim disjE) (auto simp: store3_def)
qed

text \<open>Bytes outside the window are never written by writes to pixels inside it.\<close>

definition window_bytes :: "video \<Rightarrow> nat set" where
  "window_bytes v = (\<Union>x < width v. \<Union>y < height v.
     {pixel_offset v x y, pixel_offset v x y + 1, pixel_offset v x y + 2})"

definition contained :: "video \<Rightarrow> video \<Rightarrow> bool" where
  "contained v v' \<longleftrightarrow> same_geometry v v' \<and> (\<forall>b. b \<notin> window_bytes v \<longrightarrow> framebuffer v' b = framebuffer v b)"

lemma geometry_offset: "same_geometry v v' \<Longrightarrow> pixel_offset v' x y = pixel_offset v x y"
  by (simp add: same_geometry_def pixel_offset_def)

lemma geometry_bytes: "same_geometry v v' \<Longrightarrow> window_bytes v' = window_bytes v"
  by (simp add: window_bytes_def geometry_offset) (simp add: same_geometry_def)

lemma contained_refl [simp]: "contained v v"
  by (simp add: contained_def)

lemma contained_trans: "\<lbrakk>contained v v'; contained v' v''\<rbrakk> \<Longrightarrow> contained v v''"
  unfolding contained_def using same_geometry_trans geometry_bytes by metis

lemma contained_store3:
  assumes "inside v x y"
  shows "contained v (store3 (pixel_offset v x y) b g r v)"
proof -
  have "{pixel_offset v x y, pixel_offset v x y + 1, pixel_offset v x y + 2} \<subseteq> window_bytes v"
    unfolding window_bytes_def using assms by (auto simp: inside_def)
  then show ?thesis by (auto simp: contained_def store3_def same_geometry_def)
qed

lemma contained_fold:
  assumes "\<And>x u. \<lbrakk>x \<in> set xs; same_geometry v u\<rbrakk> \<Longrightarrow> contained u (f x u)"
  shows "contained v (fold f xs v)"
  using assms
proof (induction xs arbitrary: v)
  case (Cons x xs)
  have 1: "contained v (f x v)" using Cons.prems by simp
  then have g: "same_geometry v (f x v)" by (simp add: contained_def)
  have "contained (f x v) (fold f xs (f x v))"
    by (rule Cons.IH) (use Cons.prems g same_geometry_trans in \<open>meson list.set_intros(2)\<close>)
  then show ?case using 1 contained_trans by simp
qed simp

lemma contained_putPixel: "inside v x y \<Longrightarrow> contained v (putPixel c x y v)"
  unfolding putPixel_def by (rule contained_store3)

lemma getPixel_putPixel:
  "\<lbrakk>mode_ok v; inside v x y; inside v x' y'\<rbrakk>
   \<Longrightarrow> getPixel (putPixel c x y v) x' y' = (if (x', y') = (x, y) then rgb c else getPixel v x' y')"
  unfolding putPixel_def rgb_def by (rule getPixel_store3)

text \<open>One row.\<close>

lemma fill_row_prefix:
  assumes "mode_ok v" and "y < height v" and "n \<le> width v" and "inside v x' y'"
  shows "getPixel (fold (\<lambda>x v. store3 (pixel_offset v x y) (blue c) (green c) (red c) v) [0..<n] v) x' y'
    = (if y' = y \<and> x' < n then rgb c else getPixel v x' y')"
  using assms(3)
proof (induction n)
  case (Suc n)
  define u where "u = fold (\<lambda>x v. store3 (pixel_offset v x y) (blue c) (green c) (red c) v) [0..<n] v"
  have g: "same_geometry v u" unfolding u_def by (rule same_geometry_fold) simp
  have "getPixel (store3 (pixel_offset u n y) (blue c) (green c) (red c) u) x' y'
      = (if (x', y') = (n, y) then (blue c, green c, red c) else getPixel u x' y')"
    by (rule getPixel_store3) (use g assms Suc.prems in \<open>auto simp: geometry_mode inside_def same_geometry_def mode_ok_def\<close>)
  moreover have "getPixel u x' y' = (if y' = y \<and> x' < n then rgb c else getPixel v x' y')"
    using Suc unfolding u_def by simp
  ultimately show ?case by (auto simp: u_def [symmetric] rgb_def)
qed simp

lemma fill_row_pixel:
  assumes "mode_ok v" and "y < height v" and "inside v x' y'"
  shows "getPixel (fill_row c y v) x' y' = (if y' = y then rgb c else getPixel v x' y')"
  using fill_row_prefix [OF assms(1,2) order_refl assms(3)] assms(3)
  by (auto simp: fill_row_def getWindowWidth_def inside_def)

lemma copy_row_prefix:
  assumes "mode_ok v" and "y < height v" and "z < height v" and "n \<le> width v" and "inside v x' y'"
  shows "getPixel (fold (\<lambda>x v. let offset = pixel_offset v x y; new_offset = pixel_offset v x z
       in store3 offset (framebuffer v new_offset) (framebuffer v (new_offset + 1))
            (framebuffer v (new_offset + 2)) v) [0..<n] v) x' y'
    = (if y' = y \<and> x' < n then getPixel v x' z else getPixel v x' y')"
  using assms(4,5)
proof (induction n arbitrary: x' y')
  case (Suc n)
  let ?f = "\<lambda>x v. let offset = pixel_offset v x y; new_offset = pixel_offset v x z
       in store3 offset (framebuffer v new_offset) (framebuffer v (new_offset + 1))
            (framebuffer v (new_offset + 2)) v"
  define u where "u = fold ?f [0..<n] v"
  have g: "same_geometry v u" unfolding u_def by (rule same_geometry_fold) (simp add: Let_def)
  have "fold ?f [0..<Suc n] v = ?f n u" by (simp add: u_def)
  moreover have "getPixel (?f n u) x' y' = (if (x', y') = (n, y) then getPixel u n z else getPixel u x' y')"
    unfolding Let_def
    by (subst getPixel_store3) (use g assms Suc.prems in
        \<open>auto simp: geometry_mode inside_def same_geometry_def mode_ok_def getPixel_def Let_def\<close>)
  moreover have "getPixel u x' y' = (if y' = y \<and> x' < n then getPixel v x' z else getPixel v x' y')"
    using Suc.IH [of x' y'] Suc.prems unfolding u_def by simp
  moreover have "getPixel u n z = getPixel v n z"
    using Suc.IH [of n z] Suc.prems assms(3) unfolding u_def by (simp add: inside_def)
  ultimately have "getPixel (fold ?f [0..<Suc n] v) x' y' = (if (x', y') = (n, y) then getPixel v n z
      else if y' = y \<and> x' < n then getPixel v x' z else getPixel v x' y')" by presburger
  then show ?case by (rule trans) (auto simp: less_Suc_eq)
qed simp

lemma copy_row_pixel:
  assumes "mode_ok v" and "y < height v" and "z < height v" and "inside v x' y'"
  shows "getPixel (copy_row y z v) x' y' = (if y' = y then getPixel v x' z else getPixel v x' y')"
  using copy_row_prefix [OF assms(1-3) order_refl assms(4)] assms(4)
  by (auto simp: copy_row_def getWindowWidth_def inside_def)

text \<open>All rows.\<close>

lemma fill_rows_pixel:
  assumes "mode_ok v" and "b \<le> height v" and "inside v x y"
  shows "getPixel (fold (fill_row c) [a..<b] v) x y = (if a \<le> y \<and> y < b then rgb c else getPixel v x y)"
  using assms(2)
proof (induction b)
  case (Suc b)
  let ?u = "fold (fill_row c) [a..<b] v"
  have g: "same_geometry v ?u" by (rule same_geometry_fold) simp
  have "getPixel (fill_row c b ?u) x y = (if y = b then rgb c else getPixel ?u x y)"
    using geometry_mode [OF g assms(1)] g Suc.prems assms(3)
    by (intro fill_row_pixel) (auto simp: same_geometry_def inside_def)
  then show ?case using Suc by auto
qed simp

lemma copy_rows_pixel:
  assumes "mode_ok v" and "b + k \<le> height v" and "inside v x y"
  shows "getPixel (fold (\<lambda>y. copy_row y (y + k)) [0..<b] v) x y
    = (if y < b then getPixel v x (y + k) else getPixel v x y)"
  using assms(2,3)
proof (induction b arbitrary: y)
  case (Suc b)
  let ?u = "fold (\<lambda>y. copy_row y (y + k)) [0..<b] v"
  have g: "same_geometry v ?u" by (rule same_geometry_fold) simp
  have "getPixel (copy_row b (b + k) ?u) x y = (if y = b then getPixel ?u x (b + k) else getPixel ?u x y)"
    using geometry_mode [OF g assms(1)] g Suc.prems
    by (intro copy_row_pixel) (auto simp: same_geometry_def inside_def)
  moreover have "getPixel ?u x (b + k) = getPixel v x (b + k)"
    using Suc.IH [of "b + k"] Suc.prems by (simp add: inside_def)
  ultimately show ?case using Suc.IH [of y] Suc.prems by auto
qed simp

text \<open>
  a rectangle that lies in the window paints exactly its own pixels and nothing else.
\<close>

theorem rectangle_pixels:
  assumes "mode_ok v" and "a + w \<le> width v" and "b + h \<le> height v"
    and "v' = drawRectangle c w h a b v"
  shows "(\<forall>x y. inside v x y \<longrightarrow> getPixel v' x y =
      (if a \<le> x \<and> x < a + w \<and> b \<le> y \<and> y < b + h then rgb c else getPixel v x y))
    \<and> contained v v'"
proof -
  let ?row = "\<lambda>j n. fold (\<lambda>i. putPixel c (a + i) (b + j)) [0..<n]"
  have gr: "same_geometry u (?row j n u)" for j n u by (intro same_geometry_fold) simp
  have row: "getPixel (?row j n u) x y = (if y = b + j \<and> a \<le> x \<and> x < a + n then rgb c else getPixel u x y)"
    if u: "same_geometry v u" and "n \<le> w" "j < h" "inside v x y" for j n u x y
    using that(2)
  proof (induction n)
    case (Suc n)
    have g: "same_geometry v (?row j n u)" using u gr same_geometry_trans by blast
    have "inside v (a + n) (b + j)" using assms(2,3) that Suc.prems by (simp add: inside_def)
    then have "getPixel (putPixel c (a + n) (b + j) (?row j n u)) x y
        = (if (x, y) = (a + n, b + j) then rgb c else getPixel (?row j n u) x y)"
      using geometry_mode [OF g assms(1)] g that by (intro getPixel_putPixel) simp_all
    then show ?case using Suc by auto
  qed auto
  have g: "same_geometry v (fold (\<lambda>j. ?row j w) xs v)" for xs by (rule same_geometry_fold) (rule gr)
  have "getPixel (fold (\<lambda>j. ?row j w) [0..<n] v) x y
      = (if a \<le> x \<and> x < a + w \<and> b \<le> y \<and> y < b + n then rgb c else getPixel v x y)"
    if "n \<le> h" "inside v x y" for n x y
    using that(1)
  proof (induction n)
    case (Suc n)
    then show ?case using row [OF g order_refl _ that(2), of n "[0..<n]"] by auto
  qed auto
  moreover have "contained v v'"
    unfolding assms(4) drawRectangle_def
    by (intro contained_fold) (use assms(2,3) in \<open>auto intro!: contained_putPixel simp: inside_def same_geometry_def\<close>)
  ultimately show ?thesis by (simp add: assms(4) drawRectangle_def)
qed

definition demo_video :: video where
  "demo_video = \<lparr>framebuffer = (\<lambda>n. of_nat n), pitch = 16, width = 4, height = 4, bpp = 24\<rparr>"

lemma rectangle_pixels_witness: "getPixel (drawRectangle 0x010203 2 2 1 1 demo_video) 2 2 = (3, 2, 1)
    \<and> getPixel (drawRectangle 0x010203 2 2 1 1 demo_video) 3 2 = (41, 42, 43)"
proof -
  have "mode_ok demo_video" "(1 :: nat) + 2 \<le> width demo_video" "(1 :: nat) + 2 \<le> height demo_video"
    by (simp_all add: mode_ok_def demo_video_def)
  note R = conjunct1 [OF rectangle_pixels [OF this refl, where c = "0x010203"], rule_format]
  have i: "inside demo_video 2 2" "inside demo_video 3 2" by (simp_all add: inside_def demo_video_def)
  have "getPixel demo_video 3 2 = (41, 42, 43)" "rgb 0x010203 = (3, 2, 1)"
    by (simp_all add: getPixel_def pixel_offset_def demo_video_def rgb_def blue_def green_def red_def)
  then show ?thesis using R [OF i(1)] R [OF i(2)] by simp
qed

text \<open>Scrolling as its two loops.\<close>

lemma scroll_loops:
  assumes "mode_ok v" and "n \<le> height v"
  shows "scrollVideoMemoryUp n c v
    = fold (fill_row c) [height v - n..<height v] (fold (\<lambda>y. copy_row y (y + n)) [0..<height v - n] v)"
proof -
  have "height v < 65536" using assms(1) by (simp add: mode_ok_def)
  then have "int (height v - n) mod 2 ^ 16 = int (height v - n)"
    by (intro mod_pos_pos_trivial) simp_all
  moreover have "int (height v) - int n = int (height v - n)" using assms(2) by simp
  ultimately have "nat ((int (height v) - int n) mod 2 ^ 16) = height v - n" by (simp only: nat_int)
  then show ?thesis by (simp only: scrollVideoMemoryUp_def getWindowHeight_def Let_def)
qed

lemma contained_row:
  assumes "same_geometry v u" and "y < height v"
  shows "contained u (fill_row c y u)" and "contained u (copy_row y z u)"
proof -
  show "contained u (fill_row c y u)"
    unfolding fill_row_def using assms
    by (intro contained_fold contained_store3) (simp add: inside_def same_geometry_def getWindowWidth_def)
  show "contained u (copy_row y z u)"
    unfolding copy_row_def Let_def using assms
    by (intro contained_fold contained_store3) (simp add: inside_def same_geometry_def getWindowWidth_def)
qed

lemma scroll_contained:
  assumes "mode_ok v" and "n \<le> height v"
  shows "contained v (scrollVideoMemoryUp n c v)"
proof -
  let ?u = "fold (\<lambda>y. copy_row y (y + n)) [0..<height v - n] v"
  have g: "same_geometry v ?u" by (rule same_geometry_fold) simp
  have "contained v ?u" by (rule contained_fold, rule contained_row) auto
  moreover have "contained ?u (fold (fill_row c) [height v - n..<height v] ?u)"
    by (rule contained_fold, rule contained_row, rule same_geometry_trans [OF g]) simp_all
  ultimately show ?thesis unfolding scroll_loops [OF assms] by (rule contained_trans)
qed

lemma scroll_pixel:
  assumes "mode_ok v" and "n \<le> height v" and "inside v x y"
  shows "getPixel (scrollVideoMemoryUp n c v) x y
    = (if y + n < height v then getPixel v x (y + n) else rgb c)"
proof -
  let ?u = "fold (\<lambda>y. copy_row y (y + n)) [0..<height v - n] v"
  have g: "same_geometry v ?u" by (rule same_geometry_fold) simp
  then have "height ?u = height v" "inside ?u x y"
    using assms(3) by (simp_all add: same_geometry_def inside_def)
  then have "getPixel (fold (fill_row c) [height v - n..<height v] ?u) x y
      = (if height v - n \<le> y \<and> y < height v then rgb c else getPixel ?u x y)"
    by (intro fill_rows_pixel geometry_mode [OF g assms(1)]) simp_all
  moreover have "getPixel ?u x y = (if y < height v - n then getPixel v x (y + n) else getPixel v x y)"
    by (rule copy_rows_pixel [OF assms(1) _ assms(3)]) (simp add: assms(2))
  moreover have "y < height v" using assms(3) by (simp add: inside_def)
  moreover have "height v - n \<le> y \<longleftrightarrow> \<not> y + n < height v" "y < height v - n \<longleftrightarrow> y + n < height v"
    by linarith+
  ultimately show ?thesis unfolding scroll_loops [OF assms(1,2)] by simp
qed

text \<open>
  scrolling. Scrolling up by at most the height of the window moves every pixel up by
  that many rows and paints the rows at the bottom in the fill colour, and no byte outside
  the window is written.
\<close>

theorem scroll_pixels:
  assumes "mode_ok v" and "n \<le> height v" and "v' = scrollVideoMemoryUp n c v"
  shows "(\<forall>x y. inside v x y \<longrightarrow>
      getPixel v' x y = (if y + n < height v then getPixel v x (y + n) else rgb c))
    \<and> contained v v'"
  unfolding assms(3) using scroll_pixel [OF assms(1,2)] scroll_contained [OF assms(1,2)] by blast

lemma scroll_pixels_witness: "getPixel (scrollVideoMemoryUp 1 0 demo_video) 2 1 = (38, 39, 40)
    \<and> getPixel (scrollVideoMemoryUp 1 0 demo_video) 2 3 = (0, 0, 0)"
proof -
  have "mode_ok demo_video" "(1 :: nat) \<le> height demo_video" by (simp_all add: mode_ok_def demo_video_def)
  note S = conjunct1 [OF scroll_pixels [OF this refl, where c = "0"], rule_format]
  have i: "inside demo_video 2 1" "inside demo_video 2 3" by (simp_all add: inside_def demo_video_def)
  have "getPixel demo_video 2 2 = (38, 39, 40)" "rgb 0 = (0, 0, 0)" "height demo_video = 4"
    by (simp_all add: getPixel_def pixel_offset_def demo_video_def rgb_def blue_def green_def red_def)
  then show ?thesis using S [OF i(1)] S [OF i(2)] by (simp add: numeral_2_eq_2 [symmetric])
qed

end
