(* ===== verification/Console.thy ===== *)
theory Console
  imports Video
begin

text \<open>
  \<open>Kernel/fonts.c\<close>: the text console drawn on the frame buffer, with its glyph table
  \<open>Kernel/include/font_basic_8x8.h\<close>. Characters are bytes; \<open>char\<close> is signed on this target.

  Two flags record what the source leaves undefined or never finishes: \<open>wild\<close> is set when a
  glyph outside the table would be read (the test \<open>ascii < 128\<close> holds of every signed
  \<open>char\<close>), \<open>stuck\<close> when the tabulator loop would not end. That loop gets eight rounds, which
  \<open>tab_rounds\<close> shows to be enough whenever a line has room for four characters; on a narrower
  window no column is ever a tabulator stop and the loop of the source runs forever.
\<close>

section \<open>The program\<close>

definition font8x8_basic :: "u8 list list" where
  "font8x8_basic =
    [[0x00, 0x00, 0x00, 0x00, 0x00, 0x00, 0x00, 0x00], [0x00, 0x00, 0x00, 0x00, 0x00, 0x00, 0x00, 0x00],
     [0x00, 0x00, 0x00, 0x00, 0x00, 0x00, 0x00, 0x00], [0x00, 0x00, 0x00, 0x00, 0x00, 0x00, 0x00, 0x00],
     [0x00, 0x00, 0x00, 0x00, 0x00, 0x00, 0x00, 0x00], [0x00, 0x00, 0x00, 0x00, 0x00, 0x00, 0x00, 0x00],
     [0x00, 0x00, 0x00, 0x00, 0x00, 0x00, 0x00, 0x00], [0x00, 0x00, 0x00, 0x00, 0x00, 0x00, 0x00, 0x00],
     [0x00, 0x00, 0x00, 0x00, 0x00, 0x00, 0x00, 0x00], [0x00, 0x00, 0x00, 0x00, 0x00, 0x00, 0x00, 0x00],
     [0x00, 0x00, 0x00, 0x00, 0x00, 0x00, 0x00, 0x00], [0x00, 0x00, 0x00, 0x00, 0x00, 0x00, 0x00, 0x00],
     [0x00, 0x00, 0x00, 0x00, 0x00, 0x00, 0x00, 0x00], [0x00, 0x00, 0x00, 0x00, 0x00, 0x00, 0x00, 0x00],
     [0x00, 0x00, 0x00, 0x00, 0x00, 0x00, 0x00, 0x00], [0x00, 0x00, 0x00, 0x00, 0x00, 0x00, 0x00, 0x00],
     [0x00, 0x00, 0x00, 0x00, 0x00, 0x00, 0x00, 0x00], [0x00, 0x00, 0x00, 0x00, 0x00, 0x00, 0x00, 0x00],
     [0x00, 0x00, 0x00, 0x00, 0x00, 0x00, 0x00, 0x00], [0x00, 0x00, 0x00, 0x00, 0x00, 0x00, 0x00, 0x00],
     [0x00, 0x00, 0x00, 0x00, 0x00, 0x00, 0x00, 0x00], [0x00, 0x00, 0x00, 0x00, 0x00, 0x00, 0x00, 0x00],
     [0x00, 0x00, 0x00, 0x00, 0x00, 0x00, 0x00, 0x00], [0x00, 0x00, 0x00, 0x00, 0x00, 0x00, 0x00, 0x00],
     [0x00, 0x00, 0x00, 0x00, 0x00, 0x00, 0x00, 0x00], [0x00, 0x00, 0x00, 0x00, 0x00, 0x00, 0x00, 0x00],
     [0x00, 0x00, 0x00, 0x00, 0x00, 0x00, 0x00, 0x00], [0x00, 0x00, 0x00, 0x00, 0x00, 0x00, 0x00, 0x00],
     [0x00, 0x00, 0x00, 0x00, 0x00, 0x00, 0x00, 0x00], [0x00, 0x00, 0x00, 0x00, 0x00, 0x00, 0x00, 0x00],
     [0x00, 0x00, 0x00, 0x00, 0x00, 0x00, 0x00, 0x00], [0x00, 0x00, 0x00, 0x00, 0x00, 0x00, 0x00, 0x00],
     [0x00, 0x00, 0x00, 0x00, 0x00, 0x00, 0x00, 0x00], [0x18, 0x3C, 0x3C, 0x18, 0x18, 0x00, 0x18, 0x00],
     [0x36, 0x36, 0x00, 0x00, 0x00, 0x00, 0x00, 0x00], [0x36, 0x36, 0x7F, 0x36, 0x7F, 0x36, 0x36, 0x00],
     [0x0C, 0x3E, 0x03, 0x1E, 0x30, 0x1F, 0x0C, 0x00], [0x00, 0x63, 0x33, 0x18, 0x0C, 0x66, 0x63, 0x00],
     [0x1C, 0x36, 0x1C, 0x6E, 0x3B, 0x33, 0x6E, 0x00], [0x06, 0x06, 0x03, 0x00, 0x00, 0x00, 0x00, 0x00],
     [0x18, 0x0C, 0x06, 0x06, 0x06, 0x0C, 0x18, 0x00], [0x06, 0x0C, 0x18, 0x18, 0x18, 0x0C, 0x06, 0x00],
     [0x00, 0x66, 0x3C, 0xFF, 0x3C, 0x66, 0x00, 0x00], [0x00, 0x0C, 0x0C, 0x3F, 0x0C, 0x0C, 0x00, 0x00],
     [0x00, 0x00, 0x00, 0x00, 0x00, 0x0C, 0x0C, 0x06], [0x00, 0x00, 0x00, 0x3F, 0x00, 0x00, 0x00, 0x00],
     [0x00, 0x00, 0x00, 0x00, 0x00, 0x0C, 0x0C, 0x00], [0x60, 0x30, 0x18, 0x0C, 0x06, 0x03, 0x01, 0x00],
     [0x3E, 0x63, 0x73, 0x7B, 0x6F, 0x67, 0x3E, 0x00], [0x0C, 0x0E, 0x0C, 0x0C, 0x0C, 0x0C, 0x3F, 0x00],
     [0x1E, 0x33, 0x30, 0x1C, 0x06, 0x33, 0x3F, 0x00], [0x1E, 0x33, 0x30, 0x1C, 0x30, 0x33, 0x1E, 0x00],
     [0x38, 0x3C, 0x36, 0x33, 0x7F, 0x30, 0x78, 0x00], [0x3F, 0x03, 0x1F, 0x30, 0x30, 0x33, 0x1E, 0x00],
     [0x1C, 0x06, 0x03, 0x1F, 0x33, 0x33, 0x1E, 0x00], [0x3F, 0x33, 0x30, 0x18, 0x0C, 0x0C, 0x0C, 0x00],
     [0x1E, 0x33, 0x33, 0x1E, 0x33, 0x33, 0x1E, 0x00], [0x1E, 0x33, 0x33, 0x3E, 0x30, 0x18, 0x0E, 0x00],
     [0x00, 0x0C, 0x0C, 0x00, 0x00, 0x0C, 0x0C, 0x00], [0x00, 0x0C, 0x0C, 0x00, 0x00, 0x0C, 0x0C, 0x06],
     [0x18, 0x0C, 0x06, 0x03, 0x06, 0x0C, 0x18, 0x00], [0x00, 0x00, 0x3F, 0x00, 0x00, 0x3F, 0x00, 0x00],
     [0x06, 0x0C, 0x18, 0x30, 0x18, 0x0C, 0x06, 0x00], [0x1E, 0x33, 0x30, 0x18, 0x0C, 0x00, 0x0C, 0x00],
     [0x3E, 0x63, 0x7B, 0x7B, 0x7B, 0x03, 0x1E, 0x00], [0x0C, 0x1E, 0x33, 0x33, 0x3F, 0x33, 0x33, 0x00],
     [0x3F, 0x66, 0x66, 0x3E, 0x66, 0x66, 0x3F, 0x00], [0x3C, 0x66, 0x03, 0x03, 0x03, 0x66, 0x3C, 0x00],
     [0x1F, 0x36, 0x66, 0x66, 0x66, 0x36, 0x1F, 0x00], [0x7F, 0x46, 0x16, 0x1E, 0x16, 0x46, 0x7F, 0x00],
     [0x7F, 0x46, 0x16, 0x1E, 0x16, 0x06, 0x0F, 0x00], [0x3C, 0x66, 0x03, 0x03, 0x73, 0x66, 0x7C, 0x00],
     [0x33, 0x33, 0x33, 0x3F, 0x33, 0x33, 0x33, 0x00], [0x1E, 0x0C, 0x0C, 0x0C, 0x0C, 0x0C, 0x1E, 0x00],
     [0x78, 0x30, 0x30, 0x30, 0x33, 0x33, 0x1E, 0x00], [0x67, 0x66, 0x36, 0x1E, 0x36, 0x66, 0x67, 0x00],
     [0x0F, 0x06, 0x06, 0x06, 0x46, 0x66, 0x7F, 0x00], [0x63, 0x77, 0x7F, 0x7F, 0x6B, 0x63, 0x63, 0x00],
     [0x63, 0x67, 0x6F, 0x7B, 0x73, 0x63, 0x63, 0x00], [0x1C, 0x36, 0x63, 0x63, 0x63, 0x36, 0x1C, 0x00],
     [0x3F, 0x66, 0x66, 0x3E, 0x06, 0x06, 0x0F, 0x00], [0x1E, 0x33, 0x33, 0x33, 0x3B, 0x1E, 0x38, 0x00],
     [0x3F, 0x66, 0x66, 0x3E, 0x36, 0x66, 0x67, 0x00], [0x1E, 0x33, 0x07, 0x0E, 0x38, 0x33, 0x1E, 0x00],
     [0x3F, 0x2D, 0x0C, 0x0C, 0x0C, 0x0C, 0x1E, 0x00], [0x33, 0x33, 0x33, 0x33, 0x33, 0x33, 0x3F, 0x00],
     [0x33, 0x33, 0x33, 0x33, 0x33, 0x1E, 0x0C, 0x00], [0x63, 0x63, 0x63, 0x6B, 0x7F, 0x77, 0x63, 0x00],
     [0x63, 0x63, 0x36, 0x1C, 0x1C, 0x36, 0x63, 0x00], [0x33, 0x33, 0x33, 0x1E, 0x0C, 0x0C, 0x1E, 0x00],
     [0x7F, 0x63, 0x31, 0x18, 0x4C, 0x66, 0x7F, 0x00], [0x1E, 0x06, 0x06, 0x06, 0x06, 0x06, 0x1E, 0x00],
     [0x03, 0x06, 0x0C, 0x18, 0x30, 0x60, 0x40, 0x00], [0x1E, 0x18, 0x18, 0x18, 0x18, 0x18, 0x1E, 0x00],
     [0x08, 0x1C, 0x36, 0x63, 0x00, 0x00, 0x00, 0x00], [0x00, 0x00, 0x00, 0x00, 0x00, 0x00, 0x00, 0xFF],
     [0x0C, 0x0C, 0x18, 0x00, 0x00, 0x00, 0x00, 0x00], [0x00, 0x00, 0x1E, 0x30, 0x3E, 0x33, 0x6E, 0x00],
     [0x07, 0x06, 0x06, 0x3E, 0x66, 0x66, 0x3B, 0x00], [0x00, 0x00, 0x1E, 0x33, 0x03, 0x33, 0x1E, 0x00],
     [0x38, 0x30, 0x30, 0x3e, 0x33, 0x33, 0x6E, 0x00], [0x00, 0x00, 0x1E, 0x33, 0x3f, 0x03, 0x1E, 0x00],
     [0x1C, 0x36, 0x06, 0x0f, 0x06, 0x06, 0x0F, 0x00], [0x00, 0x00, 0x6E, 0x33, 0x33, 0x3E, 0x30, 0x1F],
     [0x07, 0x06, 0x36, 0x6E, 0x66, 0x66, 0x67, 0x00], [0x0C, 0x00, 0x0E, 0x0C, 0x0C, 0x0C, 0x1E, 0x00],
     [0x30, 0x00, 0x30, 0x30, 0x30, 0x33, 0x33, 0x1E], [0x07, 0x06, 0x66, 0x36, 0x1E, 0x36, 0x67, 0x00],
     [0x0E, 0x0C, 0x0C, 0x0C, 0x0C, 0x0C, 0x1E, 0x00], [0x00, 0x00, 0x33, 0x7F, 0x7F, 0x6B, 0x63, 0x00],
     [0x00, 0x00, 0x1F, 0x33, 0x33, 0x33, 0x33, 0x00], [0x00, 0x00, 0x1E, 0x33, 0x33, 0x33, 0x1E, 0x00],
     [0x00, 0x00, 0x3B, 0x66, 0x66, 0x3E, 0x06, 0x0F], [0x00, 0x00, 0x6E, 0x33, 0x33, 0x3E, 0x30, 0x78],
     [0x00, 0x00, 0x3B, 0x6E, 0x66, 0x06, 0x0F, 0x00], [0x00, 0x00, 0x3E, 0x03, 0x1E, 0x30, 0x1F, 0x00],
     [0x08, 0x0C, 0x3E, 0x0C, 0x0C, 0x2C, 0x18, 0x00], [0x00, 0x00, 0x33, 0x33, 0x33, 0x33, 0x6E, 0x00],
     [0x00, 0x00, 0x33, 0x33, 0x33, 0x1E, 0x0C, 0x00], [0x00, 0x00, 0x63, 0x6B, 0x7F, 0x7F, 0x36, 0x00],
     [0x00, 0x00, 0x63, 0x36, 0x1C, 0x36, 0x63, 0x00], [0x00, 0x00, 0x33, 0x33, 0x33, 0x3E, 0x30, 0x1F],
     [0x00, 0x00, 0x3F, 0x19, 0x0C, 0x26, 0x3F, 0x00], [0x38, 0x0C, 0x0C, 0x07, 0x0C, 0x0C, 0x38, 0x00],
     [0x18, 0x18, 0x18, 0x18, 0x18, 0x18, 0x18, 0x00], [0x07, 0x0C, 0x0C, 0x38, 0x0C, 0x0C, 0x07, 0x00],
     [0x6E, 0x3B, 0x00, 0x00, 0x00, 0x00, 0x00, 0x00], [0x00, 0x00, 0x00, 0x00, 0x00, 0x00, 0x00, 0x00]]"

definition DEFAULT_TEXT_COLOR :: u32 where "DEFAULT_TEXT_COLOR = 0x00FFFFFF"
definition DEFAULT_ERROR_COLOR :: u32 where "DEFAULT_ERROR_COLOR = 0x00DE382B"
definition DEFAULT_BACKGROUND_COLOR :: u32 where "DEFAULT_BACKGROUND_COLOR = 0"
definition glyphSizeX :: nat where "glyphSizeX = 8"
definition glyphSizeY :: nat where "glyphSizeY = 8"
definition TAB_SIZE :: nat where "TAB_SIZE = 4"
definition NEW_LINE_CHAR :: u8 where "NEW_LINE_CHAR = 10"
definition TABULATOR_CHAR :: u8 where "TABULATOR_CHAR = 9"
definition CARRIAGE_RETURN_CHAR :: u8 where "CARRIAGE_RETURN_CHAR = 13"

lemmas console_consts [simp] = glyphSizeX_def glyphSizeY_def TAB_SIZE_def NEW_LINE_CHAR_def
  TABULATOR_CHAR_def CARRIAGE_RETURN_CHAR_def

record console =
  vid :: video
  fontSize :: nat
  xBufferPosition :: int
  yBufferPosition :: int
  maxGlyphSizeYOnLine :: nat
  dirty_line :: bool
  text_color :: u32
  background_color :: u32
  file_descriptor :: int
  wild :: bool
  stuck :: bool

definition setTextColor :: "u32 \<Rightarrow> console \<Rightarrow> console" where
  "setTextColor color c = c\<lparr>text_color := color\<rparr>"

definition setBackgroundColor :: "u32 \<Rightarrow> console \<Rightarrow> console" where
  "setBackgroundColor color c = c\<lparr>background_color := color\<rparr>"

definition getXBufferPosition :: "console \<Rightarrow> u16" where
  "getXBufferPosition c = word_of_int (xBufferPosition c)"

definition addr64 :: "int \<Rightarrow> nat" where "addr64 i = nat (i mod 2 ^ 64)"

definition glyph_pixels :: "u8 list \<Rightarrow> int \<Rightarrow> int \<Rightarrow> console \<Rightarrow> video" where
  "glyph_pixels bits xBase yBase c =
     fold (\<lambda>x. fold (\<lambda>y. putPixel
              (if bit (bits ! (y div fontSize c)) (x div fontSize c) then text_color c else background_color c)
              (addr64 (xBase + int x)) (addr64 (yBase + int y))) [0..<glyphSizeY * fontSize c])
        [0..<glyphSizeX * fontSize c] (vid c)"

definition renderFromBitmap :: "u8 list \<Rightarrow> int \<Rightarrow> int \<Rightarrow> console \<Rightarrow> console" where
  "renderFromBitmap bits xBase yBase c = c\<lparr>vid := glyph_pixels bits xBase yBase c\<rparr>"

definition renderAscii :: "u8 \<Rightarrow> int \<Rightarrow> int \<Rightarrow> console \<Rightarrow> console" where
  "renderAscii ascii x y c =
     (if sint ascii < 0 then c\<lparr>wild := True\<rparr>
      else renderFromBitmap (font8x8_basic ! unat ascii) x y c)"

definition scrollBufferPositionIfNeeded :: "console \<Rightarrow> console" where
  "scrollBufferPositionIfNeeded c =
     (let g = glyphSizeY * fontSize c in
      if yBufferPosition c + int g > int (getWindowHeight (vid c))
      then c\<lparr>vid := scrollVideoMemoryUp g DEFAULT_BACKGROUND_COLOR (vid c),
             yBufferPosition := yBufferPosition c - int g\<rparr>
      else c)"

definition newLine :: "console \<Rightarrow> console" where
  "newLine c = scrollBufferPositionIfNeeded
     (c\<lparr>dirty_line := False, yBufferPosition := yBufferPosition c + int (maxGlyphSizeYOnLine c),
        xBufferPosition := 0, maxGlyphSizeYOnLine := fontSize c * glyphSizeY\<rparr>)"

definition retractPosition :: "console \<Rightarrow> console" where
  "retractPosition c =
     (let window_width = getWindowWidth (vid c); g = int (glyphSizeX * fontSize c) in
      if xBufferPosition c = 0
      then let y = yBufferPosition c - int (glyphSizeY * fontSize c) in
        if y < 0 then c\<lparr>yBufferPosition := 0\<rparr>
        else c\<lparr>yBufferPosition := y,
               xBufferPosition := int window_width - int window_width mod g - g\<rparr>
      else c\<lparr>xBufferPosition := xBufferPosition c - g\<rparr>)"

text \<open>The default branch of \<open>putChar\<close>, then its other branches.\<close>

definition put_glyph :: "u8 \<Rightarrow> console \<Rightarrow> console" where
  "put_glyph ascii c0 =
     (let c = c0\<lparr>dirty_line := True\<rparr>; g = int (glyphSizeX * fontSize c);
          c1 = (if xBufferPosition c + g > int (getWindowWidth (vid c)) then newLine c else c);
          c2 = renderAscii ascii (xBufferPosition c1) (yBufferPosition c1) c1
      in c2\<lparr>xBufferPosition := xBufferPosition c2 + g\<rparr>)"

definition hideCursor :: "console \<Rightarrow> console" where
  "hideCursor c = retractPosition (put_glyph 0x20 c)"

definition showCursor :: "console \<Rightarrow> console" where
  "showCursor c = retractPosition (put_glyph 0x7C c)"

text \<open>A carriage return: each round moves left by a glyph, which is at least eight pixels.\<close>

fun return_loop :: "nat \<Rightarrow> console \<Rightarrow> console" where
  "return_loop 0 c = c"
| "return_loop (Suc n) c = (if xBufferPosition c > 0 then return_loop n (retractPosition c) else c)"

fun tab_loop :: "nat \<Rightarrow> console \<Rightarrow> console" where
  "tab_loop 0 c = c\<lparr>stuck := True\<rparr>"
| "tab_loop (Suc n) c =
     (let c1 = put_glyph 0x20 c in
      if xBufferPosition c1 mod int (TAB_SIZE * glyphSizeX * fontSize c1) \<noteq> 0 then tab_loop n c1 else c1)"

definition putChar :: "u8 \<Rightarrow> console \<Rightarrow> console" where
  "putChar ascii c0 =
     (let c = c0\<lparr>dirty_line := True\<rparr> in
      if ascii = NEW_LINE_CHAR then newLine (hideCursor c)
      else if ascii = CARRIAGE_RETURN_CHAR
      then let c1 = hideCursor c in return_loop (nat (xBufferPosition c1)) c1
      else if ascii = TABULATOR_CHAR then tab_loop 8 c
      else put_glyph ascii c)"

text \<open>The part of \<open>printToFd\<close> that draws; a write to the keyboard is a matter of the caller.\<close>

definition select_fd :: "int \<Rightarrow> console \<Rightarrow> console" where
  "select_fd fd c =
     (if fd = file_descriptor c then c
      else if fd = 1 then c\<lparr>text_color := DEFAULT_TEXT_COLOR, background_color := DEFAULT_BACKGROUND_COLOR,
             file_descriptor := fd\<rparr>
      else if fd = 2 then c\<lparr>text_color := DEFAULT_ERROR_COLOR, background_color := DEFAULT_BACKGROUND_COLOR,
             file_descriptor := fd\<rparr>
      else c)"

definition print_console :: "int \<Rightarrow> u8 list \<Rightarrow> console \<Rightarrow> console" where
  "print_console fd bs c = fold putChar bs (select_fd fd c)"

definition print :: "u8 list \<Rightarrow> console \<Rightarrow> console" where
  "print bs c = print_console 1 bs c"

definition clear :: "console \<Rightarrow> console" where
  "clear c = c\<lparr>vid := fillVideoMemory DEFAULT_BACKGROUND_COLOR (vid c), xBufferPosition := 0,
     yBufferPosition := 0\<rparr>"

definition clearPreviousCharacter :: "console \<Rightarrow> console" where
  "clearPreviousCharacter c = showCursor (retractPosition (hideCursor c))"

definition line_height :: "console \<Rightarrow> nat" where
  "line_height c = (if dirty_line c then max (maxGlyphSizeYOnLine c) (glyphSizeY * fontSize c)
     else glyphSizeY * fontSize c)"

definition increaseFontSize :: "console \<Rightarrow> nat \<times> console" where
  "increaseFontSize c =
     (let c1 = c\<lparr>fontSize := (if fontSize c > 9 then fontSize c else fontSize c + 1)\<rparr>;
          c2 = scrollBufferPositionIfNeeded (c1\<lparr>maxGlyphSizeYOnLine := line_height c1\<rparr>)
      in (fontSize c2, c2))"

definition decreaseFontSize :: "console \<Rightarrow> nat \<times> console" where
  "decreaseFontSize c =
     (let c1 = c\<lparr>fontSize := (if fontSize c \<le> 1 then fontSize c else fontSize c - 1)\<rparr>
      in (fontSize c1, c1\<lparr>maxGlyphSizeYOnLine := line_height c1\<rparr>))"

definition setFontSize :: "8 word \<Rightarrow> console \<Rightarrow> nat \<times> console" where
  "setFontSize sz c =
     (let c1 = c\<lparr>fontSize := (if sint sz < 1 then 1 else if sint sz > 10 then 10 else nat (sint sz))\<rparr>
      in (fontSize c1, c1\<lparr>maxGlyphSizeYOnLine := line_height c1\<rparr>))"

text \<open>
  \<open>uintToBase\<close>: the digits are produced from the least significant one and reversed. A base
  below two does not occur; the loop of the source would not end for it.
\<close>

definition digit_char :: "nat \<Rightarrow> u8" where
  "digit_char r = (if r < 10 then of_nat (r + 48) else of_nat (r + 55))"

function base_digits :: "nat \<Rightarrow> nat \<Rightarrow> u8 list" where
  "base_digits v b = digit_char (v mod b) # (if v div b \<noteq> 0 \<and> 2 \<le> b then base_digits (v div b) b else [])"
  by auto
termination
proof (relation "measure fst")
  fix v b :: nat
  assume "v div b \<noteq> 0 \<and> 2 \<le> b"
  then have "0 < v" by (cases "v = 0") auto
  then show "((v div b, b), v, b) \<in> measure fst" using \<open>v div b \<noteq> 0 \<and> 2 \<le> b\<close> by simp
qed simp

declare base_digits.simps [simp del]

definition uintToBase :: "u64 \<Rightarrow> nat \<Rightarrow> u8 list" where
  "uintToBase v b = rev (base_digits (unat v) b)"

definition printBase :: "u64 \<Rightarrow> nat \<Rightarrow> console \<Rightarrow> console" where
  "printBase v b c = print (uintToBase v b) c"

definition printDec :: "u64 \<Rightarrow> console \<Rightarrow> console" where "printDec v = printBase v 10"
definition printHex :: "u64 \<Rightarrow> console \<Rightarrow> console" where "printHex v = printBase v 16"
definition printBin :: "u64 \<Rightarrow> console \<Rightarrow> console" where "printBin v = printBase v 2"

section \<open>Staying inside the window\<close>

text \<open>
  The position is a column of the current font, with a whole glyph below it, and there is
  room for four glyphs in a line.
\<close>

definition console_ok :: "console \<Rightarrow> bool" where
  "console_ok c \<longleftrightarrow> mode_ok (vid c) \<and> 1 \<le> fontSize c \<and> 32 * fontSize c \<le> width (vid c)
     \<and> 0 \<le> xBufferPosition c \<and> xBufferPosition c \<le> int (width (vid c))
     \<and> int (8 * fontSize c) dvd xBufferPosition c
     \<and> 0 \<le> yBufferPosition c \<and> yBufferPosition c + int (maxGlyphSizeYOnLine c) \<le> int (height (vid c))
     \<and> 8 * fontSize c \<le> maxGlyphSizeYOnLine c"

definition draws_inside :: "console \<Rightarrow> console \<Rightarrow> bool" where
  "draws_inside c c' \<longleftrightarrow> contained (vid c) (vid c') \<and> fontSize c' = fontSize c \<and> stuck c' = stuck c"

lemma draws_inside_refl [simp]: "draws_inside c c"
  by (simp add: draws_inside_def)

lemma draws_inside_trans: "\<lbrakk>draws_inside c c'; draws_inside c' c''\<rbrakk> \<Longrightarrow> draws_inside c c''"
  using contained_trans by (auto simp: draws_inside_def)

lemma contained_geometry: "contained v v' \<Longrightarrow> same_geometry v v'"
  by (simp add: contained_def)

lemma contained_mode: "contained v v' \<Longrightarrow> mode_ok v \<Longrightarrow> mode_ok v'"
  using contained_geometry geometry_mode by blast

lemma contained_size: "contained v v' \<Longrightarrow> width v' = width v \<and> height v' = height v"
  by (simp add: contained_def same_geometry_def)

lemma addr64_of_nat [simp]: "n < 2 ^ 64 \<Longrightarrow> addr64 (int n) = n"
proof -
  assume "n < 2 ^ 64"
  then have "int n mod 2 ^ 64 = int n" by (intro mod_pos_pos_trivial) simp_all
  then show ?thesis by (simp only: addr64_def nat_int)
qed

lemma render_inside:
  assumes "mode_ok (vid c)" and "0 \<le> x" and "x + int (8 * fontSize c) \<le> int (width (vid c))"
    and "0 \<le> y" and "y + int (8 * fontSize c) \<le> int (height (vid c))"
  shows "contained (vid c) (vid (renderAscii a x y c))"
proof -
  have small: "width (vid c) < 2 ^ 64" "height (vid c) < 2 ^ 64"
    using assms(1) by (auto simp: mode_ok_def)
  have px: "contained u (putPixel col (addr64 (x + int i)) (addr64 (y + int j)) u)"
    if "i < 8 * fontSize c" "j < 8 * fontSize c" "same_geometry (vid c) u" for i j u col
  proof (rule contained_putPixel)
    have e: "x + int i = int (nat x + i)" "y + int j = int (nat y + j)" using assms(2,4) by simp_all
    have l: "nat x + i < width (vid c)" "nat y + j < height (vid c)" using assms that by linarith+
    then have "addr64 (int (nat x + i)) = nat x + i" "addr64 (int (nat y + j)) = nat y + j"
      using small by (intro addr64_of_nat; linarith)+
    then show "inside u (addr64 (x + int i)) (addr64 (y + int j))"
      unfolding e using that(3) l by (simp only: inside_def same_geometry_def)
  qed
  have "contained (vid c) (glyph_pixels b x y c)" for b
    unfolding glyph_pixels_def
  proof (intro contained_fold, rule px)
    fix i j u u'
    assume "i \<in> set [0..<glyphSizeX * fontSize c]" "same_geometry (vid c) u"
      "j \<in> set [0..<glyphSizeY * fontSize c]" "same_geometry u u'"
    then show "i < 8 * fontSize c" "j < 8 * fontSize c" "same_geometry (vid c) u'"
      using same_geometry_trans by auto
  qed
  then show ?thesis by (simp add: renderAscii_def renderFromBitmap_def)
qed

lemma newLine_ok:
  assumes "mode_ok (vid c)" and "1 \<le> fontSize c" and "32 * fontSize c \<le> width (vid c)"
    and "0 \<le> yBufferPosition c" and "yBufferPosition c + int (maxGlyphSizeYOnLine c) \<le> int (height (vid c))"
    and "8 * fontSize c \<le> maxGlyphSizeYOnLine c"
  shows "console_ok (newLine c)" and "draws_inside c (newLine c)" and "xBufferPosition (newLine c) = 0"
proof -
  let ?g = "8 * fontSize c"
  have h: "?g \<le> height (vid c)" using assms(4-6) by linarith
  note S = scroll_contained [OF assms(1) h]
  show "xBufferPosition (newLine c) = 0"
    by (simp add: newLine_def scrollBufferPositionIfNeeded_def Let_def)
  show "draws_inside c (newLine c)"
    using S by (simp add: newLine_def scrollBufferPositionIfNeeded_def Let_def draws_inside_def)
  show "console_ok (newLine c)"
    using assms S contained_mode [OF S assms(1)] contained_size [OF S]
    by (auto simp: newLine_def scrollBufferPositionIfNeeded_def Let_def console_ok_def getWindowHeight_def)
qed

lemma console_ok_newLine:
  assumes "console_ok c"
  shows "console_ok (newLine c)" and "draws_inside c (newLine c)" and "xBufferPosition (newLine c) = 0"
  using newLine_ok [of c] assms by (simp_all add: console_ok_def)

lemma console_ok_dirty [simp]:
  "console_ok (c\<lparr>dirty_line := b\<rparr>) = console_ok c" "draws_inside (c\<lparr>dirty_line := b\<rparr>) c' = draws_inside c c'"
  "console_ok (c\<lparr>wild := b\<rparr>) = console_ok c" "draws_inside c (c'\<lparr>dirty_line := b\<rparr>) = draws_inside c c'"
  by (simp_all add: console_ok_def draws_inside_def)

text \<open>A glyph: the column it ends in is the next one, or the first of the next line.\<close>

lemma next_column:
  fixes x w g :: int
  assumes "0 < g" and "g dvd x" and "x + g \<le> w"
  shows "g dvd x + g"
  using assms by simp

lemma render_fields [simp]:
  "fontSize (renderAscii a x y c) = fontSize c" "xBufferPosition (renderAscii a x y c) = xBufferPosition c"
  "yBufferPosition (renderAscii a x y c) = yBufferPosition c"
  "maxGlyphSizeYOnLine (renderAscii a x y c) = maxGlyphSizeYOnLine c"
  "stuck (renderAscii a x y c) = stuck c"
  by (simp_all add: renderAscii_def renderFromBitmap_def Let_def)

lemma put_glyph_ok:
  assumes "console_ok c"
  shows "console_ok (put_glyph a c)" and "draws_inside c (put_glyph a c)"
    and "xBufferPosition (put_glyph a c) =
      (if xBufferPosition c + int (8 * fontSize c) \<le> int (width (vid c)) then xBufferPosition c else 0)
      + int (8 * fontSize c)"
proof -
  let ?c = "c\<lparr>dirty_line := True\<rparr>" and ?g = "int (8 * fontSize c)"
  define c1 where "c1 = (if xBufferPosition c + ?g > int (width (vid c)) then newLine ?c else ?c)"
  have ok: "console_ok ?c" using assms by simp
  have c1: "console_ok c1" "draws_inside c c1"
    "xBufferPosition c1 = (if xBufferPosition c + ?g \<le> int (width (vid c)) then xBufferPosition c else 0)"
    using console_ok_newLine [OF ok] ok by (simp_all add: c1_def)
  have f: "fontSize c1 = fontSize c" "width (vid c1) = width (vid c)" "height (vid c1) = height (vid c)"
    using c1(2) contained_size by (auto simp: draws_inside_def)
  have fit: "xBufferPosition c1 + ?g \<le> int (width (vid c1))" "0 \<le> xBufferPosition c1"
    "yBufferPosition c1 + ?g \<le> int (height (vid c1))" "0 \<le> yBufferPosition c1"
    using c1(1,3) f assms by (auto simp: console_ok_def)
  define c2 where "c2 = renderAscii a (xBufferPosition c1) (yBufferPosition c1) c1"
  have R: "contained (vid c1) (vid c2)"
    unfolding c2_def by (rule render_inside) (use fit c1(1) f in \<open>simp_all add: console_ok_def\<close>)
  have pg: "put_glyph a c = c2\<lparr>xBufferPosition := xBufferPosition c2 + ?g\<rparr>"
    by (simp add: put_glyph_def Let_def c1_def c2_def getWindowWidth_def)
  show "xBufferPosition (put_glyph a c) =
      (if xBufferPosition c + ?g \<le> int (width (vid c)) then xBufferPosition c else 0) + ?g"
    using c1(3) by (simp add: pg c2_def)
  have "draws_inside c1 (put_glyph a c)" using R by (simp add: draws_inside_def pg c2_def)
  with c1(2) show "draws_inside c (put_glyph a c)" by (rule draws_inside_trans)
  show "console_ok (put_glyph a c)"
    using c1(1) fit f contained_mode [OF R] contained_size [OF R]
    by (simp add: console_ok_def pg c2_def)
qed

lemma retract_ok:
  assumes "console_ok c" and "xBufferPosition c \<noteq> 0"
  shows "console_ok (retractPosition c)" and "draws_inside c (retractPosition c)"
    and "xBufferPosition (retractPosition c) = xBufferPosition c - int (8 * fontSize c)"
    and "0 \<le> xBufferPosition (retractPosition c)"
proof -
  have "0 < xBufferPosition c" "int (8 * fontSize c) dvd xBufferPosition c"
    using assms by (auto simp: console_ok_def)
  then have le: "int (8 * fontSize c) \<le> xBufferPosition c" by (rule zdvd_imp_le [rotated])
  show x: "xBufferPosition (retractPosition c) = xBufferPosition c - int (8 * fontSize c)"
    using assms(2) by (simp add: retractPosition_def Let_def)
  show "0 \<le> xBufferPosition (retractPosition c)" using le x by simp
  show "draws_inside c (retractPosition c)"
    using assms(2) by (simp add: retractPosition_def Let_def draws_inside_def)
  show "console_ok (retractPosition c)"
    using assms le by (simp add: retractPosition_def Let_def console_ok_def dvd_diff)
qed

lemma cursor_ok:
  assumes "console_ok c"
  shows "console_ok (retractPosition (put_glyph a c))" and "draws_inside c (retractPosition (put_glyph a c))"
proof -
  note P = put_glyph_ok [OF assms, of a]
  have "xBufferPosition (put_glyph a c) \<noteq> 0" using P(3) assms by (auto simp: console_ok_def)
  note R = retract_ok [OF P(1) this]
  show "console_ok (retractPosition (put_glyph a c))" by (rule R(1))
  show "draws_inside c (retractPosition (put_glyph a c))" by (rule draws_inside_trans [OF P(2) R(2)])
qed

lemma return_loop_ok:
  assumes "console_ok c"
  shows "console_ok (return_loop n c) \<and> draws_inside c (return_loop n c)"
  using assms
proof (induction n arbitrary: c)
  case (Suc n)
  show ?case
  proof (cases "xBufferPosition c > 0")
    case True
    then have nz: "xBufferPosition c \<noteq> 0" by simp
    note R = retract_ok [OF Suc.prems nz]
    show ?thesis using True Suc.IH [OF R(1)] draws_inside_trans [OF R(2)] by simp
  qed (use Suc in simp)
qed simp

lemma return_loop_column:
  assumes "console_ok c" and "nat (xBufferPosition c) \<le> n"
  shows "xBufferPosition (return_loop n c) = 0"
  using assms
proof (induction n arbitrary: c)
  case 0
  then show ?case by (simp add: console_ok_def)
next
  case (Suc n)
  show ?case
  proof (cases "xBufferPosition c > 0")
    case True
    then have nz: "xBufferPosition c \<noteq> 0" by simp
    note R = retract_ok [OF Suc.prems(1) nz]
    have "nat (xBufferPosition (retractPosition c)) \<le> n"
      using R(3) Suc.prems True by (simp add: console_ok_def nat_le_iff)
    then show ?thesis using True Suc.IH [OF R(1)] by simp
  qed (use Suc in \<open>simp add: console_ok_def\<close>)
qed

text \<open>
  The tabulator loop. In glyphs, a line has \<open>m \<ge> 4\<close> columns; from column \<open>k\<close> the next multiple
  of four is at most four glyphs away, unless the line ends first, and then the next line
  needs four more.
\<close>

definition tab_rounds :: "nat \<Rightarrow> nat \<Rightarrow> nat" where
  "tab_rounds m k = (if 4 * (k div 4) + 4 \<le> m then 4 - k mod 4 else m - k + 4)"

lemma tab_rounds_step:
  assumes "4 \<le> m" and "k \<le> m" and "k' = (if k + 1 \<le> m then k + 1 else 1)" and "\<not> 4 dvd k'"
  shows "tab_rounds m k' < tab_rounds m k" and "k' \<le> m"
proof -
  show "k' \<le> m" using assms by auto
  show "tab_rounds m k' < tab_rounds m k"
  proof (cases "k + 1 \<le> m")
    case True
    then have "k' = k + 1" by (simp add: assms(3))
    moreover have "(k + 1) mod 4 = k mod 4 + 1 \<and> (k + 1) div 4 = k div 4"
      using assms(4) calculation by (simp add: dvd_eq_mod_eq_0) presburger
    ultimately show ?thesis using True by (auto simp: tab_rounds_def)
  next
    case False
    then have "k = m" "k' = 1" using assms(2,3) by auto
    then show ?thesis using assms(1) by (auto simp: tab_rounds_def)
  qed
qed

lemma tab_rounds_le: "k \<le> m \<Longrightarrow> tab_rounds m k \<le> 7"
  unfolding tab_rounds_def by presburger

lemma tab_loop_ok:
  assumes "console_ok c" and "xBufferPosition c = int (k * (8 * fontSize c))"
    and "m = width (vid c) div (8 * fontSize c)" and "tab_rounds m k \<le> n" and "0 < n"
  shows "console_ok (tab_loop n c) \<and> draws_inside c (tab_loop n c)
    \<and> int (32 * fontSize c) dvd xBufferPosition (tab_loop n c)"
  using assms
proof (induction n arbitrary: c k)
  case (Suc n)
  let ?g = "8 * fontSize c" and ?c = "put_glyph 0x20 c"
  note P = put_glyph_ok [OF Suc.prems(1), of "0x20"]
  have fs: "1 \<le> fontSize c" "32 * fontSize c \<le> width (vid c)" "xBufferPosition c \<le> int (width (vid c))"
    using Suc.prems(1) by (auto simp: console_ok_def)
  have f: "fontSize ?c = fontSize c" "width (vid ?c) = width (vid c)"
    using P(2) contained_size by (auto simp: draws_inside_def)
  have m: "k' \<le> m \<longleftrightarrow> k' * ?g \<le> width (vid c)" for k'
    using fs(1) by (simp add: Suc.prems(3) less_eq_div_iff_mult_less_eq)
  define k' where "k' = (if k + 1 \<le> m then k + 1 else 1)"
  have fit: "xBufferPosition c + int ?g \<le> int (width (vid c)) \<longleftrightarrow> k + 1 \<le> m"
  proof -
    have "xBufferPosition c + int ?g = int ((k + 1) * ?g)" using Suc.prems(2) by (simp add: algebra_simps)
    then show ?thesis unfolding m by linarith
  qed
  have x: "xBufferPosition ?c = int (k' * ?g)"
    unfolding P(3) fit using Suc.prems(2) by (simp add: k'_def algebra_simps)
  have "k * ?g \<le> width (vid c)" using fs(3) unfolding Suc.prems(2) by (simp only: of_nat_le_iff)
  then have bounds: "4 \<le> m" "k \<le> m" using fs(2) m [of 4] m [of k] by simp_all
  have stop: "xBufferPosition ?c mod int (TAB_SIZE * glyphSizeX * fontSize ?c) = 0 \<longleftrightarrow> 4 dvd k'"
  proof -
    have "xBufferPosition ?c mod int (32 * fontSize c) = int (?g * (k' mod 4))"
    proof -
      have "k' * ?g mod (32 * fontSize c) = ?g * (k' mod 4)"
        using mult_mod_right [of ?g k' 4] by (simp only: mult.commute [of k'] mult.assoc [symmetric]) simp
      then show ?thesis unfolding x zmod_int [symmetric] by (simp only:)
    qed
    moreover have "int (TAB_SIZE * glyphSizeX * fontSize ?c) = int (32 * fontSize c)" by (simp add: f(1))
    ultimately show ?thesis using fs(1) by (simp only: dvd_eq_mod_eq_0) simp
  qed
  show ?case
  proof (cases "4 dvd k'")
    case True
    then have "tab_loop (Suc n) c = ?c" using stop by (simp add: Let_def)
    moreover have "int (32 * fontSize c) dvd xBufferPosition ?c"
      using stop True f(1) by (simp add: mod_eq_0_iff_dvd)
    ultimately show ?thesis using P by simp
  next
    case False
    note S = tab_rounds_step [OF bounds k'_def False]
    have lt: "tab_rounds m k' \<le> n" "0 < n"
      using S(1) Suc.prems(4) False by (auto simp: tab_rounds_def split: if_splits)
    have "console_ok (tab_loop n ?c) \<and> draws_inside ?c (tab_loop n ?c)
        \<and> int (32 * fontSize ?c) dvd xBufferPosition (tab_loop n ?c)"
      by (rule Suc.IH [OF P(1) _ _ lt]) (use x f Suc.prems(3) in simp_all)
    moreover have "tab_loop (Suc n) c = tab_loop n ?c" using stop False by (simp add: Let_def)
    ultimately show ?thesis using draws_inside_trans [OF P(2)] f(1) by simp
  qed
qed simp

lemma putChar_ok:
  assumes "console_ok c"
  shows "console_ok (putChar a c) \<and> draws_inside c (putChar a c)
    \<and> (a = TABULATOR_CHAR \<longrightarrow> int (32 * fontSize c) dvd xBufferPosition (putChar a c))"
proof -
  let ?c = "c\<lparr>dirty_line := True\<rparr>"
  have ok: "console_ok ?c" using assms by simp
  have h: "console_ok (hideCursor ?c)" "draws_inside c (hideCursor ?c)"
    using cursor_ok [OF ok] by (simp_all add: hideCursor_def)
  have nl: "console_ok (newLine (hideCursor ?c))" "draws_inside c (newLine (hideCursor ?c))"
    using console_ok_newLine [OF h(1)] draws_inside_trans [OF h(2)] by blast+
  have cr: "console_ok (return_loop n (hideCursor ?c)) \<and> draws_inside c (return_loop n (hideCursor ?c))" for n
    using return_loop_ok [OF h(1)] draws_inside_trans [OF h(2)] by blast
  obtain k where k: "xBufferPosition c = int (8 * fontSize c) * k"
    using assms by (auto simp: console_ok_def dvd_def)
  then have "0 \<le> k" using assms by (auto simp: console_ok_def zero_le_mult_iff)
  then have x: "xBufferPosition ?c = int (nat k * (8 * fontSize ?c))" using k by simp
  let ?m = "width (vid ?c) div (8 * fontSize ?c)"
  have "nat k \<le> ?m"
  proof -
    have "nat k * (8 * fontSize c) \<le> width (vid c)"
    proof -
      have "xBufferPosition c = int (nat k * (8 * fontSize c))" using x by simp
      then have "int (nat k * (8 * fontSize c)) \<le> int (width (vid c))" using assms by (simp only: console_ok_def)
      then show ?thesis by (simp only: of_nat_le_iff)
    qed
    then show ?thesis using assms by (simp add: less_eq_div_iff_mult_less_eq console_ok_def)
  qed
  then have "tab_rounds ?m (nat k) \<le> 8" using tab_rounds_le le_trans by fastforce
  then have "console_ok (tab_loop 8 ?c) \<and> draws_inside ?c (tab_loop 8 ?c)
      \<and> int (32 * fontSize ?c) dvd xBufferPosition (tab_loop 8 ?c)"
    by (intro tab_loop_ok [OF ok x refl]) simp_all
  then show ?thesis
    using nl cr put_glyph_ok [OF ok, of a] by (auto simp: putChar_def Let_def)
qed

lemma console_ok_select: "console_ok (select_fd fd c) = console_ok c"
  "draws_inside c (select_fd fd c)"
  by (simp_all add: select_fd_def console_ok_def draws_inside_def)

text \<open>
  C14: console output. Printing any bytes to the console from a position on the column grid
  keeps the position on the grid and inside the window, ends (a tabulator always reaches its
  stop) and writes no byte of memory outside the visible frame.
\<close>

theorem print_stays_inside:
  assumes "console_ok c"
  shows "console_ok (print_console fd bs c) \<and> contained (vid c) (vid (print_console fd bs c))
    \<and> stuck (print_console fd bs c) = stuck c"
proof -
  have "console_ok (fold putChar bs u) \<and> draws_inside u (fold putChar bs u)" if "console_ok u" for u
    using that
  proof (induction bs arbitrary: u)
    case (Cons b bs)
    have "console_ok (putChar b u) \<and> draws_inside u (putChar b u)" using putChar_ok [OF Cons.prems] by blast
    then show ?case using Cons.IH [of "putChar b u"] draws_inside_trans by auto
  qed simp
  from this [of "select_fd fd c"] show ?thesis
    using assms console_ok_select [where fd = fd and c = c] draws_inside_trans [of c "select_fd fd c"]
    by (simp add: print_console_def draws_inside_def)
qed

definition demo_console :: console where
  "demo_console = \<lparr>vid = \<lparr>framebuffer = (\<lambda>_. 0), pitch = 3072, width = 1024, height = 768, bpp = 24\<rparr>,
     fontSize = 1, xBufferPosition = 8, yBufferPosition = 760, maxGlyphSizeYOnLine = 8, dirty_line = True,
     text_color = DEFAULT_TEXT_COLOR, background_color = DEFAULT_BACKGROUND_COLOR, file_descriptor = 1,
     wild = False, stuck = False\<rparr>"

lemma print_stays_inside_witness: "console_ok (print_console 2 [72, 9, 10, 13] demo_console)"
proof -
  have "console_ok demo_console" by (simp add: console_ok_def demo_console_def mode_ok_def)
  from print_stays_inside [OF this] show ?thesis by blast
qed

section \<open>Numbers\<close>

definition digit_value :: "u8 \<Rightarrow> nat" where
  "digit_value d = (if unat d < 58 then unat d - 48 else unat d - 55)"

fun digits_value :: "nat \<Rightarrow> u8 list \<Rightarrow> nat" where
  "digits_value b [] = 0"
| "digits_value b (d # ds) = digit_value d + b * digits_value b ds"

lemma digit_char_value:
  assumes "r < 16"
  shows "digit_value (digit_char r) = r"
proof -
  have "unat (of_nat k :: u8) = k" if "k < 256" for k using that by (simp add: unat_of_nat)
  from this [of "r + 48"] this [of "r + 55"] show ?thesis
    using assms by (simp add: digit_value_def digit_char_def del: of_nat_add)
qed

lemma digits_value_base:
  assumes "2 \<le> b" and "b \<le> 16"
  shows "digits_value b (base_digits v b) = v"
proof (induction v rule: less_induct)
  case (less v)
  have "v mod b < b" using assms(1) by simp
  then have d: "digit_value (digit_char (v mod b)) = v mod b" using assms(2) by (intro digit_char_value) linarith
  show ?case
  proof (cases "v div b = 0")
    case True
    then have "v mod b = v" using assms by (simp add: div_eq_0_iff)
    then show ?thesis using True d by (subst base_digits.simps) simp
  next
    case False
    then have "v div b < v" using assms by (cases "v = 0") auto
    then have "digits_value b (base_digits (v div b) b) = v div b" by (rule less)
    then show ?thesis using False d assms by (subst base_digits.simps) (simp add: mult.commute)
  qed
qed

lemma base_digits_length:
  assumes "2 \<le> b" and "0 < n"
  shows "v < b ^ n \<longleftrightarrow> length (base_digits v b) \<le> n"
  using assms(2)
proof (induction n arbitrary: v)
  case (Suc n)
  have len: "length (base_digits v b) = Suc (if v div b \<noteq> 0 then length (base_digits (v div b) b) else 0)"
    using assms(1) by (subst base_digits.simps) simp
  have pos: "0 < length (base_digits w b)" for w by (subst base_digits.simps) simp
  have split: "v < b ^ Suc n \<longleftrightarrow> v div b < b ^ n"
    using assms(1) by (simp add: div_less_iff_less_mult mult.commute)
  show ?case
  proof (cases "n = 0")
    case True
    then show ?thesis using split len pos [of "v div b"] by auto
  next
    case False
    then show ?thesis using split len Suc.IH [of "v div b"] assms(1) by auto
  qed
qed simp

text \<open>
  the digits that \<open>uintToBase\<close> writes are the value: reading them back in the same base
  gives it, for the bases 2 to 16. With its terminator the text fits the 64-byte buffer of
  \<open>printBase\<close> in every base but two; in base two it does not fit exactly for the values from
  \<open>2 ^ 63\<close> on, whose 64 digits put the terminator one byte behind the buffer.
\<close>

theorem uintToBase_digits:
  assumes "2 \<le> b" and "b \<le> 16"
  shows "digits_value b (rev (uintToBase v b)) = unat v
    \<and> (length (uintToBase v b) + 1 \<le> 64 \<longleftrightarrow> \<not> (b = 2 \<and> 2 ^ 63 \<le> unat v))"
proof -
  have v: "unat v < 2 ^ 64" using unsigned_less [of v] by simp
  have "length (base_digits (unat v) b) \<le> 63 \<longleftrightarrow> unat v < b ^ 63"
    using base_digits_length [OF assms(1), of 63 "unat v"] by simp
  moreover have "unat v < b ^ 63" if "b \<noteq> 2"
  proof -
    have "(2 :: nat) ^ 64 \<le> 3 ^ 63" by simp
    also have "(3 :: nat) ^ 63 \<le> b ^ 63" using assms(1) that by (intro power_mono) auto
    finally show ?thesis using v by linarith
  qed
  ultimately show ?thesis
    using digits_value_base [OF assms] by (cases "b = 2") (auto simp: uintToBase_def)
qed

lemma uintToBase_digits_witness:
  "length (uintToBase (2 ^ 63) 2) + 1 > 64 \<and> length (uintToBase (2 ^ 63) 10) + 1 \<le> 64"
  using uintToBase_digits [of 2 "2 ^ 63"] uintToBase_digits [of 10 "2 ^ 63"] by simp

end
