(* ===== verification/Kernel_State.thy ===== *)
theory Kernel_State
  imports Semaphore_Properties Console "HOL-Library.Signed_Division"
begin

text \<open>
  The state of the whole kernel, and the parts of \<open>Kernel/drivers/keyboard.c\<close>,
  \<open>Kernel/cursor.c\<close> and \<open>Kernel/fonts.c\<close> that the file descriptors need: the ring buffer of
  typed characters, the blocking read from it, the blinking cursor, and \<open>printToFd\<close>, which
  writes to the console or, for descriptor 0, back into the keyboard buffer.

  Bytes are 8-bit words; the end-of-file marker -1 is the byte 255. A call that waits for a
  key returns \<open>Sleep\<close>, and \<open>getKeyboardCharacter_resume\<close> is what the caller executes when it
  is dispatched again. A loop of the source that does not end sets \<open>hung\<close>.
\<close>

section \<open>The state\<close>

definition KBD_BUFFER_SIZE :: nat where "KBD_BUFFER_SIZE = 1024"
definition EOF :: u8 where "EOF = 255"
definition SHOW_BUFFER_WHILE_TYPING :: u8 where "SHOW_BUFFER_WHILE_TYPING = 1"
definition AWAIT_RETURN_KEY :: u8 where "AWAIT_RETURN_KEY = 2"
definition MODIFY_BUFFER :: u8 where "MODIFY_BUFFER = 4"

lemmas kbd_consts [simp] = KBD_BUFFER_SIZE_def EOF_def SHOW_BUFFER_WHILE_TYPING_def
  AWAIT_RETURN_KEY_def MODIFY_BUFFER_def

record keyboard =
  SHIFT_KEY_PRESSED :: bool
  CAPS_LOCK_KEY_PRESSED :: bool
  CONTROL_KEY_PRESSED :: bool
  kbuffer :: "nat \<Rightarrow> u8"
  to_write :: nat
  to_read :: nat
  keyboard_options :: u8
  keyboard_semaphore :: int
  KeyFnMap :: "nat \<Rightarrow> u8 \<times> addr"

datatype fdMode = FR | FW | FRW

record Stream =
  sbuffer :: "nat \<Rightarrow> u8"
  readPos :: nat
  writePos :: nat
  dataAvailable :: int
  eof :: bool
  readers :: int
  writers :: int
  readSem :: int
  writeSem :: int

record FD =
  isOpen :: bool
  resource :: addr
  fmode :: fdMode

text \<open>
  Dynamic objects live in typed heaps indexed by the address that \<open>allocMemory\<close> returned:
  streams, arrays of argument pointers, argument strings, and the tables that
  \<open>getProcessesInformation\<close> hands out.
\<close>

record 'm kernel = "'m sem_state" +
  con :: console
  kbd :: keyboard
  IS_SHOWING :: bool
  fileDescriptors :: "nat \<Rightarrow> FD"
  streams :: "addr \<Rightarrow> Stream"
  argvs :: "addr \<Rightarrow> addr list"
  cstrings :: "addr \<Rightarrow> string"
  infos :: "addr \<Rightarrow> nat \<Rightarrow> Process"
  register_snapshot :: "u64 list"
  register_snapshot_taken :: bool

definition upd_con :: "(console \<Rightarrow> console) \<Rightarrow> ('m, 'z) kernel_scheme \<Rightarrow> ('m, 'z) kernel_scheme" where
  "upd_con f s = s\<lparr>con := f (con s)\<rparr>"

definition upd_kbd :: "(keyboard \<Rightarrow> keyboard) \<Rightarrow> ('m, 'z) kernel_scheme \<Rightarrow> ('m, 'z) kernel_scheme" where
  "upd_kbd f s = s\<lparr>kbd := f (kbd s)\<rparr>"

definition upd_stream :: "addr \<Rightarrow> (Stream \<Rightarrow> Stream) \<Rightarrow> ('m, 'z) kernel_scheme \<Rightarrow> ('m, 'z) kernel_scheme" where
  "upd_stream a f s = s\<lparr>streams := (streams s)(a := f (streams s a))\<rparr>"

section \<open>The keyboard buffer\<close>

definition SUB_MOD :: "nat \<Rightarrow> nat \<Rightarrow> nat \<Rightarrow> nat" where
  "SUB_MOD a b m = (if int a - int b < 0 then nat (int m - int b + int a) else a - b)"

text \<open>The full test, with the remainder of C, which takes the sign of the difference.\<close>

definition BUFFER_IS_FULL :: "keyboard \<Rightarrow> bool" where
  "BUFFER_IS_FULL k \<longleftrightarrow> (int (to_write k) - int (to_read k)) smod int KBD_BUFFER_SIZE = int KBD_BUFFER_SIZE - 1"

text \<open>The branch of \<open>addCharToBuffer\<close> for every character but the tabulator.\<close>

definition store_char :: "u8 \<Rightarrow> keyboard \<Rightarrow> keyboard" where
  "store_char ascii k = k\<lparr>kbuffer := (kbuffer k)(to_write k := ascii),
     to_write := (to_write k + 1) mod KBD_BUFFER_SIZE\<rparr>"

definition add_plain :: "u8 \<Rightarrow> bool \<Rightarrow> ('m, 'z) kernel_scheme \<Rightarrow> ('m, 'z) kernel_scheme" where
  "add_plain ascii showOutput s =
     (let s1 = upd_kbd (store_char ascii) s
      in if showOutput then upd_con (putChar ascii) s1 else s1)"

fun add_tab_loop :: "nat \<Rightarrow> bool \<Rightarrow> ('m, 'z) kernel_scheme \<Rightarrow> ('m, 'z) kernel_scheme" where
  "add_tab_loop 0 showOutput s = s\<lparr>hung := True\<rparr>"
| "add_tab_loop (Suc n) showOutput s =
     (let s1 = add_plain 0x20 showOutput s in
      if \<not> BUFFER_IS_FULL (kbd s1)
         \<and> unat (getXBufferPosition (con s1)) mod (TAB_SIZE * glyphSizeX * fontSize (con s1)) \<noteq> 0
      then add_tab_loop n showOutput s1 else s1)"

definition addCharToBuffer :: "u8 \<Rightarrow> bool \<Rightarrow> ('m, 'z) kernel_scheme \<Rightarrow> ('m, 'z) kernel_scheme" where
  "addCharToBuffer ascii showOutput s =
     (if ascii \<noteq> TABULATOR_CHAR then add_plain ascii showOutput s else add_tab_loop 1032 showOutput s)"

definition clearBuffer :: "('m, 'z) kernel_scheme \<Rightarrow> nat \<times> ('m, 'z) kernel_scheme" where
  "clearBuffer s =
     (let aux = SUB_MOD (to_write (kbd s)) (to_read (kbd s)) KBD_BUFFER_SIZE in
      if aux = 0 then (0, s)
      else (aux, upd_con clearPreviousCharacter
             (upd_kbd (\<lambda>k. k\<lparr>to_write := SUB_MOD (to_write k) 1 KBD_BUFFER_SIZE\<rparr>) s)))"

text \<open>\<open>while (clearBuffer() != 0);\<close>, one round per character.\<close>

fun clear_all :: "nat \<Rightarrow> ('m, 'z) kernel_scheme \<Rightarrow> ('m, 'z) kernel_scheme" where
  "clear_all 0 s = s\<lparr>hung := True\<rparr>"
| "clear_all (Suc n) s = (let (r, s1) = clearBuffer s in if r \<noteq> 0 then clear_all n s1 else s1)"

definition clear_input :: "('m, 'z) kernel_scheme \<Rightarrow> ('m, 'z) kernel_scheme" where
  "clear_input s = clear_all (KBD_BUFFER_SIZE + 1) s"

definition initKeyboard :: "'m mm \<Rightarrow> ('m, 'z) kernel_scheme \<Rightarrow> ('m, 'z) kernel_scheme" where
  "initKeyboard M s =
     (let (i, s1) = semCreate M ''keyboard_input'' 0 s in upd_kbd (\<lambda>k. k\<lparr>keyboard_semaphore := i\<rparr>) s1)"

text \<open>Whether a reader has to go on waiting.\<close>

definition must_wait :: "keyboard \<Rightarrow> bool" where
  "must_wait k \<longleftrightarrow> to_write k = to_read k
     \<or> (keyboard_options k AND AWAIT_RETURN_KEY \<noteq> 0
        \<and> \<not> (let c = kbuffer k (SUB_MOD (to_write k) 1 KBD_BUFFER_SIZE) in c = NEW_LINE_CHAR \<or> c = EOF))"

definition take_char :: "('m, 'z) kernel_scheme \<Rightarrow> u8 \<times> ('m, 'z) kernel_scheme" where
  "take_char s = (kbuffer (kbd s) (to_read (kbd s)),
     upd_kbd (\<lambda>k. k\<lparr>keyboard_options := 0, to_read := (to_read k + 1) mod KBD_BUFFER_SIZE\<rparr>) s)"

definition print_string :: "string \<Rightarrow> ('m, 'z) kernel_scheme \<Rightarrow> ('m, 'z) kernel_scheme" where
  "print_string str s = upd_con (print (map byte str)) s"

text \<open>
  The waiting loop. Each round either sleeps or takes a unit of the keyboard semaphore, so
  its value bounds the rounds; only a semaphore that is not in use makes it spin forever.
\<close>

fun kbd_loop :: "nat \<Rightarrow> 'm mm \<Rightarrow> ('m, 'z) kernel_scheme \<Rightarrow> u8 outcome \<times> ('m, 'z) kernel_scheme" where
  "kbd_loop 0 M s = (Sleep, s\<lparr>hung := True\<rparr>)"
| "kbd_loop (Suc n) M s =
     (if must_wait (kbd s)
      then if keyboard_semaphore (kbd s) \<noteq> - 1
        then case semWait M (keyboard_semaphore (kbd s)) s of
               (Ret v, s1) \<Rightarrow> kbd_loop n M s1
             | (Sleep, s1) \<Rightarrow> (Sleep, s1)
        else (Sleep, print_string ''Error: keyboard_semaphore no esta inicializado
'' s)
      else let (c, s1) = take_char s in (Ret c, s1))"

definition kbd_rounds :: "('m, 'z) kernel_scheme \<Rightarrow> nat" where
  "kbd_rounds s = Suc (nat (svalue (sems s (nat (keyboard_semaphore (kbd s))))) + 1)"

definition getKeyboardCharacter ::
  "'m mm \<Rightarrow> u8 \<Rightarrow> ('m, 'z) kernel_scheme \<Rightarrow> u8 outcome \<times> ('m, 'z) kernel_scheme" where
  "getKeyboardCharacter M ops s =
     (let s1 = upd_kbd (\<lambda>k. k\<lparr>keyboard_options := ops OR MODIFY_BUFFER\<rparr>) s
      in kbd_loop (kbd_rounds s1) M s1)"

definition getKeyboardCharacter_resume ::
  "'m mm \<Rightarrow> ('m, 'z) kernel_scheme \<Rightarrow> u8 outcome \<times> ('m, 'z) kernel_scheme" where
  "getKeyboardCharacter_resume M s =
     (if keyboard_semaphore (kbd s) = - 1 then kbd_loop (kbd_rounds s) M s
      else case semWait_resume M (nat (keyboard_semaphore (kbd s))) s of
             (Ret v, s1) \<Rightarrow> kbd_loop (kbd_rounds s1) M s1
           | (Sleep, s1) \<Rightarrow> (Sleep, s1))"

section \<open>Output\<close>

definition printToFd :: "int \<Rightarrow> u8 list \<Rightarrow> ('m, 'z) kernel_scheme \<Rightarrow> int \<times> ('m, 'z) kernel_scheme" where
  "printToFd fd bs s =
     (int (length bs),
      if fd \<noteq> file_descriptor (con s) \<and> fd = 0 then fold (\<lambda>b. addCharToBuffer b True) bs s
      else upd_con (print_console fd bs) s)"

section \<open>The cursor and the timer\<close>

definition TOGGLE_TICKS :: nat where "TOGGLE_TICKS = 9"
definition SECONDS_TO_TICKS :: nat where "SECONDS_TO_TICKS = 18"

definition ticks_elapsed :: "('m, 'z) sched_scheme \<Rightarrow> int" where
  "ticks_elapsed s = sint (of_nat (ticks s) :: 32 word)"

definition seconds_elapsed :: "('m, 'z) sched_scheme \<Rightarrow> int" where
  "seconds_elapsed s = sint (of_nat (ticks s div SECONDS_TO_TICKS) :: 32 word)"

definition toggleSpeed :: "('m, 'z) sched_scheme \<Rightarrow> int" where
  "toggleSpeed s = ticks_elapsed s sdiv int TOGGLE_TICKS"

definition toggleCursor :: "('m, 'z) kernel_scheme \<Rightarrow> ('m, 'z) kernel_scheme" where
  "toggleCursor s =
     (let toggle = toggleSpeed s smod 2 in
      if keyboard_options (kbd s) = 0 \<or> keyboard_options (kbd s) = MODIFY_BUFFER
      then s\<lparr>IS_SHOWING := False\<rparr>
      else if toggle = 1 \<and> \<not> IS_SHOWING s then (upd_con showCursor s)\<lparr>IS_SHOWING := True\<rparr>
      else if toggle = 0 \<and> IS_SHOWING s then (upd_con hideCursor s)\<lparr>IS_SHOWING := False\<rparr>
      else s)"

text \<open>
  The timer interrupt of the whole kernel: the tick and the cursor, then the context switch.
\<close>

definition timer_interrupt :: "'m mm \<Rightarrow> ('m, 'z) kernel_scheme \<Rightarrow> ('m, 'z) kernel_scheme" where
  "timer_interrupt M s =
     (let s1 = toggleCursor (timer_handler s); (rsp, s2) = switchContext M (cpu_rsp s1) s1
      in s2\<lparr>cpu_rsp := rsp\<rparr>)"

text \<open>Sleeping: the caller halts until the tick counter has advanced far enough.\<close>

definition sleepTicks_done :: "nat \<Rightarrow> u64 \<Rightarrow> ('m, 'z) sched_scheme \<Rightarrow> bool" where
  "sleepTicks_done start sleep_t s \<longleftrightarrow> \<not> (of_nat (ticks s) :: u64) < of_nat start + sleep_t"

section \<open>The ring of typed characters\<close>

definition kbd_ok :: "keyboard \<Rightarrow> bool" where
  "kbd_ok k \<longleftrightarrow> to_write k < 1024 \<and> to_read k < 1024"

definition held :: "keyboard \<Rightarrow> nat" where
  "held k = (to_write k + 1024 - to_read k) mod 1024"

definition pending :: "keyboard \<Rightarrow> u8 list" where
  "pending k = map (\<lambda>i. kbuffer k ((to_read k + i) mod 1024)) [0..<held k]"

lemma length_pending [simp]: "length (pending k) = held k"
  by (simp add: pending_def)

text \<open>Index arithmetic without division.\<close>

lemma ring_add:
  assumes "r < m" and "i < (m :: nat)"
  shows "(r + i) mod m = (if r + i < m then r + i else r + i - m)"
  using assms by (auto simp: not_less le_mod_geq)

lemma held_eq:
  assumes "kbd_ok k"
  shows "held k = (if to_read k \<le> to_write k then to_write k - to_read k else to_write k + 1024 - to_read k)"
proof (cases "to_read k \<le> to_write k")
  case True
  then have "to_write k + 1024 - to_read k = (to_write k - to_read k) + 1024" by simp
  then have "held k = (to_write k - to_read k) mod 1024" by (simp only: held_def mod_add_self2)
  moreover have "to_write k - to_read k < 1024" using assms by (auto simp: kbd_ok_def)
  ultimately show ?thesis using True by simp
qed (use assms in \<open>simp add: held_def kbd_ok_def\<close>)

lemma held_less: "held k < 1024"
  by (simp add: held_def)

lemma pending_empty: "kbd_ok k \<Longrightarrow> pending k = [] \<longleftrightarrow> to_write k = to_read k"
  by (auto simp: pending_def held_eq kbd_ok_def)

lemma ring_write_index: "kbd_ok k \<Longrightarrow> (to_read k + held k) mod 1024 = to_write k"
  using held_less [of k] by (subst ring_add) (auto simp: kbd_ok_def held_eq)

lemma ring_index_inj:
  assumes "r < 1024" and "i < 1024" and "j < 1024" and "(r + i) mod 1024 = (r + j) mod (1024 :: nat)"
  shows "i = j"
  using assms ring_add [of r 1024 i] ring_add [of r 1024 j] by (simp split: if_splits)

lemma store_char_ok: "kbd_ok k \<Longrightarrow> kbd_ok (store_char a k)"
  by (simp add: kbd_ok_def store_char_def)

lemma held_store:
  assumes "kbd_ok k"
  shows "held (store_char a k) = (if held k = 1023 then 0 else held k + 1)"
proof -
  have ok: "to_write k < 1024" "to_read k < 1024" using assms by (simp_all add: kbd_ok_def)
  have "to_write (store_char a k) = (if to_write k = 1023 then 0 else to_write k + 1)"
    using ring_add [of "to_write k" 1024 1] ok by (simp add: store_char_def)
  moreover have "to_read (store_char a k) = to_read k" by (simp add: store_char_def)
  ultimately show ?thesis
    using ok by (auto simp: held_eq [OF store_char_ok [OF assms]] held_eq [OF assms])
qed

lemma pending_store:
  assumes "kbd_ok k" and "held k \<noteq> 1023"
  shows "pending (store_char a k) = pending k @ [a]"
proof -
  have h: "held k < 1023" using assms(2) held_less [of k] by simp
  have "(to_read k + i) mod 1024 \<noteq> to_write k" if "i < held k" for i
    using ring_index_inj [of "to_read k" i "held k"] ring_write_index [OF assms(1)] that h assms(1)
    by (auto simp: kbd_ok_def)
  moreover have "to_read (store_char a k) = to_read k" by (simp add: store_char_def)
  ultimately show ?thesis
    unfolding pending_def held_store [OF assms(1)] using assms(2) ring_write_index [OF assms(1)]
    by (simp add: store_char_def)
qed

lemma SUB_MOD_held: "kbd_ok k \<Longrightarrow> SUB_MOD (to_write k) (to_read k) 1024 = held k"
  by (auto simp: SUB_MOD_def held_eq kbd_ok_def nat_eq_iff)

lemma pending_take:
  assumes "kbd_ok k" and "pending k \<noteq> []" and "k' = k\<lparr>keyboard_options := 0, to_read := (to_read k + 1) mod 1024\<rparr>"
  shows "pending k = kbuffer k (to_read k) # pending k'" and "kbd_ok k'"
proof -
  have ok: "to_write k < 1024" "to_read k < 1024" using assms(1) by (simp_all add: kbd_ok_def)
  have ne: "to_write k \<noteq> to_read k" using pending_empty [OF assms(1)] assms(2) by simp
  show ok': "kbd_ok k'" using ok by (simp add: kbd_ok_def assms(3))
  have r: "to_read k' = (if to_read k = 1023 then 0 else to_read k + 1)"
    using ring_add [of "to_read k" 1024 1] ok by (simp add: assms(3))
  then have n: "held k = Suc (held k')"
    using ok ne by (auto simp: held_eq [OF ok'] held_eq [OF assms(1)]) (auto simp: assms(3))
  have "(to_read k' + i) mod 1024 = (to_read k + Suc i) mod 1024" for i
    by (simp add: assms(3) mod_add_left_eq)
  then have "pending k' = map (\<lambda>i. kbuffer k ((to_read k + Suc i) mod 1024)) [0..<held k']"
    by (simp add: pending_def assms(3))
  moreover have "pending k = kbuffer k (to_read k mod 1024)
      # map (\<lambda>i. kbuffer k ((to_read k + Suc i) mod 1024)) [0..<held k']"
    unfolding pending_def n by (simp only: upt_conv_Cons map_Suc_upt [symmetric]) (simp add: o_def)
  ultimately show "pending k = kbuffer k (to_read k) # pending k'" using ok by simp
qed

lemma pending_erase:
  assumes "kbd_ok k" and "pending k \<noteq> []" and "k' = k\<lparr>to_write := SUB_MOD (to_write k) 1 1024\<rparr>"
  shows "pending k' = butlast (pending k)" and "kbd_ok k'"
proof -
  have ok: "to_write k < 1024" "to_read k < 1024" using assms(1) by (simp_all add: kbd_ok_def)
  have ne: "to_write k \<noteq> to_read k" using pending_empty [OF assms(1)] assms(2) by simp
  have w: "to_write k' = (if to_write k = 0 then 1023 else to_write k - 1)"
    by (auto simp: assms(3) SUB_MOD_def)
  have "to_read k' = to_read k" by (simp add: assms(3))
  then show ok': "kbd_ok k'" using ok w by (auto simp: kbd_ok_def)
  have f: "to_read k' = to_read k" "kbuffer k' = kbuffer k" by (simp_all add: assms(3))
  have "held k = Suc (held k')"
    using ok ne w by (auto simp: held_eq [OF ok'] held_eq [OF assms(1)] f)
  then show "pending k' = butlast (pending k)" by (simp add: pending_def f)
qed

text \<open>
  C15: the keyboard buffer is a queue of at most 1023 characters: a stored character goes to
  the end, reading takes the first, erasing drops the last and says how many there were. But
  the full test of the interrupt handler holds in one position of the indices only, because
  the remainder of a negative difference is negative; in every other position the 1024th
  character is accepted and makes the whole buffer read as empty.
\<close>

theorem keyboard_ring:
  assumes "kbd_ok (kbd s)"
  shows "(length (pending (kbd s)) < 1023 \<longrightarrow> pending (store_char a (kbd s)) = pending (kbd s) @ [a])
    \<and> (length (pending (kbd s)) = 1023 \<longrightarrow> pending (store_char a (kbd s)) = [])
    \<and> (BUFFER_IS_FULL (kbd s) \<longleftrightarrow> to_write (kbd s) = 1023 \<and> to_read (kbd s) = 0)
    \<and> (pending (kbd s) \<noteq> [] \<longrightarrow> fst (take_char s) = hd (pending (kbd s))
        \<and> pending (kbd (snd (take_char s))) = tl (pending (kbd s)))
    \<and> fst (clearBuffer s) = length (pending (kbd s))
    \<and> pending (kbd (snd (clearBuffer s))) = butlast (pending (kbd s))
    \<and> kbd_ok (store_char a (kbd s)) \<and> kbd_ok (kbd (snd (take_char s))) \<and> kbd_ok (kbd (snd (clearBuffer s)))"
proof -
  let ?k = "kbd s"
  have full: "BUFFER_IS_FULL ?k \<longleftrightarrow> to_write ?k = 1023 \<and> to_read ?k = 0"
    using assms by (auto simp: BUFFER_IS_FULL_def signed_modulo_int_def kbd_ok_def sgn_if split: if_splits)
  have over: "pending (store_char a ?k) = []" if "held ?k = 1023"
    using held_store [OF assms, of a] that by (simp add: pending_def)
  have "fst (take_char s) = hd (pending ?k) \<and> pending (kbd (snd (take_char s))) = tl (pending ?k)"
    if "pending ?k \<noteq> []"
    using pending_take [OF assms that refl] by (simp add: take_char_def upd_kbd_def)
  moreover have "kbd_ok (kbd (snd (take_char s)))"
    using assms by (simp add: take_char_def upd_kbd_def kbd_ok_def)
  moreover have "fst (clearBuffer s) = length (pending ?k)"
    using SUB_MOD_held [OF assms] by (simp add: clearBuffer_def Let_def)
  moreover have "pending (kbd (snd (clearBuffer s))) = butlast (pending ?k)
      \<and> kbd_ok (kbd (snd (clearBuffer s)))"
  proof (cases "pending ?k = []")
    case True
    then have "held ?k = 0" by (metis length_pending list.size(3))
    then show ?thesis using True SUB_MOD_held [OF assms] assms by (simp add: clearBuffer_def Let_def)
  next
    case False
    then have "held ?k \<noteq> 0" by (metis length_pending length_0_conv)
    then show ?thesis
      using pending_erase [OF assms False refl] SUB_MOD_held [OF assms]
      by (simp add: clearBuffer_def Let_def upd_kbd_def upd_con_def)
  qed
  ultimately show ?thesis
    using pending_store [OF assms, of a] over full store_char_ok [OF assms, of a] by simp
qed

definition demo_keyboard :: keyboard where
  "demo_keyboard = \<lparr>SHIFT_KEY_PRESSED = False, CAPS_LOCK_KEY_PRESSED = False, CONTROL_KEY_PRESSED = False,
     kbuffer = (\<lambda>_. 0), to_write = 4, to_read = 5, keyboard_options = 0, keyboard_semaphore = 0,
     KeyFnMap = (\<lambda>_. (0, 0))\<rparr>"

definition demo_fd :: FD where "demo_fd = \<lparr>isOpen = False, resource = 0, fmode = FR\<rparr>"

definition demo_stream :: Stream where
  "demo_stream = \<lparr>sbuffer = (\<lambda>_. 0), readPos = 0, writePos = 0, dataAvailable = 0, eof = False, readers = 1,
     writers = 1, readSem = 0, writeSem = 1\<rparr>"

text \<open>A kernel state around a scheduler and semaphore state.\<close>

definition boot_kernel :: "keyboard \<Rightarrow> naive sem_state \<Rightarrow> naive kernel" where
  "boot_kernel k s = sem_state.extend s
     \<lparr>con = demo_console, kbd = k, IS_SHOWING = False, fileDescriptors = (\<lambda>_. demo_fd),
      streams = (\<lambda>_. demo_stream), argvs = (\<lambda>_. []), cstrings = (\<lambda>_. []), infos = (\<lambda>_. demo_process),
      register_snapshot = [], register_snapshot_taken = False\<rparr>"

lemma boot_kernel_fields [simp]:
  "kbd (boot_kernel k s) = k" "con (boot_kernel k s) = demo_console" "lh (boot_kernel k s) = lh s"
  "sems (boot_kernel k s) = sems s" "currentProcess (boot_kernel k s) = currentProcess s"
  "priorityQueues (boot_kernel k s) = priorityQueues s" "hung (boot_kernel k s) = hung s"
  "stray (boot_kernel k s) = stray s" "pcb (boot_kernel k s) = pcb s" "cpu_rsp (boot_kernel k s) = cpu_rsp s"
  "fileDescriptors (boot_kernel k s) = (\<lambda>_. demo_fd)" "streams (boot_kernel k s) = (\<lambda>_. demo_stream)"
  by (simp_all add: boot_kernel_def sem_state.defs pcb_def fun_eq_iff)

lemma boot_kernel_preds [simp]:
  "rqueued (boot_kernel k s) = rqueued s" "accounted (boot_kernel k s) = accounted s"
  "sched_wf I lv (boot_kernel k s) = sched_wf I lv s" "sem_wait_list (boot_kernel k s) i = sem_wait_list s i"
  "sem_inv I lv (boot_kernel k s) = sem_inv I lv s"
proof -
  show 1: "rqueued (boot_kernel k s) = rqueued s" by (simp add: rqueued_def rq_def)
  show "accounted (boot_kernel k s) = accounted s" by (simp add: accounted_def 1)
  show 2: "sched_wf I lv (boot_kernel k s) = sched_wf I lv s"
    by (simp add: sched_wf_def queues_ok_def members_ok_def 1)
  show 3: "sem_wait_list (boot_kernel k s) i = sem_wait_list s i" for i by (simp add: sem_wait_list_def)
  show "sem_inv I lv (boot_kernel k s) = sem_inv I lv s" by (simp add: sem_inv_def sem_ok_def 2 3)
qed

lemma keyboard_ring_witness:
  "pending (store_char 65 demo_keyboard) = [] \<and> \<not> BUFFER_IS_FULL demo_keyboard
   \<and> length (pending demo_keyboard) = 1023"
proof -
  have ok: "kbd_ok (kbd (boot_kernel demo_keyboard (demo_mutex 1)))"
    by (simp add: kbd_ok_def demo_keyboard_def)
  have "held demo_keyboard = 1023" by (simp add: held_def demo_keyboard_def)
  then show ?thesis
    using keyboard_ring [OF ok, of 65] by (simp add: demo_keyboard_def)
qed

section \<open>Waiting for a key\<close>

context kernel_memory
begin

text \<open>What a wait that finds no unit does to the keyboard: nothing.\<close>

lemma semWait_sleep_kbd:
  assumes "swfs s" and "i < 500" and "used (sems s i)" and "svalue (sems s i) = 0"
    and "currentProcess s \<noteq> 0" and "semWait M (int i) s = (r, s')"
  shows "r = Sleep" and "swfs s'" and "hung s' = hung s" and "kbd s' = kbd s"
proof -
  have l: "semWait_loop M i (upd_sem i (\<lambda>x. x\<lparr>locked := True\<rparr>) s) = (r, s')"
    using semWait_enter(1) [OF assms(1-3)] assms(6) by simp
  note S = semWait_sleep [OF assms(1-5) l]
  show "r = Sleep" "swfs s'" "hung s' = hung s" by (fact S)+
  obtain t where t: "t = s\<lparr>lh := l_queue M (lh s) (waiting (sems s i)) (currentProcess s)\<rparr>"
    "s' = snd (blockProcess M (int (currentProcess s)) t)" using S(7) by blast
  have "sched.more s' = sched.more t" unfolding t(2) by (rule more_frame)
  then have "sem_state.more s' = sem_state.more s" using t(1) by (cases s; cases s'; simp)
  then show "kbd s' = kbd s" by (cases s; cases s'; simp)
qed

lemma kbd_loop_waits:
  assumes "swfs s" and "keyboard_semaphore (kbd s) = int i" and "i < 500" and "used (sems s i)"
    and "must_wait (kbd s)" and "currentProcess s \<noteq> 0" and "nat (svalue (sems s i)) < n"
    and "kbd_loop n M s = (r, s')"
  shows "r = Sleep \<and> swfs s' \<and> hung s' = hung s \<and> kbd s' = kbd s"
  using assms
proof (induction n arbitrary: s)
  case (Suc n)
  obtain w s1 where w: "semWait M (int i) s = (w, s1)" by force
  show ?case
  proof (cases "svalue (sems s i) = 0")
    case True
    from semWait_sleep_kbd [OF Suc.prems(1,3,4) True Suc.prems(6) w] show ?thesis
      using Suc.prems(2,5,8) w by simp
  next
    case False
    then have pos: "0 < svalue (sems s i)" using sem_invD(6) [OF Suc.prems(1,3,4)] by simp
    have l: "semWait_loop M i (upd_sem i (\<lambda>x. x\<lparr>locked := True\<rparr>) s) = (w, s1)"
      using semWait_enter(1) [OF Suc.prems(1,3,4)] w by simp
    note T = semWait_take [OF Suc.prems(1,3,4) pos l]
    have "kbd_loop n M s1 = (r, s')" using Suc.prems(2,5,8) w T(1) by simp
    from Suc.IH [OF T(3) _ Suc.prems(3) _ _ _ _ this] show ?thesis
      using Suc.prems pos by (simp add: T(2))
  qed
qed simp

end

text \<open>
  a blocking read from the keyboard. When the buffer is empty, or a whole line was asked
  for and the last character is neither a newline nor the end-of-file mark, the caller is put
  to sleep and no character is consumed; otherwise the call returns the first pending
  character at once and drops it. It never spins: the waiting loop ends.
\<close>

theorem keyboard_read_blocks:
  assumes "sem_inv naive_inv naive_live s" and "keyboard_semaphore (kbd s) = int i" and "i < 500"
    and "used (sems s i)" and "currentProcess s \<noteq> 0" and "kbd_ok (kbd s)"
    and "getKeyboardCharacter naive_mm ops s = (r, s')"
    and "k = (kbd s)\<lparr>keyboard_options := ops OR MODIFY_BUFFER\<rparr>"
  shows "hung s' = hung s
    \<and> (must_wait k \<longrightarrow> r = Sleep \<and> pending (kbd s') = pending (kbd s))
    \<and> (\<not> must_wait k \<longrightarrow> r = Ret (hd (pending (kbd s))) \<and> pending (kbd s') = tl (pending (kbd s))
        \<and> sems s' = sems s)"
proof -
  let ?s = "upd_kbd (\<lambda>k. k\<lparr>keyboard_options := ops OR MODIFY_BUFFER\<rparr>) s"
  have inv: "sem_inv naive_inv naive_live ?s"
    using assms(1) by (simp add: upd_kbd_def sem_inv_def sem_ok_def sem_wait_list_def sched_wf_def
        queues_ok_def members_ok_def rqueued_def rq_def pcb_def)
  have k: "kbd ?s = k" "pending k = pending (kbd s)" "kbd_ok k"
    using assms(6,8) by (simp_all add: upd_kbd_def pending_def held_def kbd_ok_def)
  have r: "kbd_loop (kbd_rounds ?s) naive_mm ?s = (r, s')"
    using assms(7) by (simp add: getKeyboardCharacter_def Let_def)
  show ?thesis
  proof (cases "must_wait k")
    case True
    have "r = Sleep \<and> sem_inv naive_inv naive_live s' \<and> hung s' = hung ?s \<and> kbd s' = kbd ?s"
      by (rule naive.kbd_loop_waits [OF inv _ assms(3) _ _ _ _ r])
        (use assms True k in \<open>simp_all add: upd_kbd_def kbd_rounds_def\<close>)
    then show ?thesis using True k by (simp add: upd_kbd_def)
  next
    case False
    then have ne: "pending k \<noteq> []" using pending_empty [OF k(3)] by (auto simp: must_wait_def)
    have "(r, s') = (Ret (fst (take_char ?s)), snd (take_char ?s))"
      using r False k(1) by (simp add: kbd_rounds_def split_beta)
    moreover have "fst (take_char ?s) = kbuffer k (to_read k)"
      "kbd (snd (take_char ?s)) = k\<lparr>keyboard_options := 0, to_read := (to_read k + 1) mod 1024\<rparr>"
      using k(1) by (simp_all add: take_char_def upd_kbd_def)
    ultimately show ?thesis
      using False pending_take [OF k(3) ne refl] k(2) by (simp add: take_char_def upd_kbd_def)
  qed
qed

lemma keyboard_read_blocks_witness:
  "fst (getKeyboardCharacter naive_mm 0 (boot_kernel demo_keyboard (demo_mutex 0))) = Ret 0
   \<and> fst (getKeyboardCharacter naive_mm 0 (boot_kernel (demo_keyboard\<lparr>to_read := 4\<rparr>) (demo_mutex 0))) = Sleep"
proof -
  have v: "(0 :: int) \<le> 0" by simp
  let ?a = "boot_kernel demo_keyboard (demo_mutex 0)"
  let ?b = "boot_kernel (demo_keyboard\<lparr>to_read := 4\<rparr>) (demo_mutex 0)"
  have g: "getKeyboardCharacter naive_mm 0 s
      = (fst (getKeyboardCharacter naive_mm 0 s), snd (getKeyboardCharacter naive_mm 0 s))" for s :: "naive kernel"
    by simp
  have p: "hd (pending demo_keyboard) = 0" by (simp add: pending_def held_def demo_keyboard_def hd_map)
  note A = keyboard_read_blocks [of ?a 0, OF _ _ _ _ _ _ g refl]
  note B = keyboard_read_blocks [of ?b 0, OF _ _ _ _ _ _ g refl]
  show ?thesis
    using A B demo_mutex_facts(1,2,5) [OF v] p
    by (simp add: demo_keyboard_def must_wait_def kbd_ok_def)
qed

end
