(* ===== verification/File_Descriptors.thy ===== *)
theory File_Descriptors
  imports Kernel_State
begin

text \<open>
  \<open>Kernel/fds.c\<close>: descriptors, pipes and the byte streams behind them. A stream is a ring of
  2048 bytes guarded by two semaphores, one counting bytes and one counting free places.

  A read or write that has to wait stops at the context switch: \<open>ReadSleep\<close> and \<open>WriteSleep\<close>
  carry what had been transferred, and the \<open>_resume\<close> functions are what the caller executes
  when it is dispatched again. Bytes read are returned as a list in the place of the user's
  buffer. Descriptors outside the table are not checked by \<open>readFromFD\<close> and \<open>writeToFD\<close>; the
  model marks such a call as \<open>stray\<close>.
\<close>

section \<open>The program\<close>

definition MAX_FDS :: nat where "MAX_FDS = 1024"
definition FD_BUFFER_SIZE :: nat where "FD_BUFFER_SIZE = 2048"
definition sizeof_Stream :: u32 where "sizeof_Stream = 2080"

lemmas fd_consts [simp] = MAX_FDS_def FD_BUFFER_SIZE_def

definition k_alloc :: "'m mm \<Rightarrow> u32 \<Rightarrow> ('m, 'z) sched_scheme \<Rightarrow> addr \<times> ('m, 'z) sched_scheme" where
  "k_alloc M n s = (let (p, m) = mm_alloc M (lmem (lh s)) n in (p, s\<lparr>lh := (lh s)\<lparr>lmem := m\<rparr>\<rparr>))"

definition k_free :: "'m mm \<Rightarrow> addr \<Rightarrow> ('m, 'z) sched_scheme \<Rightarrow> ('m, 'z) sched_scheme" where
  "k_free M p s = s\<lparr>lh := (lh s)\<lparr>lmem := mm_free M (lmem (lh s)) p\<rparr>\<rparr>"

definition upd_fd :: "nat \<Rightarrow> (FD \<Rightarrow> FD) \<Rightarrow> ('m, 'z) kernel_scheme \<Rightarrow> ('m, 'z) kernel_scheme" where
  "upd_fd i f s = s\<lparr>fileDescriptors := (fileDescriptors s)(i := f (fileDescriptors s i))\<rparr>"

text \<open>The fields that a new stream is given; its buffer is left as it was.\<close>

definition fresh_stream :: "Stream \<Rightarrow> Stream" where
  "fresh_stream x = x\<lparr>readPos := 0, writePos := 0, dataAvailable := 0, eof := False, readers := 1, writers := 1\<rparr>"

definition open_sems ::
  "'m mm \<Rightarrow> string \<Rightarrow> string \<Rightarrow> addr \<Rightarrow> ('m, 'z) kernel_scheme \<Rightarrow> ('m, 'z) kernel_scheme" where
  "open_sems M rname wname a s =
     (let (r, s1) = semCreate M rname 0 s;
          s2 = upd_stream a (\<lambda>x. x\<lparr>readSem := r\<rparr>) s1;
          (w, s3) = semCreate M wname (int FD_BUFFER_SIZE) s2
      in upd_stream a (\<lambda>x. x\<lparr>writeSem := w\<rparr>) s3)"

definition initFileDescriptors :: "'m mm \<Rightarrow> ('m, 'z) kernel_scheme \<Rightarrow> int \<times> ('m, 'z) kernel_scheme" where
  "initFileDescriptors M s =
     (let s1 = s\<lparr>fileDescriptors := (\<lambda>i. if i < MAX_FDS then (fileDescriptors s i)\<lparr>isOpen := False, resource := 0\<rparr>
                                        else fileDescriptors s i)\<rparr>;
          (a, s2) = k_alloc M sizeof_Stream s1;
          s3 = upd_fd 0 (\<lambda>f. f\<lparr>isOpen := True, fmode := FRW, resource := a\<rparr>) s2;
          s4 = open_sems M ''/stdin_read'' ''/stdin_write'' a (upd_stream a fresh_stream s3);
          s5 = upd_fd 1 (\<lambda>f. f\<lparr>isOpen := True, fmode := FW, resource := 0\<rparr>) s4
      in (0, upd_fd 2 (\<lambda>f. f\<lparr>isOpen := True, fmode := FW, resource := 0\<rparr>) s5))"

datatype read_result = ReadDone "u8 list" | ReadSleep "u8 list"
datatype write_result = WriteDone nat | WriteSleep nat

text \<open>Standard input: characters of the keyboard up to the end-of-file mark.\<close>

fun stdin_loop :: "nat \<Rightarrow> 'm mm \<Rightarrow> u8 list \<Rightarrow> ('m, 'z) kernel_scheme \<Rightarrow> read_result \<times> ('m, 'z) kernel_scheme" where
  "stdin_loop 0 M acc s = (ReadDone acc, s)"
| "stdin_loop (Suc n) M acc s =
     (case getKeyboardCharacter M (AWAIT_RETURN_KEY OR SHOW_BUFFER_WHILE_TYPING) s of
        (Sleep, s1) \<Rightarrow> (ReadSleep acc, s1)
      | (Ret c, s1) \<Rightarrow> if c \<noteq> EOF then stdin_loop n M (acc @ [c]) s1 else (ReadDone acc, s1))"

text \<open>
  A byte of a stream, after the wait for it. The descriptor is not the standard input here,
  so that conjunct of the test is gone.
\<close>

definition read_byte :: "'m mm \<Rightarrow> addr \<Rightarrow> ('m, 'z) kernel_scheme \<Rightarrow> u8 option \<times> ('m, 'z) kernel_scheme" where
  "read_byte M a s =
     (let st = streams s a in
      if \<not> eof st \<or> writers st \<noteq> 0 \<or> dataAvailable st > 0
      then let lastRead = sbuffer st (readPos st);
               s1 = upd_stream a (\<lambda>x. x\<lparr>readPos := (readPos x + 1) mod FD_BUFFER_SIZE,
                      dataAvailable := dataAvailable x - 1\<rparr>) s
           in (Some lastRead, snd (semPost M (writeSem st) s1))
      else (None, upd_stream a (\<lambda>x. x\<lparr>eof := True\<rparr>) s))"

fun read_loop ::
  "nat \<Rightarrow> 'm mm \<Rightarrow> addr \<Rightarrow> u8 list \<Rightarrow> ('m, 'z) kernel_scheme \<Rightarrow> read_result \<times> ('m, 'z) kernel_scheme" where
  "read_loop 0 M a acc s = (ReadDone acc, s)"
| "read_loop (Suc n) M a acc s =
     (let s1 = (if eof (streams s a) then snd (semPost M (readSem (streams s a)) s) else s) in
      case semWait M (readSem (streams s1 a)) s1 of
        (Sleep, s2) \<Rightarrow> (ReadSleep acc, s2)
      | (Ret _, s2) \<Rightarrow>
          case read_byte M a s2 of
            (None, s3) \<Rightarrow> (ReadDone acc, s3)
          | (Some b, s3) \<Rightarrow> if b = NEW_LINE_CHAR then (ReadDone (acc @ [b]), s3)
                          else read_loop n M a (acc @ [b]) s3)"

definition read_resume ::
  "nat \<Rightarrow> 'm mm \<Rightarrow> addr \<Rightarrow> u8 list \<Rightarrow> ('m, 'z) kernel_scheme \<Rightarrow> read_result \<times> ('m, 'z) kernel_scheme" where
  "read_resume n M a acc s =
     (case semWait_resume M (nat (readSem (streams s a))) s of
        (Sleep, s2) \<Rightarrow> (ReadSleep acc, s2)
      | (Ret _, s2) \<Rightarrow>
          case read_byte M a s2 of
            (None, s3) \<Rightarrow> (ReadDone acc, s3)
          | (Some b, s3) \<Rightarrow> if b = NEW_LINE_CHAR then (ReadDone (acc @ [b]), s3)
                          else read_loop n M a (acc @ [b]) s3)"

definition readFromFD ::
  "'m mm \<Rightarrow> int \<Rightarrow> int \<Rightarrow> ('m, 'z) kernel_scheme \<Rightarrow> read_result \<times> ('m, 'z) kernel_scheme" where
  "readFromFD M fd cnt s =
     (if fd = 0 \<and> foreground (pcb s (getCurrentProcess s)) = 0
      then (ReadDone [], snd (printToFd fd (map byte ''Error: STDIN cannot be read in background processes.
'') s))
      else if fd = 0 then stdin_loop (nat cnt) M [] s
      else if fd < 0 \<or> fd \<ge> int MAX_FDS then (ReadDone [], s\<lparr>stray := True\<rparr>)
      else read_loop (nat cnt) M (resource (fileDescriptors s (nat fd))) [] s)"

definition put_byte :: "'m mm \<Rightarrow> addr \<Rightarrow> u8 \<Rightarrow> ('m, 'z) kernel_scheme \<Rightarrow> ('m, 'z) kernel_scheme" where
  "put_byte M a b s =
     (let s1 = upd_stream a (\<lambda>x. x\<lparr>sbuffer := (sbuffer x)(writePos x := b),
                 writePos := (writePos x + 1) mod FD_BUFFER_SIZE, dataAvailable := dataAvailable x + 1\<rparr>) s
      in snd (semPost M (readSem (streams s1 a)) s1))"

fun write_loop ::
  "u8 list \<Rightarrow> 'm mm \<Rightarrow> addr \<Rightarrow> nat \<Rightarrow> ('m, 'z) kernel_scheme \<Rightarrow> write_result \<times> ('m, 'z) kernel_scheme" where
  "write_loop [] M a written s = (WriteDone written, s)"
| "write_loop (b # bs) M a written s =
     (case semWait M (writeSem (streams s a)) s of
        (Sleep, s1) \<Rightarrow> (WriteSleep written, s1)
      | (Ret _, s1) \<Rightarrow> write_loop bs M a (written + 1) (put_byte M a b s1))"

definition write_resume ::
  "u8 list \<Rightarrow> 'm mm \<Rightarrow> addr \<Rightarrow> nat \<Rightarrow> ('m, 'z) kernel_scheme \<Rightarrow> write_result \<times> ('m, 'z) kernel_scheme" where
  "write_resume bs M a written s =
     (case semWait_resume M (nat (writeSem (streams s a))) s of
        (Sleep, s1) \<Rightarrow> (WriteSleep written, s1)
      | (Ret _, s1) \<Rightarrow> write_loop (tl bs) M a (written + 1) (put_byte M a (hd bs) s1))"

definition writeToFD ::
  "'m mm \<Rightarrow> int \<Rightarrow> u8 list \<Rightarrow> ('m, 'z) kernel_scheme \<Rightarrow> write_result \<times> ('m, 'z) kernel_scheme" where
  "writeToFD M fd bs s =
     (if fd = 1 \<or> fd = 2
      then (WriteDone (length bs), fold (\<lambda>b s. snd (printToFd fd [b] s)) bs s)
      else if fd < 0 \<or> fd \<ge> int MAX_FDS then (WriteDone 0, s\<lparr>stray := True\<rparr>)
      else let a = resource (fileDescriptors s (nat fd));
               s1 = (if eof (streams s a) then upd_stream a (\<lambda>x. x\<lparr>eof := False\<rparr>) s else s)
           in write_loop bs M a 0 s1)"

fun avail_from :: "nat \<Rightarrow> nat \<Rightarrow> (nat \<Rightarrow> FD) \<Rightarrow> int" where
  "avail_from 0 i fds = - 1"
| "avail_from (Suc n) i fds = (if \<not> isOpen (fds i) then int i else avail_from n (i + 1) fds)"

definition getAvailableFD :: "('m, 'z) kernel_scheme \<Rightarrow> int \<times> ('m, 'z) kernel_scheme" where
  "getAvailableFD s =
     (let i = avail_from (MAX_FDS - 3) 3 (fileDescriptors s) in
      if i < 0 then (- 1, s) else (i, upd_fd (nat i) (\<lambda>f. f\<lparr>isOpen := True\<rparr>) s))"

definition createPipe :: "'m mm \<Rightarrow> ('m, 'z) kernel_scheme \<Rightarrow> (int \<times> (int \<times> int)) \<times> ('m, 'z) kernel_scheme" where
  "createPipe M s =
     (let (fd1, s1) = getAvailableFD s; (fd2, s2) = getAvailableFD s1 in
      if fd1 < 0 \<or> fd2 < 0 then ((- 1, (0, 0)), s2)
      else let (a, s3) = k_alloc M sizeof_Stream s2;
               s4 = upd_fd (nat fd1) (\<lambda>f. f\<lparr>resource := a, isOpen := True, fmode := FR\<rparr>) s3;
               s5 = open_sems M (itoa fd1) (itoa fd2) a (upd_stream a fresh_stream s4);
               s6 = upd_fd (nat fd2) (\<lambda>f. f\<lparr>resource := a, isOpen := True, fmode := FW\<rparr>) s5
           in ((0, (fd1, fd2)), s6))"

definition closeFD :: "'m mm \<Rightarrow> int \<Rightarrow> ('m, 'z) kernel_scheme \<Rightarrow> int \<times> ('m, 'z) kernel_scheme" where
  "closeFD M fd s =
     (if fd < 0 \<or> fd = 1 \<or> fd = 2 \<or> fd \<ge> int MAX_FDS \<or> \<not> isOpen (fileDescriptors s (nat fd)) then (- 1, s)
      else let i = nat fd; a = resource (fileDescriptors s i) in
        if fd = 0 then (0, upd_stream a (\<lambda>x. x\<lparr>eof := False\<rparr>) s)
        else let s1 = (if fmode (fileDescriptors s i) = FR
                       then upd_stream a (\<lambda>x. x\<lparr>readers := readers x - 1\<rparr>) s else s);
                 s2 = (if fmode (fileDescriptors s i) = FW
                       then upd_stream a (\<lambda>x. x\<lparr>writers := writers x - 1\<rparr>) s1 else s1);
                 s3 = (if readers (streams s2 a) > 0 \<and> writers (streams s2 a) \<le> 0
                       then let t = upd_stream a (\<lambda>x. x\<lparr>eof := True\<rparr>) s2
                            in fold (\<lambda>_ t. snd (semPost M (readSem (streams t a)) t))
                                 [0..<nat (readers (streams t a))] t
                       else s2);
                 s4 = (if readers (streams s3 a) = 0 \<and> writers (streams s3 a) = 0
                       then let t1 = upd_stream a (\<lambda>x. x\<lparr>eof := False\<rparr>) s3;
                                t2 = snd (semDestroy M (readSem (streams t1 a)) t1);
                                t3 = snd (semDestroy M (writeSem (streams t2 a)) t2)
                            in k_free M a t3
                       else s3)
             in (0, upd_fd i (\<lambda>f. f\<lparr>isOpen := False\<rparr>) s4))"

definition setEOF :: "'m mm \<Rightarrow> int \<Rightarrow> ('m, 'z) kernel_scheme \<Rightarrow> int \<times> ('m, 'z) kernel_scheme" where
  "setEOF M fd s =
     (if fd < 0 \<or> fd \<ge> int MAX_FDS \<or> fd = 1 \<or> fd = 2 \<or> \<not> isOpen (fileDescriptors s (nat fd))
         \<or> fmode (fileDescriptors s (nat fd)) = FR then (- 1, s)
      else let a = resource (fileDescriptors s (nat fd)); s1 = upd_stream a (\<lambda>x. x\<lparr>eof := True\<rparr>) s
           in (0, snd (semPost M (readSem (streams s1 a)) s1)))"

definition getReadPos :: "int \<Rightarrow> ('m, 'z) kernel_scheme \<Rightarrow> int" where
  "getReadPos fd s =
     (if fd < 0 \<or> fd \<ge> int MAX_FDS \<or> fd = 1 \<or> fd = 2 \<or> \<not> isOpen (fileDescriptors s (nat fd))
         \<or> fmode (fileDescriptors s (nat fd)) = FW then - 1
      else int (readPos (streams s (resource (fileDescriptors s (nat fd))))))"

text \<open>The end of \<open>readFromFDAt\<close>, which moves on when the byte read was the next one.\<close>

definition read_at_finish ::
  "addr \<Rightarrow> nat \<Rightarrow> u8 list \<Rightarrow> ('m, 'z) kernel_scheme \<Rightarrow> (int \<times> u8 list) outcome \<times> ('m, 'z) kernel_scheme" where
  "read_at_finish a pos bs s =
     (Ret (int (length bs), bs),
      if pos = readPos (streams s a) \<and> dataAvailable (streams s a) > 0
      then upd_stream a (\<lambda>x. x\<lparr>readPos := (readPos x + 1) mod FD_BUFFER_SIZE,
             dataAvailable := dataAvailable x - 1\<rparr>) s
      else s)"

definition readFromFDAt ::
  "'m mm \<Rightarrow> int \<Rightarrow> int \<Rightarrow> ('m, 'z) kernel_scheme \<Rightarrow> (int \<times> u8 list) outcome \<times> ('m, 'z) kernel_scheme" where
  "readFromFDAt M fd pos s =
     (if fd < 0 \<or> fd \<ge> int MAX_FDS \<or> \<not> isOpen (fileDescriptors s (nat fd))
         \<or> fmode (fileDescriptors s (nat fd)) = FW then (Ret (- 1, []), s)
      else let a = resource (fileDescriptors s (nat fd)); st = streams s a in
        if pos \<ge> int FD_BUFFER_SIZE then (Ret (- 1, []), s)
        else if pos < 0 then (Ret (0, []), s\<lparr>stray := True\<rparr>)
        else if dataAvailable st > 0 \<and> sbuffer st (nat pos) \<noteq> 0
        then case semWait M (readSem st) s of
               (Sleep, s1) \<Rightarrow> (Sleep, s1)
             | (Ret _, s1) \<Rightarrow> read_at_finish a (nat pos) [sbuffer (streams s1 a) (nat pos)] s1
        else read_at_finish a (nat pos) [] s)"

section \<open>The byte stream of a pipe\<close>

definition stream_data :: "Stream \<Rightarrow> u8 list" where
  "stream_data x = map (\<lambda>i. sbuffer x ((readPos x + i) mod 2048)) [0..<nat (dataAvailable x)]"

definition ring_ok :: "Stream \<Rightarrow> bool" where
  "ring_ok x \<longleftrightarrow> readPos x < 2048 \<and> 0 \<le> dataAvailable x \<and> dataAvailable x \<le> 2048
     \<and> writePos x = (readPos x + nat (dataAvailable x)) mod 2048"

lemma length_stream_data [simp]: "length (stream_data x) = nat (dataAvailable x)"
  by (simp add: stream_data_def)

lemma ring_inj:
  assumes "r < m" and "i < m" and "j < m" and "(r + i) mod m = (r + j) mod (m :: nat)"
  shows "i = j"
  using assms(4) unfolding ring_add [OF assms(1,2)] ring_add [OF assms(1,3)]
  using assms(1-3) by (auto split: if_splits)

lemma ring_put:
  assumes "ring_ok x" and "dataAvailable x < 2048"
    and "y = x\<lparr>sbuffer := (sbuffer x)(writePos x := b), writePos := (writePos x + 1) mod 2048,
      dataAvailable := dataAvailable x + 1\<rparr>"
  shows "stream_data y = stream_data x @ [b]" and "ring_ok y"
proof -
  let ?n = "nat (dataAvailable x)"
  have n: "?n < 2048" "nat (dataAvailable x + 1) = Suc ?n" "0 \<le> dataAvailable x" "readPos x < 2048"
    using assms(1,2) by (auto simp: ring_ok_def)
  have "(readPos x + i) mod 2048 \<noteq> writePos x" if "i < ?n" for i
    using ring_inj [of "readPos x" 2048 i ?n] that n assms(1) by (auto simp: ring_ok_def)
  then show "stream_data y = stream_data x @ [b]"
    using n assms(1) by (simp add: stream_data_def assms(3) ring_ok_def)
  show "ring_ok y"
    using assms(1,2) n by (simp add: ring_ok_def assms(3) mod_Suc_eq)
qed

lemma ring_take:
  assumes "ring_ok x" and "0 < dataAvailable x"
    and "y = x\<lparr>readPos := (readPos x + 1) mod 2048, dataAvailable := dataAvailable x - 1\<rparr>"
  shows "stream_data x = sbuffer x (readPos x) # stream_data y" and "ring_ok y"
proof -
  let ?n = "nat (dataAvailable y)"
  have n: "nat (dataAvailable x) = Suc ?n" "readPos x < 2048"
    using assms by (simp_all add: ring_ok_def)
  have idx: "(readPos y + i) mod 2048 = (readPos x + Suc i) mod 2048" for i
    by (simp add: assms(3) mod_add_left_eq)
  have "stream_data x = sbuffer x (readPos x mod 2048)
      # map (\<lambda>i. sbuffer x ((readPos x + Suc i) mod 2048)) [0..<?n]"
    unfolding stream_data_def n(1) by (simp only: upt_conv_Cons map_Suc_upt [symmetric]) (simp add: o_def)
  moreover have "stream_data y = map (\<lambda>i. sbuffer x ((readPos x + Suc i) mod 2048)) [0..<?n]"
    unfolding stream_data_def idx by (simp add: assms(3))
  ultimately show "stream_data x = sbuffer x (readPos x) # stream_data y" using n(2) by simp
  show "ring_ok y"
    using assms(1,2) n idx [of ?n] by (simp add: ring_ok_def assms(3))
qed

text \<open>
  A pipe between calls: its ring is consistent, and its two semaphores are in use, different,
  and count the bytes and the free places. While the end of file is pending the reading
  semaphore may count more.
\<close>

definition pipe_ok :: "addr \<Rightarrow> ('m, 'z) kernel_scheme \<Rightarrow> bool" where
  "pipe_ok a s \<longleftrightarrow> (let x = streams s a; r = nat (readSem x); w = nat (writeSem x) in
     ring_ok x \<and> 0 \<le> readSem x \<and> r < 500 \<and> 0 \<le> writeSem x \<and> w < 500 \<and> r \<noteq> w
     \<and> used (sems s r) \<and> used (sems s w)
     \<and> svalue (sems s r) = dataAvailable x \<and> svalue (sems s w) = 2048 - dataAvailable x)"

text \<open>What a reader of at most \<open>n\<close> bytes takes: it stops behind a newline.\<close>

fun line_prefix :: "nat \<Rightarrow> u8 list \<Rightarrow> u8 list" where
  "line_prefix 0 xs = []"
| "line_prefix (Suc n) [] = []"
| "line_prefix (Suc n) (x # xs) = (if x = NEW_LINE_CHAR then [x] else x # line_prefix n xs)"

lemma sems_streams [simp]: "streams (s\<lparr>sems := x\<rparr>) = streams s"
  by simp

lemma wake_more [more_frame]: "sched.more (wake k M q s) = sched.more s"
  by (induction k arbitrary: s) (auto simp: split_beta more_frame)

lemma wake_all_more: "sem_state.more (wake_all M q s) = sem_state.more s"
  unfolding wake_all_def by (rule same_more(4)) (rule more_frame)

lemma semPost_more: "sem_state.more (snd (semPost M i s)) = sem_state.more s"
  by (simp add: semPost_def Let_def acquire_spinlock_def release_spinlock_def upd_sem_def wake_all_more)

lemma kernel_more:
  assumes "sem_state.more s' = sem_state.more s"
  shows "streams s' = streams s" "kbd s' = kbd s" "con s' = con s" "fileDescriptors s' = fileDescriptors s"
    "argvs s' = argvs s" "cstrings s' = cstrings s" "infos s' = infos s"
  using assms by (cases s; cases s'; simp)+

lemma sem_inv_stream [simp]: "sem_inv I lv (upd_stream a f s) = sem_inv I lv s"
  by (simp add: upd_stream_def sem_inv_def sem_ok_def sem_wait_list_def sched_wf_def queues_ok_def
      members_ok_def rqueued_def rq_def pcb_def)

lemma upd_stream_fields [simp]:
  "streams (upd_stream a f s) = (streams s)(a := f (streams s a))" "sems (upd_stream a f s) = sems s"
  "currentProcess (upd_stream a f s) = currentProcess s" "hung (upd_stream a f s) = hung s"
  "lh (upd_stream a f s) = lh s" "pcb (upd_stream a f s) = pcb s"
  by (simp_all add: upd_stream_def pcb_def fun_eq_iff)

context kernel_memory
begin

text \<open>Waiting on and posting a semaphore of the pipe, seen from the pipe.\<close>

lemma pipe_wait:
  assumes "swfs s" and "0 \<le> k" and "nat k < 500" and "used (sems s (nat k))" and "0 < svalue (sems s (nat k))"
  shows "semWait M k s = (Ret 0, s\<lparr>sems := (sems s)(nat k := (sems s (nat k))\<lparr>svalue := svalue (sems s (nat k)) - 1\<rparr>)\<rparr>)"
    and "swfs (snd (semWait M k s))"
proof -
  have w: "semWait M k s = semWait_loop M (nat k) (upd_sem (nat k) (\<lambda>x. x\<lparr>locked := True\<rparr>) s)"
    using semWait_enter(1) [OF assms(1,3,4)] assms(2) by simp
  note T = semWait_take [OF assms(1,3-5) prod.collapse [symmetric]]
  show "semWait M k s = (Ret 0, s\<lparr>sems := (sems s)(nat k := (sems s (nat k))\<lparr>svalue := svalue (sems s (nat k)) - 1\<rparr>)\<rparr>)"
    unfolding w by (rule prod_eqI) (use T(1,2) in simp_all)
  show "swfs (snd (semWait M k s))" unfolding w by (rule T(3))
qed

lemma pipe_post:
  assumes "swfs s" and "0 \<le> k" and "nat k < 500" and "used (sems s (nat k))" and "s' = snd (semPost M k s)"
  shows "swfs s'" and "sems s' = (sems s)(nat k := (sems s (nat k))\<lparr>svalue := svalue (sems s (nat k)) + 1\<rparr>)"
    and "streams s' = streams s" and "hung s' = hung s" and "currentProcess s' = currentProcess s"
    and "fileDescriptors s' = fileDescriptors s"
proof -
  have p: "semPost M (int (nat k)) s = (fst (semPost M k s), s')" using assms(2,5) by simp
  note P = semPost_spec [OF assms(1,3,4) p]
  show "swfs s'" "sems s' = (sems s)(nat k := (sems s (nat k))\<lparr>svalue := svalue (sems s (nat k)) + 1\<rparr>)"
    "hung s' = hung s" "currentProcess s' = currentProcess s" by (fact P)+
  show "streams s' = streams s" "fileDescriptors s' = fileDescriptors s"
    unfolding assms(5) by (rule kernel_more, rule semPost_more)+
qed

lemma write_one:
  assumes "swfs s" and "pipe_ok a s" and "dataAvailable (streams s a) < 2048"
    and "semWait M (writeSem (streams s a)) s = (r, s1)" and "s2 = put_byte M a b s1"
  shows "r = Ret 0" and "swfs s2" and "pipe_ok a s2"
    and "stream_data (streams s2 a) = stream_data (streams s a) @ [b]"
    and "hung s2 = hung s" and "currentProcess s2 = currentProcess s"
    and "streams s2 a = (streams s a)\<lparr>sbuffer := sbuffer (streams s2 a), writePos := writePos (streams s2 a),
      dataAvailable := dataAvailable (streams s a) + 1\<rparr>"
proof -
  let ?x = "streams s a" and ?w = "nat (writeSem (streams s a))" and ?r = "nat (readSem (streams s a))"
  have ok: "ring_ok ?x" "0 \<le> readSem ?x" "?r < 500" "0 \<le> writeSem ?x" "?w < 500" "?r \<noteq> ?w"
    "used (sems s ?r)" "used (sems s ?w)" "svalue (sems s ?r) = dataAvailable ?x"
    "svalue (sems s ?w) = 2048 - dataAvailable ?x"
    using assms(2) by (simp_all add: pipe_ok_def Let_def)
  have pos: "0 < svalue (sems s ?w)" using ok(10) assms(3) by simp
  note W = pipe_wait [OF assms(1) ok(4,5,8) pos]
  have s1: "s1 = s\<lparr>sems := (sems s)(?w := (sems s ?w)\<lparr>svalue := svalue (sems s ?w) - 1\<rparr>)\<rparr>" "swfs s1"
    using W assms(4) by simp_all
  show "r = Ret 0" using W(1) assms(4) by simp
  define y where "y = ?x\<lparr>sbuffer := (sbuffer ?x)(writePos ?x := b), writePos := (writePos ?x + 1) mod 2048,
      dataAvailable := dataAvailable ?x + 1\<rparr>"
  define t where "t = upd_stream a (\<lambda>_. y) s1"
  have t: "swfs t" "streams t a = y" "sems t = sems s1" using s1(2) by (simp_all add: t_def)
  have s2: "s2 = snd (semPost M (readSem ?x) t)"
    by (simp add: assms(5) put_byte_def Let_def t_def y_def s1(1) upd_stream_def)
  have u: "used (sems t ?r)" using ok(6,7) by (simp add: t(3) s1(1))
  note P = pipe_post [OF t(1) ok(2,3) u s2]
  note R = ring_put [OF ok(1) assms(3) y_def]
  show "swfs s2" by (fact P)
  show "stream_data (streams s2 a) = stream_data ?x @ [b]" using R(1) P(3) t(2) by simp
  show "hung s2 = hung s" "currentProcess s2 = currentProcess s"
    using P(4,5) by (simp_all add: t_def s1(1))
  show "streams s2 a = ?x\<lparr>sbuffer := sbuffer (streams s2 a), writePos := writePos (streams s2 a),
      dataAvailable := dataAvailable ?x + 1\<rparr>"
    using P(3) t(2) by (simp add: y_def)
  show "pipe_ok a s2"
    using R(2) ok P(2,3) t(2,3) by (simp add: pipe_ok_def Let_def s1(1) y_def)
qed

text \<open>Writing as much as fits.\<close>

lemma write_fits:
  assumes "swfs s" and "pipe_ok a s" and "int (length bs) \<le> 2048 - dataAvailable (streams s a)"
  shows "\<exists>s'. write_loop (bs @ cs) M a n s = write_loop cs M a (n + length bs) s' \<and> swfs s' \<and> pipe_ok a s'
    \<and> stream_data (streams s' a) = stream_data (streams s a) @ bs \<and> hung s' = hung s
    \<and> currentProcess s' = currentProcess s
    \<and> dataAvailable (streams s' a) = dataAvailable (streams s a) + int (length bs)
    \<and> eof (streams s' a) = eof (streams s a) \<and> writers (streams s' a) = writers (streams s a)"
  using assms
proof (induction bs arbitrary: s n)
  case (Cons b bs)
  obtain r s1 where w: "semWait M (writeSem (streams s a)) s = (r, s1)" by force
  define s2 where "s2 = put_byte M a b s1"
  have room: "dataAvailable (streams s a) < 2048" using Cons.prems(3) by simp
  note W = write_one [OF Cons.prems(1,2) room w s2_def]
  have f: "dataAvailable (streams s2 a) = dataAvailable (streams s a) + 1"
    "eof (streams s2 a) = eof (streams s a)" "writers (streams s2 a) = writers (streams s a)"
    by (subst W(7), simp)+
  have "int (length bs) \<le> 2048 - dataAvailable (streams s2 a)" using Cons.prems(3) f(1) by simp
  from Cons.IH [OF W(2,3) this, of "n + 1"] show ?case
    using W w f by (auto simp: s2_def [symmetric])
qed auto

lemma read_one:
  assumes "swfs s" and "pipe_ok a s" and "0 < dataAvailable (streams s a)"
    and "\<not> eof (streams s a)" and "semWait M (readSem (streams s a)) s = (r, s1)"
  shows "r = Ret 0" and "\<exists>b s2. read_byte M a s1 = (Some b, s2) \<and> swfs s2 \<and> pipe_ok a s2
    \<and> stream_data (streams s a) = b # stream_data (streams s2 a) \<and> hung s2 = hung s
    \<and> currentProcess s2 = currentProcess s \<and> \<not> eof (streams s2 a)"
proof -
  let ?x = "streams s a" and ?w = "nat (writeSem (streams s a))" and ?r = "nat (readSem (streams s a))"
  have ok: "ring_ok ?x" "0 \<le> readSem ?x" "?r < 500" "0 \<le> writeSem ?x" "?w < 500" "?r \<noteq> ?w"
    "used (sems s ?r)" "used (sems s ?w)" "svalue (sems s ?r) = dataAvailable ?x"
    "svalue (sems s ?w) = 2048 - dataAvailable ?x"
    using assms(2) by (simp_all add: pipe_ok_def Let_def)
  have pos: "0 < svalue (sems s ?r)" using ok(9) assms(3) by simp
  note W = pipe_wait [OF assms(1) ok(2,3,7) pos]
  have s1: "s1 = s\<lparr>sems := (sems s)(?r := (sems s ?r)\<lparr>svalue := svalue (sems s ?r) - 1\<rparr>)\<rparr>" "swfs s1"
    using W assms(5) by simp_all
  show "r = Ret 0" using W(1) assms(5) by simp
  define y where "y = ?x\<lparr>readPos := (readPos ?x + 1) mod 2048, dataAvailable := dataAvailable ?x - 1\<rparr>"
  define t where "t = upd_stream a (\<lambda>_. y) s1"
  define s2 where "s2 = snd (semPost M (writeSem ?x) t)"
  have t: "swfs t" "streams t a = y" "sems t = sems s1" using s1(2) by (simp_all add: t_def)
  have rb: "read_byte M a s1 = (Some (sbuffer ?x (readPos ?x)), s2)"
    using assms(4) by (simp add: read_byte_def Let_def s2_def t_def y_def s1(1) upd_stream_def)
  have u: "used (sems t ?w)" using ok(6,8) by (simp add: t(3) s1(1))
  note P = pipe_post [OF t(1) ok(4,5) u s2_def]
  note R = ring_take [OF ok(1) assms(3) y_def]
  have "pipe_ok a s2"
    using R(2) ok P(2,3) t(2,3) by (simp add: pipe_ok_def Let_def s1(1) y_def)
  moreover have "stream_data ?x = sbuffer ?x (readPos ?x) # stream_data (streams s2 a)"
    using R(1) P(3) t(2) by simp
  moreover have "hung s2 = hung s" "currentProcess s2 = currentProcess s" "\<not> eof (streams s2 a)"
    using P(3-5) t(2) assms(4) by (simp_all add: t_def s1(1) y_def)
  ultimately show "\<exists>b s2. read_byte M a s1 = (Some b, s2) \<and> swfs s2 \<and> pipe_ok a s2
      \<and> stream_data ?x = b # stream_data (streams s2 a) \<and> hung s2 = hung s
      \<and> currentProcess s2 = currentProcess s \<and> \<not> eof (streams s2 a)"
    using rb P(1) by blast
qed

text \<open>A wait of the pipe that finds nothing puts the caller to sleep and changes no stream.\<close>

lemma pipe_sleep:
  assumes "swfs s" and "0 \<le> k" and "nat k < 500" and "used (sems s (nat k))" and "svalue (sems s (nat k)) = 0"
    and "currentProcess s \<noteq> 0"
  shows "\<exists>s'. semWait M k s = (Sleep, s') \<and> swfs s' \<and> streams s' = streams s \<and> hung s' = hung s
    \<and> sems s' = sems s"
proof -
  obtain r s' where w: "semWait M (int (nat k)) s = (r, s')" by force
  have l: "semWait_loop M (nat k) (upd_sem (nat k) (\<lambda>x. x\<lparr>locked := True\<rparr>) s) = (r, s')"
    using semWait_enter(1) [OF assms(1,3,4)] w by simp
  note S = semWait_sleep [OF assms(1,3-6) l]
  obtain t where t: "t = s\<lparr>lh := l_queue M (lh s) (waiting (sems s (nat k))) (currentProcess s)\<rparr>"
    "s' = snd (blockProcess M (int (currentProcess s)) t)" using S(7) by blast
  have "sched.more s' = sched.more t" unfolding t(2) by (rule more_frame)
  then have "sem_state.more s' = sem_state.more s" using t(1) by (cases s; cases s'; simp)
  then have "streams s' = streams s" by (rule kernel_more)
  then show ?thesis using S w assms(2) by auto
qed

text \<open>Reading: up to the wanted number of bytes, up to a newline, or everything there is.\<close>

lemma read_spec:
  assumes "swfs s" and "pipe_ok a s" and "\<not> eof (streams s a)" and "currentProcess s \<noteq> 0"
  shows "\<exists>r s'. read_loop n M a acc s = (r, s') \<and> swfs s' \<and> pipe_ok a s' \<and> hung s' = hung s
    \<and> (let xs = stream_data (streams s a); ys = line_prefix n xs in
        stream_data (streams s' a) = drop (length ys) xs
        \<and> r = (if length ys < n \<and> (ys = [] \<or> last ys \<noteq> NEW_LINE_CHAR) then ReadSleep (acc @ ys)
               else ReadDone (acc @ ys)))"
  using assms
proof (induction n arbitrary: s acc)
  case (Suc n)
  let ?x = "streams s a"
  have p: "0 \<le> readSem ?x" "nat (readSem ?x) < 500" "used (sems s (nat (readSem ?x)))"
    "svalue (sems s (nat (readSem ?x))) = dataAvailable ?x" "0 \<le> dataAvailable ?x"
    using Suc.prems(2) by (simp_all add: pipe_ok_def Let_def ring_ok_def)
  show ?case
  proof (cases "dataAvailable ?x = 0")
    case True
    then obtain s' where s': "semWait M (readSem ?x) s = (Sleep, s')" "swfs s'" "streams s' = streams s"
      "hung s' = hung s" "sems s' = sems s"
      using pipe_sleep [OF Suc.prems(1) p(1-3) _ Suc.prems(4)] p(4) by auto
    have "stream_data ?x = []" using True by (simp add: stream_data_def)
    moreover have "pipe_ok a s'" using Suc.prems(2) s' by (simp add: pipe_ok_def)
    ultimately show ?thesis using s' Suc.prems(3) by simp
  next
    case False
    then have pos: "0 < dataAvailable ?x" using p(5) by simp
    obtain w s1 where w: "semWait M (readSem ?x) s = (w, s1)" by force
    note R = read_one [OF Suc.prems(1,2) pos Suc.prems(3) w]
    obtain b s2 where b: "read_byte M a s1 = (Some b, s2)" "swfs s2" "pipe_ok a s2"
      "stream_data ?x = b # stream_data (streams s2 a)" "hung s2 = hung s"
      "currentProcess s2 = currentProcess s" "\<not> eof (streams s2 a)" using R(2) by blast
    show ?thesis
    proof (cases "b = NEW_LINE_CHAR")
      case True
      then show ?thesis using b R(1) w Suc.prems(3) by simp
    next
      case False
      have "currentProcess s2 \<noteq> 0" using b(6) Suc.prems(4) by simp
      from Suc.IH [OF b(2,3,7) this, of "acc @ [b]"] show ?thesis
        using False b R(1) w Suc.prems(3) by (auto simp: Let_def split: if_splits)
    qed
  qed
qed simp

lemma write_spec:
  assumes "swfs s" and "pipe_ok a s" and "currentProcess s \<noteq> 0"
    and "room = nat (2048 - dataAvailable (streams s a))"
  shows "\<exists>s'. write_loop bs M a n s = ((if length bs \<le> room then WriteDone (n + length bs) else WriteSleep (n + room)), s')
    \<and> swfs s' \<and> pipe_ok a s' \<and> hung s' = hung s \<and> eof (streams s' a) = eof (streams s a)
    \<and> stream_data (streams s' a) = stream_data (streams s a) @ take room bs"
proof -
  have d: "dataAvailable (streams s a) \<le> 2048" using assms(2) by (simp add: pipe_ok_def Let_def ring_ok_def)
  have "int (length (take room bs)) \<le> 2048 - dataAvailable (streams s a)" using d assms(4) by simp
  from write_fits [OF assms(1,2) this, of "drop room bs" n]
  obtain s' where s': "write_loop bs M a n s = write_loop (drop room bs) M a (n + length (take room bs)) s'"
    "swfs s'" "pipe_ok a s'" "stream_data (streams s' a) = stream_data (streams s a) @ take room bs"
    "hung s' = hung s" "currentProcess s' = currentProcess s"
    "dataAvailable (streams s' a) = dataAvailable (streams s a) + int (length (take room bs))"
    "eof (streams s' a) = eof (streams s a)"
    by (auto simp del: length_take)
  show ?thesis
  proof (cases "length bs \<le> room")
    case True
    then show ?thesis using s' by simp
  next
    case False
    then obtain c cs where c: "drop room bs = c # cs" by (cases "drop room bs") auto
    let ?x = "streams s' a"
    have "svalue (sems s' (nat (writeSem ?x))) = 0" "0 \<le> writeSem ?x" "nat (writeSem ?x) < 500"
      "used (sems s' (nat (writeSem ?x)))"
      using s'(3,7) False assms(4) d by (simp_all add: pipe_ok_def Let_def)
    with pipe_sleep [OF s'(2), of "writeSem ?x"] obtain s'' where s'':
      "semWait M (writeSem ?x) s' = (Sleep, s'')" "swfs s''" "streams s'' = streams s'"
      "hung s'' = hung s'" "sems s'' = sems s'" using s'(6) assms(3) by auto
    moreover have "pipe_ok a s''" using s'(3) s'' by (simp add: pipe_ok_def)
    ultimately show ?thesis using s' c False by simp
  qed
qed

end

section \<open>Properties\<close>

text \<open>
  C12: writing to a pipe. Bytes go into the stream in order. If they all fit the call
  returns their number; if not, exactly the bytes that fit are transferred and the writer
  sleeps until a reader makes room. A write also takes back a pending end of file.
\<close>

theorem pipe_write:
  assumes "sem_inv naive_inv naive_live s" and "3 \<le> fd" and "fd < 1024"
    and "a = resource (fileDescriptors s (nat fd))" and "pipe_ok a s" and "currentProcess s \<noteq> 0"
    and "writeToFD naive_mm fd bs s = (r, s')" and "room = nat (2048 - dataAvailable (streams s a))"
  shows "r = (if length bs \<le> room then WriteDone (length bs) else WriteSleep room)
    \<and> stream_data (streams s' a) = stream_data (streams s a) @ take room bs
    \<and> \<not> eof (streams s' a) \<and> pipe_ok a s' \<and> sem_inv naive_inv naive_live s' \<and> hung s' = hung s"
proof -
  define s1 where "s1 = (if eof (streams s a) then upd_stream a (\<lambda>x. x\<lparr>eof := False\<rparr>) s else s)"
  have s1: "sem_inv naive_inv naive_live s1" "pipe_ok a s1" "currentProcess s1 \<noteq> 0" "hung s1 = hung s"
    "\<not> eof (streams s1 a)" "stream_data (streams s1 a) = stream_data (streams s a)"
    "dataAvailable (streams s1 a) = dataAvailable (streams s a)"
    using assms(1,5,6) by (simp_all add: s1_def pipe_ok_def Let_def ring_ok_def stream_data_def)
  have w: "write_loop bs naive_mm a 0 s1 = (r, s')"
    using assms(2-4,7) by (cases "eof (streams s a)") (simp_all add: writeToFD_def Let_def s1_def)
  from naive.write_spec [OF s1(1-3) assms(8) [folded s1(7)], of bs 0] show ?thesis
    using w s1 by auto
qed

text \<open>
  C13: reading from a pipe that has a writer. The reader gets the oldest bytes, in order, up
  to the number it asked for or up to and including the first newline; when the stream runs
  out before either, it has all there was and sleeps until a writer posts more.
\<close>

theorem pipe_read:
  assumes "sem_inv naive_inv naive_live s" and "3 \<le> fd" and "fd < 1024"
    and "a = resource (fileDescriptors s (nat fd))" and "pipe_ok a s" and "\<not> eof (streams s a)"
    and "currentProcess s \<noteq> 0" and "readFromFD naive_mm fd n s = (r, s')"
    and "ys = line_prefix (nat n) (stream_data (streams s a))"
  shows "r = (if length ys < nat n \<and> (ys = [] \<or> last ys \<noteq> NEW_LINE_CHAR) then ReadSleep ys else ReadDone ys)
    \<and> stream_data (streams s a) = ys @ stream_data (streams s' a)
    \<and> pipe_ok a s' \<and> sem_inv naive_inv naive_live s' \<and> hung s' = hung s"
proof -
  have l: "read_loop (nat n) naive_mm a [] s = (r, s')"
    using assms(2-4,8) by (simp add: readFromFD_def)
  have pre: "line_prefix k xs @ drop (length (line_prefix k xs)) xs = xs" for k xs
    by (induction k xs rule: line_prefix.induct) auto
  from naive.read_spec [OF assms(1,5-7), of "nat n" "[]"] show ?thesis
    using l assms(9) pre [of "nat n" "stream_data (streams s a)"] by (auto simp: Let_def)
qed

section \<open>Opening a pipe\<close>

lemma set_opened_more: "sem_state.more (set_opened i b s) = sem_state.more s"
  by (simp add: set_opened_def Let_def upd_sem_def)

lemma semCreate_more: "sem_state.more (snd (semCreate M nm v s)) = sem_state.more s"
  by (simp add: semCreate_def Let_def split_beta set_opened_more upd_sem_def)

lemma avail_from_cases:
  "avail_from n i fds = - 1 \<or> (\<exists>j. avail_from n i fds = int j \<and> i \<le> j \<and> j < i + n \<and> \<not> isOpen (fds j)
     \<and> (\<forall>m. i \<le> m \<and> m < j \<longrightarrow> isOpen (fds m)))"
proof (induction n arbitrary: i)
  case (Suc n)
  from Suc [of "Suc i"] show ?case
    by (cases "isOpen (fds i)") (auto simp: Suc_le_eq, metis Suc_leI le_eq_less_or_eq)
qed simp

lemma getAvailableFD_cases:
  assumes "getAvailableFD s = (i, s')"
  obtains (None) "i = - 1" and "s' = s"
  | (Some) j where "i = int j" and "3 \<le> j" and "j < 1024" and "\<not> isOpen (fileDescriptors s j)"
      and "\<forall>m. 3 \<le> m \<and> m < j \<longrightarrow> isOpen (fileDescriptors s m)"
      and "s' = upd_fd j (\<lambda>f. f\<lparr>isOpen := True\<rparr>) s"
proof (cases "avail_from 1021 3 (fileDescriptors s) = - 1")
  case True
  then show ?thesis using assms None by (simp add: getAvailableFD_def)
next
  case False
  then obtain j where j: "avail_from 1021 3 (fileDescriptors s) = int j" "3 \<le> j" "j < 1024"
    "\<not> isOpen (fileDescriptors s j)" "\<forall>m. 3 \<le> m \<and> m < j \<longrightarrow> isOpen (fileDescriptors s m)"
    using avail_from_cases [of 1021 3 "fileDescriptors s"] by auto
  then show ?thesis using assms Some [of j] by (simp add: getAvailableFD_def)
qed

lemma sem_inv_fd [simp]: "sem_inv I lv (upd_fd i f s) = sem_inv I lv s"
  by (simp add: upd_fd_def sem_inv_def sem_ok_def sem_wait_list_def sched_wf_def queues_ok_def
      members_ok_def rqueued_def rq_def pcb_def)

lemma upd_fd_fields [simp]:
  "fileDescriptors (upd_fd i f s) = (fileDescriptors s)(i := f (fileDescriptors s i))"
  "streams (upd_fd i f s) = streams s" "sems (upd_fd i f s) = sems s" "lh (upd_fd i f s) = lh s"
  "priorityQueues (upd_fd i f s) = priorityQueues s" "getpid (upd_fd i f s) = getpid s"
  "currentProcess (upd_fd i f s) = currentProcess s" "hung (upd_fd i f s) = hung s"
  by (simp_all add: upd_fd_def getpid_def getCurrentProcess_def pid_at_def pcb_def)

lemma upd_stream_more [simp]:
  "priorityQueues (upd_stream a f s) = priorityQueues s" "getpid (upd_stream a f s) = getpid s"
  "fileDescriptors (upd_stream a f s) = fileDescriptors s"
  by (simp_all add: upd_stream_def getpid_def getCurrentProcess_def pid_at_def pcb_def)

lemma FD_full: "(f :: FD)\<lparr>resource := b, isOpen := c, fmode := m\<rparr> = \<lparr>isOpen = c, resource = b, fmode = m\<rparr>"
  by (cases f) simp

context kernel_memory
begin

text \<open>Memory that belongs to no queue can be allocated beside the queues.\<close>

lemma k_alloc_spec:
  assumes "swfs s" and "okreq n" and "k_alloc M n s = (a, s')"
  shows "swfs s'" and "sem_state.more s' = sem_state.more s" and "sems s' = sems s"
    and "priorityQueues s' = priorityQueues s" and "getpid s' = getpid s" and "hung s' = hung s"
    and "currentProcess s' = currentProcess s"
    and "a \<noteq> 0 \<Longrightarrow> live (lmem (lh s)) a = None \<and> (\<exists>sz \<ge> unat n. live (lmem (lh s')) = (live (lmem (lh s)))(a \<mapsto> sz))"
    and "lq (lh s') = lq (lh s)" and "a = 0 \<Longrightarrow> lmem (lh s') = lmem (lh s)"
proof -
  obtain m where m: "mm_alloc M (lmem (lh s)) n = (a, m)" and s': "s' = s\<lparr>lh := (lh s)\<lparr>lmem := m\<rparr>\<rparr>"
    using assms(3) by (auto simp: k_alloc_def split: prod.splits)
  show "sem_state.more s' = sem_state.more s" "sems s' = sems s" "priorityQueues s' = priorityQueues s"
    "getpid s' = getpid s" "hung s' = hung s" "currentProcess s' = currentProcess s"
    "lq (lh s') = lq (lh s)"
    by (simp_all add: s' getpid_def getCurrentProcess_def pid_at_def)
  have inv: "inv (lmem (lh s))" "wf (lh s)"
    using assms(1) by (simp_all add: sem_inv_def sched_wf_def queues_ok_def l_wf_def)
  have A: "inv m \<and> (\<forall>p sz. live (lmem (lh s)) p = Some sz \<longrightarrow> live m p = Some sz)
      \<and> (a \<noteq> 0 \<longrightarrow> live (lmem (lh s)) a = None \<and> (\<exists>sz \<ge> unat n. live m = (live (lmem (lh s)))(a \<mapsto> sz)))
      \<and> (a = 0 \<longrightarrow> m = lmem (lh s))"
    using inv(1) assms(2) m by (cases rule: alloc_cases) (auto simp: inv)
  then show "a \<noteq> 0 \<Longrightarrow> live (lmem (lh s)) a = None \<and> (\<exists>sz \<ge> unat n. live (lmem (lh s')) = (live (lmem (lh s)))(a \<mapsto> sz))"
    and "a = 0 \<Longrightarrow> lmem (lh s') = lmem (lh s)"
    by (simp_all add: s')
  have wf': "wf ((lh s)\<lparr>lmem := m\<rparr>)"
    using inv(2) A unfolding l_wf_def owned_def qnodes_def by (simp add: owned_def qnodes_def) metis
  have "qdata (lh s') = qdata (lh s)" by (simp add: s' qdata_def qnodes_def fun_eq_iff)
  then have same: "rqueued s' = rqueued s" "\<And>i. sem_wait_list s' i = sem_wait_list s i" "pcb s' = pcb s"
    by (simp_all add: s' rqueued_def rq_def sem_wait_list_def pcb_def fun_eq_iff)
  have "swf s'"
    using assms(1) wf' same by (simp add: sem_inv_def sched_wf_def queues_ok_def members_ok_def s')
  then show "swfs s'"
    using assms(1) same by (simp add: sem_inv_def sem_ok_def s')
qed

text \<open>The two semaphores of a stream.\<close>

lemma open_sems_spec:
  assumes "swfs s" and "s' = open_sems M rname wname a s" and "\<forall>i \<ge> 5. priorityQueues s i = 0"
    and "0 \<le> getpid s" and "getpid s < 100"
    and "r = readSem (streams s' a)" and "w = writeSem (streams s' a)" and "r \<noteq> - 1" and "w \<noteq> - 1"
    and "waiting (sems s' (nat r)) \<noteq> 0" and "waiting (sems s' (nat w)) \<noteq> 0"
  shows "swfs s'" and "0 \<le> r" and "nat r < 500" and "0 \<le> w" and "nat w < 500" and "nat r \<noteq> nat w"
    and "used (sems s' (nat r))" and "used (sems s' (nat w))" and "svalue (sems s' (nat r)) = 0"
    and "svalue (sems s' (nat w)) = 2048" and "fileDescriptors s' = fileDescriptors s"
    and "streams s' a = (streams s a)\<lparr>readSem := r, writeSem := w\<rparr>" and "hung s' = hung s"
    and "currentProcess s' = currentProcess s"
proof -
  obtain r1 s1 where c1: "semCreate M rname 0 s = (r1, s1)" by force
  define t where "t = upd_stream a (\<lambda>x. x\<lparr>readSem := r1\<rparr>) s1"
  obtain w1 s2 where c2: "semCreate M wname 2048 t = (w1, s2)" by force
  have s': "s' = upd_stream a (\<lambda>x. x\<lparr>writeSem := w1\<rparr>) s2"
    using assms(2) c1 c2 by (simp add: open_sems_def t_def)
  have m1: "streams s1 = streams s" "fileDescriptors s1 = fileDescriptors s"
    using kernel_more(1,4) [OF semCreate_more [of M rname 0 s]] c1 by simp_all
  have m2: "streams s2 = streams t" "fileDescriptors s2 = fileDescriptors t"
    using kernel_more(1,4) [OF semCreate_more [of M wname 2048 t]] c2 by simp_all
  have rw: "r = r1" "w = w1" using assms(6,7) m2 by (simp_all add: s' t_def)
  have st: "sems s' = sems s2" by (simp add: s')
  have ne1: "r1 \<noteq> - 1" and ne2: "w1 \<noteq> - 1" using assms(8,9) rw by simp_all
  have slot: "0 \<le> w1" "\<not> used (sems t (nat w1))" "w1 < 500"
    and sems2: "\<And>j. j \<noteq> nat w1 \<Longrightarrow> sems s2 j = sems t j"
  proof -
    have fr: "findFreeSem t = w1" "\<not> findFreeSem t < 0"
      using c2 ne2 by (auto simp: semCreate_def Let_def split: if_splits prod.splits)
    then show "0 \<le> w1" by simp
    show "\<not> used (sems t (nat w1))" "w1 < 500"
      using free_sem_from_cases [of 500 0 "sems t"] fr by (auto simp: findFreeSem_def)
    show "sems s2 j = sems t j" if "j \<noteq> nat w1" for j
      using c2 ne2 that fr
      by (auto simp: semCreate_def Let_def set_opened_def upd_sem_def split: if_splits prod.splits)
  qed
  have used1: "used (sems s1 (nat r1))" if "r1 \<noteq> - 1"
    using c1 that by (auto simp: semCreate_def Let_def set_opened_def upd_sem_def split: if_splits prod.splits)
  have apart: "nat r1 \<noteq> nat w1" using used1 [OF ne1] slot(2) by (auto simp: t_def)
  have "waiting (sems s1 (nat r1)) \<noteq> 0"
    using assms(10) apart sems2 by (simp add: st rw t_def)
  note C1 = semCreate_spec [OF assms(1) c1 ne1 _ this assms(3-5)]
  obtain q1 where q1: "sems s1 = (sems s)(nat r1 := (sems s (nat r1))\<lparr>svalue := 0, used := True, waiting := q1,
      sname := rname @ drop (length rname) (sname (sems s (nat r1))),
      openedBy := (\<lambda>_. False)(nat (getpid s) := True)\<rparr>)" using C1(5) by auto
  have t: "swfs t" "\<forall>i \<ge> 5. priorityQueues t i = 0" "0 \<le> getpid t" "getpid t < 100"
    using C1(1,15,17) assms(3-5) by (simp_all add: t_def)
  have "waiting (sems s2 (nat w1)) \<noteq> 0" using assms(11) by (simp add: st rw)
  note C2 = semCreate_spec [OF t(1) c2 ne2 _ this t(2-4)]
  obtain q2 where q2: "sems s2 = (sems t)(nat w1 := (sems t (nat w1))\<lparr>svalue := 2048, used := True, waiting := q2,
      sname := wname @ drop (length wname) (sname (sems t (nat w1))),
      openedBy := (\<lambda>_. False)(nat (getpid t) := True)\<rparr>)" using C2(5) by auto
  show "swfs s'" using C2(1) by (simp add: s')
  show "0 \<le> r" "nat r < 500" using C1(2,3) by (simp_all add: rw)
  show "0 \<le> w" "nat w < 500" using C2(2,3) by (simp_all add: rw)
  show "nat r \<noteq> nat w" using apart rw by simp
  show "used (sems s' (nat r))" "used (sems s' (nat w))" "svalue (sems s' (nat r)) = 0"
    "svalue (sems s' (nat w)) = 2048"
    using apart by (simp_all add: st q2 rw t_def q1)
  show "fileDescriptors s' = fileDescriptors s" by (simp add: s' m2 t_def m1)
  show "streams s' a = (streams s a)\<lparr>readSem := r, writeSem := w\<rparr>" by (simp add: s' m2 t_def m1 rw)
  show "hung s' = hung s" "currentProcess s' = currentProcess s"
    using C1(7,11) C2(7,11) by (simp_all add: s' t_def)
qed

end

lemma createPipe_ends:
  assumes "sem_inv naive_inv naive_live s" and "\<forall>i \<ge> 5. priorityQueues s i = 0"
    and "0 \<le> getpid s" and "getpid s < 100" and "createPipe naive_mm s = ((0, fd1, fd2), s')"
    and "a = resource (fileDescriptors s' (nat fd1))" and "x = streams s' a" and "a \<noteq> 0"
    and "readSem x \<noteq> - 1" and "writeSem x \<noteq> - 1"
    and "waiting (sems s' (nat (readSem x))) \<noteq> 0" and "waiting (sems s' (nat (writeSem x))) \<noteq> 0"
  shows "pipe_ok a s' \<and> stream_data x = [] \<and> \<not> eof x \<and> readers x = 1 \<and> writers x = 1
    \<and> 3 \<le> fd1 \<and> fd1 < fd2 \<and> fd2 < 1024
    \<and> \<not> isOpen (fileDescriptors s (nat fd1)) \<and> \<not> isOpen (fileDescriptors s (nat fd2))
    \<and> fileDescriptors s' = (fileDescriptors s)
        (nat fd1 := \<lparr>isOpen = True, resource = a, fmode = FR\<rparr>,
         nat fd2 := \<lparr>isOpen = True, resource = a, fmode = FW\<rparr>)
    \<and> naive_live (lmem (lh s)) a = None \<and> sem_inv naive_inv naive_live s' \<and> hung s' = hung s
    \<and> currentProcess s' = currentProcess s"
proof -
  obtain i1 s1 where g1: "getAvailableFD s = (i1, s1)" by force
  obtain i2 s2 where g2: "getAvailableFD s1 = (i2, s2)" by force
  obtain b s3 where al: "k_alloc naive_mm sizeof_Stream s2 = (b, s3)" by force
  define s4 where "s4 = upd_stream b fresh_stream (upd_fd (nat i1) (\<lambda>f. f\<lparr>resource := b, isOpen := True, fmode := FR\<rparr>) s3)"
  define s5 where "s5 = open_sems naive_mm (itoa i1) (itoa i2) b s4"
  have cp: "createPipe naive_mm s = (if i1 < 0 \<or> i2 < 0 then ((- 1, 0, 0), s2)
      else ((0, i1, i2), upd_fd (nat i2) (\<lambda>f. f\<lparr>resource := b, isOpen := True, fmode := FW\<rparr>) s5))"
    by (simp only: createPipe_def g1 g2 al Let_def split_conv s4_def s5_def)
  have ok: "\<not> (i1 < 0 \<or> i2 < 0)"
  proof
    assume "i1 < 0 \<or> i2 < 0"
    then show False using assms(5) unfolding cp by simp
  qed
  have eqs: "(0, i1, i2) = (0 :: int, fd1, fd2)"
    "upd_fd (nat i2) (\<lambda>f. f\<lparr>resource := b, isOpen := True, fmode := FW\<rparr>) s5 = s'"
    using assms(5) unfolding cp if_not_P [OF ok] Pair_inject by blast+
  then have fds: "fd1 = i1" "fd2 = i2" by simp_all
  note s' = eqs(2) [symmetric]
  obtain j1 where j1: "i1 = int j1" "3 \<le> j1" "j1 < 1024" "\<not> isOpen (fileDescriptors s j1)"
    "\<forall>m. 3 \<le> m \<and> m < j1 \<longrightarrow> isOpen (fileDescriptors s m)"
    "s1 = upd_fd j1 (\<lambda>f. f\<lparr>isOpen := True\<rparr>) s" using g1 ok by (cases rule: getAvailableFD_cases) auto
  obtain j2 where j2: "i2 = int j2" "3 \<le> j2" "j2 < 1024" "\<not> isOpen (fileDescriptors s1 j2)"
    "s2 = upd_fd j2 (\<lambda>f. f\<lparr>isOpen := True\<rparr>) s1" using g2 ok by (cases rule: getAvailableFD_cases) auto
  have lt: "j1 < j2"
  proof (rule ccontr)
    assume "\<not> j1 < j2"
    then have "j2 < j1 \<or> j2 = j1" by auto
    then show False using j1(5,6) j2(2,4) by auto
  qed
  have closed2: "\<not> isOpen (fileDescriptors s j2)" using j2(4) j1(6) lt by simp
  have in2: "sem_inv naive_inv naive_live s2" "lh s2 = lh s" using assms(1) j1(6) j2(5) by simp_all
  have okr: "naive_okreq sizeof_Stream" by (simp add: naive_okreq_def sizeof_Stream_def)
  note A = naive.k_alloc_spec [OF in2(1) okr al]
  have m3: "fileDescriptors s3 = fileDescriptors s2" "streams s3 = streams s2"
    using kernel_more(4,1) [OF A(2)] .
  have s4: "sem_inv naive_inv naive_live s4" "\<forall>i \<ge> 5. priorityQueues s4 i = 0" "0 \<le> getpid s4" "getpid s4 < 100"
    using A assms(2-4) j1(6) j2(5) by (simp_all add: s4_def)
  have pre: "streams s' = streams s5" "sems s' = sems s5" by (simp_all add: s')
  have "fileDescriptors s5 = fileDescriptors s4"
    unfolding s5_def open_sems_def by (simp add: Let_def split_beta kernel_more(4) [OF semCreate_more])
  then have fds5: "fileDescriptors s5 = (fileDescriptors s2)(j1 := (fileDescriptors s2 j1)\<lparr>resource := b, isOpen := True, fmode := FR\<rparr>)"
    using m3 j1(1) by (simp add: s4_def)
  have ab: "a = b" using assms(6) fds fds5 lt by (simp add: s' j1(1) j2(1))
  have xs: "x = streams s5 b" using assms(7) ab pre by simp
  note O = naive.open_sems_spec [OF s4(1) s5_def s4(2-4) _ _ , of "readSem x" "writeSem x"]
  have O': "sem_inv naive_inv naive_live s5" "0 \<le> readSem x" "nat (readSem x) < 500" "0 \<le> writeSem x"
    "nat (writeSem x) < 500" "nat (readSem x) \<noteq> nat (writeSem x)" "used (sems s5 (nat (readSem x)))"
    "used (sems s5 (nat (writeSem x)))" "svalue (sems s5 (nat (readSem x))) = 0"
    "svalue (sems s5 (nat (writeSem x))) = 2048"
    "streams s5 b = (streams s4 b)\<lparr>readSem := readSem x, writeSem := writeSem x\<rparr>" "hung s5 = hung s4"
    "currentProcess s5 = currentProcess s4"
    using O assms(9-12) xs pre by simp_all
  note xeq = trans [OF xs O'(11)]
  have x: "readPos x = 0" "writePos x = 0" "dataAvailable x = 0" "\<not> eof x" "readers x = 1" "writers x = 1"
    using arg_cong [OF xeq, of readPos] arg_cong [OF xeq, of writePos] arg_cong [OF xeq, of dataAvailable]
      arg_cong [OF xeq, of eof] arg_cong [OF xeq, of readers] arg_cong [OF xeq, of writers]
    by (simp_all add: s4_def fresh_stream_def)
  have "pipe_ok a s'"
    using O'(2-10) x by (simp add: pipe_ok_def Let_def pre xs [symmetric] ab ring_ok_def)
  moreover have "fileDescriptors s' = (fileDescriptors s)
        (nat fd1 := \<lparr>isOpen = True, resource = a, fmode = FR\<rparr>, nat fd2 := \<lparr>isOpen = True, resource = a, fmode = FW\<rparr>)"
  proof -
    have "fileDescriptors s2 = (fileDescriptors s)(j1 := (fileDescriptors s j1)\<lparr>isOpen := True\<rparr>,
        j2 := (fileDescriptors s j2)\<lparr>isOpen := True\<rparr>)" using lt by (simp add: j2(5) j1(6))
    then show ?thesis using lt by (simp add: s' fds5 fds j1(1) j2(1) ab fun_upd_twist FD_full)
  qed
  moreover have "naive_live (lmem (lh s)) a = None" using A(8) assms(8) ab in2(2) by simp
  moreover have "hung s' = hung s" "currentProcess s' = currentProcess s" "sem_inv naive_inv naive_live s'"
    using O'(1,12,13) A(6,7) by (simp_all add: s' s4_def j2(5) j1(6))
  ultimately show ?thesis
    using x lt closed2 j1 j2 fds by (simp add: stream_data_def)
qed

text \<open>
  a successful \<open>createPipe\<close> returns the two lowest free descriptors, a reading and a
  writing end of one new stream in freshly allocated memory. The stream is empty, its
  semaphores are different and count no bytes and 2048 free places, and no other
  descriptor is touched.
\<close>

theorem createPipe_opens:
  assumes "sem_inv naive_inv naive_live s" and "\<forall>i \<ge> 5. priorityQueues s i = 0"
    and "0 \<le> getpid s" and "getpid s < 100" and "createPipe naive_mm s = ((0, fd1, fd2), s')"
    and "a = resource (fileDescriptors s' (nat fd1))" and "x = streams s' a" and "a \<noteq> 0"
    and "readSem x \<noteq> - 1" and "writeSem x \<noteq> - 1"
    and "waiting (sems s' (nat (readSem x))) \<noteq> 0" and "waiting (sems s' (nat (writeSem x))) \<noteq> 0"
  shows "pipe_ok a s' \<and> stream_data x = [] \<and> \<not> eof x \<and> readers x = 1 \<and> writers x = 1
    \<and> 3 \<le> fd1 \<and> fd1 < fd2 \<and> fd2 < 1024
    \<and> \<not> isOpen (fileDescriptors s (nat fd1)) \<and> \<not> isOpen (fileDescriptors s (nat fd2))
    \<and> fileDescriptors s' = (fileDescriptors s)
        (nat fd1 := \<lparr>isOpen = True, resource = a, fmode = FR\<rparr>,
         nat fd2 := \<lparr>isOpen = True, resource = a, fmode = FW\<rparr>)
    \<and> naive_live (lmem (lh s)) a = None \<and> sem_inv naive_inv naive_live s' \<and> hung s' = hung s
    \<and> currentProcess s' = currentProcess s"
  using assms by (rule createPipe_ends)

section \<open>A system with a pipe\<close>

definition big_sched :: "naive sched" where
  "big_sched = (initScheduler naive_mm \<lparr>lh = \<lparr>lmem = createMemoryManager_naive no_pool 4096 65536, lq = Map.empty\<rparr>,
     processes = demo_process, currentProcess = 0, quantumsLeft = 0, isYield = False, priorityQueues = (\<lambda>_. 0),
     ticks = 0, cpu_rsp = 7, nullPid = 0, nullForeground = 0\<rparr>)\<lparr>currentProcess := 3\<rparr>"

lemma big_sched_facts:
  "naive_swf big_sched" "currentProcess big_sched = 3" "\<forall>i \<ge> 5. priorityQueues big_sched i = 0"
  "tailroom 65000 (lmem (lh big_sched))" "getpid big_sched = 3" "rqueued big_sched = {#}"
proof -
  let ?s = "\<lparr>lh = \<lparr>lmem = createMemoryManager_naive no_pool 4096 65536, lq = Map.empty\<rparr>,
     processes = demo_process, currentProcess = 0, quantumsLeft = 0, isYield = False, priorityQueues = (\<lambda>_. 0),
     ticks = 0, cpu_rsp = 7, nullPid = 0, nullForeground = 0\<rparr> :: naive sched"
  let ?i = "initScheduler naive_mm ?s"
  have t0: "tailroom 65512 (createMemoryManager_naive no_pool 4096 65536)"
    using tailroom_create [of 4096 65536 no_pool] by (simp add: dvd_def)
  from tailroom_mono [OF this, of "200 + 65000"] have "tailroom (200 + 65000) (lmem (lh ?s))" by simp
  from tailroom_initScheduler [OF this] have t: "tailroom 65000 (lmem (lh ?i))" "\<forall>i < 5. priorityQueues ?i i \<noteq> 0"
    by simp_all
  have p: "\<forall>p. 1 \<le> p \<and> p \<le> 100 \<longrightarrow> pid (pcb ?s p) = int p \<and> (pstate (pcb ?s p) \<noteq> EXITED \<longrightarrow> prio_ok (pcb ?s p))"
    by (auto simp: pcb_def demo_process_def prio_ok_def)
  have "l_wf naive_inv naive_live (lh ?s)" using naive.wf_empty [OF tailroom_inv [OF t0]] by simp
  note I = naive.initScheduler_spec [OF this refl t(2) p]
  have "pcb ?i 3 = demo_process 2" using I(3) by (simp add: pcb_def)
  then have "prio_ok (pcb ?i 3)" "pid (pcb ?i 3) = 3" by (simp_all add: demo_process_def prio_ok_def)
  moreover have "sched_wf naive_inv naive_live (?i\<lparr>currentProcess := 3\<rparr>) = (sched_wf naive_inv naive_live ?i \<and> prio_ok (pcb ?i 3))"
    using I(2) by (auto simp: sched_wf_def queues_ok_def members_ok_def rqueued_def rq_def pcb_def)
  ultimately show "naive_swf big_sched" "currentProcess big_sched = 3" "getpid big_sched = 3"
    using I(1) by (simp_all add: big_sched_def getpid_def getCurrentProcess_def pid_at_def pcb_def)
  show "tailroom 65000 (lmem (lh big_sched))" using t(1) by (simp add: big_sched_def)
  show "rqueued big_sched = {#}" using I(4) by (simp add: big_sched_def rqueued_def rq_def)
  show "\<forall>i \<ge> 5. priorityQueues big_sched i = 0"
    by (simp add: big_sched_def initScheduler_def upt_rec split_beta)
qed

definition big_kernel :: "naive kernel" where
  "big_kernel = boot_kernel demo_keyboard (sched.extend big_sched
     \<lparr>sems = (\<lambda>_. demo_slot ''''), hung = False, stray = False\<rparr>)"

lemma big_kernel_facts:
  "sem_inv naive_inv naive_live big_kernel" "currentProcess big_kernel = 3" "getpid big_kernel = 3"
  "\<forall>i \<ge> 5. priorityQueues big_kernel i = 0" "tailroom 65000 (lmem (lh big_kernel))"
  "sems big_kernel = (\<lambda>_. demo_slot '''')" "rqueued big_kernel = {#}"
proof -
  let ?s = "sched.extend big_sched \<lparr>sems = (\<lambda>_. demo_slot ''''), hung = False, stray = False\<rparr> :: naive sem_state"
  have se: "sems ?s = (\<lambda>_. demo_slot '''')" by (simp add: sched.defs)
  show "sems big_kernel = (\<lambda>_. demo_slot '''')" by (simp add: big_kernel_def se)
  show "currentProcess big_kernel = 3" "\<forall>i \<ge> 5. priorityQueues big_kernel i = 0"
    "tailroom 65000 (lmem (lh big_kernel))" "rqueued big_kernel = {#}"
    using big_sched_facts by (simp_all add: big_kernel_def extend_frame)
  show "getpid big_kernel = 3"
    using big_sched_facts(2,5) by (simp add: big_kernel_def getpid_def getCurrentProcess_def pid_at_def extend_frame)
  show "sem_inv naive_inv naive_live big_kernel"
    using big_sched_facts(1) se by (simp add: big_kernel_def sem_inv_def extend_frame demo_slot_def)
qed

text \<open>Creating a semaphore where there is memory for its queue.\<close>

lemma semCreate_succeeds:
  assumes "tailroom (40 + m) (lmem (lh s))" and "8 \<le> m" and "length nm \<le> 28" and "findSemByName s nm = - 1"
    and "findFreeSem s = int j" and "0 \<le> getpid s" and "getpid s < 100"
  shows "\<exists>q s'. semCreate naive_mm nm v s = (int j, s') \<and> q \<noteq> 0 \<and> tailroom m (lmem (lh s'))
    \<and> sems s' = (sems s)(j := (sems s j)\<lparr>svalue := v, used := True, waiting := q,
        sname := nm @ drop (length nm) (sname (sems s j)), openedBy := (\<lambda>_. False)(nat (getpid s) := True)\<rparr>)
    \<and> getpid s' = getpid s"
proof -
  obtain q l where q: "l_newQueue naive_mm (lh s) = (q, l)" by force
  note T = tailroom_alloc16 [OF assms(1,2)]
  have ql: "q \<noteq> 0" "tailroom m (lmem l)"
    using q T by (auto simp: l_newQueue_def sizeof_queueCDT_def split_beta split: if_splits)
  have gp: "getpid (upd_sem j f (s\<lparr>lh := l\<rparr>)) = getpid s" for f
    by (simp add: getpid_def getCurrentProcess_def pid_at_def upd_sem_def pcb_def)
  have "semCreate naive_mm nm v s = (int j, s\<lparr>lh := l, sems := (sems s)(j := (sems s j)\<lparr>svalue := v, used := True,
      waiting := q, sname := nm @ drop (length nm) (sname (sems s j)),
      openedBy := (\<lambda>_. False)(nat (getpid s) := True)\<rparr>)\<rparr>)"
    using assms(3-7) q gp by (simp add: semCreate_def Let_def set_opened_def) (simp add: upd_sem_def)
  then show ?thesis using ql by (auto simp: getpid_def getCurrentProcess_def pid_at_def pcb_def)
qed

lemma itoa_3_4: "itoa 3 = ''3''" "itoa 4 = ''4''"
  by code_simp+

definition pipe_kernel :: "naive kernel" where
  "pipe_kernel = snd (createPipe naive_mm big_kernel)"

lemma avail_step:
  "0 < n \<Longrightarrow> \<not> isOpen (fds i) \<Longrightarrow> avail_from n i fds = int i"
  "0 < n \<Longrightarrow> isOpen (fds i) \<Longrightarrow> avail_from n i fds = avail_from (n - 1) (i + 1) fds"
  by (cases n; simp)+

lemma free_step:
  "0 < n \<Longrightarrow> \<not> used (ss i) \<Longrightarrow> free_sem_from n i ss = int i"
  "0 < n \<Longrightarrow> used (ss i) \<Longrightarrow> free_sem_from n i ss = free_sem_from (n - 1) (i + 1) ss"
  by (cases n; simp)+

lemma pipe_kernel_facts:
  "createPipe naive_mm big_kernel = ((0, 3, 4), pipe_kernel)"
  "resource (fileDescriptors pipe_kernel 3) \<noteq> 0"
  "readSem (streams pipe_kernel (resource (fileDescriptors pipe_kernel 3))) = 0"
  "writeSem (streams pipe_kernel (resource (fileDescriptors pipe_kernel 3))) = 1"
  "waiting (sems pipe_kernel 0) \<noteq> 0" "waiting (sems pipe_kernel 1) \<noteq> 0"
proof -
  let ?f = "fileDescriptors big_kernel"
  define b1 where "b1 = upd_fd 3 (\<lambda>f. f\<lparr>isOpen := True\<rparr>) big_kernel"
  define b2 where "b2 = upd_fd 4 (\<lambda>f. f\<lparr>isOpen := True\<rparr>) b1"
  have closed: "\<not> isOpen (?f i)" for i by (simp add: big_kernel_def demo_fd_def)
  have "avail_from 1021 3 ?f = 3" using avail_step(1) [of 1021 ?f 3] closed by simp
  then have g1: "getAvailableFD big_kernel = (3, b1)" by (simp add: getAvailableFD_def b1_def)
  have "avail_from 1021 3 (fileDescriptors b1) = 4"
    using avail_step(2) [of 1021 "fileDescriptors b1" 3] avail_step(1) [of 1020 "fileDescriptors b1" 4] closed
    by (simp add: b1_def)
  then have g2: "getAvailableFD b1 = (4, b2)" by (simp add: getAvailableFD_def b2_def)
  obtain a b3 where al: "k_alloc naive_mm sizeof_Stream b2 = (a, b3)" by force
  have f2: "lh b2 = lh big_kernel" "sems b2 = sems big_kernel" "getpid b2 = 3"
    using big_kernel_facts(3) by (simp_all add: b1_def b2_def)
  have mem: "tailroom (unat (ALIGN 2080) + 24 + 62000) (lmem (lh b2))"
    using tailroom_mono [OF big_kernel_facts(5)] f2(1) by (simp add: ALIGN_unfold)
  have a: "a \<noteq> 0" "tailroom 62000 (lmem (lh b3))"
    using tailroom_alloc [OF mem] al by (auto simp: k_alloc_def sizeof_Stream_def split: prod.splits)
  have f3: "sems b3 = (\<lambda>_. demo_slot '''')" "getpid b3 = 3"
    using al f2 big_kernel_facts(6)
    by (auto simp: k_alloc_def getpid_def getCurrentProcess_def pid_at_def pcb_def split: prod.splits)
  define b4 where "b4 = upd_stream a fresh_stream (upd_fd 3 (\<lambda>f. f\<lparr>resource := a, isOpen := True, fmode := FR\<rparr>) b3)"
  have f4: "tailroom (40 + 61960) (lmem (lh b4))" "sems b4 = (\<lambda>_. demo_slot '''')" "getpid b4 = 3"
    using a(2) f3 by (simp_all add: b4_def)
  have "findSemByName b4 ''3'' = - 1" 
    using f4(2) by (simp add: findSemByName_def find_name_from_none demo_slot_def)
  moreover have "findFreeSem b4 = int 0"
    using free_step(1) [of 500 "sems b4" 0] f4(2) by (simp add: findFreeSem_def demo_slot_def)
  ultimately obtain q b5 where b5: "semCreate naive_mm ''3'' 0 b4 = (0, b5)" "q \<noteq> 0" "tailroom 61960 (lmem (lh b5))"
    "sems b5 = (sems b4)(0 := (sems b4 0)\<lparr>svalue := 0, used := True, waiting := q,
        sname := ''3'' @ drop 1 (sname (sems b4 0)), openedBy := (\<lambda>_. False)(nat (getpid b4) := True)\<rparr>)"
    "getpid b5 = 3"
    using semCreate_succeeds [OF f4(1), of "''3''" 0 0] f4(3) by auto
  define b6 where "b6 = upd_stream a (\<lambda>x. x\<lparr>readSem := 0\<rparr>) b5"
  have f6: "tailroom (40 + 61920) (lmem (lh b6))" "sems b6 = sems b5" "getpid b6 = 3"
    using b5 by (simp_all add: b6_def)
  have "sem_name b6 0 = ''3''"
    by (simp add: sem_name_def name_bytes_def f6(2) b5(4) f4(2) demo_slot_def)
  moreover have u6: "used (sems b6 j) \<longleftrightarrow> j = 0" for j by (simp add: f6(2) b5(4) f4(2) demo_slot_def)
  moreover have "strcmp ''3'' ''4'' \<noteq> 0" by code_simp
  ultimately have "\<not> (used (sems b6 j) \<and> strcmp (sem_name b6 j) ''4'' = 0)" for j by (cases "j = 0") (simp_all only: simp_thms)
  then have "findSemByName b6 ''4'' = - 1"
    unfolding findSemByName_def find_name_from_none by blast
  moreover have "findFreeSem b6 = int 1"
    using free_step(2) [of 500 "sems b6" 0] free_step(1) [of 499 "sems b6" 1] u6 by (simp add: findFreeSem_def)
  ultimately obtain q' b7 where b7: "semCreate naive_mm ''4'' 2048 b6 = (1, b7)" "q' \<noteq> 0"
    "sems b7 = (sems b6)(1 := (sems b6 1)\<lparr>svalue := 2048, used := True, waiting := q',
        sname := ''4'' @ drop 1 (sname (sems b6 1)), openedBy := (\<lambda>_. False)(nat (getpid b6) := True)\<rparr>)"
    using semCreate_succeeds [OF f6(1), of "''4''" 1 2048] f6(3) by auto
  have os: "open_sems naive_mm ''3'' ''4'' a b4 = upd_stream a (\<lambda>x. x\<lparr>writeSem := 1\<rparr>) b7"
    using b5(1) b7(1) by (simp add: open_sems_def b6_def)
  show cp: "createPipe naive_mm big_kernel = ((0, 3, 4), pipe_kernel)"
    unfolding pipe_kernel_def by (simp add: createPipe_def g1 g2 al Let_def)
  have pk: "pipe_kernel = upd_fd 4 (\<lambda>f. f\<lparr>resource := a, isOpen := True, fmode := FW\<rparr>)
      (upd_stream a (\<lambda>x. x\<lparr>writeSem := 1\<rparr>) b7)"
    unfolding pipe_kernel_def by (simp add: createPipe_def g1 g2 al Let_def itoa_3_4 b4_def [symmetric] os)
  have st7: "streams b7 = streams b6" "fileDescriptors b7 = fileDescriptors b6"
      "fileDescriptors b5 = fileDescriptors b4"
    using kernel_more(1,4) [OF semCreate_more [of naive_mm "''4''" 2048 b6]] b7(1)
      kernel_more(4) [OF semCreate_more [of naive_mm "''3''" 0 b4]] b5(1) by simp_all
  have r: "resource (fileDescriptors pipe_kernel 3) = a"
    by (simp add: pk st7 b6_def b4_def)
  show "resource (fileDescriptors pipe_kernel 3) \<noteq> 0" using r a(1) by simp
  show "readSem (streams pipe_kernel (resource (fileDescriptors pipe_kernel 3))) = 0"
    "writeSem (streams pipe_kernel (resource (fileDescriptors pipe_kernel 3))) = 1"
    unfolding r by (simp_all add: pk st7 b6_def)
  show "waiting (sems pipe_kernel 0) \<noteq> 0" "waiting (sems pipe_kernel 1) \<noteq> 0"
    using b5(2) b7(2) by (simp_all add: pk b7(3) f6(2) b5(4))
qed


lemma pipe_kernel_ok:
  defines "a \<equiv> resource (fileDescriptors pipe_kernel 3)"
  shows "pipe_ok a pipe_kernel" and "stream_data (streams pipe_kernel a) = []" and "\<not> eof (streams pipe_kernel a)"
    and "sem_inv naive_inv naive_live pipe_kernel" and "currentProcess pipe_kernel = 3"
    and "dataAvailable (streams pipe_kernel a) = 0" and "resource (fileDescriptors pipe_kernel 4) = a"
proof -
  have g: "0 \<le> getpid big_kernel" "getpid big_kernel < 100" using big_kernel_facts(3) by simp_all
  note E = createPipe_ends [OF big_kernel_facts(1,4) g pipe_kernel_facts(1) _ refl, of a]
  have E': "pipe_ok a pipe_kernel \<and> stream_data (streams pipe_kernel a) = [] \<and> \<not> eof (streams pipe_kernel a)
    \<and> sem_inv naive_inv naive_live pipe_kernel \<and> currentProcess pipe_kernel = currentProcess big_kernel
    \<and> resource (fileDescriptors pipe_kernel 4) = a"
    using E pipe_kernel_facts [folded a_def] by (simp add: a_def [symmetric])
  then show "pipe_ok a pipe_kernel" "stream_data (streams pipe_kernel a) = []" "\<not> eof (streams pipe_kernel a)"
    "sem_inv naive_inv naive_live pipe_kernel" "currentProcess pipe_kernel = 3"
    "resource (fileDescriptors pipe_kernel 4) = a"
    using big_kernel_facts(2) by simp_all
  have "nat (dataAvailable (streams pipe_kernel a)) = 0" using E' length_stream_data [of "streams pipe_kernel a"] by simp
  moreover have "0 \<le> dataAvailable (streams pipe_kernel a)" using E' by (simp add: pipe_ok_def Let_def ring_ok_def)
  ultimately show "dataAvailable (streams pipe_kernel a) = 0" by simp
qed

lemma createPipe_opens_witness:
  "fst (createPipe naive_mm big_kernel) = (0, 3, 4)
   \<and> fileDescriptors pipe_kernel 4 = \<lparr>isOpen = True, resource = resource (fileDescriptors pipe_kernel 3), fmode = FW\<rparr>"
proof -
  have g: "0 \<le> getpid big_kernel" "getpid big_kernel < 100" using big_kernel_facts(3) by simp_all
  define a where "a = resource (fileDescriptors pipe_kernel 3)"
  note E = createPipe_opens [OF big_kernel_facts(1,4) g pipe_kernel_facts(1) _ refl, of a]
  show ?thesis
    using E pipe_kernel_facts [folded a_def] unfolding a_def [symmetric] by (simp add: a_def [symmetric])
qed

lemma pipe_write_witness:
  "fst (writeToFD naive_mm 4 (map byte ''ls'') pipe_kernel) = WriteDone 2"
proof -
  have c: "currentProcess pipe_kernel \<noteq> 0" by (simp add: pipe_kernel_ok)
  have r: "resource (fileDescriptors pipe_kernel 3) = resource (fileDescriptors pipe_kernel (nat 4))"
    using pipe_kernel_ok(7) by simp
  show ?thesis
    using pipe_write [OF pipe_kernel_ok(4) _ _ r pipe_kernel_ok(1) c surjective_pairing refl, of "map byte ''ls''"]
      pipe_kernel_ok(6) by simp
qed

lemma pipe_read_witness:
  "fst (readFromFD naive_mm 3 8 pipe_kernel) = ReadSleep []"
proof -
  have c: "currentProcess pipe_kernel \<noteq> 0" by (simp add: pipe_kernel_ok)
  have l: "line_prefix n [] = []" for n by (cases n) simp_all
  show ?thesis
    using pipe_read [OF pipe_kernel_ok(4) _ _ _ pipe_kernel_ok(1,3) c surjective_pairing refl, of 3 8]
      pipe_kernel_ok(2) by (simp add: l)
qed

end
