(* ===== verification/Process_Lifecycle.thy ===== *)
theory Process_Lifecycle
  imports File_Descriptors
begin

text \<open>
  The rest of \<open>Kernel/process/process.c\<close>: creating, listing, waiting for, killing and
  re-prioritising processes.

  The strings and the array of a process's arguments are kept in the heaps \<open>cstrings\<close> and
  \<open>argvs\<close> of the kernel state, at the addresses the memory manager gave them, and the copies
  of the process table in the heap \<open>infos\<close>. A process whose call switches away from it gets
  the answer \<open>Sleep\<close>; what it executes when it runs again is a definition of its own. The
  global \<open>current\<close>, which \<open>createProcess\<close> compares with \<open>MAX_PID\<close>, is set to 1 by
  \<open>initProcesses\<close> and written nowhere else, so that test is false.
\<close>

section \<open>The program\<close>

record creationParameters =
  c_argc :: int
  c_argv :: "string list"
  c_name :: "string option"
  c_priority :: nat
  c_entryPoint :: addr
  c_foreground :: int
  c_fd_in :: int
  c_fd_out :: int

definition sizeof_Process :: nat where "sizeof_Process = 128"
definition sizeof_ptr :: nat where "sizeof_ptr = 8"

lemmas process_sizes [simp] = sizeof_Process_def sizeof_ptr_def

text \<open>
  The copies of the arguments: \<open>args[i]\<close> for each argument in turn, up to the first for which
  there is no memory.
\<close>

fun copy_args ::
  "'m mm \<Rightarrow> string list \<Rightarrow> addr list \<Rightarrow> ('m, 'z) kernel_scheme \<Rightarrow> bool \<times> addr list \<times> ('m, 'z) kernel_scheme" where
  "copy_args M [] args s = (True, args, s)"
| "copy_args M (x # xs) args s =
     (let (p, s1) = k_alloc M (of_nat (length x + 1)) s in
      if p = 0 then (False, args, s1)
      else copy_args M xs (args @ [p]) (s1\<lparr>cstrings := (cstrings s1)(p := x)\<rparr>))"

definition free_args :: "'m mm \<Rightarrow> addr list \<Rightarrow> ('m, 'z) kernel_scheme \<Rightarrow> ('m, 'z) kernel_scheme" where
  "free_args M ps s = fold (k_free M) ps s"

text \<open>
  \<open>setupStack\<close> pushes the five words of an interrupt frame and the fifteen registers that the
  first dispatch of the process restores.
\<close>

definition setupStack :: "addr \<Rightarrow> addr" where
  "setupStack base = base - 8 * (5 + 15)"

definition fill_pcb :: "creationParameters \<Rightarrow> addr \<Rightarrow> addr \<Rightarrow> Process \<Rightarrow> Process" where
  "fill_pcb c stackLimit args x =
     x\<lparr>pname := (case c_name c of None \<Rightarrow> '''' | Some n \<Rightarrow> n), argc := nat (c_argc c), argv := args,
       priority := c_priority c, originalPriority := c_priority c, agingCounter := 0,
       entryPoint := c_entryPoint c, foreground := c_foreground c, waitPid := NONPID, pstate := READY,
       stackBase := stackLimit + unat STACK_SIZE, stackEnd := setupStack (stackLimit + unat STACK_SIZE),
       fd_in := c_fd_in c, fd_out := c_fd_out c\<rparr>"

definition createProcess ::
  "'m mm \<Rightarrow> creationParameters option \<Rightarrow> ('m, 'z) kernel_scheme \<Rightarrow> int \<times> ('m, 'z) kernel_scheme" where
  "createProcess M params s =
     (case params of None \<Rightarrow> (- 1, s) | Some c \<Rightarrow>
      if \<not> checkPriority (c_priority c) \<or> c_argc c < 0 \<or> c_entryPoint c = 0 \<or> \<not> checkName (c_name c)
      then (- 1, s)
      else let (stackLimit, s1) = k_alloc M STACK_SIZE s;
               (args, s2) = (if stackLimit \<noteq> 0 \<and> c_argc c \<noteq> 0
                             then k_alloc M (of_int (c_argc c * int sizeof_ptr)) s1 else (0, s1))
           in
           if stackLimit = 0 \<or> (c_argc c \<noteq> 0 \<and> args = 0)
           then (- 1, k_free M args (k_free M stackLimit s2))
           else let (ok, ps, s3) = copy_args M (take (nat (c_argc c)) (c_argv c)) [] s2 in
             if \<not> ok then (- 1, k_free M stackLimit (k_free M args (free_args M ps s3)))
             else let allocatedProcess = getFreeProcess s3 in
               if allocatedProcess = - 1
               then (- 1, k_free M args (free_args M ps (k_free M stackLimit s3)))
               else let p = nat allocatedProcess + 1;
                        s4 = (if args = 0 then s3 else s3\<lparr>argvs := (argvs s3)(args := ps)\<rparr>);
                        s5 = upd_pcb p (fill_pcb c stackLimit args) s4;
                        s6 = schedule M p s5
                    in (pid (pcb s6 p), s6))"

text \<open>An entry of the list of processes before a process is copied into it.\<close>

definition blank_info :: "Process \<Rightarrow> Process" where
  "blank_info x = x\<lparr>pid := NONPID, pstate := EXITED, pname := '''', argc := 0, argv := 0, priority := 0,
     foreground := 0, entryPoint := 0, stackBase := 0, stackEnd := 0, waitReturnValue := 0,
     waitPid := NONPID, fd_in := 0, fd_out := 1\<rparr>"

fun copy_infos :: "nat list \<Rightarrow> nat \<Rightarrow> nat \<Rightarrow> (nat \<Rightarrow> Process) \<Rightarrow> (nat \<Rightarrow> Process) \<Rightarrow> (nat \<Rightarrow> Process)" where
  "copy_infos [] ansIndex cnt ps ans = ans"
| "copy_infos (i # is) ansIndex cnt ps ans =
     (if ansIndex < cnt
      then if pstate (ps i) \<noteq> EXITED
           then copy_infos is (ansIndex + 1) cnt ps (ans(ansIndex := ps i))
           else copy_infos is ansIndex cnt ps ans
      else ans)"

definition getProcessesInformation ::
  "'m mm \<Rightarrow> ('m, 'z) kernel_scheme \<Rightarrow> addr \<times> ('m, 'z) kernel_scheme" where
  "getProcessesInformation M s =
     (let cnt = getProcessesCount s;
          (ans, s1) = k_alloc M (of_nat ((cnt + 1) * sizeof_Process)) s in
      if ans = 0 then (0, s1)
      else let blank = (\<lambda>i. if i \<le> cnt then blank_info (infos s1 ans i) else infos s1 ans i)
           in (ans, s1\<lparr>infos := (infos s1)(ans := copy_infos [0..<MAX_PROCESSES] 0 cnt (processes s1) blank)\<rparr>))"

definition freeProcessesInformation :: "'m mm \<Rightarrow> addr \<Rightarrow> ('m, 'z) kernel_scheme \<Rightarrow> ('m, 'z) kernel_scheme" where
  "freeProcessesInformation M processesInfo s = k_free M processesInfo s"

text \<open>
  Waiting. The caller sleeps in \<open>blockProcess\<close>; when it runs again it gives up the processor
  once more (\<open>waitProcess_again\<close>) and then reads the value.
\<close>

definition waitProcess ::
  "'m mm \<Rightarrow> int \<Rightarrow> ('m, 'z) kernel_scheme \<Rightarrow> int option outcome \<times> ('m, 'z) kernel_scheme" where
  "waitProcess M pidToWait s =
     (if pidToWait \<le> 0 \<or> pidToWait > MAX_PID then (Ret None, s)
      else let mypid = getpid s in
        if pstate (pcb s (nat pidToWait)) = EXITED then (Ret (Some 0), s)
        else (Sleep, snd (blockProcess M mypid (upd_pcb (nat pidToWait) (\<lambda>x. x\<lparr>waitPid := mypid\<rparr>) s))))"

definition waitProcess_again :: "'m mm \<Rightarrow> ('m, 'z) kernel_scheme \<Rightarrow> ('m, 'z) kernel_scheme" where
  "waitProcess_again M s = forceSwitchContext M s"

definition waitProcess_finish :: "int \<Rightarrow> ('m, 'z) kernel_scheme \<Rightarrow> int" where
  "waitProcess_finish pidToWait s = waitReturnValue (pcb s (nat pidToWait))"

text \<open>The blocks of a process: its stack, the argument strings and their array.\<close>

definition release_memory :: "'m mm \<Rightarrow> nat \<Rightarrow> ('m, 'z) kernel_scheme \<Rightarrow> ('m, 'z) kernel_scheme" where
  "release_memory M p s =
     (let s1 = k_free M (stackBase (pcb s p) - unat STACK_SIZE) s in
      if argc (pcb s p) > 0
      then k_free M (argv (pcb s p)) (free_args M (take (argc (pcb s p)) (argvs s1 (argv (pcb s p)))) s1)
      else s1)"

definition kill ::
  "'m mm \<Rightarrow> int \<Rightarrow> ('m, 'z) kernel_scheme \<Rightarrow> int outcome \<times> ('m, 'z) kernel_scheme" where
  "kill M i s =
     (if i \<le> INITPID \<or> i > MAX_PID then (Ret (- 1), s)
      else let p = nat i in
        if pstate (pcb s p) = EXITED then (Ret (- 1), s)
        else let s1 = unscheduleProcess M p s;
                 s2 = release_memory M p s1;
                 s3 = upd_pcb p (\<lambda>x. x\<lparr>pstate := EXITED, argv := 0, argc := 0\<rparr>) s2;
                 s4 = snd (closeFD M (fd_in (pcb s3 p)) s3);
                 s5 = snd (closeFD M (fd_out (pcb s4 p)) s4);
                 s6 = (if waitPid (pcb s5 p) \<noteq> NONPID
                       then upd_pcb p (\<lambda>x. x\<lparr>waitPid := NONPID\<rparr>)
                              (snd (unblockProcess M (waitPid (pcb s5 p)) s5))
                       else s5)
             in if getpid s6 = i then (Sleep, forceSwitchContext M s6) else (Ret 0, s6))"

text \<open>
  What \<open>processLoader\<close> does when the entry point of the process has returned
  \<open>returnValue\<close>. It does not return.
\<close>

definition processLoader ::
  "'m mm \<Rightarrow> int \<Rightarrow> ('m, 'z) kernel_scheme \<Rightarrow> int outcome \<times> ('m, 'z) kernel_scheme" where
  "processLoader M returnValue s =
     (let processPid = getpid s; proc = getProcess s processPid;
          s1 = (if proc = 0 then s\<lparr>stray := True\<rparr>
                else upd_pcb proc (\<lambda>x. x\<lparr>waitReturnValue := returnValue\<rparr>) s)
      in kill M processPid s1)"

definition changeProccessPriority ::
  "'m mm \<Rightarrow> int \<Rightarrow> nat \<Rightarrow> ('m, 'z) kernel_scheme \<Rightarrow> int \<times> ('m, 'z) kernel_scheme" where
  "changeProccessPriority M i prio s =
     (if \<not> isValidPID s i \<or> \<not> checkPriority prio then (- 1, s)
      else let p = nat i in
        if originalPriority (pcb s p) = prio then (0, s)
        else let s1 = upd_pcb p (\<lambda>x. x\<lparr>priority := prio, originalPriority := prio, agingCounter := 0\<rparr>) s
             in if getCurrentProcess s1 \<noteq> 0 \<and> pid (pcb s1 p) = pid (pcb s1 (getCurrentProcess s1))
                then (0, snd (yield M s1)) else (0, s1))"


section \<open>Memory taken for a process\<close>

lemma k_alloc_fields:
  assumes "k_alloc M n s = (a, s')"
  shows "s' = s\<lparr>lh := lh s'\<rparr>" and "lq (lh s') = lq (lh s)"
  using assms by (auto simp: k_alloc_def split: prod.splits)

lemma k_free_fields: "k_free M a s = s\<lparr>lh := lh (k_free M a s)\<rparr>" "lq (lh (k_free M a s)) = lq (lh s)"
  by (simp_all add: k_free_def)

lemma same_kernel:
  assumes "sched.more s' = sched.more s"
  shows "streams s' = streams s" "kbd s' = kbd s" "con s' = con s" "fileDescriptors s' = fileDescriptors s"
    "argvs s' = argvs s" "cstrings s' = cstrings s" "infos s' = infos s" "sems s' = sems s" "hung s' = hung s"
  using assms by (cases s; cases s'; simp)+

definition mem_only :: "('m, 'z) kernel_scheme \<Rightarrow> ('m, 'z) kernel_scheme \<Rightarrow> bool" where
  "mem_only s t \<longleftrightarrow> t = s\<lparr>lh := lh t, cstrings := cstrings t, argvs := argvs t, infos := infos t\<rparr> \<and> lq (lh t) = lq (lh s)"

lemma owned_lq: "lq l = lq l' \<Longrightarrow> owned l = owned l'"
  by (simp add: owned_def qnodes_def)

text \<open>
  The state \<open>t\<close> is the state \<open>s\<close> with the new blocks \<open>A\<close>, and some heap contents, added.
\<close>

definition holding ::
  "('m \<Rightarrow> bool) \<Rightarrow> ('m \<Rightarrow> addr \<rightharpoonup> nat) \<Rightarrow> ('m, 'z) kernel_scheme \<Rightarrow> addr set \<Rightarrow> ('m, 'z) kernel_scheme \<Rightarrow> bool" where
  "holding I lv s A t \<longleftrightarrow> sem_inv I lv t \<and> mem_only s t \<and> A \<inter> dom (lv (lmem (lh s))) = {} \<and> 0 \<notin> A
     \<and> A \<subseteq> dom (lv (lmem (lh t))) \<and> (\<forall>a. a \<notin> A \<longrightarrow> lv (lmem (lh t)) a = lv (lmem (lh s)) a)"

lemma mem_only_refl [simp]: "mem_only s s"
  by (simp add: mem_only_def)

lemma mem_only_trans: "\<lbrakk>mem_only s t; mem_only t u\<rbrakk> \<Longrightarrow> mem_only s u"
  unfolding mem_only_def by (cases s; cases t; cases u) simp

lemma mem_only_lh: "lq l = lq (lh s) \<Longrightarrow> mem_only s (s\<lparr>lh := l\<rparr>)"
  by (simp add: mem_only_def)

lemma mem_only_heaps [simp]: "mem_only s (s\<lparr>cstrings := c\<rparr>)" "mem_only s (s\<lparr>argvs := v\<rparr>)" "mem_only s (s\<lparr>infos := i\<rparr>)"
  by (simp_all add: mem_only_def)

lemma mem_only_fields:
  assumes "mem_only s t"
  shows "processes t = processes s" "currentProcess t = currentProcess s" "priorityQueues t = priorityQueues s"
    "sems t = sems s" "hung t = hung s" "stray t = stray s" "fileDescriptors t = fileDescriptors s"
    "streams t = streams s" "lq (lh t) = lq (lh s)" "pcb t = pcb s" "getpid t = getpid s" "rqueued t = rqueued s"
    "cpu_rsp t = cpu_rsp s" "con t = con s" "kbd t = kbd s" "isYield t = isYield s" "ticks t = ticks s"
  using assms unfolding mem_only_def
  by (cases s; cases t; simp add: pcb_def getpid_def pid_at_def getCurrentProcess_def rqueued_def rq_def qdata_def
    qnodes_def fun_eq_iff)+

lemma sem_inv_heaps [simp]:
  "sem_inv I lv (s\<lparr>cstrings := c\<rparr>) = sem_inv I lv s" "sem_inv I lv (s\<lparr>argvs := v\<rparr>) = sem_inv I lv s"
  "sem_inv I lv (s\<lparr>infos := i\<rparr>) = sem_inv I lv s"
  by (simp_all add: sem_inv_def sem_ok_def sem_wait_list_def sched_wf_def queues_ok_def
      members_ok_def rqueued_def rq_def pcb_def)

lemma held_heaps [simp]:
  "holding I lv s A (t\<lparr>cstrings := c\<rparr>) = holding I lv s A t" "holding I lv s A (t\<lparr>argvs := v\<rparr>) = holding I lv s A t"
  by (simp_all add: holding_def mem_only_def) (cases s; cases t; auto)+

text \<open>The blocks that belong to a process.\<close>

definition proc_blocks :: "('m, 'z) kernel_scheme \<Rightarrow> nat \<Rightarrow> addr list" where
  "proc_blocks s p = (stackBase (pcb s p) - 4096) #
     (if argc (pcb s p) > 0
      then argv (pcb s p) # take (argc (pcb s p)) (argvs s (argv (pcb s p))) else [])"

text \<open>What a successful \<open>createProcess\<close> has done.\<close>

definition created ::
  "'m mm \<Rightarrow> ('m \<Rightarrow> bool) \<Rightarrow> ('m \<Rightarrow> addr \<rightharpoonup> nat) \<Rightarrow> creationParameters \<Rightarrow> nat
   \<Rightarrow> ('m, 'z) kernel_scheme \<Rightarrow> ('m, 'z) kernel_scheme \<Rightarrow> bool" where
  "created M I lv c p s t \<longleftrightarrow>
     1 \<le> p \<and> p \<le> 100 \<and> pstate (pcb s p) = EXITED \<and> (\<forall>q. 1 \<le> q \<and> q < p \<longrightarrow> pstate (pcb s q) \<noteq> EXITED)
     \<and> sem_inv I lv t
     \<and> (\<exists>st args. pcb t p = fill_pcb c st args (pcb s p) \<and> 4096 \<le> the (lv (lmem (lh t)) st))
     \<and> (\<forall>q. 1 \<le> q \<and> q \<noteq> p \<longrightarrow> pcb t q = pcb s q)
     \<and> distinct (proc_blocks t p)
     \<and> (\<forall>a \<in> set (proc_blocks t p). a \<noteq> 0 \<and> lv (lmem (lh s)) a = None \<and> outside lv (lh t) a \<noteq> None)
     \<and> (\<forall>a. a \<notin> set (proc_blocks t p) \<longrightarrow> outside lv (lh t) a = outside lv (lh s) a)
     \<and> length (proc_blocks t p) = (if c_argc c = 0 then 1 else 2 + nat (c_argc c))
     \<and> (c_argc c \<noteq> 0 \<longrightarrow> map (cstrings t) (argvs t (argv (pcb t p))) = take (nat (c_argc c)) (c_argv c))
     \<and> (rqueued t = add_mset p (rqueued s) \<or> rqueued t = rqueued s \<and> fst (mm_alloc M (lmem (lh t)) 16) = 0)
     \<and> currentProcess t = currentProcess s \<and> sems t = sems s \<and> fileDescriptors t = fileDescriptors s
     \<and> streams t = streams s \<and> hung t = hung s"

context kernel_memory
begin

abbreviation holds :: "('a, 'z) kernel_scheme \<Rightarrow> addr set \<Rightarrow> ('a, 'z) kernel_scheme \<Rightarrow> bool" where
  "holds \<equiv> holding inv live"

text \<open>Only the memory manager's state differs.\<close>

lemma swfs_lmem:
  assumes "swfs s" and "inv m" and "\<And>p. p \<in> owned (lh s) \<Longrightarrow> live m p = live (lmem (lh s)) p"
  shows "swfs (s\<lparr>lh := (lh s)\<lparr>lmem := m\<rparr>\<rparr>)"
proof -
  let ?l = "(lh s)\<lparr>lmem := m\<rparr>"
  have "wf (lh s)" using assms(1) by (simp add: sem_inv_def sched_wf_def queues_ok_def)
  then have "wf ?l"
    using assms(2,3) unfolding l_wf_def by (simp add: owned_lq [of ?l "lh s"])
  moreover have "qdata ?l = qdata (lh s)" by (simp add: qdata_def qnodes_def fun_eq_iff)
  ultimately show ?thesis
    using assms(1) by (simp add: sem_inv_def sem_ok_def sem_wait_list_def sched_wf_def queues_ok_def
      members_ok_def rqueued_def rq_def)
qed

lemma swfs_inv: "swfs s \<Longrightarrow> inv (lmem (lh s))" and swfs_wf: "swfs s \<Longrightarrow> wf (lh s)"
  by (simp_all add: sem_inv_def sched_wf_def queues_ok_def l_wf_def)

lemma k_free_spec:
  assumes "swfs s" and "live (lmem (lh s)) a \<noteq> None" and "a \<notin> owned (lh s)"
  shows "swfs (k_free M a s)" and "live (lmem (lh (k_free M a s))) = (live (lmem (lh s)))(a := None)"
proof -
  obtain sz where sz: "live (lmem (lh s)) a = Some sz" using assms(2) by auto
  show l: "live (lmem (lh (k_free M a s))) = (live (lmem (lh s)))(a := None)"
    using free_live [OF swfs_inv [OF assms(1)] sz] by (simp add: k_free_def)
  show "swfs (k_free M a s)"
    unfolding k_free_def
    by (rule swfs_lmem [OF assms(1) free_inv [OF swfs_inv [OF assms(1)] sz]])
      (use l assms(3) in \<open>auto simp: k_free_def\<close>)
qed

lemma k_free_null [simp]: "k_free M 0 s = s"
  by (simp add: k_free_def free_null)

lemma held_refl: "swfs s \<Longrightarrow> holds s {} s"
  by (simp add: holding_def)

lemma held_unowned:
  assumes "swfs s" and "holds s A t" and "a \<in> A"
  shows "a \<notin> owned (lh t)" and "a \<notin> owned (lh s)"
proof -
  have "a \<notin> dom (live (lmem (lh s)))" using assms(2,3) by (auto simp: holding_def)
  then show "a \<notin> owned (lh s)" using owned_live [OF swfs_wf [OF assms(1)], of a] by auto
  moreover have "lq (lh t) = lq (lh s)" using assms(2) by (simp add: holding_def mem_only_def)
  ultimately show "a \<notin> owned (lh t)" using owned_lq by metis
qed

lemma held_alloc:
  assumes "holds s A t" and "okreq n" and "k_alloc M n t = (a, u)"
  obtains (Fail) "a = 0" and "u = t"
  | (Ok) sz where "a \<noteq> 0" and "a \<notin> A" and "holds s (insert a A) u" and "unat n \<le> sz"
      and "live (lmem (lh u)) = (live (lmem (lh t)))(a \<mapsto> sz)"
proof (cases "a = 0")
  case True
  have "lmem (lh u) = lmem (lh t)" using k_alloc_spec(10) [OF _ assms(2,3)] assms(1) True by (simp add: holding_def)
  then have "u = t" using assms(3) by (cases t) (auto simp: k_alloc_def split: prod.splits)
  then show ?thesis using True Fail by simp
next
  case False
  have st: "swfs t" "mem_only s t" using assms(1) by (simp_all add: holding_def)
  note A = k_alloc_spec [OF st(1) assms(2,3)]
  obtain sz where sz: "live (lmem (lh t)) a = None" "live (lmem (lh u)) = (live (lmem (lh t)))(a \<mapsto> sz)" "unat n \<le> sz"
    using A(8) False by auto
  have mu: "mem_only s u"
    using mem_only_trans [OF st(2), of u] mem_only_lh [of "lh u" t] k_alloc_fields [OF assms(3)] by metis
  have nA: "a \<notin> A" using assms(1) sz(1) by (auto simp: holding_def)
  have "live (lmem (lh s)) a = None" using assms(1) sz(1) nA by (simp add: holding_def)
  then have "holds s (insert a A) u"
    using assms(1) A(1) mu sz(2) False unfolding holding_def by auto
  then show ?thesis using Ok False nA sz by blast
qed

lemma held_free:
  assumes "swfs s" and "holds s A t" and "a \<in> A"
  shows "holds s (A - {a}) (k_free M a t)"
proof -
  have t: "swfs t" "live (lmem (lh t)) a \<noteq> None" using assms(2,3) by (auto simp: holding_def)
  note F = k_free_spec [OF t held_unowned(1) [OF assms]]
  have "mem_only s (k_free M a t)"
    using mem_only_trans [of s t] mem_only_lh [of "lh (k_free M a t)" t] k_free_fields [of M a t] assms(2)
    unfolding holding_def by metis
  moreover have "live (lmem (lh s)) a = None" using assms(2,3) by (auto simp: holding_def)
  ultimately show ?thesis
    using assms(2,3) F unfolding holding_def by auto
qed

lemma held_free_args:
  assumes "swfs s" and "holds s A t" and "set ps \<subseteq> A" and "distinct ps"
  shows "holds s (A - set ps) (free_args M ps t)"
  using assms(2-4) unfolding free_args_def
proof (induction ps arbitrary: A t)
  case (Cons p ps)
  have "holds s (A - {p}) (k_free M p t)" using held_free [OF assms(1) Cons.prems(1)] Cons.prems(2) by simp
  from Cons.IH [OF this] Cons.prems(2,3) have "holds s (A - {p} - set ps) (fold (k_free M) ps (k_free M p t))"
    by auto
  moreover have "A - {p} - set ps = A - set (p # ps)" by auto
  ultimately show ?case by simp
qed simp

lemma copy_args_spec:
  assumes "holds s A t" and "set acc \<subseteq> A" and "distinct acc" and "copy_args M xs acc t = (ok, ps, u)"
    and "\<forall>x \<in> set xs. okreq (of_nat (length x + 1))"
  shows "\<exists>ns. ps = acc @ ns \<and> holds s (A \<union> set ns) u \<and> distinct ps \<and> set ns \<inter> A = {}
    \<and> (ok \<longrightarrow> length ns = length xs) \<and> map (cstrings u) ns = take (length ns) xs
    \<and> (\<forall>a \<in> A. cstrings u a = cstrings t a \<and> live (lmem (lh u)) a = live (lmem (lh t)) a)"
  using assms
proof (induction xs arbitrary: A acc t)
  case (Cons x xs)
  obtain p t1 where al: "k_alloc M (of_nat (length x + 1)) t = (p, t1)" by force
  have "okreq (of_nat (length x + 1))" using Cons.prems(5) by simp
  from Cons.prems(1) this al show ?case
  proof (cases rule: held_alloc)
    case Fail
    then show ?thesis using Cons.prems al by auto
  next
    case (Ok sz)
    let ?t = "t1\<lparr>cstrings := (cstrings t1)(p := x)\<rparr>"
    have "copy_args M xs (acc @ [p]) ?t = (ok, ps, u)"
      using Cons.prems(4) al Ok(1) by simp
    moreover have rest: "\<forall>x\<in>set xs. okreq (of_nat (length x + 1))" using Cons.prems(5) by simp
    moreover have "set (acc @ [p]) \<subseteq> insert p A" "distinct (acc @ [p])" "holds s (insert p A) ?t"
      using Cons.prems(2,3) Ok by auto
    ultimately obtain ns
      where ns: "ps = (acc @ [p]) @ ns" "holds s (insert p A \<union> set ns) u" "distinct ps" "set ns \<inter> insert p A = {}"
        "ok \<longrightarrow> length ns = length xs" "map (cstrings u) ns = take (length ns) xs"
        "\<forall>a \<in> insert p A. cstrings u a = cstrings ?t a \<and> live (lmem (lh u)) a = live (lmem (lh ?t)) a"
      using Cons.IH [of "insert p A" ?t "acc @ [p]"] rest by blast
    have c: "cstrings t1 = cstrings t" using al by (auto simp: k_alloc_def split: prod.splits)
    show ?thesis
      by (rule exI [of _ "p # ns"]) (use ns Ok c in auto)
  qed
qed auto

text \<open>The two ways in which \<open>createProcess\<close> ends once its parameters are accepted.\<close>

lemma outside_held:
  assumes "swfs s" and "holds s A t"
  shows "outside live (lh t) a = (if a \<in> A then live (lmem (lh t)) a else outside live (lh s) a)"
proof -
  have "owned (lh t) = owned (lh s)" using assms(2) owned_lq by (auto simp: holding_def mem_only_def)
  then show ?thesis
    using assms(2) held_unowned(1) [OF assms] by (auto simp: outside_def holding_def)
qed

lemma create_install:
  assumes "swfs s" and "holds s (insert st (B \<union> set ps)) t" and "st \<notin> B \<union> set ps"
    and "B = (if c_argc c = 0 then {} else {args})" and "c_argc c = 0 \<Longrightarrow> args = 0 \<and> ps = []"
    and "distinct ps" and "set ps \<inter> B = {}" and "length ps = nat (c_argc c)" and "0 \<le> c_argc c"
    and "4096 \<le> the (live (lmem (lh t)) st)" and "checkPriority (c_priority c)"
    and "map (cstrings t) ps = take (nat (c_argc c)) (c_argv c)" and "getFreeProcess t = int j"
    and "u = schedule M (j + 1) (upd_pcb (j + 1) (fill_pcb c st args)
           (if args = 0 then t else t\<lparr>argvs := (argvs t)(args := ps)\<rparr>))"
  shows "created M inv live c (j + 1) s u" and "pid (pcb u (j + 1)) = int (j + 1)"
proof -
  let ?A = "insert st (B \<union> set ps)" and ?p = "j + 1"
  define t1 where "t1 = (if args = 0 then t else t\<lparr>argvs := (argvs t)(args := ps)\<rparr>)"
  define t2 where "t2 = upd_pcb ?p (fill_pcb c st args) t1"
  have h: "holds s ?A t1" using assms(2) by (simp add: t1_def)
  then have m: "mem_only s t1" and w1: "swfs t1" by (simp_all add: holding_def)
  have gf: "getFreeProcess t = getFreeProcess s"
    using assms(2) mem_only_fields(1) [of s t] by (simp add: holding_def getFreeProcess_def)
  have j: "j < 100" "pstate (processes s j) = EXITED" "\<forall>m < j. pstate (processes s m) \<noteq> EXITED"
    using assms(13) unfolding gf by (cases rule: getFreeProcess_cases [of s]; simp)+
  note f1 = mem_only_fields [OF m]
  have fp: "pid (fill_pcb c st args x) = pid x" "prio_ok (fill_pcb c st args x)" for x
    using assms(11) by (simp_all add: fill_pcb_def prio_ok_def checkPriority_def)
  have s12: "sched_step t1 t2"
    unfolding t2_def using w1 j(1) by (intro step_upd_pcb) (simp_all add: sem_inv_def fp)
  have p2: "pcb t2 ?p = fill_pcb c st args (pcb s ?p)" "\<And>q. 1 \<le> q \<Longrightarrow> q \<noteq> ?p \<Longrightarrow> pcb t2 q = pcb s q"
    by (simp_all add: t2_def f1)
  have swf2: "swf t2" "prio_ok (pcb t2 ?p)" using s12 fp p2 by (simp_all add: sched_step_def)
  have u: "u = schedule M ?p t2" using assms(14) by (simp add: t1_def t2_def)
  have pr: "1 \<le> ?p" "?p \<le> 100" using j(1) by simp_all
  have s2u: "sched_step t2 u" unfolding u by (rule step_schedule [OF swf2(1) pr swf2(2)])
  note S = schedule_spec [OF swf2(1) pr swf2(2) u]
  note fu = lh_only_fields [OF S(3)]
  have s1u: "sched_step t1 u" by (rule sched_step_trans [OF s12 s2u])
  note I = sem_inv_step [OF w1 s1u]
  note k = same_kernel [of u t1, OF s1u [unfolded sched_step_def, THEN conjunct2, THEN conjunct2, THEN conjunct2, THEN conjunct1]]
  have out: "outside live (lh u) = outside live (lh t1)"
    using s1u by (simp add: sched_step_def qkeeps_def spares_def)
  have lt: "lmem (lh t1) = lmem (lh t)" "cstrings t1 = cstrings t" by (simp_all add: t1_def)
  have pu: "pcb u ?p = fill_pcb c st args (pcb s ?p)" "\<And>q. 1 \<le> q \<Longrightarrow> q \<noteq> ?p \<Longrightarrow> pcb u q = pcb s q"
    using p2 by (simp_all add: fu)
  have nz: "c_argc c \<noteq> 0 \<Longrightarrow> args \<noteq> 0" using assms(2,4) by (auto simp: holding_def)
  have blocks: "proc_blocks u ?p = st # (if c_argc c = 0 then [] else args # ps)"
    using assms(4,5,8,9) nz unfolding proc_blocks_def pu(1) by (auto simp: fill_pcb_def k(5) t1_def)
  have set_blocks: "set (proc_blocks u ?p) = ?A" unfolding blocks using assms(4,5) by auto
  have stA: "st \<in> ?A" by simp
  have "outside live (lh u) st = live (lmem (lh t)) st" "st \<notin> owned (lh u)"
  proof -
    show 1: "outside live (lh u) st = live (lmem (lh t)) st"
      unfolding out using outside_held [OF assms(1) h, of st] lt by simp
    have "live (lmem (lh t)) st \<noteq> None" using h lt by (auto simp: holding_def)
    then show "st \<notin> owned (lh u)" using 1 by (auto simp: outside_def)
  qed
  then have big: "4096 \<le> the (live (lmem (lh u)) st)" using assms(10) by (simp add: outside_def)
  have rq: "rqueued u = add_mset ?p (rqueued s) \<or> rqueued u = rqueued s \<and> fst (mm_alloc M (lmem (lh u)) 16) = 0"
  proof -
    have r2: "rqueued t2 = rqueued s" "lh t2 = lh t1" using f1 by (simp_all add: t2_def rqueued_def)
    show ?thesis using S(4,6) r2 by (cases "fst (mm_alloc M (lmem (lh t2)) 16) = 0") auto
  qed
  show "created M inv live c ?p s u"
    unfolding created_def
  proof (intro conjI)
    show "pstate (pcb s ?p) = EXITED" using j(2) by (simp add: pcb_def)
    show "\<forall>q. 1 \<le> q \<and> q < ?p \<longrightarrow> pstate (pcb s q) \<noteq> EXITED" using j(3) by (auto simp: pcb_def)
    show "\<exists>st args. pcb u ?p = fill_pcb c st args (pcb s ?p) \<and> 4096 \<le> the (live (lmem (lh u)) st)"
      using pu(1) big by blast
    show "distinct (proc_blocks u ?p)" unfolding blocks using assms(3-7) by auto
    show "\<forall>a \<in> set (proc_blocks u ?p). a \<noteq> 0 \<and> live (lmem (lh s)) a = None \<and> outside live (lh u) a \<noteq> None"
      unfolding set_blocks out using h outside_held [OF assms(1) h] by (auto simp: holding_def)
    show "\<forall>a. a \<notin> set (proc_blocks u ?p) \<longrightarrow> outside live (lh u) a = outside live (lh s) a"
      unfolding set_blocks out using outside_held [OF assms(1) h] by simp
    show "length (proc_blocks u ?p) = (if c_argc c = 0 then 1 else 2 + nat (c_argc c))"
      unfolding blocks using assms(8) by simp
    show "c_argc c \<noteq> 0 \<longrightarrow> map (cstrings u) (argvs u (argv (pcb u ?p))) = take (nat (c_argc c)) (c_argv c)"
      unfolding pu(1) using assms(12) nz by (auto simp: fill_pcb_def k lt t1_def)
  qed (use pr pu(2) I(1,2,3) fu f1 k rq in \<open>auto simp: t2_def\<close>)
  show "pid (pcb u ?p) = int ?p"
    using swfD(4) [OF _ pr, of u] I(1) by (simp add: sem_inv_def)
qed

lemma held_none:
  assumes "holds s {} t"
  shows "mem_only s t" and "swfs t" and "live (lmem (lh t)) = live (lmem (lh s))"
  using assms by (auto simp: holding_def fun_eq_iff)

lemma createProcess_cases:
  assumes "swfs s" and "0 < c_argc c \<Longrightarrow> okreq (of_int (c_argc c * 8))"
    and "\<forall>x \<in> set (take (nat (c_argc c)) (c_argv c)). okreq (of_nat (length x + 1))"
    and "nat (c_argc c) \<le> length (c_argv c)" and "createProcess M (Some c) s = (r, s')"
  obtains (Fail) "r = - 1" and "swfs s'" and "mem_only s s'" and "live (lmem (lh s')) = live (lmem (lh s))"
  | (Ok) p where "r = int p" and "created M inv live c p s s'"
proof -
  consider (bad) "\<not> checkPriority (c_priority c) \<or> c_argc c < 0 \<or> c_entryPoint c = 0 \<or> \<not> checkName (c_name c)"
    | (good) "checkPriority (c_priority c)" "0 \<le> c_argc c" "c_entryPoint c \<noteq> 0" "checkName (c_name c)"
    by linarith
  then show ?thesis
  proof cases
    case bad
    then have "r = - 1 \<and> s' = s" using assms(5) by (auto simp: createProcess_def)
    then show ?thesis using Fail assms(1) by simp
  next
    case good
    obtain st s1 where al: "k_alloc M STACK_SIZE s = (st, s1)" by force
    obtain args s2 where al2: "(if st \<noteq> 0 \<and> c_argc c \<noteq> 0 then k_alloc M (of_int (c_argc c * 8)) s1 else (0, s1)) = (args, s2)"
      by force
    obtain ok ps s3 where cp: "copy_args M (take (nat (c_argc c)) (c_argv c)) [] s2 = (ok, ps, s3)"
      by (metis prod.collapse)
    let ?fp = "getFreeProcess s3"
    let ?t = "if args = 0 then s3 else s3\<lparr>argvs := (argvs s3)(args := ps)\<rparr>"
    let ?u = "schedule M (nat ?fp + 1) (upd_pcb (nat ?fp + 1) (fill_pcb c st args) ?t)"
    have ng: "\<not> (\<not> checkPriority (c_priority c) \<or> c_argc c < 0 \<or> c_entryPoint c = 0 \<or> \<not> checkName (c_name c))"
      using good by simp
    have body: "(r, s') = (if st = 0 \<or> (c_argc c \<noteq> 0 \<and> args = 0) then (- 1, k_free M args (k_free M st s2))
        else if \<not> ok then (- 1, k_free M st (k_free M args (free_args M ps s3)))
        else if ?fp = - 1 then (- 1, k_free M args (free_args M ps (k_free M st s3)))
        else (pid (pcb ?u (nat ?fp + 1)), ?u))"
      using assms(5) [symmetric]
      by (simp only: createProcess_def option.case if_not_P [OF ng] al al2 cp Let_def split_conv process_sizes of_nat_numeral)
    from held_refl [OF assms(1)] req_stack al [unfolded STACK_SIZE_def] show ?thesis
    proof (cases rule: held_alloc)
      case Fail: Fail
      then have "r = - 1 \<and> s' = s" using body al2 by simp
      then show ?thesis using that(1) assms(1) by simp
    next
      case (Ok sz)
      note st = Ok
      show ?thesis
      proof (cases "c_argc c = 0")
        case True
        then have z: "args = 0" "s2 = s1" "ok" "ps = []" "s3 = s2" using al2 cp by auto
        show ?thesis
        proof (cases "?fp = - 1")
          case True
          then have "r = - 1 \<and> s' = k_free M st s1" using body st(1) z \<open>c_argc c = 0\<close> by (simp add: free_args_def)
          moreover have "holds s {} (k_free M st s1)" using held_free [OF assms(1) st(3)] by simp
          ultimately show ?thesis using that(1) held_none by metis
        next
          case False
          then obtain j where j: "?fp = int j" by (cases rule: getFreeProcess_cases [of s3]) auto
          have r: "r = pid (pcb s' (j + 1))" "s' = ?u" using body st(1) z j False \<open>c_argc c = 0\<close> by simp_all
          have "created M inv live c (j + 1) s s' \<and> pid (pcb s' (j + 1)) = int (j + 1)"
            by (intro conjI create_install [OF assms(1), of st "{}" "[]" s1 c 0 j s'])
              (use st z j r \<open>c_argc c = 0\<close> good in auto)
          then show ?thesis using that(2) [of "j + 1"] r(1) by metis
        qed
      next
        case False
        then have al3: "k_alloc M (of_int (c_argc c * 8)) s1 = (args, s2)" using al2 st(1) by simp
        have "okreq (of_int (c_argc c * 8))" using assms(2) good(2) False by simp
        from st(3) this al3 show ?thesis
        proof (cases rule: held_alloc)
          case Fail: Fail
          then have "r = - 1 \<and> s' = k_free M st s1" using body st(1) False by simp
          moreover have "holds s {} (k_free M st s1)" using held_free [OF assms(1) st(3)] by simp
          ultimately show ?thesis using that(1) held_none by metis
        next
          case (Ok sz')
          note ar = Ok
          have B: "holds s {args, st} s2" using ar(3) by (simp add: insert_commute)
          obtain "length (take (nat (c_argc c)) (c_argv c)) = nat (c_argc c)" using assms(4) by simp
          with copy_args_spec [OF B _ _ cp assms(3)]
          have ns: "holds s ({args, st} \<union> set ps) s3" "distinct ps" "set ps \<inter> {args, st} = {}"
              "ok \<longrightarrow> length ps = nat (c_argc c)" "map (cstrings s3) ps = take (length ps) (take (nat (c_argc c)) (c_argv c))"
              "\<forall>a \<in> {args, st}. live (lmem (lh s3)) a = live (lmem (lh s2)) a"
            by auto
          have d: "{args, st} \<union> set ps - set ps = {args, st}" "{args} \<union> set ps - set ps = {args}" using ns(3) by auto
          consider (short) "\<not> ok" | (full) "ok" "?fp = - 1" | (go) "ok" "?fp \<noteq> - 1" by blast
          then show ?thesis
          proof cases
            case short
            have 1: "holds s {args, st} (free_args M ps s3)"
              using held_free_args [OF assms(1) ns(1) _ ns(2)] d(1) by auto
            have 2: "holds s {st} (k_free M args (free_args M ps s3))"
              using held_free [OF assms(1) 1, of args] ar(2) by (simp add: insert_Diff_if)
            have 3: "holds s {} (k_free M st (k_free M args (free_args M ps s3)))"
              using held_free [OF assms(1) 2, of st] by simp
            have "r = - 1 \<and> s' = k_free M st (k_free M args (free_args M ps s3))"
              using body st(1) ar(1) short by simp
            with 3 show ?thesis using that(1) held_none by metis
          next
            case full
            have 1: "holds s ({args} \<union> set ps) (k_free M st s3)"
              using held_free [OF assms(1) ns(1), of st] ns(3) ar(2) by (simp add: insert_Diff_if)
            have 2: "holds s {args} (free_args M ps (k_free M st s3))"
              using held_free_args [OF assms(1) 1 _ ns(2)] d(2) by auto
            have 3: "holds s {} (k_free M args (free_args M ps (k_free M st s3)))"
              using held_free [OF assms(1) 2, of args] by simp
            have "r = - 1 \<and> s' = k_free M args (free_args M ps (k_free M st s3))"
              using body st(1) ar(1) full by simp
            with 3 show ?thesis using that(1) held_none by metis
          next
            case go
            then obtain j where j: "?fp = int j" by (cases rule: getFreeProcess_cases [of s3]) auto
            have r: "r = pid (pcb s' (j + 1))" "s' = ?u" using body st(1) ar(1) go j by simp_all
            have len: "length ps = nat (c_argc c)" using ns(4) go(1) by simp
            have str: "map (cstrings s3) ps = take (nat (c_argc c)) (c_argv c)" using ns(5) len by simp
            have big: "4096 \<le> the (live (lmem (lh s3)) st)" using ns(6) ar st by simp
            have A: "holds s (insert st ({args} \<union> set ps)) s3" using ns(1) by (simp add: insert_commute)
            have "created M inv live c (j + 1) s s' \<and> pid (pcb s' (j + 1)) = int (j + 1)"
              by (intro conjI create_install [OF assms(1) A])
                (use ns(2,3) ar(1,2) len str big j r False good in auto)
            then show ?thesis using that(2) [of "j + 1"] r(1) by metis
          qed
        qed
      qed
    qed
  qed
qed

section \<open>Ending a process\<close>

text \<open>Taking a process out of the ready queues.\<close>

lemma remove_ready:
  assumes "swf s" and "i < 5" and "s' = s\<lparr>lh := snd (l_removeFromQueue M (lh s) (priorityQueues s i) p)\<rparr>"
  shows "sched_step s s'" and "j < 5 \<Longrightarrow> rq s' j = (if j = i then remove1 p (rq s i) else rq s j)"
proof -
  let ?q = "priorityQueues s i" and ?l = "snd (l_removeFromQueue M (lh s) (priorityQueues s i) p)"
  obtain xs where q: "wf (lh s)" "lq (lh s) ?q = Some xs"
    using qok_queue [OF swfD(1) [OF assms(1)] assms(2)] .
  have keep: "qkeeps inv live (lh s) ?l"
    using q by (cases rule: remove_cases [where e = p]) (auto simp: qkeeps_def q)
  have rq': "rq s' j = (if j = i then remove1 p (rq s i) else rq s j)" if "j < 5" for j
    unfolding assms(3) using rq_upd [OF swfD(1) [OF assms(1)] assms(2) that qdata_remove [OF q, of p]]
    by (simp add: rq_def)
  then show "j < 5 \<Longrightarrow> rq s' j = (if j = i then remove1 p (rq s i) else rq s j)" .
  have sub: "x \<in># rqueued s" if "x \<in># rqueued s'" for x
    using that rq' notin_set_remove1 unfolding in_rqueued by (metis (full_types))
  have "members_ok s'" using swfD(2) [OF assms(1)] sub by (auto simp: members_ok_def assms(3))
  then have "swf s'"
    using assms(1) queues_ok_upd [OF swfD(1) [OF assms(1)] keep] by (simp add: sched_wf_def assms(3))
  moreover have "qdata ?l w = qdata (lh s) w" if "w \<notin> range (priorityQueues s)" for w
    using qdata_remove [OF q, of p] that by (auto simp: fun_upd_def)
  ultimately show "sched_step s s'"
    using keep by (simp add: sched_step_def assms(3))
qed

lemma remove_from_queues_spec:
  assumes "swf s" and "set is \<subseteq> {..<5}" and "distinct is" and "s' = remove_from_queues M is p s"
  shows "sched_step s s' \<and> lh_only s s' \<and> (\<forall>j < 5. rq s' j = (if j \<in> set is then remove1 p (rq s j) else rq s j))"
  using assms
proof (induction "is" arbitrary: s)
  case (Cons i "is")
  let ?s = "s\<lparr>lh := snd (l_removeFromQueue M (lh s) (priorityQueues s i) p)\<rparr>"
  have i: "i < 5" using Cons.prems(2) by simp
  note R = remove_ready [OF Cons.prems(1) i refl, where p = p]
  have "swf ?s" using R(1) by (simp add: sched_step_def)
  from Cons.IH [OF this] Cons.prems(2-4)
  have IH: "sched_step ?s s'" "lh_only ?s s'" "\<forall>j < 5. rq s' j = (if j \<in> set is then remove1 p (rq ?s j) else rq ?s j)"
    by auto
  have "lh_only s s'" using lh_only_trans [OF lh_only_upd IH(2)] .
  then show ?case
    using sched_step_trans [OF R(1) IH(1)] IH(3) R(2) Cons.prems(3) by auto
qed (simp add: step_refl)

lemma unscheduleProcess_spec:
  assumes "swf s" and "p \<noteq> 0" and "s' = unscheduleProcess M p s" and "count (rqueued s) p \<le> 1"
  shows "sched_step s s'" and "lh_only s s'" and "rqueued s' = rqueued s - {#p#}" and "p \<notin># rqueued s'"
proof -
  have R: "sched_step s s'" "lh_only s s'" "\<And>j. j < 5 \<Longrightarrow> rq s' j = remove1 p (rq s j)"
    using remove_from_queues_spec [OF assms(1), of "[0..<5]" s' p] assms(2,3)
    by (simp_all add: unscheduleProcess_def atLeast0LessThan)
  show "sched_step s s'" "lh_only s s'" by (fact R)+
  have le: "count (mset (rq s j)) p \<le> 1" if "j < 5" for j
  proof -
    have "count (mset (rq s j)) p \<le> (\<Sum>k < 5. count (mset (rq s k)) p)"
      using that by (intro member_le_sum) auto
    then show ?thesis using assms(4) by (simp add: rqueued_def count_sum)
  qed
  have c: "count (mset (rq s' j)) x = (if x = p then 0 else count (mset (rq s j)) x)" if "j < 5" for j x
    using R(3) [OF that] le [OF that] by auto
  then have cnt: "count (rqueued s') x = (if x = p then 0 else count (rqueued s) x)" for x
    by (simp add: rqueued_def count_sum)
  then show "p \<notin># rqueued s'" by (simp add: not_in_iff)
  show "rqueued s' = rqueued s - {#p#}"
    by (rule multiset_eqI) (use cnt assms(4) in auto)
qed

text \<open>Releasing blocks that belong to no queue.\<close>

lemma k_free_out:
  assumes "swfs s" and "outside live (lh s) a \<noteq> None"
  shows "swfs (k_free M a s)" and "outside live (lh (k_free M a s)) = (outside live (lh s))(a := None)"
    and "mem_only s (k_free M a s)" and "argvs (k_free M a s) = argvs s"
proof -
  have a: "live (lmem (lh s)) a \<noteq> None" "a \<notin> owned (lh s)"
    using assms(2) by (auto simp: outside_def split: if_splits)
  note F = k_free_spec [OF assms(1) a]
  show "swfs (k_free M a s)" by (fact F(1))
  show "outside live (lh (k_free M a s)) = (outside live (lh s))(a := None)"
    using owned_lq [OF k_free_fields(2) [of M a s]] F(2) by (auto simp: outside_def fun_eq_iff)
  show "mem_only s (k_free M a s)" "argvs (k_free M a s) = argvs s" by (simp_all add: k_free_def mem_only_def)
qed

lemma free_blocks:
  assumes "swfs s" and "distinct bs" and "\<forall>a \<in> set bs. outside live (lh s) a \<noteq> None"
  shows "swfs (fold (k_free M) bs s) \<and> mem_only s (fold (k_free M) bs s)
    \<and> outside live (lh (fold (k_free M) bs s)) = (\<lambda>a. if a \<in> set bs then None else outside live (lh s) a)"
  using assms
proof (induction bs arbitrary: s)
  case (Cons b bs)
  have b: "outside live (lh s) b \<noteq> None" using Cons.prems(3) by simp
  note F = k_free_out [OF Cons.prems(1) b]
  have "\<forall>a \<in> set bs. outside live (lh (k_free M b s)) a \<noteq> None" using F(2) Cons.prems(2,3) by auto
  with Cons.IH [OF F(1)] Cons.prems(2) F(2,3) mem_only_trans show ?case
    by (auto simp: fun_eq_iff)
qed simp

lemma release_memory_fold:
  "release_memory M p s = fold (k_free M) ((stackBase (pcb s p) - 4096) #
     (if argc (pcb s p) > 0 then take (argc (pcb s p)) (argvs s (argv (pcb s p))) @ [argv (pcb s p)] else [])) s"
  by (simp add: release_memory_def free_args_def Let_def) (simp add: k_free_def)

lemma release_memory_spec:
  assumes "swfs s" and "distinct (proc_blocks s p)" and "\<forall>a \<in> set (proc_blocks s p). outside live (lh s) a \<noteq> None"
  shows "swfs (release_memory M p s)" and "mem_only s (release_memory M p s)"
    and "outside live (lh (release_memory M p s)) = (\<lambda>a. if a \<in> set (proc_blocks s p) then None else outside live (lh s) a)"
proof -
  define bs where "bs = (stackBase (pcb s p) - 4096) #
     (if argc (pcb s p) > 0 then take (argc (pcb s p)) (argvs s (argv (pcb s p))) @ [argv (pcb s p)] else [])"
  have "set bs = set (proc_blocks s p)" "distinct bs"
    using assms(2) by (auto simp: proc_blocks_def bs_def split: if_splits)
  with free_blocks [OF assms(1), of bs] assms(3)
  show "swfs (release_memory M p s)" "mem_only s (release_memory M p s)"
    "outside live (lh (release_memory M p s)) = (\<lambda>a. if a \<in> set (proc_blocks s p) then None else outside live (lh s) a)"
    unfolding release_memory_fold bs_def [symmetric] by simp_all
qed

text \<open>The exited process never runs again.\<close>

lemma exit_self:
  assumes "swf s" and "currentProcess s = c" and "c \<noteq> 0" and "c \<notin># rqueued s"
    and "pstate (pcb s c) = EXITED" and "s' = forceSwitchContext M s"
  shows "pstate (pcb s' c) = EXITED" and "c \<notin># rqueued s'" and "currentProcess s' \<noteq> c"
proof -
  define sb where "sb = s\<lparr>ticks := ticks s + 1\<rparr>"
  obtain r' s'' where sw: "switchContext M (cpu_rsp s) sb = (r', s'')" by force
  have s': "s' = s''\<lparr>cpu_rsp := r'\<rparr>"
    using sw by (simp add: assms(6) forceSwitchContext_def irq00_fields sb_def)
  have fb: "swf sb" "currentProcess sb = c" "pcb sb = pcb s" "rqueued sb = rqueued s"
    using assms(1,2) by (simp_all add: sb_def)
  have nz: "currentProcess sb \<noteq> 0" and c: "1 \<le> c" using fb(2) assms(3) by simp_all
  have stop: "\<not> (pstate (pcb sb (currentProcess sb)) = RUNNING \<and> 0 < quantumsLeft sb \<and> \<not> isYield sb)"
    using fb assms(5) by simp
  define s1 where "s1 = applyAging M (retire M (cpu_rsp s) sb)"
  note rt = retire_spec [OF fb(1) nz refl, where rsp = "cpu_rsp s"]
  note ag = applyAging_keeps [OF swfD(1,2) [OF rt(1)] s1_def]
  have "rqueued s1 = rqueued s" using ag(4) rt(7) fb assms(5) by simp
  then have notc: "c \<notin> set (serving_order s1)" using assms(4) by (simp add: set_serving)
  have pc1: "pstate (pcb s1 c) = EXITED"
    using aged_fields(2,4) [OF ages_pcb [OF ag(3) c]] rt(6) fb assms(5) by simp
  have "c \<noteq> currentProcess s'' \<and> c \<notin># rqueued s'' \<and> pcb s'' c = pcb s1 c"
    using switch_spec [OF fb(1) nz stop s1_def sw] unfolding Let_def
  proof (elim conjE disjE exE, goal_cases)
    case 1
    then show ?case using assms(3) c by (simp add: set_serving [symmetric])
  next
    case (2 xs)
    then show ?case using notc c by (auto simp: set_serving [symmetric])
  qed
  then show "pstate (pcb s' c) = EXITED" "c \<notin># rqueued s'" "currentProcess s' \<noteq> c"
    using s' pc1 by simp_all
qed

lemma unblock_pcb:
  assumes "swf s" and "s' = snd (unblockProcess M i s)"
  shows "1 \<le> q \<Longrightarrow> pcb s' q = (if i = int q \<and> q \<le> 100 \<and> pstate (pcb s q) = BLOCKED
      then (pcb s q)\<lparr>pstate := READY\<rparr> else pcb s q)"
    and "rqueued s' = rqueued s \<or> (\<exists>q. i = int q \<and> 1 \<le> q \<and> q \<le> 100 \<and> pstate (pcb s q) = BLOCKED
      \<and> rqueued s' = add_mset q (rqueued s))"
    and "currentProcess s' = currentProcess s"
proof -
  let ?p = "getProcess s i"
  have all: "(1 \<le> q \<longrightarrow> pcb s' q = (if i = int q \<and> q \<le> 100 \<and> pstate (pcb s q) = BLOCKED
        then (pcb s q)\<lparr>pstate := READY\<rparr> else pcb s q))
      \<and> (rqueued s' = rqueued s \<or> (\<exists>q. i = int q \<and> 1 \<le> q \<and> q \<le> 100 \<and> pstate (pcb s q) = BLOCKED
        \<and> rqueued s' = add_mset q (rqueued s))) \<and> currentProcess s' = currentProcess s" for q
  proof (cases "?p = 0 \<or> pstate (pcb s ?p) \<noteq> BLOCKED")
    case True
    then have "s' = s" by (simp add: assms(2) unblockProcess_def Let_def)
    moreover have "\<not> (i = int q \<and> 1 \<le> q \<and> q \<le> 100 \<and> pstate (pcb s q) = BLOCKED)"
      using True by (cases rule: getProcess_cases [where s = s and i = i, OF refl, case_names Null Ok])
        (auto simp: isValidPID_def pcb_def nat_diff_distrib)
    ultimately show ?thesis by auto
  next
    case False
    let ?t = "upd_pcb ?p (\<lambda>x. x\<lparr>pstate := READY\<rparr>) s"
    have s': "s' = schedule M ?p ?t" using False by (simp add: assms(2) unblockProcess_def Let_def)
    have p: "1 \<le> ?p" "?p \<le> 100" "i = int ?p"
      using False by (cases rule: getProcess_cases [where s = s and i = i, OF refl, case_names Null Ok];
          auto simp: isValidPID_def)+
    have pr: "prio_ok (pcb s ?p)" using swfD(5) [OF assms(1) p(1,2)] False by simp
    have t: "swf ?t" "prio_ok (pcb ?t ?p)"
      using swf_upd_pcb [OF assms(1) p(1,2), of "\<lambda>x. x\<lparr>pstate := READY\<rparr>"] pr p(1) by auto
    note S = schedule_spec [OF t(1) p(1,2) t(2) s']
    note fu = lh_only_fields [OF S(3)]
    have "rqueued s' = rqueued s \<or> rqueued s' = add_mset ?p (rqueued s)"
      using S(4,6) by (cases "fst (mm_alloc M (lmem (lh ?t)) 16) = 0") auto
    then show ?thesis using p False by (auto simp: fu)
  qed
  then show "1 \<le> q \<Longrightarrow> pcb s' q = (if i = int q \<and> q \<le> 100 \<and> pstate (pcb s q) = BLOCKED
      then (pcb s q)\<lparr>pstate := READY\<rparr> else pcb s q)"
    and "rqueued s' = rqueued s \<or> (\<exists>q. i = int q \<and> 1 \<le> q \<and> q \<le> 100 \<and> pstate (pcb s q) = BLOCKED
      \<and> rqueued s' = add_mset q (rqueued s))"
    and "currentProcess s' = currentProcess s"
    by blast+
qed

lemma closeFD_console:
  assumes "fd \<in> {0, 1, 2}" and "s' = snd (closeFD M fd s)"
  shows "swfs s' = swfs s" "lh s' = lh s" "pcb s' = pcb s" "rqueued s' = rqueued s"
    "currentProcess s' = currentProcess s" "sems s' = sems s"
proof -
  have console: "snd (closeFD M 1 s) = s" "snd (closeFD M 2 s) = s"
    "snd (closeFD M 0 s) = (if isOpen (fileDescriptors s 0)
       then upd_stream (resource (fileDescriptors s 0)) (\<lambda>x. x\<lparr>eof := False\<rparr>) s else s)"
    by (simp_all add: closeFD_def Let_def)
  have "s' = s \<or> (\<exists>a f. s' = upd_stream a f s)"
    using assms by (elim insertE emptyE) (simp_all add: console, blast)
  then show "swfs s' = swfs s" "lh s' = lh s" "pcb s' = pcb s" "rqueued s' = rqueued s"
    "currentProcess s' = currentProcess s" "sems s' = sems s"
    by (auto simp: rqueued_def rq_def)
qed

text \<open>Up to the wake-up of the waiting process.\<close>

lemma kill_reap:
  assumes "swfs s" and "1 < p" and "p \<le> 100" and "pstate (pcb s p) \<noteq> EXITED" and "count (rqueued s) p \<le> 1"
    and "distinct (proc_blocks s p)" and "\<forall>a \<in> set (proc_blocks s p). outside live (lh s) a \<noteq> None"
    and "fd_in (pcb s p) \<in> {0, 1, 2}" and "fd_out (pcb s p) \<in> {0, 1, 2}"
    and "s3 = upd_pcb p (\<lambda>x. x\<lparr>pstate := EXITED, argv := 0, argc := 0\<rparr>) (release_memory M p (unscheduleProcess M p s))"
    and "s5 = snd (closeFD M (fd_out (pcb s4 p)) s4)" and "s4 = snd (closeFD M (fd_in (pcb s3 p)) s3)"
  shows "swfs s5" and "currentProcess s5 = currentProcess s" and "p \<notin># rqueued s5"
    and "pcb s5 p = (pcb s p)\<lparr>pstate := EXITED, argv := 0, argc := 0\<rparr>"
    and "\<And>q. \<lbrakk>1 \<le> q; q \<noteq> p\<rbrakk> \<Longrightarrow> pcb s5 q = pcb s q" and "rqueued s5 = rqueued s - {#p#}"
    and "outside live (lh s5) = (\<lambda>a. if a \<in> set (proc_blocks s p) then None else outside live (lh s) a)"
proof -
  define s1 where "s1 = unscheduleProcess M p s"
  define s2 where "s2 = release_memory M p s1"
  have sw: "swf s" using assms(1) by (simp add: sem_inv_def)
  have p0: "p \<noteq> 0" "1 \<le> p" using assms(2) by simp_all
  note U = unscheduleProcess_spec [OF sw p0(1) s1_def assms(5)]
  note f1 = lh_only_fields [OF U(2)]
  have w1: "swfs s1" by (rule sem_inv_step(1) [OF assms(1) U(1)])
  have o1: "outside live (lh s1) = outside live (lh s)"
    using U(1) by (simp add: sched_step_def qkeeps_def spares_def)
  have b1: "proc_blocks s1 p = proc_blocks s p"
    using same_kernel(5) [OF f1(11)] by (simp add: proc_blocks_def f1)
  note R = release_memory_spec [of s1 p, OF w1, unfolded b1 o1, OF assms(6,7), folded s2_def]
  note f2 = mem_only_fields [OF R(2)]
  have s3: "s3 = upd_pcb p (\<lambda>x. x\<lparr>pstate := EXITED, argv := 0, argc := 0\<rparr>) s2"
    using assms(10) by (simp add: s1_def s2_def)
  have pr: "prio_ok (pcb s2 p)" using swfD(5) [OF sw p0(2) assms(3,4)] by (simp add: f1 f2)
  have st: "sched_step s2 s3"
    unfolding s3 using R(1) p0(2) assms(3) pr by (intro step_upd_pcb) (simp_all add: sem_inv_def prio_ok_def)
  have w3: "swfs s3" by (rule sem_inv_step(1) [OF R(1) st])
  have r3: "rqueued s3 = rqueued s2" by (simp add: s3 rqueued_def)
  have f3: "lh s3 = lh s2" "currentProcess s3 = currentProcess s" "rqueued s3 = rqueued s1"
    "pcb s3 p = (pcb s p)\<lparr>pstate := EXITED, argv := 0, argc := 0\<rparr>" "\<And>q. \<lbrakk>1 \<le> q; q \<noteq> p\<rbrakk> \<Longrightarrow> pcb s3 q = pcb s q"
    using p0 r3 by (simp_all add: s3 f1 f2)
  have fd: "fd_in (pcb s3 p) \<in> {0, 1, 2}" using assms(8) f3(4) by simp
  note C4 = closeFD_console [OF fd assms(12)]
  have fd': "fd_out (pcb s4 p) \<in> {0, 1, 2}" using assms(9) f3(4) C4(3) by simp
  note C5 = closeFD_console [OF fd' assms(11)]
  show "swfs s5" "currentProcess s5 = currentProcess s" "p \<notin># rqueued s5"
    "pcb s5 p = (pcb s p)\<lparr>pstate := EXITED, argv := 0, argc := 0\<rparr>"
    "\<And>q. \<lbrakk>1 \<le> q; q \<noteq> p\<rbrakk> \<Longrightarrow> pcb s5 q = pcb s q" "rqueued s5 = rqueued s - {#p#}"
    "outside live (lh s5) = (\<lambda>a. if a \<in> set (proc_blocks s p) then None else outside live (lh s) a)"
    using w3 f3 U(3,4) R(3) by (simp_all add: C4 C5)
qed

text \<open>What \<open>kill\<close> promises of the state it leaves behind.\<close>

lemma kill_spec:
  assumes "swfs s" and "1 < p" and "p \<le> 100" and "pstate (pcb s p) \<noteq> EXITED" and "count (rqueued s) p \<le> 1"
    and "distinct (proc_blocks s p)" and "\<forall>a \<in> set (proc_blocks s p). outside live (lh s) a \<noteq> None"
    and "fd_in (pcb s p) \<in> {0, 1, 2}" and "fd_out (pcb s p) \<in> {0, 1, 2}" and "currentProcess s \<noteq> 0"
    and "kill M (int p) s = (r, s')"
  shows "r = (if currentProcess s = p then Sleep else Ret 0)" and "swfs s'"
    and "pstate (pcb s' p) = EXITED" and "p \<notin># rqueued s'" and "currentProcess s' \<noteq> p"
    and "outside live (lh s') = (\<lambda>a. if a \<in> set (proc_blocks s p) then None else outside live (lh s) a)"
    and "\<lbrakk>currentProcess s \<noteq> p; 1 \<le> q; q \<noteq> p\<rbrakk> \<Longrightarrow> pcb s' q =
      (if waitPid (pcb s p) = int q \<and> q \<le> 100 \<and> pstate (pcb s q) = BLOCKED then (pcb s q)\<lparr>pstate := READY\<rparr> else pcb s q)"
proof -
  define s3 where "s3 = upd_pcb p (\<lambda>x. x\<lparr>pstate := EXITED, argv := 0, argc := 0\<rparr>) (release_memory M p (unscheduleProcess M p s))"
  define s4 where "s4 = snd (closeFD M (fd_in (pcb s3 p)) s3)"
  define s5 where "s5 = snd (closeFD M (fd_out (pcb s4 p)) s4)"
  define s6 where "s6 = (if waitPid (pcb s5 p) \<noteq> NONPID
     then upd_pcb p (\<lambda>x. x\<lparr>waitPid := NONPID\<rparr>) (snd (unblockProcess M (waitPid (pcb s5 p)) s5)) else s5)"
  note K = kill_reap [OF assms(1-9) s3_def s5_def s4_def]
  have np: "\<not> (int p \<le> INITPID \<or> int p > MAX_PID)" using assms(2,3) by simp
  have body: "(r, s') = (if getpid s6 = int p then (Sleep, forceSwitchContext M s6) else (Ret 0, s6))"
    unfolding assms(11) [symmetric]
    by (simp only: kill_def Let_def if_not_P [OF np] nat_int if_not_P [OF assms(4)] s3_def [symmetric]
        s4_def [symmetric] s5_def [symmetric] s6_def [symmetric])
  have p: "1 \<le> p" "p \<noteq> 0" using assms(2) by simp_all
  have sw5: "swf s5" using K(1) by (simp add: sem_inv_def)
  let ?w = "snd (unblockProcess M (waitPid (pcb s5 p)) s5)"
  note B = unblock_pcb [OF sw5 refl, where i = "waitPid (pcb s5 p)"]
  have wait: "waitPid (pcb s5 p) = waitPid (pcb s p)" "pstate (pcb s5 p) = EXITED" using K(4) by simp_all
  have pw: "pcb ?w p = pcb s5 p" using B(1) [OF p(1)] wait(2) by simp
  have stw: "sched_step s5 ?w" by (rule step_unblock [OF sw5])
  have pr: "prio_ok (pcb s5 p)"
  proof -
    have "prio_ok (pcb s p)" using swfD(5) [OF _ p(1) assms(3,4)] assms(1) by (simp add: sem_inv_def)
    then show ?thesis using K(4) by (simp add: prio_ok_def)
  qed
  have "sched_step ?w (upd_pcb p (\<lambda>x. x\<lparr>waitPid := NONPID\<rparr>) ?w)"
    using stw p(1) assms(3) pw pr by (intro step_upd_pcb) (simp_all add: sched_step_def prio_ok_def)
  then have st6: "sched_step s5 s6"
    using sched_step_trans [OF stw] step_refl [OF sw5] by (simp add: s6_def)
  have w6: "swfs s6" by (rule sem_inv_step(1) [OF K(1) st6])
  have o6: "outside live (lh s6) = outside live (lh s5)"
    using st6 by (simp add: sched_step_def qkeeps_def spares_def)
  have c6: "currentProcess s6 = currentProcess s" using K(2) B(3) by (simp add: s6_def)
  have e6: "pstate (pcb s6 p) = EXITED" using pw wait(2) p(1) by (simp add: s6_def)
  have q6: "p \<notin># rqueued s6"
  proof -
    have "p \<notin># rqueued ?w" using B(2) K(3) wait(2) by auto
    then show ?thesis using K(3) by (simp add: s6_def)
  qed
  have sw6: "swf s6" using w6 by (simp add: sem_inv_def)
  have gp: "getpid s6 = int p \<longleftrightarrow> currentProcess s = p"
    using swfD(3) [OF sw6] swfD(4) [OF sw6, of "currentProcess s6"] c6 assms(10)
    by (auto simp: getpid_def getCurrentProcess_def pid_at_def)
  have st': "sched_step s6 (forceSwitchContext M s6)"
    unfolding forceSwitchContext_def by (rule step_irq00 [OF sw6])
  show "r = (if currentProcess s = p then Sleep else Ret 0)" using body gp by (simp split: if_splits)
  show "swfs s'" using body w6 sem_inv_step(1) [OF w6 st'] by (simp split: if_splits)
  show "outside live (lh s') = (\<lambda>a. if a \<in> set (proc_blocks s p) then None else outside live (lh s) a)"
    using body st' o6 K(7) by (simp add: sched_step_def qkeeps_def spares_def split: if_splits)
  show "pstate (pcb s' p) = EXITED" "p \<notin># rqueued s'" "currentProcess s' \<noteq> p"
    using body gp e6 q6 c6 exit_self [OF sw6 _ p(2) q6 e6 refl] by (auto split: if_splits)
  show "pcb s' q = (if waitPid (pcb s p) = int q \<and> q \<le> 100 \<and> pstate (pcb s q) = BLOCKED then (pcb s q)\<lparr>pstate := READY\<rparr> else pcb s q)"
    if "currentProcess s \<noteq> p" "1 \<le> q" "q \<noteq> p"
  proof -
    have "s' = s6" using body gp that(1) by simp
    then show ?thesis using B(1) [OF that(2)] K(5) [OF that(2,3)] wait that p(1) by (auto simp: s6_def)
  qed
qed

end

section \<open>The list of processes\<close>

lemma copy_infos_spec:
  assumes "k + length (filter (\<lambda>i. pstate (ps i) \<noteq> EXITED) is) \<le> cnt"
  shows "copy_infos is k cnt ps ans = (\<lambda>i. if k \<le> i \<and> i < k + length (filter (\<lambda>i. pstate (ps i) \<noteq> EXITED) is)
     then ps (filter (\<lambda>i. pstate (ps i) \<noteq> EXITED) is ! (i - k)) else ans i)"
  using assms
proof (induction "is" arbitrary: k ans)
  case (Cons x "is")
  show ?case
  proof (cases "pstate (ps x) = EXITED")
    case True
    then show ?thesis using Cons.IH [of k ans] Cons.prems by (auto simp: fun_eq_iff)
  next
    case False
    have "copy_infos (x # is) k cnt ps ans = copy_infos is (k + 1) cnt ps (ans(k := ps x))"
      using False Cons.prems by simp
    also have "\<dots> = (\<lambda>i. if k + 1 \<le> i \<and> i < k + 1 + length (filter (\<lambda>i. pstate (ps i) \<noteq> EXITED) is)
        then ps (filter (\<lambda>i. pstate (ps i) \<noteq> EXITED) is ! (i - (k + 1))) else (ans(k := ps x)) i)"
      by (rule Cons.IH) (use False Cons.prems in simp)
    finally show ?thesis using False by (auto simp: fun_eq_iff nth_Cons')
  qed
qed (auto simp: fun_eq_iff)

section \<open>Properties\<close>

lemma naive_okreq_nat: "\<lbrakk>0 < n; n < 4294967288\<rbrakk> \<Longrightarrow> naive_okreq (of_nat n)"
  by (simp add: naive_okreq_def unat_of_nat)

text \<open>
  C16: \<open>createProcess\<close> succeeds completely or has no effect. If it cannot validate its
  parameters, finds no free process or runs out of memory at any of its allocations, it
  answers -1 and every block it had taken is returned; the process table and the queues are
  as before. If it succeeds it has used the lowest free process: its control block is filled
  in, it is ready and queued once more (unless there was no memory for the queue node), its
  stack and argument copies are new blocks that belong to nobody else, and the copies hold
  the arguments.
\<close>

theorem createProcess_all_or_nothing:
  assumes "sem_inv naive_inv naive_live s" and "c_argc c < 1000" and "nat (c_argc c) \<le> length (c_argv c)"
    and "\<forall>x \<in> set (c_argv c). length x < 4294967287" and "createProcess naive_mm (Some c) s = (r, s')"
  shows "r = - 1 \<and> sem_inv naive_inv naive_live s' \<and> mem_only s s' \<and> naive_live (lmem (lh s')) = naive_live (lmem (lh s))
    \<or> (\<exists>p. r = int p \<and> created naive_mm naive_inv naive_live c p s s')"
proof -
  have ok: "naive_okreq (of_int (c_argc c * 8))" if "0 < c_argc c"
  proof -
    have "of_int (c_argc c * 8) = (of_nat (nat (c_argc c * 8)) :: u32)" using that by (simp add: of_nat_nat)
    then show ?thesis using naive_okreq_nat [of "nat (c_argc c * 8)"] that assms(2) by simp
  qed
  have args: "\<forall>x \<in> set (take (nat (c_argc c)) (c_argv c)). naive_okreq (of_nat (length x + 1))"
    using assms(4) by (auto intro!: naive_okreq_nat dest: in_set_takeD simp del: of_nat_add of_nat_Suc)
  show ?thesis
    by (rule naive.createProcess_cases [OF assms(1) ok args assms(3,5)]) auto
qed


text \<open>
  C18: no memory is lost over the life of a process: after a process has been created and
  killed, the blocks that belong to no queue are the ones there were before.
\<close>

theorem create_kill_roundtrip:
  assumes "sem_inv naive_inv naive_live s" and "created naive_mm naive_inv naive_live c p s t" and "1 < p"
    and "p \<notin># rqueued s" and "c_fd_in c \<in> {0, 1, 2}" and "c_fd_out c \<in> {0, 1, 2}" and "currentProcess s \<noteq> 0"
    and "kill naive_mm (int p) t = (r, s')"
  shows "outside naive_live (lh s') = outside naive_live (lh s) \<and> pstate (pcb s' p) = EXITED"
proof -
  obtain st args where pt: "pcb t p = fill_pcb c st args (pcb s p)" and pp: "1 \<le> p" "p \<le> 100"
    and wt: "sem_inv naive_inv naive_live t" and d: "distinct (proc_blocks t p)"
    and b: "\<forall>a \<in> set (proc_blocks t p). a \<noteq> 0 \<and> naive_live (lmem (lh s)) a = None \<and> outside naive_live (lh t) a \<noteq> None"
    and o: "\<forall>a. a \<notin> set (proc_blocks t p) \<longrightarrow> outside naive_live (lh t) a = outside naive_live (lh s) a"
    and rq: "rqueued t = add_mset p (rqueued s) \<or> rqueued t = rqueued s" and c: "currentProcess t = currentProcess s"
    using assms(2) unfolding created_def by blast
  have cnt: "count (rqueued t) p \<le> 1"
    using rq assms(4) by (auto simp: not_in_iff)
  have f: "pstate (pcb t p) \<noteq> EXITED" "fd_in (pcb t p) \<in> {0, 1, 2}" "fd_out (pcb t p) \<in> {0, 1, 2}" "currentProcess t \<noteq> 0"
    using assms(5-7) c by (simp_all add: pt fill_pcb_def)
  have b': "\<forall>a \<in> set (proc_blocks t p). outside naive_live (lh t) a \<noteq> None" using b by blast
  note K = naive.kill_spec [OF wt assms(3) pp(2) f(1) cnt d b' f(2-4) assms(8)]
  have "outside naive_live (lh s') a = outside naive_live (lh s) a" for a
    unfolding K(6) using b o by (simp add: outside_def)
  then show ?thesis using K(3) by auto
qed

text \<open>
  the list of processes. A successful \<open>getProcessesInformation\<close> returns a new block that
  is large enough for its entries and holds a copy of every process that has not exited, in
  the order of the table, followed by the end mark; releasing the list gives the memory back.
\<close>

theorem ps_lists_active:
  assumes "sem_inv naive_inv naive_live s" and "getProcessesInformation naive_mm s = (a, s')" and "a \<noteq> 0"
    and "act = filter (\<lambda>i. pstate (processes s i) \<noteq> EXITED) [0..<100]"
  shows "map (infos s' a) [0..<length act] = map (processes s) act \<and> pid (infos s' a (length act)) = NONPID
    \<and> (length act + 1) * 128 \<le> the (naive_live (lmem (lh s')) a) \<and> naive_live (lmem (lh s)) a = None
    \<and> naive_live (lmem (lh (freeProcessesInformation naive_mm a s'))) = naive_live (lmem (lh s))
    \<and> mem_only s s'"
proof -
  let ?n = "length act"
  obtain s1 where al: "k_alloc naive_mm (of_nat ((?n + 1) * 128)) s = (a, s1)"
    using assms(2) by (auto simp: getProcessesInformation_def getProcessesCount_def assms(4) Let_def split: prod.splits if_splits)
  have "?n \<le> 100" using length_filter_le [of "\<lambda>i. pstate (processes s i) \<noteq> EXITED" "[0..<100]"] by (simp add: assms(4))
  then have ok: "naive_okreq (of_nat ((?n + 1) * 128))" and un: "unat (of_nat ((?n + 1) * 128) :: u32) = (?n + 1) * 128"
    by (auto intro!: naive_okreq_nat simp: unat_of_nat simp del: of_nat_mult of_nat_add of_nat_Suc)
  from naive.held_refl [OF assms(1)] ok al show ?thesis
  proof (cases rule: naive.held_alloc)
    case Fail
    then show ?thesis using assms(3) by simp
  next
    case (Ok sz)
    let ?blank = "\<lambda>i. if i \<le> ?n then blank_info (infos s1 a i) else infos s1 a i"
    have p1: "processes s1 = processes s" using k_alloc_fields(1) [OF al] by (metis sched.select_convs(2) sched.update_convs(1) sched.surjective)
    have s': "s' = s1\<lparr>infos := (infos s1)(a := copy_infos [0..<100] 0 ?n (processes s) ?blank)\<rparr>"
      using assms(2) al p1 \<open>a \<noteq> 0\<close> by (simp add: getProcessesInformation_def getProcessesCount_def assms(4) Let_def)
    have ci: "infos s' a = (\<lambda>i. if i < ?n then processes s (act ! i) else ?blank i)"
      using copy_infos_spec [of 0 "processes s" "[0..<100]" ?n ?blank, folded assms(4)] by (simp add: s' cong: if_cong)
    have "map (infos s' a) [0..<?n] = map (processes s) act"
      by (rule nth_equalityI) (simp_all add: ci)
    moreover have "pid (infos s' a ?n) = NONPID" by (simp add: ci blank_info_def)
    moreover have "(?n + 1) * 128 \<le> the (naive_live (lmem (lh s')) a)" using Ok(4,5) un by (simp add: s')
    moreover have "naive_live (lmem (lh s)) a = None" using Ok(3) by (auto simp: holding_def)
    moreover have "mem_only s s'"
      unfolding s' by (rule mem_only_trans [OF _ mem_only_heaps(3)]) (use Ok(3) in \<open>simp add: holding_def\<close>)
    moreover have "holding naive_inv naive_live s {} (k_free naive_mm a s1)"
      using naive.held_free [OF assms(1) Ok(3)] by simp
    then have "naive_live (lmem (lh (freeProcessesInformation naive_mm a s'))) = naive_live (lmem (lh s))"
      using naive.held_none(3) by (fastforce simp: freeProcessesInformation_def k_free_def s')
    ultimately show ?thesis by blast
  qed
qed

section \<open>New processes in a pool with room\<close>

text \<open>A process without arguments, in a pool with room: the first free slot is taken and queued.\<close>

lemma create_room:
  assumes "sem_inv naive_inv naive_live s" and "tailroom (4200 + m) (lmem (lh s))" and "48 \<le> m"
    and "pstate (processes s j) = EXITED" and "\<forall>k < j. pstate (processes s k) \<noteq> EXITED" and "j < 100"
    and "c_argc c = 0" and "checkPriority (c_priority c)" and "c_entryPoint c \<noteq> 0" and "checkName (c_name c)"
    and "s' = snd (createProcess naive_mm (Some c) s)"
  shows "createProcess naive_mm (Some c) s = (int (j + 1), s')"
    and "created naive_mm naive_inv naive_live c (j + 1) s s'" and "tailroom m (lmem (lh s'))"
    and "rqueued s' = add_mset (j + 1) (rqueued s)" and "\<lbrakk>placed s; j + 1 \<notin># rqueued s\<rbrakk> \<Longrightarrow> placed s'"
    and "sched.more s' = sched.more s" and "cpu_rsp s' = cpu_rsp s" and "priorityQueues s' = priorityQueues s"
proof -
  obtain st s1 where al: "k_alloc naive_mm STACK_SIZE s = (st, s1)" by force
  have "tailroom (unat (ALIGN 4096) + 24 + (40 + m)) (lmem (lh s))"
    using tailroom_mono [OF assms(2)] by (simp add: ALIGN_unfold)
  from tailroom_alloc [OF this] assms(3) have st: "st \<noteq> 0" "tailroom (40 + m) (lmem (lh s1))"
    using al by (auto simp: k_alloc_def split: prod.splits)
  have s1: "s1 = s\<lparr>lh := lh s1\<rparr>" "lq (lh s1) = lq (lh s)" by (rule k_alloc_fields [OF al])+
  then have ps: "processes s1 = processes s" by (metis sched.select_convs(2) sched.update_convs(1) sched.surjective)
  obtain g where g: "getFreeProcess s1 = int j"
  proof (cases rule: getFreeProcess_cases [of s1])
    case Full
    then show ?thesis using assms(4,6) ps by auto
  next
    case (Slot k)
    then have "k = j" using assms(4,5) ps by (cases k j rule: linorder_cases) auto
    then show ?thesis using Slot that by simp
  qed
  let ?t = "upd_pcb (j + 1) (fill_pcb c st 0) s1"
  have c: "createProcess naive_mm (Some c) s = (pid (pcb (schedule naive_mm (j + 1) ?t) (j + 1)), schedule naive_mm (j + 1) ?t)"
    using al st(1) g assms(7-10) by (simp add: createProcess_def free_args_def Let_def)
  have s': "s' = schedule naive_mm (j + 1) ?t" using c assms(11) by simp
  have pr: "c_priority c - 1 < 5" "1 \<le> c_priority c" "c_priority c \<le> 5"
    using assms(8) by (auto simp: checkPriority_def)
  have pct: "pcb ?t (j + 1) = fill_pcb c st 0 (pcb s (j + 1))" by (simp add: pcb_def upd_pcb_def ps)
  let ?q = "priorityQueues s (c_priority c - 1)"
  have pq: "priorityQueues s1 = priorityQueues s"
    using s1(1) by (metis sched.select_convs(6) sched.update_convs(1) sched.surjective)
  have s2: "s' = ?t\<lparr>lh := l_queue naive_mm (lh s1) ?q (j + 1)\<rparr>"
    using pr pct by (simp add: s' schedule_def fill_pcb_def pq upd_pcb_def)
  have pc: "pcb s' (j + 1) = fill_pcb c st 0 (pcb s (j + 1))"
    using pct by (simp add: s2 pcb_def)
  have "pid (pcb s (j + 1)) = int (j + 1)"
    using assms(1,6) naive.swfD(4) [of s "j + 1"] by (simp add: sem_inv_def)
  then have r: "pid (pcb s' (j + 1)) = int (j + 1)" unfolding pc by (simp add: fill_pcb_def)
  then show cp: "createProcess naive_mm (Some c) s = (int (j + 1), s')" using c s' by simp
  show cr: "created naive_mm naive_inv naive_live c (j + 1) s s'"
  proof (rule naive.createProcess_cases [OF assms(1) _ _ _ cp])
    show "created naive_mm naive_inv naive_live c (j + 1) s s'"
      if "int (j + 1) = int p" "created naive_mm naive_inv naive_live c p s s'" for p
      using that unfolding of_nat_eq_iff by simp
  qed (use assms(7) in auto)
  show t: "tailroom m (lmem (lh s'))" using tailroom_queue [OF st(2)] assms(3) by (simp add: s2)
  show more: "sched.more s' = sched.more s" and "cpu_rsp s' = cpu_rsp s" and "priorityQueues s' = priorityQueues s"
    using s1(1) by (auto simp: s2 upd_pcb_def) (metis sched.ext_inject sched.surjective sched.update_convs(1))+
  have "tailroom (40 + (m - 40)) (lmem (lh s'))" "8 \<le> m - 40" using t assms(3) by simp_all
  from tailroom_alloc16(1) [OF this] show rq: "rqueued s' = add_mset (j + 1) (rqueued s)"
    using cr by (auto simp: created_def)
  have "naive_okreq STACK_SIZE" by (simp add: naive_okreq_def STACK_SIZE_def)
  from naive.held_refl [OF assms(1)] this al have "sem_inv naive_inv naive_live s1"
    using assms(1) by (cases rule: naive.held_alloc) (simp_all add: holding_def)
  then have sw: "naive_swf s1" by (simp add: sem_inv_def)
  have po: "prio_ok (fill_pcb c st 0 x)" for x using pr by (simp add: prio_ok_def fill_pcb_def)
  have "naive_swf ?t" by (rule naive.swf_upd_pcb [OF sw]) (use assms(6) po in \<open>simp_all add: fill_pcb_def\<close>)
  note S = naive.schedule_spec(5) [OF this _ _ _ s']
  have al': "fst (mm_alloc naive_mm (lmem (lh ?t)) 16) \<noteq> 0" using tailroom_alloc16(1) [OF st(2)] assms(3) by simp
  have rq1: "rq ?t = rq s" using s1(2) pq by (simp add: rq_def qdata_def qnodes_def fun_eq_iff)
  have rqs: "rq s' i = (if i = c_priority c - 1 then rq s i @ [j + 1] else rq s i)" if "i < 5" for i
    using S [of i] that assms(6) po al' rq1 pct by (simp add: fill_pcb_def)
  show "placed s'" if "placed s" "j + 1 \<notin># rqueued s"
    unfolding placed_def
  proof (intro allI impI ballI)
    fix i p assume i: "i < 5" and p: "p \<in> set (rq s' i)"
    show "priority (pcb s' p) = i + 1"
    proof (cases "p = j + 1")
      case True
      then have "p \<notin> set (rq s i)" using that(2) i by (auto simp: in_rqueued)
      then have "i = c_priority c - 1" using p rqs [OF i] True by (auto split: if_splits)
      then show ?thesis using True pc pr by (simp add: fill_pcb_def)
    next
      case False
      then have "p \<in> set (rq s i)" using p rqs [OF i] by (auto split: if_splits)
      then have "1 \<le> p" "priority (pcb s p) = i + 1"
        using that(1) i sw rq1 assms(1) naive.swfD(2) [of s] by (auto simp: placed_def members_ok_def in_rqueued sem_inv_def)
      then show ?thesis using cr False by (simp add: created_def)
    qed
  qed
qed

section \<open>A system with two new processes\<close>

definition demo_params :: creationParameters where
  "demo_params = \<lparr>c_argc = 0, c_argv = [], c_name = Some ''sh'', c_priority = 2, c_entryPoint = 9,
     c_foreground = 1, c_fd_in = 0, c_fd_out = 1\<rparr>"

definition init_kernel :: "naive kernel" where
  "init_kernel = snd (createProcess naive_mm (Some demo_params) big_kernel)"

definition shell_kernel :: "naive kernel" where
  "shell_kernel = snd (createProcess naive_mm (Some demo_params) init_kernel)"

lemma create_demo:
  assumes "sem_inv naive_inv naive_live s" and "tailroom (4200 + m) (lmem (lh s))" and "48 \<le> m"
    and "pstate (processes s j) = EXITED" and "\<forall>k < j. pstate (processes s k) \<noteq> EXITED" and "j < 100"
    and "s' = snd (createProcess naive_mm (Some demo_params) s)"
  shows "createProcess naive_mm (Some demo_params) s = (int (j + 1), s')"
    and "created naive_mm naive_inv naive_live demo_params (j + 1) s s'" and "tailroom m (lmem (lh s'))"
proof -
  have "c_argc demo_params = 0" "checkPriority (c_priority demo_params)" "c_entryPoint demo_params \<noteq> 0" "checkName (c_name demo_params)"
    by (simp_all add: demo_params_def checkPriority_def checkName_def)
  note C = create_room [OF assms(1-6) this assms(7)]
  show "createProcess naive_mm (Some demo_params) s = (int (j + 1), s')"
    "created naive_mm naive_inv naive_live demo_params (j + 1) s s'" "tailroom m (lmem (lh s'))" by (fact C)+
qed

lemma init_kernel_facts:
  "createProcess naive_mm (Some demo_params) big_kernel = (1, init_kernel)"
  "created naive_mm naive_inv naive_live demo_params 1 big_kernel init_kernel"
  "tailroom 60000 (lmem (lh init_kernel))" "sem_inv naive_inv naive_live init_kernel"
proof -
  have t: "tailroom (4200 + 60000) (lmem (lh big_kernel))" using tailroom_mono [OF big_kernel_facts(5)] by simp
  have p: "pstate (processes big_kernel 0) = EXITED"
    by (simp add: big_kernel_def boot_kernel_def sem_state.defs sched.defs big_sched_def initScheduler_def
        demo_process_def upt_rec split_beta)
  note C = create_demo [OF big_kernel_facts(1) t _ p _ _ init_kernel_def]
  show "createProcess naive_mm (Some demo_params) big_kernel = (1, init_kernel)"
    and 2: "created naive_mm naive_inv naive_live demo_params 1 big_kernel init_kernel"
    and "tailroom 60000 (lmem (lh init_kernel))" using C by simp_all
  show "sem_inv naive_inv naive_live init_kernel" using 2 unfolding created_def by blast
qed

lemma shell_kernel_facts:
  "createProcess naive_mm (Some demo_params) init_kernel = (2, shell_kernel)"
  "created naive_mm naive_inv naive_live demo_params 2 init_kernel shell_kernel" "2 \<notin># rqueued init_kernel"
  "currentProcess init_kernel = 3"
proof -
  have p1: "pstate (pcb init_kernel 1) \<noteq> EXITED" and p2: "pcb init_kernel 2 = pcb big_kernel 2"
    and rq: "rqueued init_kernel = add_mset 1 (rqueued big_kernel) \<or> rqueued init_kernel = rqueued big_kernel"
    using init_kernel_facts(2) by (auto simp: created_def fill_pcb_def)
  have p: "processes big_kernel 1 = demo_process 1"
    by (simp add: big_kernel_def boot_kernel_def sem_state.defs sched.defs big_sched_def initScheduler_def
        upt_rec split_beta)
  have e2: "pstate (processes init_kernel 1) = EXITED" using p2 p by (simp add: pcb_def demo_process_def)
  have t: "tailroom (4200 + 50000) (lmem (lh init_kernel))" using tailroom_mono [OF init_kernel_facts(3)] by simp
  have lt: "\<forall>k < 1. pstate (processes init_kernel k) \<noteq> EXITED" using p1 by (simp add: pcb_def)
  note C = create_demo [OF init_kernel_facts(4) t _ e2 lt _ shell_kernel_def]
  show "createProcess naive_mm (Some demo_params) init_kernel = (2, shell_kernel)"
    "created naive_mm naive_inv naive_live demo_params 2 init_kernel shell_kernel"
    using C by (simp_all add: numeral_2_eq_2)
  show "currentProcess init_kernel = 3" using init_kernel_facts(2) big_kernel_facts(2) by (simp add: created_def)
  show "2 \<notin># rqueued init_kernel" using rq big_kernel_facts(7) by auto
qed


lemma createProcess_all_or_nothing_witness:
  "fst (createProcess naive_mm (Some demo_params) big_kernel) = 1
   \<and> created naive_mm naive_inv naive_live demo_params 1 big_kernel init_kernel"
proof -
  have "created naive_mm naive_inv naive_live demo_params 1 big_kernel init_kernel"
    using createProcess_all_or_nothing [OF big_kernel_facts(1) _ _ _ init_kernel_facts(1)]
    by (auto simp: demo_params_def)
  then show ?thesis using init_kernel_facts(1) by simp
qed


lemma create_kill_roundtrip_witness:
  "outside naive_live (lh (snd (kill naive_mm 2 shell_kernel))) = outside naive_live (lh init_kernel)"
proof -
  have c: "currentProcess init_kernel \<noteq> 0" by (simp add: shell_kernel_facts(4))
  have d: "c_fd_in demo_params \<in> {0, 1, 2}" "c_fd_out demo_params \<in> {0, 1, 2}" by (simp_all add: demo_params_def)
  show ?thesis
    using create_kill_roundtrip [OF init_kernel_facts(4) shell_kernel_facts(2) _ shell_kernel_facts(3) d c
        surjective_pairing] by simp
qed

lemma ps_lists_active_witness:
  "map (infos (snd (getProcessesInformation naive_mm big_kernel)) (fst (getProcessesInformation naive_mm big_kernel))) [0..<2]
     = [demo_process 2, demo_process 3]"
proof -
  have p: "processes big_kernel = demo_process"
    by (simp add: big_kernel_def boot_kernel_def sem_state.defs sched.defs big_sched_def initScheduler_def
        upt_rec split_beta)
  have act: "filter (\<lambda>i. pstate (processes big_kernel i) \<noteq> EXITED) [0..<100] = [2, 3]"
    by (simp add: p demo_process_def upt_rec)
  have "tailroom (unat (ALIGN 384) + 24 + 60000) (lmem (lh big_kernel))"
    using tailroom_mono [OF big_kernel_facts(5)] by (simp add: ALIGN_unfold)
  from tailroom_alloc(1) [OF this]
  have "fst (getProcessesInformation naive_mm big_kernel) \<noteq> 0"
    using act by (auto simp: getProcessesInformation_def getProcessesCount_def k_alloc_def Let_def split: prod.splits)
  from ps_lists_active [OF big_kernel_facts(1) surjective_pairing this act [symmetric]] p show ?thesis
    by (simp add: numeral_2_eq_2)
qed

end
