(* ===== verification/Keyboard_Handler.thy ===== *)
theory Keyboard_Handler
  imports Process_Lifecycle
begin

text \<open>
  The interrupt side of \<open>Kernel/drivers/keyboard.c\<close>, with \<open>Kernel/idt/irqDispatcher.c\<close>: the
  translation of scan codes, the modifier keys, Ctrl+C and Ctrl+D, and the table of functions
  that programs register for keys.

  The scan code that the hardware delivers is an argument. A registered function is an
  arbitrary address of a program, so calling it is a parameter, \<open>call\<close>. The handler answers
  \<open>Sleep\<close> when Ctrl+C kills the process it interrupted, because then it does not return.
\<close>

section \<open>The program\<close>

definition ESCAPE_KEY :: u8 where "ESCAPE_KEY = 0x01"
definition BACKSPACE_KEY :: u8 where "BACKSPACE_KEY = 0x0E"
definition TABULATOR_KEY :: u8 where "TABULATOR_KEY = 0x0F"
definition RETURN_KEY :: u8 where "RETURN_KEY = 0x1C"
definition CONTROL_KEY_L :: u8 where "CONTROL_KEY_L = 0x1D"
definition D_KEY :: u8 where "D_KEY = 0x20"
definition SHIFT_KEY_L :: u8 where "SHIFT_KEY_L = 0x2A"
definition C_KEY :: u8 where "C_KEY = 0x2E"
definition SHIFT_KEY_R :: u8 where "SHIFT_KEY_R = 0x36"
definition CAPS_LOCK_KEY :: u8 where "CAPS_LOCK_KEY = 0x3A"
definition F12_KEY :: u8 where "F12_KEY = 0x58"

lemmas key_consts [simp] = ESCAPE_KEY_def BACKSPACE_KEY_def TABULATOR_KEY_def RETURN_KEY_def CONTROL_KEY_L_def
  D_KEY_def SHIFT_KEY_L_def C_KEY_def SHIFT_KEY_R_def CAPS_LOCK_KEY_def F12_KEY_def

definition IS_ALPHA :: "u8 \<Rightarrow> bool" where
  "IS_ALPHA c \<longleftrightarrow> 0x61 \<le> c \<and> c \<le> 0x7A"

definition TO_UPPER :: "u8 \<Rightarrow> u8" where
  "TO_UPPER c = (if IS_ALPHA c then c - 0x61 + 0x41 else c)"

definition IS_KEYCODE :: "u8 \<Rightarrow> bool" where
  "IS_KEYCODE c \<longleftrightarrow> c \<ge> ESCAPE_KEY \<and> c \<le> F12_KEY"

definition IS_PRINTABLE :: "bool \<Rightarrow> u8 \<Rightarrow> bool" where
  "IS_PRINTABLE shift c \<longleftrightarrow> IS_KEYCODE c \<and> (c \<ge> 0x02 \<and> c \<le> 0x0D \<or> c \<ge> 0x0F \<and> c \<le> 0x1C
     \<or> c \<ge> 0x1E \<and> c \<le> 0x29 \<or> c \<ge> 0x2B \<and> c \<le> 0x35 \<or> c = 0x37 \<or> c = 0x39
     \<or> shift \<and> c \<ge> 0x47 \<and> c \<le> 0x53 \<or> c = 0x4A \<or> c = 0x4E \<or> c = 0x56)"

text \<open>The character of each scan code, without and with the shift key.\<close>

definition scancodeMap :: "(u8 \<times> u8) list" where
  "scancodeMap = [
   (0x00, 0x00), (0x01, 0x01), (0x31, 0x21), (0x32, 0x40), (0x33, 0x23), (0x34, 0x24),
   (0x35, 0x25), (0x36, 0x5E), (0x37, 0x26), (0x38, 0x2A), (0x39, 0x28), (0x30, 0x29),
   (0x2D, 0x5F), (0x3D, 0x2B), (0x0E, 0x0E), (0x0F, 0x0F), (0x71, 0x51), (0x77, 0x57),
   (0x65, 0x45), (0x72, 0x52), (0x74, 0x54), (0x79, 0x59), (0x75, 0x55), (0x69, 0x49),
   (0x6F, 0x4F), (0x70, 0x50), (0x5B, 0x7B), (0x5D, 0x7D), (0x1C, 0x1C), (0x1D, 0x1D),
   (0x61, 0x41), (0x73, 0x53), (0x64, 0x44), (0x66, 0x46), (0x67, 0x47), (0x68, 0x48),
   (0x6A, 0x4A), (0x6B, 0x4B), (0x6C, 0x4C), (0x3B, 0x3A), (0x27, 0x22), (0x60, 0x7E),
   (0x2A, 0x2A), (0x5C, 0x7C), (0x7A, 0x5A), (0x78, 0x58), (0x63, 0x43), (0x76, 0x56),
   (0x62, 0x42), (0x6E, 0x4E), (0x6D, 0x4D), (0x2C, 0x3C), (0x2E, 0x3E), (0x2F, 0x3F),
   (0x36, 0x36), (0x2A, 0x2A), (0x38, 0xB8), (0x20, 0x20), (0x3A, 0x3A), (0x3B, 0x3B),
   (0x3C, 0x3C), (0x3D, 0x3D), (0x3E, 0x3E), (0x3F, 0x3F), (0x40, 0x40), (0x41, 0x41),
   (0x42, 0x42), (0x43, 0x43), (0x44, 0x44), (0x45, 0x45), (0x46, 0x46), (0x47, 0x37),
   (0x48, 0x38), (0x49, 0x39), (0x2D, 0x2D), (0x4B, 0x34), (0x4C, 0x35), (0x4D, 0x36),
   (0x2B, 0x2B), (0x4F, 0x31), (0x50, 0x32), (0x51, 0x33), (0x52, 0x30), (0x53, 0x2E),
   (0x00, 0x00), (0x00, 0x00), (0x2D, 0x2D), (0x57, 0x57), (0x58, 0x58)]"

definition key_indices :: "nat list" where
  "key_indices = [unat ESCAPE_KEY..<unat F12_KEY]"

text \<open>The two functions that save and restore the registered keys around the call of a program.\<close>

definition restoreKeyFnMapNonKernel :: "(nat \<Rightarrow> addr) \<Rightarrow> keyboard \<Rightarrow> keyboard" where
  "restoreKeyFnMapNonKernel km k =
     fold (\<lambda>i k. if fst (KeyFnMap k i) = 0
        then k\<lparr>KeyFnMap := (KeyFnMap k)(i := (fst (KeyFnMap k i), km i))\<rparr> else k) key_indices k"

definition clear_key :: "nat \<Rightarrow> (nat \<Rightarrow> addr) \<times> keyboard \<Rightarrow> (nat \<Rightarrow> addr) \<times> keyboard" where
  "clear_key i mk =
     (if fst (KeyFnMap (snd mk) i) = 0
      then ((fst mk)(i := snd (KeyFnMap (snd mk) i)), (snd mk)\<lparr>KeyFnMap := (KeyFnMap (snd mk))(i := (0, 0))\<rparr>)
      else mk)"

definition clearKeyFnMapNonKernel :: "(nat \<Rightarrow> addr) \<Rightarrow> keyboard \<Rightarrow> (nat \<Rightarrow> addr) \<times> keyboard" where
  "clearKeyFnMapNonKernel km k = fold clear_key key_indices (km, k)"

definition registerSpecialKey :: "u8 \<Rightarrow> addr \<Rightarrow> u8 \<Rightarrow> keyboard \<Rightarrow> u8 \<times> keyboard" where
  "registerSpecialKey scancode f registeredFromKernel k =
     (let index = unat (scancode - ESCAPE_KEY) in
      if IS_KEYCODE scancode
         \<and> (registeredFromKernel \<noteq> 0 \<or> (registeredFromKernel = 0 \<and> snd (KeyFnMap k index) = 0))
      then (1, k\<lparr>KeyFnMap := (KeyFnMap k)(index := (registeredFromKernel, f))\<rparr>)
      else (0, k))"

definition isReleased :: "u8 \<Rightarrow> bool" where
  "isReleased scancode \<longleftrightarrow> scancode AND 0x80 \<noteq> 0"

definition isPressed :: "u8 \<Rightarrow> bool" where
  "isPressed scancode \<longleftrightarrow> \<not> isReleased scancode"

definition makeCode :: "u8 \<Rightarrow> u8" where
  "makeCode scancode = scancode AND 0x7F"

definition notify :: "'m mm \<Rightarrow> ('m, 'z) kernel_scheme \<Rightarrow> ('m, 'z) kernel_scheme" where
  "notify M s = (if keyboard_semaphore (kbd s) \<noteq> - 1 then snd (semPost M (keyboard_semaphore (kbd s)) s) else s)"

definition handleCtrlC :: "'m mm \<Rightarrow> ('m, 'z) kernel_scheme \<Rightarrow> unit outcome \<times> ('m, 'z) kernel_scheme" where
  "handleCtrlC M s =
     (let fg = getTerminalForegroundProcess s in
      if fg = 0 then (Ret (), s)
      else case kill M (pid (pcb s fg)) (print_string ''^C
'' s) of
          (Sleep, s1) \<Rightarrow> (Sleep, s1)
        | (Ret _, s1) \<Rightarrow> (Ret (), clear_input s1))"

definition handleCtrlD :: "'m mm \<Rightarrow> ('m, 'z) kernel_scheme \<Rightarrow> ('m, 'z) kernel_scheme" where
  "handleCtrlD M s =
     (if to_write (kbd s) = to_read (kbd s) then notify M (addCharToBuffer EOF False s)
      else notify M (notify M (addCharToBuffer EOF False (addCharToBuffer NEW_LINE_CHAR True s))))"

definition set_modifier :: "u8 \<Rightarrow> keyboard \<Rightarrow> keyboard" where
  "set_modifier scancode k =
     (let c = makeCode scancode in
      if c = SHIFT_KEY_L \<or> c = SHIFT_KEY_R then k\<lparr>SHIFT_KEY_PRESSED := isPressed scancode\<rparr>
      else if c = CONTROL_KEY_L then k\<lparr>CONTROL_KEY_PRESSED := isPressed scancode\<rparr>
      else if c = CAPS_LOCK_KEY \<and> isPressed scancode then k\<lparr>CAPS_LOCK_KEY_PRESSED := \<not> CAPS_LOCK_KEY_PRESSED k\<rparr>
      else k)"

definition key_char :: "keyboard \<Rightarrow> u8 \<Rightarrow> u8" where
  "key_char k scancode =
     (let c = (if SHIFT_KEY_PRESSED k then snd else fst) (scancodeMap ! unat scancode)
      in if CAPS_LOCK_KEY_PRESSED k then TO_UPPER c else c)"

text \<open>
  The part that changes the buffer. The answer is true when the handler returns at once, at a
  second newline.
\<close>

definition edit_buffer :: "'m mm \<Rightarrow> u8 \<Rightarrow> ('m, 'z) kernel_scheme \<Rightarrow> bool \<times> ('m, 'z) kernel_scheme" where
  "edit_buffer M scancode s =
     (let k = kbd s; c = key_char k scancode; show' = keyboard_options k AND SHOW_BUFFER_WHILE_TYPING \<noteq> 0 in
      if keyboard_options k AND MODIFY_BUFFER = 0 then (False, s)
      else if IS_PRINTABLE (SHIFT_KEY_PRESSED k) scancode
      then if c = RETURN_KEY
           then if to_write k \<noteq> to_read k \<and> kbuffer k (SUB_MOD (to_write k) 1 KBD_BUFFER_SIZE) = NEW_LINE_CHAR
                then (True, s)
                else (False, notify M (addCharToBuffer NEW_LINE_CHAR show' s))
           else (False, notify M (addCharToBuffer (if c = TABULATOR_KEY then TABULATOR_CHAR else c) show' s))
      else if c = BACKSPACE_KEY \<and> to_write k \<noteq> to_read k
      then (False, upd_con clearPreviousCharacter
             (upd_kbd (\<lambda>k. k\<lparr>to_write := SUB_MOD (to_write k) 1 KBD_BUFFER_SIZE\<rparr>) s))
      else (False, s))"

definition keyboardHandler ::
  "'m mm \<Rightarrow> (addr \<Rightarrow> u8 \<Rightarrow> ('m, 'z) kernel_scheme \<Rightarrow> ('m, 'z) kernel_scheme) \<Rightarrow> u8
   \<Rightarrow> ('m, 'z) kernel_scheme \<Rightarrow> u8 outcome \<times> ('m, 'z) kernel_scheme" where
  "keyboardHandler M call scancode s =
     (if BUFFER_IS_FULL (kbd s) then (Ret scancode, upd_kbd (\<lambda>k. k\<lparr>to_read := 0, to_write := 0\<rparr>) s)
      else let s1 = upd_kbd (set_modifier scancode) s;
               ctrl = CONTROL_KEY_PRESSED (kbd s1) \<and> isPressed scancode in
        if ctrl \<and> makeCode scancode = C_KEY
        then case handleCtrlC M s1 of (Sleep, s2) \<Rightarrow> (Sleep, s2) | (Ret _, s2) \<Rightarrow> (Ret scancode, s2)
        else if ctrl \<and> makeCode scancode = D_KEY then (Ret scancode, handleCtrlD M s1)
        else if \<not> (isPressed scancode \<and> IS_KEYCODE scancode) then (Ret scancode, s1)
        else let (stop, s2) = edit_buffer M scancode s1; f = snd (KeyFnMap (kbd s2) (unat (scancode - ESCAPE_KEY)))
             in (Ret scancode, if stop \<or> f = 0 then s2 else call f scancode s2))"

text \<open>\<open>Kernel/idt/irqDispatcher.c\<close>: the timer and the keyboard.\<close>

definition int_20 :: "('m, 'z) kernel_scheme \<Rightarrow> u8 outcome \<times> ('m, 'z) kernel_scheme" where
  "int_20 s = (Ret 0, toggleCursor (timer_handler s))"

definition irqDispatcher ::
  "'m mm \<Rightarrow> (addr \<Rightarrow> u8 \<Rightarrow> ('m, 'z) kernel_scheme \<Rightarrow> ('m, 'z) kernel_scheme) \<Rightarrow> u8 \<Rightarrow> u64
   \<Rightarrow> ('m, 'z) kernel_scheme \<Rightarrow> u8 outcome \<times> ('m, 'z) kernel_scheme" where
  "irqDispatcher M call scancode irq s =
     (if irq = 0 then int_20 s else if irq = 1 then keyboardHandler M call scancode s else (Ret 0, s))"

section \<open>Registered keys\<close>

lemma restore_fold:
  "KeyFnMap (fold (\<lambda>i k. if fst (KeyFnMap k i) = 0
        then k\<lparr>KeyFnMap := (KeyFnMap k)(i := (fst (KeyFnMap k i), km i))\<rparr> else k) is k)
   = (\<lambda>i. if i \<in> set is \<and> fst (KeyFnMap k i) = 0 then (0, km i) else KeyFnMap k i)"
  by (induction "is" arbitrary: k) (auto simp: fun_eq_iff)

lemma clear_fold:
  "distinct is \<Longrightarrow> fold clear_key is mk = mk' \<Longrightarrow>
   KeyFnMap (snd mk') = (\<lambda>i. if i \<in> set is \<and> fst (KeyFnMap (snd mk) i) = 0 then (0, 0) else KeyFnMap (snd mk) i)
   \<and> fst mk' = (\<lambda>i. if i \<in> set is \<and> fst (KeyFnMap (snd mk) i) = 0 then snd (KeyFnMap (snd mk) i) else fst mk i)"
proof (induction "is" arbitrary: mk)
  case (Cons i "is")
  have "KeyFnMap (snd mk') = (\<lambda>j. if j \<in> set is \<and> fst (KeyFnMap (snd (clear_key i mk)) j) = 0 then (0, 0)
        else KeyFnMap (snd (clear_key i mk)) j)
      \<and> fst mk' = (\<lambda>j. if j \<in> set is \<and> fst (KeyFnMap (snd (clear_key i mk)) j) = 0
        then snd (KeyFnMap (snd (clear_key i mk)) j) else fst (clear_key i mk) j)"
    using Cons.IH [of "clear_key i mk"] Cons.prems by simp
  then show ?case using Cons.prems(1) by (auto simp: clear_key_def fun_eq_iff)
qed simp

lemma key_indices_set: "set key_indices = {1..<88}" "distinct key_indices"
  by (simp_all add: key_indices_def)

text \<open>
  the key table around the run of a program. Clearing takes every key that the kernel did
  not register out of the table and remembers it, and whatever the program registers in
  between (it cannot touch the kernel's keys) the restored table is the old one, with one
  exception: the entry of the Escape key. Registration subtracts the first key code from the
  scan code, the two loops do not, so the entry 0 is neither cleared nor restored and the
  program's Escape function outlives it.
\<close>

theorem key_table_roundtrip:
  assumes "clearKeyFnMapNonKernel km0 k = (km, k1)"
    and "\<forall>i. fst (KeyFnMap k2 i) = fst (KeyFnMap k i) \<and> (fst (KeyFnMap k i) \<noteq> 0 \<longrightarrow> KeyFnMap k2 i = KeyFnMap k i)"
    and "IS_KEYCODE sc" and "i = unat (sc - ESCAPE_KEY)"
  shows "KeyFnMap (restoreKeyFnMapNonKernel km k2) i = (if sc = ESCAPE_KEY then KeyFnMap k2 i else KeyFnMap k i)
    \<and> KeyFnMap k1 i = (if sc \<noteq> ESCAPE_KEY \<and> fst (KeyFnMap k i) = 0 then (0, 0) else KeyFnMap k i)"
proof -
  note C = clear_fold [OF key_indices_set(2) assms(1) [unfolded clearKeyFnMapNonKernel_def]]
  have i: "(i \<in> set key_indices) = (sc \<noteq> ESCAPE_KEY)"
  proof -
    have r: "1 \<le> unat sc" "unat sc \<le> 88" "unat (sc - 1) = unat sc - 1" "sc = 1 \<longleftrightarrow> unat sc = 1"
      using assms(3) by (simp_all add: IS_KEYCODE_def word_le_nat_alt unat_sub word_unat_eq_iff)
    then show ?thesis by (auto simp: key_indices_set assms(4))
  qed
  have "KeyFnMap (restoreKeyFnMapNonKernel km k2) i
      = (if i \<in> set key_indices \<and> fst (KeyFnMap k2 i) = 0 then (0, km i) else KeyFnMap k2 i)"
    unfolding restoreKeyFnMapNonKernel_def restore_fold ..
  moreover have "km i = (if i \<in> set key_indices \<and> fst (KeyFnMap k i) = 0 then snd (KeyFnMap k i) else km0 i)"
    using C by simp
  moreover have "KeyFnMap k1 i = (if i \<in> set key_indices \<and> fst (KeyFnMap k i) = 0 then (0, 0) else KeyFnMap k i)"
    using C by simp
  ultimately show ?thesis
    using assms(2) by (auto simp: i prod_eq_iff split: if_splits)
qed

lemma key_table_roundtrip_witness:
  "KeyFnMap (restoreKeyFnMapNonKernel (fst (clearKeyFnMapNonKernel (\<lambda>_. 0) demo_keyboard))
     (snd (registerSpecialKey ESCAPE_KEY 77 0 demo_keyboard))) 0 = (0, 77)"
proof -
  let ?k = "demo_keyboard" and ?k2 = "snd (registerSpecialKey ESCAPE_KEY 77 0 demo_keyboard)"
  have k2: "KeyFnMap ?k2 = (KeyFnMap ?k)(0 := (0, 77))"
    by (simp add: registerSpecialKey_def demo_keyboard_def IS_KEYCODE_def)
  have "\<forall>i. fst (KeyFnMap ?k2 i) = fst (KeyFnMap ?k i) \<and> (fst (KeyFnMap ?k i) \<noteq> 0 \<longrightarrow> KeyFnMap ?k2 i = KeyFnMap ?k i)"
    unfolding k2 by (simp add: demo_keyboard_def)
  from key_table_roundtrip [OF surjective_pairing this, of ESCAPE_KEY 0] k2 show ?thesis
    by (simp add: IS_KEYCODE_def)
qed

section \<open>Typing\<close>

text \<open>
  What the table holds for the printable keys: every one gives a visible character, except
  that Return and Tab give their own codes, and those codes come from no other key.
\<close>

definition table_ok :: "bool \<Rightarrow> nat \<Rightarrow> u8 \<Rightarrow> bool" where
  "table_ok shift i c \<longleftrightarrow> IS_PRINTABLE shift (of_nat i) \<longrightarrow>
     (if i = 0x1C then c = RETURN_KEY else if i = 0x0F then c = TABULATOR_KEY
      else if i = 0x2A \<or> i = 0x36 then True else 0x20 \<le> c \<and> c \<le> 0x7E)"

lemma table_checked:
  "list_all (\<lambda>(i, x). table_ok False i (fst x) \<and> table_ok True i (snd x)) (enumerate 0 scancodeMap)"
  by code_simp

lemma unprintable:
  "IS_PRINTABLE b sc \<Longrightarrow> sc \<noteq> 0x2A \<and> sc \<noteq> 0x36 \<and> sc \<noteq> 0x1D \<and> sc \<noteq> 0x3A"
  by (auto simp: IS_PRINTABLE_def)

lemma press_codes:
  assumes "IS_KEYCODE sc"
  shows "isPressed sc" and "makeCode sc = sc"
proof -
  have all: "list_all (\<lambda>n. isPressed (of_nat n) \<and> makeCode (of_nat n) = of_nat n) [0..<89]" by code_simp
  have "unat sc \<in> set [0..<89]" using assms by (simp add: IS_KEYCODE_def word_le_nat_alt)
  from bspec [OF all [unfolded list_all_iff] this] show "isPressed sc" "makeCode sc = sc" by simp_all
qed

lemma key_char_table:
  assumes "IS_PRINTABLE (SHIFT_KEY_PRESSED k) sc"
  shows "sc = RETURN_KEY \<Longrightarrow> key_char k sc = RETURN_KEY" and "sc = TABULATOR_KEY \<Longrightarrow> key_char k sc = TABULATOR_KEY"
    and "\<lbrakk>sc \<noteq> RETURN_KEY; sc \<noteq> TABULATOR_KEY\<rbrakk> \<Longrightarrow> 0x20 \<le> key_char k sc \<and> key_char k sc \<le> 0x7E"
proof -
  let ?i = "unat sc"
  have i: "?i < length scancodeMap"
    using assms(1) by (simp add: IS_PRINTABLE_def IS_KEYCODE_def scancodeMap_def word_le_nat_alt)
  have "(?i, scancodeMap ! ?i) \<in> set (enumerate 0 scancodeMap)"
    using i by (simp add: in_set_enumerate_eq)
  then have t: "table_ok False ?i (fst (scancodeMap ! ?i))" "table_ok True ?i (snd (scancodeMap ! ?i))"
    using table_checked by (auto simp: list_all_iff)
  have n: "sc = 0x2A \<longleftrightarrow> ?i = 0x2A" "sc = 0x36 \<longleftrightarrow> ?i = 0x36" "sc = 0x1C \<longleftrightarrow> ?i = 0x1C" "sc = 0x0F \<longleftrightarrow> ?i = 0x0F"
    by (simp_all add: word_unat_eq_iff)
  have up: "0x20 \<le> TO_UPPER c \<and> TO_UPPER c \<le> 0x7E" if "0x20 \<le> c" "c \<le> 0x7E" for c :: u8
    using that by (auto simp: TO_UPPER_def IS_ALPHA_def word_le_nat_alt unat_sub unat_word_ariths)
  have c: "if ?i = 0x1C then c = RETURN_KEY else if ?i = 0x0F then c = TABULATOR_KEY else 0x20 \<le> c \<and> c \<le> 0x7E"
    if "c = (if SHIFT_KEY_PRESSED k then snd else fst) (scancodeMap ! ?i)" for c
    using t that assms n unprintable [OF assms] by (auto simp: table_ok_def split: if_splits)
  have u: "TO_UPPER 0x1C = 0x1C" "TO_UPPER 0x0F = 0x0F" by (simp_all add: TO_UPPER_def IS_ALPHA_def)
  show "sc = RETURN_KEY \<Longrightarrow> key_char k sc = RETURN_KEY" "sc = TABULATOR_KEY \<Longrightarrow> key_char k sc = TABULATOR_KEY"
    "\<lbrakk>sc \<noteq> RETURN_KEY; sc \<noteq> TABULATOR_KEY\<rbrakk> \<Longrightarrow> 0x20 \<le> key_char k sc \<and> key_char k sc \<le> 0x7E"
    using c [OF refl] n u up by (auto simp: key_char_def Let_def split: if_splits)
qed

lemma sem_inv_kbd_con [simp]:
  "sem_inv I lv (upd_kbd f s) = sem_inv I lv s" "sem_inv I lv (upd_con g s) = sem_inv I lv s"
  by (simp_all add: upd_kbd_def upd_con_def sem_inv_def sem_ok_def sem_wait_list_def sched_wf_def queues_ok_def
      members_ok_def rqueued_def rq_def pcb_def)

lemma upd_kbd_con_fields [simp]:
  "kbd (upd_kbd f s) = f (kbd s)" "kbd (upd_con g s) = kbd s" "sems (upd_kbd f s) = sems s" "sems (upd_con g s) = sems s"
  "pcb (upd_kbd f s) = pcb s" "pcb (upd_con g s) = pcb s" "sem_wait_list (upd_kbd f s) = sem_wait_list s"
  "sem_wait_list (upd_con g s) = sem_wait_list s"
  by (simp_all add: upd_kbd_def upd_con_def pcb_def sem_wait_list_def fun_eq_iff)

lemma add_plain_fields [simp]:
  "kbd (add_plain c b s) = store_char c (kbd s)" "sems (add_plain c b s) = sems s" "pcb (add_plain c b s) = pcb s"
  "sem_inv I lv (add_plain c b s) = sem_inv I lv s" "sem_wait_list (add_plain c b s) = sem_wait_list s"
  by (simp_all add: add_plain_def Let_def)

lemma kbd_semPost: "kbd (snd (semPost M k s)) = kbd s"
  by (rule kernel_more(2), rule semPost_more)

lemma notify_kbd [simp]: "kbd (notify M s) = kbd s"
  by (simp add: notify_def kbd_semPost)

text \<open>
  C19: typing. When a program reads from the keyboard and a printable key other than Tab goes
  down, with Control up, the character appended to the pending ones is the one the table
  gives for the state of the Shift and Caps Lock keys, a visible character or the newline for
  Return; the keyboard semaphore counts one more and every process that slept on it is ready.
  (A second newline in a row is dropped, and the buffer must not be full.)
\<close>

theorem key_press_types:
  assumes "sem_inv naive_inv naive_live s" and "kbd_ok (kbd s)" and "\<not> BUFFER_IS_FULL (kbd s)"
    and "length (pending (kbd s)) < 1023" and "IS_PRINTABLE (SHIFT_KEY_PRESSED (kbd s)) sc"
    and "sc \<noteq> TABULATOR_KEY" and "\<not> CONTROL_KEY_PRESSED (kbd s)"
    and "keyboard_options (kbd s) AND MODIFY_BUFFER \<noteq> 0"
    and "sc = RETURN_KEY \<longrightarrow> pending (kbd s) = [] \<or> kbuffer (kbd s) (SUB_MOD (to_write (kbd s)) 1 1024) \<noteq> NEW_LINE_CHAR"
    and "snd (KeyFnMap (kbd s) (unat (sc - 1))) = 0" and "keyboard_semaphore (kbd s) = int i" and "i < 500"
    and "used (sems s i)" and "keyboardHandler naive_mm call sc s = (r, s')"
    and "c = (if sc = RETURN_KEY then NEW_LINE_CHAR else key_char (kbd s) sc)"
  shows "r = Ret sc \<and> pending (kbd s') = pending (kbd s) @ [c] \<and> (sc \<noteq> RETURN_KEY \<longrightarrow> 0x20 \<le> c \<and> c \<le> 0x7E)
    \<and> svalue (sems s' i) = svalue (sems s i) + 1
    \<and> (\<forall>p \<in> set (sem_wait_list s i). pstate (pcb s p) = BLOCKED \<longrightarrow> pstate (pcb s' p) = READY)
    \<and> kbd_ok (kbd s') \<and> sem_inv naive_inv naive_live s'"
proof -
  let ?k = "kbd s" and ?show = "keyboard_options (kbd s) AND SHOW_BUFFER_WHILE_TYPING \<noteq> 0"
  have kc: "IS_KEYCODE sc" using assms(5) by (simp add: IS_PRINTABLE_def)
  note pc = press_codes [OF kc] and up = unprintable [OF assms(5)] and kt = key_char_table [OF assms(5)]
  have md: "upd_kbd (set_modifier sc) s = s"
    using pc(2) up by (simp add: upd_kbd_def set_modifier_def Let_def)
  have vis: "0x20 \<le> c \<and> c \<le> 0x7E" if "sc \<noteq> RETURN_KEY" using kt(3) that assms(6,15) by simp
  have plain: "c \<noteq> TABULATOR_CHAR" "c \<noteq> RETURN_KEY" "sc \<noteq> RETURN_KEY \<Longrightarrow> c \<noteq> TABULATOR_KEY"
    using vis assms(15) by (auto simp: word_le_nat_alt)
  let ?t = "add_plain c ?show s"
  have ed: "edit_buffer naive_mm sc s = (False, notify naive_mm ?t)"
  proof (cases "sc = RETURN_KEY")
    case True
    then show ?thesis
      using assms(5,8,9,15) kt(1) pending_empty [OF assms(2)] plain(1)
      by (auto simp: edit_buffer_def Let_def addCharToBuffer_def)
  next
    case False
    then show ?thesis
      using assms(5,6,8,15) plain by (simp add: edit_buffer_def Let_def addCharToBuffer_def)
  qed
  have h: "(r, s') = (Ret sc, notify naive_mm ?t)"
    using assms(3,7,10) pc kc md ed unfolding assms(14) [symmetric]
    by (simp add: keyboardHandler_def Let_def store_char_def)
  have nt: "notify naive_mm ?t = snd (semPost naive_mm (int i) ?t)"
    using assms(11) by (simp add: notify_def store_char_def)
  have rs: "r = Ret sc" "s' = notify naive_mm ?t" using h by simp_all
  have w: "sem_inv naive_inv naive_live ?t" "used (sems ?t i)" using assms(1,13) by simp_all
  note P = naive.semPost_spec [OF w(1) assms(12) w(2) surjective_pairing, folded nt rs(2)]
  have k: "kbd s' = store_char c ?k" unfolding rs(2) by simp
  have "pending (kbd s') = pending ?k @ [c]"
    unfolding k using assms(4) by (intro pending_store [OF assms(2)]) simp
  moreover have "kbd_ok (kbd s')" unfolding k by (rule store_char_ok [OF assms(2)])
  moreover have "svalue (sems s' i) = svalue (sems s i) + 1" using P(3) by simp
  moreover have "\<forall>p \<in> set (sem_wait_list s i). pstate (pcb s p) = BLOCKED \<longrightarrow> pstate (pcb s' p) = READY"
  proof (intro ballI impI)
    fix p assume p: "p \<in> set (sem_wait_list s i)" "pstate (pcb s p) = BLOCKED"
    have "1 \<le> p" using naive.sem_invD(5) [OF assms(1,12,13)] p(1) by blast
    then show "pstate (pcb s' p) = READY" using P(9) p by (simp add: naive.woken_def)
  qed
  ultimately show ?thesis using rs(1) vis P(2) by blast
qed

definition typing_keyboard :: keyboard where
  "typing_keyboard = demo_keyboard\<lparr>to_read := 4, keyboard_options := MODIFY_BUFFER, SHIFT_KEY_PRESSED := True\<rparr>"

lemma key_press_types_witness:
  "pending (kbd (snd (keyboardHandler naive_mm (\<lambda>_ _ s. s) 0x1E (boot_kernel typing_keyboard (demo_mutex 0))))) = [0x41]"
proof -
  let ?k = typing_keyboard
  have v: "(0 :: int) \<le> 0" by simp
  have k: "kbd_ok ?k" "\<not> BUFFER_IS_FULL ?k" "pending ?k = []" "\<not> CONTROL_KEY_PRESSED ?k"
    "keyboard_options ?k AND MODIFY_BUFFER \<noteq> 0" "snd (KeyFnMap ?k (unat (0x1E - 1 :: u8))) = 0"
    "keyboard_semaphore ?k = int 0"
    by (simp_all add: typing_keyboard_def demo_keyboard_def kbd_ok_def BUFFER_IS_FULL_def pending_def held_def)
  have p: "IS_PRINTABLE (SHIFT_KEY_PRESSED ?k) 0x1E" by (simp add: IS_PRINTABLE_def IS_KEYCODE_def)
  have c: "key_char ?k 0x1E = 0x41"
    by (simp add: key_char_def typing_keyboard_def demo_keyboard_def scancodeMap_def)
  note T = key_press_types [where s = "boot_kernel ?k (demo_mutex 0)" and sc = "0x1E" and i = 0 and call = "\<lambda>_ _ s. s",
      OF _ _ _ _ _ _ _ _ _ _ _ _ _ surjective_pairing refl]
  show ?thesis
    by (rule T [THEN conjunct2, THEN conjunct1, THEN trans])
      (use k p c demo_mutex_facts(1,2) [OF v] in simp_all)
qed

end
