(* ===== verification/Syscalls.thy ===== *)
theory Syscalls
  imports Keyboard_Handler
begin

text \<open>
  \<open>Kernel/idt/syscallDispatcher.c\<close>: the system calls and their dispatch on \<open>rax\<close>.

  What the kernel reads through user pointers (buffers, names, creation parameters) and the
  hardware and code it cannot see (the clock, the function run by \<open>sys_exec\<close>, the status
  report of the memory manager) are the fields of \<open>user\<close>. What it writes through user
  pointers is returned as a value of \<open>user_out\<close>. A call that puts its caller to sleep answers
  \<open>Sleep\<close>; it goes on with the \<open>_resume\<close> function of the operation that slept. The dispatcher
  returns a 32-bit integer, so every answer passes through \<open>to_ret\<close>.
\<close>

section \<open>The program\<close>

record Registers =
  rax :: u64
  rdi :: u64
  rsi :: u64
  rdx :: u64
  rcx :: u64
  r8 :: u64

record 'k user =
  user_bytes :: "addr \<Rightarrow> nat \<Rightarrow> u8 list"
  user_name :: "addr \<Rightarrow> string"
  user_params :: "addr \<Rightarrow> creationParameters"
  user_call :: "addr \<Rightarrow> 'k \<Rightarrow> int \<times> 'k"
  clock :: "u8 \<times> u8 \<times> u8"
  mem_status :: "'k \<Rightarrow> MemoryStatus"

datatype user_out = Nothing | Bytes addr "u8 list" | Value addr int | Pair_of addr int int
  | Status addr MemoryStatus | Words addr "u64 list"

type_synonym 'k sysret = "int outcome \<times> user_out \<times> 'k"

definition i32 :: "u64 \<Rightarrow> int" where "i32 r = sint (ucast r :: 32 word)"
definition i64 :: "u64 \<Rightarrow> int" where "i64 r = sint r"
definition arg32 :: "u64 \<Rightarrow> u32" where "arg32 r = ucast r"
definition ptr :: "u64 \<Rightarrow> addr" where "ptr r = unat r"
definition to_ret :: "int \<Rightarrow> int" where "to_ret v = sint (of_int v :: 32 word)"

text \<open>The shape of a call that returns at once and writes nothing for the user.\<close>

definition ret :: "int \<times> 'k \<Rightarrow> 'k sysret" where "ret r = (Ret (fst r), Nothing, snd r)"

definition sys_write :: "'m mm \<Rightarrow> ('m, 'z) kernel_scheme user \<Rightarrow> int \<Rightarrow> addr \<Rightarrow> int
    \<Rightarrow> ('m, 'z) kernel_scheme \<Rightarrow> ('m, 'z) kernel_scheme sysret" where
  "sys_write M U fd buf cnt s =
     (case writeToFD M fd (user_bytes U buf (nat cnt)) s of
        (WriteDone n, s1) \<Rightarrow> (Ret (int n), Nothing, s1) | (WriteSleep _, s1) \<Rightarrow> (Sleep, Nothing, s1))"

definition sys_read :: "'m mm \<Rightarrow> int \<Rightarrow> addr \<Rightarrow> int
    \<Rightarrow> ('m, 'z) kernel_scheme \<Rightarrow> ('m, 'z) kernel_scheme sysret" where
  "sys_read M fd buf cnt s =
     (case readFromFD M fd cnt s of
        (ReadDone bs, s1) \<Rightarrow> (Ret (int (length bs)), Bytes buf bs, s1)
      | (ReadSleep bs, s1) \<Rightarrow> (Sleep, Bytes buf bs, s1))"

definition sys_fonts_text_color :: "u32 \<Rightarrow> ('m, 'z) kernel_scheme \<Rightarrow> int \<times> ('m, 'z) kernel_scheme" where
  "sys_fonts_text_color color s = (0, upd_con (setTextColor color) s)"

definition sys_fonts_background_color :: "u32 \<Rightarrow> ('m, 'z) kernel_scheme \<Rightarrow> int \<times> ('m, 'z) kernel_scheme" where
  "sys_fonts_background_color color s = (0, upd_con (setBackgroundColor color) s)"

definition sys_fonts_decrease_size :: "('m, 'z) kernel_scheme \<Rightarrow> int \<times> ('m, 'z) kernel_scheme" where
  "sys_fonts_decrease_size s = (let (r, c) = decreaseFontSize (con s) in (int r, s\<lparr>con := c\<rparr>))"

definition sys_fonts_increase_size :: "('m, 'z) kernel_scheme \<Rightarrow> int \<times> ('m, 'z) kernel_scheme" where
  "sys_fonts_increase_size s = (let (r, c) = increaseFontSize (con s) in (int r, s\<lparr>con := c\<rparr>))"

definition sys_fonts_set_size :: "u8 \<Rightarrow> ('m, 'z) kernel_scheme \<Rightarrow> int \<times> ('m, 'z) kernel_scheme" where
  "sys_fonts_set_size n s = (let (r, c) = setFontSize n (con s) in (int r, s\<lparr>con := c\<rparr>))"

definition sys_clear_screen :: "('m, 'z) kernel_scheme \<Rightarrow> int \<times> ('m, 'z) kernel_scheme" where
  "sys_clear_screen s = (0, upd_con clear s)"

definition sys_clear_input_buffer :: "('m, 'z) kernel_scheme \<Rightarrow> int \<times> ('m, 'z) kernel_scheme" where
  "sys_clear_input_buffer s = (0, clear_input s)"

definition sys_window_width :: "('m, 'z) kernel_scheme \<Rightarrow> int" where
  "sys_window_width s = int (getWindowWidth (vid (con s)))"

definition sys_window_height :: "('m, 'z) kernel_scheme \<Rightarrow> int" where
  "sys_window_height s = int (getWindowHeight (vid (con s)))"

definition sys_hour :: "'k user \<Rightarrow> addr \<Rightarrow> 'k \<Rightarrow> 'k sysret" where
  "sys_hour U p s = (Ret 0, Value p (uint (fst (clock U))), s)"

definition sys_minute :: "'k user \<Rightarrow> addr \<Rightarrow> 'k \<Rightarrow> 'k sysret" where
  "sys_minute U p s = (Ret 0, Value p (uint (fst (snd (clock U)))), s)"

definition sys_second :: "'k user \<Rightarrow> addr \<Rightarrow> 'k \<Rightarrow> 'k sysret" where
  "sys_second U p s = (Ret 0, Value p (uint (snd (snd (clock U)))), s)"

definition upd_vid :: "(video \<Rightarrow> video) \<Rightarrow> ('m, 'z) kernel_scheme \<Rightarrow> ('m, 'z) kernel_scheme" where
  "upd_vid f s = upd_con (\<lambda>c. c\<lparr>vid := f (vid c)\<rparr>) s"

definition sys_circle :: "u32 \<Rightarrow> nat \<Rightarrow> nat \<Rightarrow> nat \<Rightarrow> ('m, 'z) kernel_scheme \<Rightarrow> int \<times> ('m, 'z) kernel_scheme" where
  "sys_circle hexColor topLeftX topLeftY diameter s = (0, upd_vid (drawCircle hexColor topLeftX topLeftY diameter) s)"

definition sys_rectangle ::
  "u32 \<Rightarrow> nat \<Rightarrow> nat \<Rightarrow> nat \<Rightarrow> nat \<Rightarrow> ('m, 'z) kernel_scheme \<Rightarrow> int \<times> ('m, 'z) kernel_scheme" where
  "sys_rectangle color width_pixels height_pixels initial_pos_x initial_pos_y s =
     (0, upd_vid (drawRectangle color width_pixels height_pixels initial_pos_x initial_pos_y) s)"

definition sys_fill_video_memory :: "u32 \<Rightarrow> ('m, 'z) kernel_scheme \<Rightarrow> int \<times> ('m, 'z) kernel_scheme" where
  "sys_fill_video_memory hexColor s = (0, upd_vid (fillVideoMemory hexColor) s)"

text \<open>Running a program in place: font, colours and registered keys are put back behind it.\<close>

definition sys_exec ::
  "('m, 'z) kernel_scheme user \<Rightarrow> addr \<Rightarrow> ('m, 'z) kernel_scheme \<Rightarrow> int \<times> ('m, 'z) kernel_scheme" where
  "sys_exec U fnPtr s =
     (let s1 = upd_con clear s;
          size' = of_nat (fontSize (con s1)); fg = text_color (con s1); bg = background_color (con s1);
          (km, k) = clearKeyFnMapNonKernel (\<lambda>_. 0) (kbd s1);
          (aux, s2) = user_call U fnPtr (s1\<lparr>kbd := k\<rparr>);
          s3 = upd_kbd (restoreKeyFnMapNonKernel km) s2;
          s4 = upd_con (\<lambda>c. snd (setFontSize size' c)) s3;
          s5 = upd_con (setBackgroundColor bg) (upd_con (setTextColor fg) s4)
      in (aux, upd_con clear s5))"

definition sys_register_key :: "u8 \<Rightarrow> addr \<Rightarrow> ('m, 'z) kernel_scheme \<Rightarrow> int \<times> ('m, 'z) kernel_scheme" where
  "sys_register_key scancode f s = (0, upd_kbd (\<lambda>k. snd (registerSpecialKey scancode f 0 k)) s)"

text \<open>The number of ticks to sleep, in 32-bit arithmetic; the caller halts until they have passed.\<close>

definition milis_ticks :: "u32 \<Rightarrow> u32" where
  "milis_ticks milis = (milis * of_nat SECONDS_TO_TICKS) div 1000"

definition sys_sleep_resume :: "nat \<Rightarrow> u32 \<Rightarrow> ('m, 'z) kernel_scheme \<Rightarrow> ('m, 'z) kernel_scheme sysret" where
  "sys_sleep_resume start milis s =
     (if sleepTicks_done start (ucast (milis_ticks milis)) s then Ret 0 else Sleep, Nothing, s)"

definition sys_sleep_milis :: "u32 \<Rightarrow> ('m, 'z) kernel_scheme \<Rightarrow> ('m, 'z) kernel_scheme sysret" where
  "sys_sleep_milis milis s = sys_sleep_resume (ticks s) milis s"

definition sys_get_register_snapshot :: "addr \<Rightarrow> ('m, 'z) kernel_scheme \<Rightarrow> ('m, 'z) kernel_scheme sysret" where
  "sys_get_register_snapshot p s =
     (if \<not> register_snapshot_taken s then (Ret 0, Nothing, s)
      else (Ret 1, Words p (take 18 (register_snapshot s)), s))"

definition sys_get_character_without_display ::
  "'m mm \<Rightarrow> ('m, 'z) kernel_scheme \<Rightarrow> ('m, 'z) kernel_scheme sysret" where
  "sys_get_character_without_display M s =
     (case getKeyboardCharacter M 0 s of (Ret c, s1) \<Rightarrow> (Ret (sint c), Nothing, s1) | (Sleep, s1) \<Rightarrow> (Sleep, Nothing, s1))"

definition sys_get_mem_status :: "'k user \<Rightarrow> addr \<Rightarrow> 'k \<Rightarrow> 'k sysret" where
  "sys_get_mem_status U p s = (Ret 0, if p = 0 then Nothing else Status p (mem_status U s), s)"

definition sys_malloc :: "'m mm \<Rightarrow> u32 \<Rightarrow> ('m, 'z) kernel_scheme \<Rightarrow> addr \<times> ('m, 'z) kernel_scheme" where
  "sys_malloc M n s = k_alloc M n s"

definition sys_free :: "'m mm \<Rightarrow> addr \<Rightarrow> ('m, 'z) kernel_scheme \<Rightarrow> int \<times> ('m, 'z) kernel_scheme" where
  "sys_free M p s = (0, k_free M p s)"

definition sys_create_process ::
  "'m mm \<Rightarrow> ('m, 'z) kernel_scheme user \<Rightarrow> addr \<Rightarrow> ('m, 'z) kernel_scheme \<Rightarrow> int \<times> ('m, 'z) kernel_scheme" where
  "sys_create_process M U p s = (if p = 0 then (- 1, s) else createProcess M (Some (user_params U p)) s)"

definition sys_getpid :: "('m, 'z) kernel_scheme \<Rightarrow> int" where
  "sys_getpid s = getpid s"

definition sys_kill :: "'m mm \<Rightarrow> int \<Rightarrow> ('m, 'z) kernel_scheme \<Rightarrow> ('m, 'z) kernel_scheme sysret" where
  "sys_kill M i s = (let (r, s1) = kill M i s in (r, Nothing, s1))"

definition sys_block :: "'m mm \<Rightarrow> int \<Rightarrow> ('m, 'z) kernel_scheme \<Rightarrow> int \<times> ('m, 'z) kernel_scheme" where
  "sys_block M i s = (if i = 1 \<or> \<not> isValidPID s i then (- 1, s) else blockProcess M i s)"

definition sys_unblock :: "'m mm \<Rightarrow> int \<Rightarrow> ('m, 'z) kernel_scheme \<Rightarrow> int \<times> ('m, 'z) kernel_scheme" where
  "sys_unblock M i s = unblockProcess M i s"

definition sys_ps :: "'m mm \<Rightarrow> ('m, 'z) kernel_scheme \<Rightarrow> addr \<times> ('m, 'z) kernel_scheme" where
  "sys_ps M s = getProcessesInformation M s"

definition sys_change_priority :: "'m mm \<Rightarrow> int \<Rightarrow> u32 \<Rightarrow> ('m, 'z) kernel_scheme \<Rightarrow> int \<times> ('m, 'z) kernel_scheme" where
  "sys_change_priority M i prio s = changeProccessPriority M i (unat prio) s"

definition sys_yield :: "'m mm \<Rightarrow> ('m, 'z) kernel_scheme \<Rightarrow> int \<times> ('m, 'z) kernel_scheme" where
  "sys_yield M s = (0, snd (yield M s))"

definition sys_wait :: "'m mm \<Rightarrow> int \<Rightarrow> addr \<Rightarrow> ('m, 'z) kernel_scheme \<Rightarrow> ('m, 'z) kernel_scheme sysret" where
  "sys_wait M i wstatus s =
     (case waitProcess M i s of
        (Ret v, s1) \<Rightarrow> (Ret 0, (case v of Some x \<Rightarrow> if wstatus \<noteq> 0 then Value wstatus x else Nothing
                                        | None \<Rightarrow> Nothing), s1)
      | (Sleep, s1) \<Rightarrow> (Sleep, Nothing, s1))"

definition sys_wait_resume :: "int \<Rightarrow> addr \<Rightarrow> ('m, 'z) kernel_scheme \<Rightarrow> ('m, 'z) kernel_scheme sysret" where
  "sys_wait_resume i wstatus s =
     (Ret 0, if wstatus \<noteq> 0 then Value wstatus (waitProcess_finish i s) else Nothing, s)"

definition sys_sem_open ::
  "'m mm \<Rightarrow> ('m, 'z) kernel_scheme user \<Rightarrow> addr \<Rightarrow> int \<Rightarrow> ('m, 'z) kernel_scheme \<Rightarrow> int \<times> ('m, 'z) kernel_scheme" where
  "sys_sem_open M U nm v s =
     (if nm = 0 then (- 1, s)
      else if findSemByName s (user_name U nm) < 0
      then let (semId, s1) = semCreate M (user_name U nm) v s in if semId < 0 then (- 1, s1) else (semId, s1)
      else semOpen (user_name U nm) s)"

definition sys_sem_close :: "int \<Rightarrow> ('m, 'z) kernel_scheme \<Rightarrow> int \<times> ('m, 'z) kernel_scheme" where
  "sys_sem_close semId s = semClose semId s"

definition sys_sem_wait :: "'m mm \<Rightarrow> int \<Rightarrow> ('m, 'z) kernel_scheme \<Rightarrow> unit outcome \<times> ('m, 'z) kernel_scheme" where
  "sys_sem_wait M semId s =
     (if semId < 0 \<or> \<not> semExists s semId then (Ret (), s)
      else case semWait M semId s of (Ret _, s1) \<Rightarrow> (Ret (), s1) | (Sleep, s1) \<Rightarrow> (Sleep, s1))"

definition sys_sem_post :: "'m mm \<Rightarrow> int \<Rightarrow> ('m, 'z) kernel_scheme \<Rightarrow> ('m, 'z) kernel_scheme" where
  "sys_sem_post M semId s = (if semId < 0 \<or> \<not> semExists s semId then s else snd (semPost M semId s))"

definition sys_sem_destroy :: "'m mm \<Rightarrow> int \<Rightarrow> ('m, 'z) kernel_scheme \<Rightarrow> ('m, 'z) kernel_scheme" where
  "sys_sem_destroy M semId s = (if semId < 0 \<or> \<not> semExists s semId then s else snd (semDestroy M semId s))"

definition sys_pipe :: "'m mm \<Rightarrow> addr \<Rightarrow> ('m, 'z) kernel_scheme \<Rightarrow> ('m, 'z) kernel_scheme sysret" where
  "sys_pipe M fds s =
     (if fds = 0 then (Ret (- 1), Nothing, s)
      else let ((r, (a, b)), s1) = createPipe M s in (Ret r, if r = 0 then Pair_of fds a b else Nothing, s1))"

definition sys_close :: "'m mm \<Rightarrow> int \<Rightarrow> ('m, 'z) kernel_scheme \<Rightarrow> int \<times> ('m, 'z) kernel_scheme" where
  "sys_close M fd s = closeFD M fd s"

definition sys_get_fd :: "addr \<Rightarrow> ('m, 'z) kernel_scheme \<Rightarrow> ('m, 'z) kernel_scheme sysret" where
  "sys_get_fd fds s =
     (if fds = 0 then (Ret (- 1), Nothing, s)
      else if getCurrentProcess s = 0 then (Ret (- 1), Nothing, s)
      else case getFileDescriptors s of (r, Some (a, b)) \<Rightarrow> (Ret r, Pair_of fds a b, s) | (r, None) \<Rightarrow> (Ret r, Nothing, s))"

definition sys_read_at_current_pos :: "'m mm \<Rightarrow> int \<Rightarrow> addr \<Rightarrow> ('m, 'z) kernel_scheme \<Rightarrow> ('m, 'z) kernel_scheme sysret" where
  "sys_read_at_current_pos M fd buf s =
     (case readFromFDAt M fd (getReadPos fd s) s of
        (Ret (n, bs), s1) \<Rightarrow> (Ret n, if bs = [] then Nothing else Bytes buf bs, s1)
      | (Sleep, s1) \<Rightarrow> (Sleep, Nothing, s1))"

text \<open>The calls by the number in \<open>rax\<close>, before the answer is narrowed.\<close>

definition syscall ::
  "'m mm \<Rightarrow> ('m, 'z) kernel_scheme user \<Rightarrow> Registers \<Rightarrow> ('m, 'z) kernel_scheme \<Rightarrow> ('m, 'z) kernel_scheme sysret" where
  "syscall M U r s =
     (if rax r = 3 then sys_read M (i32 (rdi r)) (ptr (rsi r)) (i32 (rdx r)) s
      else if rax r = 4 then sys_write M U (i32 (rdi r)) (ptr (rsi r)) (i32 (rdx r)) s
      else if rax r = 0x80000002 then ret (sys_fonts_text_color (arg32 (rdi r)) s)
      else if rax r = 0x80000003 then ret (sys_fonts_background_color (arg32 (rdi r)) s)
      else if rax r = 0x80000004 \<or> rax r = 0x80000005 \<or> rax r = 0x80000006 then ret (- 1, s)
      else if rax r = 0x80000007 then ret (sys_fonts_decrease_size s)
      else if rax r = 0x80000008 then ret (sys_fonts_increase_size s)
      else if rax r = 0x80000009 then ret (sys_fonts_set_size (ucast (rdi r)) s)
      else if rax r = 0x8000000A then ret (sys_clear_screen s)
      else if rax r = 0x8000000B then ret (sys_clear_input_buffer s)
      else if rax r = 0x80000010 then sys_hour U (ptr (rdi r)) s
      else if rax r = 0x80000011 then sys_minute U (ptr (rdi r)) s
      else if rax r = 0x80000012 then sys_second U (ptr (rdi r)) s
      else if rax r = 0x80000019 then ret (sys_circle (arg32 (rdi r)) (unat (rsi r)) (unat (rdx r)) (unat (rcx r)) s)
      else if rax r = 0x80000020
      then ret (sys_rectangle (arg32 (rdi r)) (unat (rsi r)) (unat (rdx r)) (unat (rcx r)) (unat (r8 r)) s)
      else if rax r = 0x80000021 then ret (sys_fill_video_memory (arg32 (rdi r)) s)
      else if rax r = 0x800000A0 then ret (sys_exec U (ptr (rdi r)) s)
      else if rax r = 0x800000B0 then ret (sys_register_key (ucast (rdi r)) (ptr (rsi r)) s)
      else if rax r = 0x800000C0 then ret (sys_window_width s, s)
      else if rax r = 0x800000C1 then ret (sys_window_height s, s)
      else if rax r = 0x800000D0 then sys_sleep_milis (arg32 (rdi r)) s
      else if rax r = 0x800000E0 then sys_get_register_snapshot (ptr (rdi r)) s
      else if rax r = 0x800000F0 then sys_get_character_without_display M s
      else if rax r = 0x80000100 then sys_get_mem_status U (ptr (rdi r)) s
      else if rax r = 0x80000101 then (let (p, s1) = sys_malloc M (arg32 (rdi r)) s in ret (int p, s1))
      else if rax r = 0x80000102 then ret (sys_free M (ptr (rdi r)) s)
      else if rax r = 0x80000200 then ret (sys_create_process M U (ptr (rdi r)) s)
      else if rax r = 0x80000201 then ret (sys_getpid s, s)
      else if rax r = 0x80000202 then sys_kill M (i64 (rdi r)) s
      else if rax r = 0x80000203 then ret (sys_block M (i64 (rdi r)) s)
      else if rax r = 0x80000204 then ret (sys_unblock M (i64 (rdi r)) s)
      else if rax r = 0x80000205 then (let (p, s1) = sys_ps M s in ret (int p, s1))
      else if rax r = 0x80000206 then ret (sys_change_priority M (i64 (rdi r)) (arg32 (rsi r)) s)
      else if rax r = 0x80000207 then ret (sys_yield M s)
      else if rax r = 0x80000208 then sys_wait M (i64 (rdi r)) (ptr (rsi r)) s
      else if rax r = 0x80000300 then ret (sys_sem_open M U (ptr (rdi r)) (i32 (rsi r)) s)
      else if rax r = 0x80000301 then ret (sys_sem_close (i32 (rdi r)) s)
      else if rax r = 0x80000302
      then (case sys_sem_wait M (i32 (rdi r)) s of (Ret _, s1) \<Rightarrow> ret (0, s1) | (Sleep, s1) \<Rightarrow> (Sleep, Nothing, s1))
      else if rax r = 0x80000303 then ret (0, sys_sem_post M (i32 (rdi r)) s)
      else if rax r = 0x80000304 then ret (semSetValue M (i32 (rdi r)) (i32 (rsi r)) s)
      else if rax r = 0x80000305 then ret (0, sys_sem_destroy M (i32 (rdi r)) s)
      else if rax r = 0x80000400 then sys_pipe M (ptr (rdi r)) s
      else if rax r = 0x80000401 then ret (sys_close M (i32 (rdi r)) s)
      else if rax r = 0x80000402 then sys_get_fd (ptr (rdi r)) s
      else if rax r = 0x80000403 then sys_read_at_current_pos M (i32 (rdi r)) (ptr (rsi r)) s
      else ret (0, s))"

definition syscallDispatcher ::
  "'m mm \<Rightarrow> ('m, 'z) kernel_scheme user \<Rightarrow> Registers \<Rightarrow> ('m, 'z) kernel_scheme \<Rightarrow> ('m, 'z) kernel_scheme sysret" where
  "syscallDispatcher M U r s =
     (case syscall M U r s of (Ret v, w, s1) \<Rightarrow> (Ret (to_ret v), w, s1) | (Sleep, w, s1) \<Rightarrow> (Sleep, w, s1))"

section \<open>Properties\<close>




text \<open>
  C20: \<open>sys_exec\<close> runs a program and puts the console and the keyboard back: whatever the
  program did, afterwards the font size, the colours and every key that the kernel did not
  register are as before (the Escape key excepted), the screen is blank and the position at
  its origin, and the caller gets the value of the program.
\<close>

theorem exec_restores:
  assumes "rax r = 0x800000A0" and "syscallDispatcher M U r s = (a, w, s')"
    and "1 \<le> fontSize (con s)" and "fontSize (con s) \<le> 10"
    and "t = (upd_con clear s)\<lparr>kbd := snd (clearKeyFnMapNonKernel (\<lambda>_. 0) (kbd s))\<rparr>"
    and "user_call U (ptr (rdi r)) t = (v, t')"
    and "\<forall>i. fst (KeyFnMap (kbd t') i) = fst (KeyFnMap (kbd t) i)
          \<and> (fst (KeyFnMap (kbd t) i) \<noteq> 0 \<longrightarrow> KeyFnMap (kbd t') i = KeyFnMap (kbd t) i)"
  shows "fontSize (con s') = fontSize (con s) \<and> text_color (con s') = text_color (con s)
    \<and> background_color (con s') = background_color (con s) \<and> xBufferPosition (con s') = 0 \<and> yBufferPosition (con s') = 0
    \<and> (\<forall>i. 1 \<le> i \<and> i < 88 \<longrightarrow> KeyFnMap (kbd s') i = KeyFnMap (kbd s) i)
    \<and> w = Nothing \<and> a = Ret (to_ret v)"
proof -
  let ?s1 = "upd_con clear s"
  obtain km k where ck: "clearKeyFnMapNonKernel (\<lambda>_. 0) (kbd s) = (km, k)" by force
  define s2 where "s2 = t'"
  have call: "user_call U (ptr (rdi r)) (?s1\<lparr>kbd := k\<rparr>) = (v, s2)"
    using assms(5,6) ck by (simp add: s2_def)
  let ?f = "\<lambda>c. clear (setBackgroundColor (background_color (con s)) (setTextColor (text_color (con s))
      (snd (setFontSize (of_nat (fontSize (con s))) c))))"
  have cl: "fontSize (clear c) = fontSize c" "text_color (clear c) = text_color c"
    "background_color (clear c) = background_color c" "xBufferPosition (clear c) = 0" "yBufferPosition (clear c) = 0" for c
    by (simp_all add: clear_def)
  have e: "sys_exec U (ptr (rdi r)) s = (v, upd_con ?f (upd_kbd (restoreKeyFnMapNonKernel km) s2))"
    using ck call cl [of "con s"] by (simp add: sys_exec_def Let_def upd_con_def upd_kbd_def)
  then have res: "a = Ret (to_ret v)" "w = Nothing" "s' = upd_con ?f (upd_kbd (restoreKeyFnMapNonKernel km) s2)"
    using assms(1,2) by (auto simp: syscallDispatcher_def syscall_def ret_def)
  have n: "sint (of_nat (fontSize (con s)) :: 8 word) = int (fontSize (con s))"
    using assms(3,4) by (simp add: signed_of_nat signed_take_bit_int_eq_self)
  note C = clear_fold [OF key_indices_set(2) ck [unfolded clearKeyFnMapNonKernel_def], simplified]
  have P: "fst (KeyFnMap (kbd s2) i) = fst (KeyFnMap k i)" "fst (KeyFnMap k i) \<noteq> 0 \<Longrightarrow> KeyFnMap (kbd s2) i = KeyFnMap k i" for i
    using assms(5,7) ck by (simp_all add: s2_def)
  have sizes: "fontSize (con s') = fontSize (con s)" "text_color (con s') = text_color (con s)"
    "background_color (con s') = background_color (con s)" "xBufferPosition (con s') = 0" "yBufferPosition (con s') = 0"
    unfolding res(3) using n assms(3,4)
    by (simp_all add: upd_con_def upd_kbd_def cl setFontSize_def setTextColor_def setBackgroundColor_def Let_def)
  have keys: "KeyFnMap (kbd s') i = KeyFnMap (kbd s) i" if "1 \<le> i" "i < 88" for i
  proof -
    have i: "i \<in> set key_indices" using that by (simp add: key_indices_set)
    have "kbd s' = restoreKeyFnMapNonKernel km (kbd s2)" unfolding res(3) by (simp add: upd_con_def upd_kbd_def)
    then have "KeyFnMap (kbd s') i = (if fst (KeyFnMap (kbd s2) i) = 0 then (0, km i) else KeyFnMap (kbd s2) i)"
      using i by (simp add: restoreKeyFnMapNonKernel_def restore_fold)
    then show ?thesis using C i P [of i] by (auto simp: prod_eq_iff split: if_splits)
  qed
  show ?thesis using sizes keys res call ck by simp
qed

text \<open>A program that turns the console red and registers a key.\<close>

definition demo_user :: "naive kernel user" where
  "demo_user = \<lparr>user_bytes = (\<lambda>_ n. replicate n 0), user_name = (\<lambda>_. ''''), user_params = (\<lambda>_. demo_params),
     user_call = (\<lambda>_ t. (7, upd_con (setTextColor 0xFF0000) (upd_kbd (\<lambda>k. snd (registerSpecialKey 0x3B 99 0 k)) t))),
     clock = (0, 0, 0), mem_status = (\<lambda>s. getMemoryStatus_naive (lmem (lh s)))\<rparr>"

definition demo_call :: "u64 \<Rightarrow> Registers" where
  "demo_call n = \<lparr>rax = n, rdi = 100, rsi = 0, rdx = 0, rcx = 0, r8 = 0\<rparr>"



lemma exec_restores_witness:
  "text_color (con (snd (snd (syscallDispatcher naive_mm demo_user (demo_call 0x800000A0) big_kernel)))) = DEFAULT_TEXT_COLOR
   \<and> fst (syscallDispatcher naive_mm demo_user (demo_call 0x800000A0) big_kernel) = Ret 7"
proof -
  let ?r = "demo_call 0x800000A0"
  let ?t = "(upd_con clear big_kernel)\<lparr>kbd := snd (clearKeyFnMapNonKernel (\<lambda>_. 0) (kbd big_kernel))\<rparr>"
  obtain a w s' where d: "syscallDispatcher naive_mm demo_user ?r big_kernel = (a, w, s')" by (metis prod.collapse)
  define t' where "t' = snd (user_call demo_user (ptr (rdi ?r)) ?t)"
  have u: "user_call demo_user (ptr (rdi ?r)) ?t = (7, t')" by (simp add: t'_def demo_user_def)
  have k0: "KeyFnMap (kbd ?t) i = (0, 0)" for i
    using clear_fold [OF key_indices_set(2) surjective_pairing, of "(\<lambda>_. 0, kbd big_kernel)"]
    by (simp add: clearKeyFnMapNonKernel_def big_kernel_def demo_keyboard_def)
  have "fst (KeyFnMap (kbd t') i) = 0" for i
    using k0 by (simp add: t'_def demo_user_def upd_con_def upd_kbd_def registerSpecialKey_def Let_def)
  then have same: "\<forall>i. fst (KeyFnMap (kbd t') i) = fst (KeyFnMap (kbd ?t) i)
      \<and> (fst (KeyFnMap (kbd ?t) i) \<noteq> 0 \<longrightarrow> KeyFnMap (kbd t') i = KeyFnMap (kbd ?t) i)"
    unfolding k0 by simp
  have c: "con big_kernel = demo_console" by (simp add: big_kernel_def)
  have "rax ?r = 0x800000A0" by (simp add: demo_call_def)
  from exec_restores [OF this d _ _ refl u same] c d show ?thesis
    by (simp add: demo_console_def to_ret_def)
qed

end
