(* ===== verification/User_Strings.thy ===== *)
theory User_Strings
  imports Kernel_Lib "HOL-Library.Signed_Division"
begin

text \<open>
  The string functions that programs link with: \<open>Userland/libc/string.c\<close>, the number reader
  \<open>satoi\<close> and the random numbers of \<open>Userland/tests/test_util.c\<close> and \<open>Userland/libc/stdlib.c\<close>.
  They work on a byte memory. A scan that would not end is \<open>None\<close>. Names that the kernel's
  own library uses as well carry the suffix \<open>_u\<close>.
\<close>

section \<open>The program\<close>

partial_function (option) strlen_u_loop :: "mem \<Rightarrow> addr \<Rightarrow> nat \<Rightarrow> nat option" where
  "strlen_u_loop m str i = (if m (str + i) \<noteq> 0 then strlen_u_loop m str (i + 1) else Some i)"

definition strlen_u :: "mem \<Rightarrow> addr \<Rightarrow> nat option" where
  "strlen_u m str = strlen_u_loop m str 0"

partial_function (option) strcmp_u_loop :: "mem \<Rightarrow> addr \<Rightarrow> addr \<Rightarrow> nat \<Rightarrow> int option" where
  "strcmp_u_loop m str1 str2 i =
     (if m (str1 + i) \<noteq> 0 \<and> m (str2 + i) \<noteq> 0
      then if m (str1 + i) \<noteq> m (str2 + i) then Some (sint (m (str1 + i)) - sint (m (str2 + i)))
           else strcmp_u_loop m str1 str2 (i + 1)
      else Some (sint (m (str1 + i)) - sint (m (str2 + i))))"

definition strcmp_u :: "mem \<Rightarrow> addr \<Rightarrow> addr \<Rightarrow> int option" where
  "strcmp_u m str1 str2 = strcmp_u_loop m str1 str2 0"

definition toupper :: "int \<Rightarrow> int" where
  "toupper a = (if 97 \<le> a \<and> a \<le> 122 then a - 32 else a)"

partial_function (option) strcasecmp_loop :: "mem \<Rightarrow> addr \<Rightarrow> addr \<Rightarrow> nat \<Rightarrow> int option" where
  "strcasecmp_loop m str1 str2 i =
     (if m (str1 + i) \<noteq> 0 \<and> m (str2 + i) \<noteq> 0
      then if toupper (sint (m (str1 + i))) \<noteq> toupper (sint (m (str2 + i)))
           then Some (sint (m (str1 + i)) - sint (m (str2 + i)))
           else strcasecmp_loop m str1 str2 (i + 1)
      else Some (sint (m (str1 + i)) - sint (m (str2 + i))))"

definition strcasecmp :: "mem \<Rightarrow> addr \<Rightarrow> addr \<Rightarrow> int option" where
  "strcasecmp m str1 str2 = strcasecmp_loop m str1 str2 0"

partial_function (option) strcpy_loop :: "mem \<Rightarrow> addr \<Rightarrow> addr \<Rightarrow> nat \<Rightarrow> mem option" where
  "strcpy_loop m dest src i =
     (if m (src + i) \<noteq> 0 then strcpy_loop (m(dest + i := m (src + i))) dest src (i + 1)
      else Some (m(dest + i := 0)))"

definition strcpy :: "mem \<Rightarrow> addr \<Rightarrow> addr \<Rightarrow> mem option" where
  "strcpy m dest src = strcpy_loop m dest src 0"

text \<open>The counter of \<open>strncpy\<close> that is left, \<open>n - i\<close>, is the first argument of the loop.\<close>

fun strncpy_loop :: "nat \<Rightarrow> mem \<Rightarrow> addr \<Rightarrow> addr \<Rightarrow> nat \<Rightarrow> mem" where
  "strncpy_loop 0 m dest src i = m"
| "strncpy_loop (Suc k) m dest src i =
     (if m (src + i) \<noteq> 0 then strncpy_loop k (m(dest + i := m (src + i))) dest src (i + 1)
      else m(dest + i := 0))"

definition strncpy :: "mem \<Rightarrow> addr \<Rightarrow> addr \<Rightarrow> int \<Rightarrow> mem" where
  "strncpy m dest src n = strncpy_loop (nat n) m dest src 0"

text \<open>
  \<open>strtok\<close> keeps its position in the static variable \<open>last\<close>; the delimiters are the bytes of
  the second string.
\<close>

partial_function (option) strtok_loop :: "mem \<Rightarrow> addr \<Rightarrow> u8 list \<Rightarrow> (addr \<times> mem) option" where
  "strtok_loop m last' delims =
     (if m last' \<noteq> 0
      then if m last' \<in> set delims then Some (last' + 1, m(last' := 0)) else strtok_loop m (last' + 1) delims
      else Some (last', m))"

definition strtok :: "mem \<Rightarrow> addr \<Rightarrow> addr \<Rightarrow> u8 list \<Rightarrow> (addr \<times> addr \<times> mem) option" where
  "strtok m last' s1 delims =
     (if s1 \<noteq> 0 then map_option (\<lambda>(l, m'). (s1, l, m')) (strtok_loop m s1 delims)
      else if m last' = 0 then Some (0, last', m)
      else map_option (\<lambda>(l, m'). (last', l, m')) (strtok_loop m last' delims))"

partial_function (option) strchr_loop :: "mem \<Rightarrow> addr \<Rightarrow> int \<Rightarrow> addr option" where
  "strchr_loop m s c =
     (if m s \<noteq> 0 then if sint (m s) = c then Some s else strchr_loop m (s + 1) c
      else if c = 0 then Some s else Some 0)"

definition strchr :: "mem \<Rightarrow> addr \<Rightarrow> int \<Rightarrow> addr option" where
  "strchr m s c = strchr_loop m s c"

fun copy_up :: "nat \<Rightarrow> nat \<Rightarrow> mem \<Rightarrow> addr \<Rightarrow> addr \<Rightarrow> mem" where
  "copy_up 0 i m d s = m"
| "copy_up (Suc k) i m d s = copy_up k (i + 1) (m(d + i := m (s + i))) d s"

fun copy_down :: "nat \<Rightarrow> mem \<Rightarrow> addr \<Rightarrow> addr \<Rightarrow> mem" where
  "copy_down 0 m d s = m"
| "copy_down (Suc i) m d s = copy_down i (m(d + i := m (s + i))) d s"

definition memmove :: "mem \<Rightarrow> addr \<Rightarrow> addr \<Rightarrow> int \<Rightarrow> addr \<times> mem" where
  "memmove m dest src n =
     (if dest = src \<or> n = 0 then (dest, m)
      else if dest < src then (dest, copy_up (nat n) 0 m dest src)
      else (dest, copy_down (nat n) m dest src))"

text \<open>
  \<open>int\<close> is a 32-bit integer, division truncates. \<open>- num\<close> of the least integer is taken to wrap.
\<close>

definition wrap32 :: "int \<Rightarrow> int" where
  "wrap32 x = signed_take_bit 31 x"

fun count_digits :: "nat \<Rightarrow> int \<Rightarrow> nat \<Rightarrow> nat" where
  "count_digits fuel temp digit_count =
     (if temp = 0 \<or> fuel = 0 then digit_count else count_digits (fuel - 1) (temp sdiv 10) (digit_count + 1))"

fun put_digits :: "nat \<Rightarrow> mem \<Rightarrow> addr \<Rightarrow> int \<Rightarrow> nat \<Rightarrow> mem" where
  "put_digits fuel m str num i =
     (if num = 0 \<or> fuel = 0 then m
      else put_digits (fuel - 1) (m(str + i := word_of_int (num smod 10 + 48))) str (num sdiv 10) (i - 1))"

declare count_digits.simps [simp del] put_digits.simps [simp del]

definition int_to_string :: "mem \<Rightarrow> int \<Rightarrow> addr \<Rightarrow> nat \<times> mem" where
  "int_to_string m num str =
     (if num = 0 then (1, m(str := 48, str + 1 := 0))
      else let is_negative = num < 0;
               num = (if is_negative then wrap32 (- num) else num);
               digit_count = count_digits 11 num 0;
               m1 = (if is_negative then m(str := 45) else m);
               i = (if is_negative then 1 else 0) + (digit_count - 1);
               m2 = m1(str + (i + 1) := 0)
           in (digit_count + (if is_negative then 1 else 0), put_digits 11 m2 str num i))"

definition wrap64 :: "int \<Rightarrow> int" where
  "wrap64 x = signed_take_bit 63 x"

partial_function (option) satoi_loop :: "mem \<Rightarrow> addr \<Rightarrow> int \<Rightarrow> nat \<Rightarrow> int \<Rightarrow> int option" where
  "satoi_loop m str sign i res =
     (if m (str + i) \<noteq> 0
      then if sint (m (str + i)) < 48 \<or> sint (m (str + i)) > 57 then Some 0
           else satoi_loop m str sign (i + 1) (wrap64 (res * 10 + sint (m (str + i)) - 48))
      else Some (wrap64 (res * sign)))"

definition satoi :: "mem \<Rightarrow> addr \<Rightarrow> int option" where
  "satoi m str =
     (if str = 0 then Some 0
      else if m str = 45 then satoi_loop m str (- 1) 1 0 else satoi_loop m str 1 0 0)"

text \<open>Random numbers.\<close>

definition rand :: "u64 \<Rightarrow> int \<times> u64" where
  "rand nxt = (let nxt = nxt * 1103515245 + 12345 in (uint (ucast (nxt div 65536) :: u32) mod 32768, nxt))"

definition srand :: "u32 \<Rightarrow> u64" where
  "srand seed = ucast seed"

definition GetUint :: "u32 \<times> u32 \<Rightarrow> u32 \<times> (u32 \<times> u32)" where
  "GetUint s =
     (let (m_z, m_w) = s;
          m_z = 36969 * (m_z AND 65535) + drop_bit 16 m_z;
          m_w = 18000 * (m_w AND 65535) + drop_bit 16 m_w
      in (push_bit 16 m_z + m_w, (m_z, m_w)))"

fun memcheck_loop :: "nat \<Rightarrow> mem \<Rightarrow> addr \<Rightarrow> u8 \<Rightarrow> bool" where
  "memcheck_loop 0 m p value' = True"
| "memcheck_loop (Suc n) m p value' = (if m p \<noteq> value' then False else memcheck_loop n m (p + 1) value')"

definition memcheck :: "mem \<Rightarrow> addr \<Rightarrow> u8 \<Rightarrow> u32 \<Rightarrow> bool" where
  "memcheck m start value' size' = memcheck_loop (unat size') m start value'"

section \<open>Scans and copies of strings\<close>

lemma strlen_u_loop_cstr: "cstr m (p + n) str \<Longrightarrow> strlen_u_loop m p n = Some (n + length str)"
proof (induction str arbitrary: n)
  case Nil
  then show ?case by (subst strlen_u_loop.simps) simp
next
  case (Cons c cs)
  then show ?case by (subst strlen_u_loop.simps) simp
qed

lemma strlen_u_cstr: "cstr m p str \<Longrightarrow> strlen_u m p = Some (length str)"
  using strlen_u_loop_cstr [of m p 0] by (simp add: strlen_u_def)

lemma strcmp_u_loop_cstr:
  "\<lbrakk>cstr m (p + i) a; cstr m (q + i) b\<rbrakk> \<Longrightarrow> strcmp_u_loop m p q i = Some (strcmp a b)"
proof (induction a b arbitrary: i rule: strcmp.induct)
  case (1 a as b bs)
  then show ?case by (subst strcmp_u_loop.simps) auto
qed (subst strcmp_u_loop.simps; simp)+

lemma cstr_nulfree: "cstr m p a \<Longrightarrow> nulfree a"
  by (induction a arbitrary: p) (auto simp: nulfree_def)

lemma strcmp_u_cstr: "\<lbrakk>cstr m p a; cstr m q b\<rbrakk> \<Longrightarrow> strcmp_u m p q = Some (strcmp a b)"
  using strcmp_u_loop_cstr [of m p 0 a q b] by (simp add: strcmp_u_def)

lemma cstr_at: "cstr m p (a @ b) \<Longrightarrow> cstr m (p + length a) b"
proof (induction a arbitrary: p)
  case (Cons c cs)
  then show ?case using Cons.IH [of "p + 1"] by simp
qed simp

lemma cstr_iff: "cstr m p a \<longleftrightarrow> nulfree a \<and> (\<forall>i < length a. m (p + i) = byte (a ! i)) \<and> m (p + length a) = 0"
proof (induction a arbitrary: p)
  case (Cons c cs)
  show ?case unfolding cstr.simps Cons.IH by (auto simp: nulfree_def less_Suc_eq_0_disj nth_Cons')
qed (simp add: nulfree_def)

lemma cstr_frame: "\<lbrakk>cstr m p a; \<And>x. \<lbrakk>p \<le> x; x \<le> p + length a\<rbrakk> \<Longrightarrow> m' x = m x\<rbrakk> \<Longrightarrow> cstr m' p a"
  by (simp add: cstr_iff)

text \<open>The text in the source, and the byte where it ends.\<close>

lemma strcpy_loop_cstr:
  "\<lbrakk>cstr m (src + i) a; {dest + i..dest + i + length a} \<inter> {src + i..src + i + length a} = {}\<rbrakk>
   \<Longrightarrow> \<exists>m'. strcpy_loop m dest src i = Some m' \<and> cstr m' (dest + i) a
     \<and> (\<forall>x. x < dest + i \<or> dest + i + length a < x \<longrightarrow> m' x = m x)"
proof (induction a arbitrary: m i)
  case Nil
  then show ?case by (subst strcpy_loop.simps) simp
next
  case (Cons c cs)
  let ?m = "m(dest + i := m (src + i))"
  have out: "dest + i < src + i \<or> src + i + length (c # cs) < dest + i"
  proof (rule ccontr)
    assume "\<not> ?thesis"
    then have "dest + i \<in> {dest + i..dest + i + length (c # cs)} \<inter> {src + i..src + i + length (c # cs)}" by simp
    then show False using Cons.prems(2) by blast
  qed
  have "cstr m (src + (i + 1)) cs" using Cons.prems(1) by simp
  then have "cstr ?m (src + (i + 1)) cs" using out by (elim cstr_frame) auto
  moreover have "{dest + (i + 1)..dest + (i + 1) + length cs} \<inter> {src + (i + 1)..src + (i + 1) + length cs} = {}"
    using Cons.prems(2) by fastforce
  ultimately obtain m' where m': "strcpy_loop ?m dest src (i + 1) = Some m'" "cstr m' (dest + (i + 1)) cs"
    "\<forall>x. x < dest + (i + 1) \<or> dest + (i + 1) + length cs < x \<longrightarrow> m' x = ?m x" using Cons.IH by blast
  have "m' (dest + i) = byte c" using m'(3) Cons.prems(1) by simp
  then show ?case
    using m' Cons.prems(1) by (subst strcpy_loop.simps) auto
qed

lemma copy_up_spec:
  "d < s \<Longrightarrow> copy_up k i m d s x = (if d + i \<le> x \<and> x < d + i + k then m (s + (x - d)) else m x)"
proof (induction k arbitrary: i m)
  case (Suc k)
  let ?m = "m(d + i := m (s + i))"
  have "?m (s + (x - d)) = m (s + (x - d))" if "d + (i + 1) \<le> x" using that Suc.prems by auto
  then show ?case unfolding copy_up.simps Suc.IH [OF Suc.prems] by auto
qed auto

lemma copy_down_spec:
  "s < d \<Longrightarrow> copy_down k m d s x = (if d \<le> x \<and> x < d + k then m (s + (x - d)) else m x)"
proof (induction k arbitrary: m)
  case (Suc k)
  let ?m = "m(d + k := m (s + k))"
  have "?m (s + (x - d)) = m (s + (x - d))" if "d \<le> x" "x < d + k" using that Suc.prems by auto
  then show ?case unfolding copy_down.simps Suc.IH [OF Suc.prems] by auto
qed auto

lemma memmove_spec:
  "memmove m dest src (int n) = (dest, \<lambda>x. if dest \<le> x \<and> x < dest + n then m (src + (x - dest)) else m x)"
proof -
  consider "dest = src \<or> n = 0" | "dest < src" "n \<noteq> 0" | "src < dest" "n \<noteq> 0" by linarith
  then show ?thesis
  proof cases
    case 1
    then show ?thesis by (auto simp: memmove_def fun_eq_iff)
  next
    case 2
    then show ?thesis using copy_up_spec [OF 2(1), of n 0 m] by (simp add: memmove_def fun_eq_iff)
  next
    case 3
    then show ?thesis using copy_down_spec [OF 3(1), of n m] by (simp add: memmove_def fun_eq_iff)
  qed
qed

section \<open>Decimal numerals\<close>

fun dec :: "nat \<Rightarrow> string" where
  "dec v = (if v < 10 then [char_of (v + 48)] else dec (v div 10) @ [char_of (v mod 10 + 48)])"

declare dec.simps [simp del]

lemma dec_itoa_digits: "v \<le> fuel \<Longrightarrow> rev (itoa_digits fuel v) = dec v"
proof (induction fuel arbitrary: v)
  case 0
  then show ?case by (subst itoa_digits.simps, subst dec.simps) simp
next
  case (Suc fuel)
  have "v div 10 \<le> fuel" using Suc.prems by linarith
  then show ?case
    using Suc.IH [of "v div 10"] by (subst itoa_digits.simps, subst dec.simps) auto
qed

lemma dec_0: "dec 0 = ''0''"
proof -
  have "char_of (of_char CHR ''0'' :: nat) = CHR ''0''" by (rule char_of_char)
  then show ?thesis by (subst dec.simps) simp
qed

lemma itoa_dec: "itoa v = (if v < 0 then ''-'' else []) @ dec (nat (abs v))"
  by (simp add: itoa_rev dec_itoa_digits)

lemma dec_not_Nil [simp]: "dec v \<noteq> []"
  by (subst dec.simps) simp

lemma dec_digits: "c \<in> set (dec v) \<Longrightarrow> 48 \<le> (of_char c :: nat) \<and> (of_char c :: nat) < 58"
  using itoa_digits_set [of c v v] dec_itoa_digits [of v v] by (metis order_refl set_rev)

lemma length_dec: "v < 10 ^ Suc k \<Longrightarrow> length (dec v) \<le> Suc k"
proof (induction k arbitrary: v)
  case 0
  then show ?case by (subst dec.simps) simp
next
  case (Suc k)
  then have "v div 10 < 10 ^ Suc k" by (simp add: div_less_iff_less_mult)
  then show ?case using Suc.IH by (subst dec.simps) auto
qed

lemma sdiv_nat: "int n sdiv 10 = int (n div 10)"
  by (cases "n = 0") (simp_all add: zdiv_int signed_divide_int_def)

lemma smod_nat: "int n smod 10 = int (n mod 10)"
  by (cases "n = 0") (simp_all add: zmod_int signed_modulo_int_def)

lemma length_dec_step: "length (dec n) = (if n < 10 then 1 else length (dec (n div 10)) + 1)"
  by (subst dec.simps) simp

lemma count_digits_dec:
  "n < 10 ^ fuel \<Longrightarrow> count_digits fuel (int n) c = c + (if n = 0 then 0 else length (dec n))"
proof (induction fuel arbitrary: n c)
  case 0
  then show ?case by (subst count_digits.simps) simp
next
  case (Suc fuel)
  have "int n sdiv 10 = int (n div 10)" by (rule sdiv_nat)
  moreover have "n div 10 < 10 ^ fuel" using Suc.prems by (simp add: div_less_iff_less_mult)
  ultimately show ?case
    using Suc.IH [of "n div 10" "c + 1"] length_dec_step [of n] by (subst count_digits.simps) auto
qed

lemma put_digits_dec:
  "\<lbrakk>n < 10 ^ fuel; 0 < n\<rbrakk> \<Longrightarrow> put_digits fuel m str (int n) (b + (length (dec n) - 1)) x
    = (if str + b \<le> x \<and> x < str + b + length (dec n) then byte (dec n ! (x - (str + b))) else m x)"
proof (induction fuel arbitrary: n m)
  case (Suc fuel)
  let ?i = "b + (length (dec n) - 1)"
  note q = sdiv_nat [of n] and r = smod_nat [of n]
  have lt: "n div 10 < 10 ^ fuel" using Suc.prems by (simp add: div_less_iff_less_mult)
  have d: "word_of_int (int n smod 10 + 48) = byte (char_of (n mod 10 + 48))"
    unfolding r by (simp add: byte_def)
  show ?case
  proof (cases "n < 10")
    case True
    then have "dec n = [char_of (n + 48)]" by (subst dec.simps) simp
    moreover have "n div 10 = 0" using True by simp
    ultimately show ?thesis
      using Suc.prems(2) q d True by (subst put_digits.simps, subst put_digits.simps) auto
  next
    case False
    then have dn: "dec n = dec (n div 10) @ [char_of (n mod 10 + 48)]" by (subst dec.simps) simp
    let ?q = "n div 10" let ?m = "m(str + ?i := byte (char_of (n mod 10 + 48)))"
    have i: "?i - 1 = b + (length (dec ?q) - 1)" "?i = b + length (dec ?q)" using dn by (cases "dec ?q"; simp)+
    have "0 < ?q" using False by (simp add: div_greater_zero_iff)
    note I = Suc.IH [OF lt this, of ?m]
    have "put_digits (Suc fuel) m str (int n) ?i x = put_digits fuel ?m str (int ?q) (?i - 1) x"
      unfolding put_digits.simps [of "Suc fuel"] d q using Suc.prems(2) by simp
    also have "\<dots> = (if str + b \<le> x \<and> x < str + b + length (dec ?q) then byte (dec ?q ! (x - (str + b))) else ?m x)"
      unfolding i(1) by (rule I)
    also have "\<dots> = (if str + b \<le> x \<and> x < str + b + length (dec n) then byte (dec n ! (x - (str + b))) else m x)"
      unfolding i(2) dn by (auto simp: nth_append)
    finally show ?thesis .
  qed
qed simp

lemma wrap64_id: "\<lbrakk>- 9223372036854775808 \<le> x; x < 9223372036854775808\<rbrakk> \<Longrightarrow> wrap64 x = x"
  by (simp add: wrap64_def signed_take_bit_int_eq_self)

lemma wrap32_id: "\<lbrakk>- 2147483648 \<le> x; x < 2147483648\<rbrakk> \<Longrightarrow> wrap32 x = x"
  by (simp add: wrap32_def signed_take_bit_int_eq_self)

text \<open>The value of a string of digits.\<close>

fun value_of :: "nat \<Rightarrow> string \<Rightarrow> nat" where
  "value_of v [] = v"
| "value_of v (c # cs) = value_of (v * 10 + (of_char c - 48)) cs"

lemma value_of_append: "value_of v (a @ b) = value_of (value_of v a) b"
  by (induction v a rule: value_of.induct) auto

lemma value_of_mono: "v \<le> value_of v cs"
proof (induction v cs rule: value_of.induct)
  case (2 v c cs)
  then show ?case by simp
qed simp

lemma value_of_dec: "value_of 0 (dec v) = v"
proof (induction v rule: dec.induct)
  case (1 v)
  then show ?case by (subst dec.simps) (simp add: value_of_append)
qed

lemma sint_byte_digit:
  assumes "48 \<le> (of_char c :: nat)" and "(of_char c :: nat) < 58"
  shows "sint (byte c) = int (of_char c)"
proof -
  have "uint (byte c) = int (of_char c)" by (metis unat_byte uint_nat)
  then have "sint (byte c) = signed_take_bit 7 (int (of_char c))" by (simp add: sint_uint)
  then show ?thesis using assms by (simp add: signed_take_bit_int_eq_self)
qed

lemma satoi_loop_digits:
  "\<lbrakk>cstr m (str + i) cs; \<forall>c \<in> set cs. 48 \<le> (of_char c :: nat) \<and> (of_char c :: nat) < 58;
    value_of v cs < 9223372036854775808; sign = 1 \<or> sign = - 1\<rbrakk>
   \<Longrightarrow> satoi_loop m str sign i (int v) = Some (int (value_of v cs) * sign)"
proof (induction cs arbitrary: i v)
  case Nil
  then show ?case by (subst satoi_loop.simps) (auto simp: wrap64_id)
next
  case (Cons c cs)
  have c: "48 \<le> (of_char c :: nat)" "(of_char c :: nat) < 58" using Cons.prems(2) by simp_all
  note b = sint_byte_digit [OF c]
  let ?v = "v * 10 + (of_char c - 48)"
  have v: "int v * 10 + int (of_char c) - 48 = int ?v" using c(1) by simp
  have "?v < 9223372036854775808" using value_of_mono [of ?v cs] Cons.prems(3) by simp
  then have w: "wrap64 (int ?v) = int ?v" by (intro wrap64_id) simp_all
  have "satoi_loop m str sign (i + 1) (int ?v) = Some (int (value_of ?v cs) * sign)"
    by (rule Cons.IH) (use Cons.prems in simp_all)
  moreover have m: "m (str + i) = byte c" "byte c \<noteq> 0" using Cons.prems(1) by simp_all
  moreover have "wrap64 (int v * 10 + sint (byte c) - 48) = int ?v" unfolding b v by (rule w)
  moreover have "\<not> (sint (byte c) < 48 \<or> sint (byte c) > 57)" unfolding b using c by simp
  ultimately show ?case by (subst satoi_loop.simps) (simp only: if_True if_False simp_thms value_of.simps)
qed

lemma satoi_itoa:
  assumes "cstr m str (itoa n)" and "str \<noteq> 0" and "\<bar>n\<bar> < 9223372036854775808"
  shows "satoi m str = Some n"
proof -
  let ?v = "nat \<bar>n\<bar>"
  have D: "\<forall>c \<in> set (dec ?v). 48 \<le> (of_char c :: nat) \<and> (of_char c :: nat) < 58" using dec_digits by blast
  have lt: "value_of 0 (dec ?v) < 9223372036854775808" using assms(3) by (simp add: value_of_dec)
  show ?thesis
  proof (cases "n < 0")
    case True
    then have "m str = byte CHR ''-''" "cstr m (str + 1) (dec ?v)" using assms(1) by (auto simp: itoa_dec)
    with satoi_loop_digits [OF this(2) D lt, of "- 1"] True assms(2) show ?thesis
      by (simp add: satoi_def byte_def value_of_dec)
  next
    case False
    then have c: "cstr m (str + 0) (dec ?v)" using assms(1) by (simp add: itoa_dec)
    obtain d ds where d: "dec ?v = d # ds" by (cases "dec ?v") auto
    have "m str \<noteq> 45"
    proof
      assume "m str = 45"
      then have "unat (byte d) = 45" using c d by simp
      then show False using D d by auto
    qed
    with satoi_loop_digits [OF c D lt, of 1] False assms(2) show ?thesis
      by (simp add: satoi_def value_of_dec)
  qed
qed

lemma int_to_string_itoa:
  assumes "- 2147483648 < num" and "num < 2147483648"
  shows "fst (int_to_string m num str) = length (itoa num)"
    and "snd (int_to_string m num str) x =
      (if str \<le> x \<and> x < str + length (itoa num) then byte (itoa num ! (x - str))
       else if x = str + length (itoa num) then 0 else m x)"
proof -
  let ?n = "nat \<bar>num\<bar>"
  have small: "?n < 10 ^ 11" using assms by simp
  have w: "num < 0 \<Longrightarrow> wrap32 (- num) = int ?n" using assms by (simp add: wrap32_id)
  have "0 < length (dec ?n)" by simp
  then have len: "length (dec ?n) = Suc (length (dec ?n) - 1)" by simp
  consider "num = 0" | "num < 0" | "0 < num" by linarith
  then show "fst (int_to_string m num str) = length (itoa num)"
  proof cases
    case 1
    then show ?thesis using 1 by (simp add: int_to_string_def itoa_dec dec_0)
  next
    case 2
    then show ?thesis using count_digits_dec [OF small, of 0] w by (simp add: int_to_string_def itoa_dec Let_def)
  next
    case 3
    then show ?thesis using count_digits_dec [OF small, of 0] by (simp add: int_to_string_def itoa_dec Let_def)
  qed
  consider "num = 0" | "num < 0" | "0 < num" by linarith
  then show "snd (int_to_string m num str) x =
      (if str \<le> x \<and> x < str + length (itoa num) then byte (itoa num ! (x - str))
       else if x = str + length (itoa num) then 0 else m x)"
  proof cases
    case 1
    then show ?thesis using 1 by (auto simp add: int_to_string_def itoa_dec byte_def dec_0)
  next
    case 2
    then have pos: "0 < ?n" by simp
    let ?m = "(m(str := 45))(str + (length (dec ?n) + 1) := 0)"
    have "snd (int_to_string m num str) = put_digits 11 ?m str (int ?n) (1 + (length (dec ?n) - 1))"
      using 2 count_digits_dec [OF small, of 0] w len by (simp add: int_to_string_def Let_def)
    then show ?thesis
      using put_digits_dec [OF small pos, of ?m str 1 x] 2 len
      by (auto simp: itoa_dec byte_def nth_Cons' not_less)
  next
    case 3
    then have pos: "0 < ?n" "int ?n = num" by simp_all
    let ?m = "m(str + length (dec ?n) := 0)"
    obtain k where k: "length (dec ?n) = Suc k" using len ..
    have "snd (int_to_string m num str) = put_digits 11 ?m str (int ?n) (0 + (length (dec ?n) - 1))"
      using 3 count_digits_dec [OF small, of 0] pos unfolding k by (simp add: int_to_string_def Let_def)
    then show ?thesis
      using put_digits_dec [OF small pos(1), of ?m str 0 x] 3 by (auto simp: itoa_dec)
  qed
qed

section \<open>Properties\<close>

text \<open>
  C29: \<open>memmove\<close> copies as if through a separate buffer: whatever the overlap of the two regions,
  the destination ends up with the bytes the source had before, and nothing else changes.
\<close>

theorem memmove_copies:
  "memmove m dest src (int n) = (dest, \<lambda>x. if dest \<le> x \<and> x < dest + n then m (src + (x - dest)) else m x)"
  by (rule memmove_spec)

text \<open>
  C30: the programs' number printer and reader are inverse to each other, and the printer agrees
  with the kernel's: \<open>int_to_string\<close> leaves the numeral of \<open>itoa\<close> with its end mark in the
  buffer, touches at most 12 bytes, and \<open>satoi\<close> reads the number back.
\<close>

theorem int_to_string_satoi:
  assumes "- 2147483648 < num" and "num < 2147483648" and "str \<noteq> 0" and "int_to_string m num str = (n, m')"
  shows "n = length (itoa num) \<and> n \<le> 11 \<and> cstr m' str (itoa num)
    \<and> (\<forall>x. x < str \<or> str + n < x \<longrightarrow> m' x = m x) \<and> satoi m' str = Some num"
proof -
  note S = int_to_string_itoa [OF assms(1,2), of m str, unfolded assms(4), simplified]
  have nul: "nulfree (itoa num)" using dec_digits [of "CHR 0x00" "nat \<bar>num\<bar>"] by (auto simp: nulfree_def itoa_dec)
  have c: "cstr m' str (itoa num)" unfolding cstr_iff using nul S(2) by simp
  have "length (dec (nat \<bar>num\<bar>)) \<le> Suc 9" by (rule length_dec) (use assms(1,2) in simp)
  then have "length (itoa num) \<le> 11" by (cases "num < 0") (simp_all add: itoa_dec)
  moreover have "satoi m' str = Some num" by (rule satoi_itoa [OF c assms(3)]) (use assms(1,2) in linarith)
  ultimately show ?thesis using S c by auto
qed

lemma int_to_string_satoi_witness:
  "satoi (snd (int_to_string (\<lambda>_. 7) (- 905) 100)) 100 = Some (- 905)"
proof -
  obtain n m' where e: "int_to_string (\<lambda>_. 7) (- 905) 100 = (n, m')" by force
  from int_to_string_satoi [OF _ _ _ this] show ?thesis by (simp add: e)
qed

end
