(* ===== verification/User_Stdio.thy ===== *)
theory User_Stdio
  imports User_Strings
begin

text \<open>
  Formatted output and input of programs: \<open>Userland/libc/stdio.c\<close> with the colour sequences of
  \<open>Userland/libsys/ansiColors.c\<close>, which the build switches on.

  What a call does is the list of its system calls, \<open>event\<close>. Arguments behind a format are
  integers, as the 64-bit registers that hold them, or strings. A format is a string; behind its
  last character the source finds the terminating zero. \<open>Undefined\<close> marks what the source leaves to
  chance (an argument that was not passed, a read behind the end of the format, a write behind
  \<open>buffer\<close>), \<open>Looping\<close> a call that does not return.
\<close>

section \<open>The program\<close>

datatype arg = ANum u64 | AStr string

datatype event = Write string | TextColor u32 | BackColor u32

datatype status = Done | Undefined | Looping

type_synonym result = "event list \<times> status"

definition seq :: "result \<Rightarrow> result \<Rightarrow> result" where
  "seq a b = (if snd a = Done then (fst a @ fst b, snd b) else a)"

text \<open>\<open>sys_write\<close> of one character after the other.\<close>

definition chars :: "string \<Rightarrow> event list" where
  "chars s = map (\<lambda>c. Write [c]) s"

text \<open>The output of a call: the written characters in order.\<close>

fun text_of :: "event list \<Rightarrow> string" where
  "text_of [] = []"
| "text_of (Write s # es) = s @ text_of es"
| "text_of (e # es) = text_of es"

subsection \<open>Colours\<close>

definition setANSIProp :: "u8 \<Rightarrow> event list" where
  "setANSIProp prop0 =
     (let back = 40 \<le> prop0 \<and> prop0 \<le> 47 \<or> 100 \<le> prop0 \<and> prop0 \<le> 107;
          prop = (if back then prop0 - 10 else prop0);
          set_fn = (if back then BackColor else TextColor)
      in if prop = 0 then [TextColor 0x00FFFFFF, BackColor 0x00000000]
         else if prop = 30 then [set_fn 0x00000000] else if prop = 31 then [set_fn 0x00DE382B]
         else if prop = 32 then [set_fn 0x0039B54A] else if prop = 33 then [set_fn 0x00FFC706]
         else if prop = 34 then [set_fn 0x00006FB8] else if prop = 35 then [set_fn 0x00762671]
         else if prop = 36 then [set_fn 0x002CB5E9] else if prop = 37 then [set_fn 0x00CCCCCC]
         else if prop = 90 then [set_fn 0x00808080, set_fn 0x00FF0000]
         else if prop = 91 then [set_fn 0x00FF0000] else if prop = 92 then [set_fn 0x0000FF00]
         else if prop = 93 then [set_fn 0x00FFFF00] else if prop = 94 then [set_fn 0x000000FF]
         else if prop = 95 then [set_fn 0x00FF00FF] else if prop = 96 then [set_fn 0x0000FFFF]
         else if prop = 97 then [set_fn 0x00FFFFFF] else [])"

text \<open>
  The loop of \<open>parseANSI\<close>: the system calls and the rest of the format behind the \<open>m\<close>, or \<open>None\<close>
  when there is no \<open>m\<close> and the loop runs over the end.
\<close>

fun ansi_loop :: "string \<Rightarrow> u8 \<Rightarrow> (event list \<times> string) option" where
  "ansi_loop [] prop = None"
| "ansi_loop (c # cs) prop =
     (if c = CHR '';'' then map_option (\<lambda>(es, r). (setANSIProp prop @ es, r)) (ansi_loop cs 0)
      else if c = CHR ''m'' then Some (setANSIProp prop, cs)
      else ansi_loop cs (prop * 10 + (byte c - 48)))"

text \<open>Behind the escape character: \<open>None\<close> when \<open>parseANSI\<close> returns at once, without moving on.\<close>

definition parseANSI :: "string \<Rightarrow> (event list \<times> string) option option" where
  "parseANSI s =
     (case s of b # c # cs \<Rightarrow> if b = CHR ''['' then Some (ansi_loop (c # cs) 0) else None | _ \<Rightarrow> None)"

subsection \<open>Numbers\<close>

fun base_loop :: "nat \<Rightarrow> nat \<Rightarrow> nat \<Rightarrow> string" where
  "base_loop fuel value' base =
     (let remainder = value' mod base in
      char_of (if remainder < 10 then remainder + 48 else remainder + 65 - 10)
      # (if value' div base = 0 \<or> fuel = 0 then [] else base_loop (fuel - 1) (value' div base) base))"

declare base_loop.simps [simp del]

text \<open>The characters in \<open>buffer\<close>; there are 64 places, the terminating zero included.\<close>

definition uintToBase_u :: "u64 \<Rightarrow> nat \<Rightarrow> string" where
  "uintToBase_u value' base =
     (let ds = base_loop 64 (unat value') base in reverse_loop (length ds div 2) 0 ds)"

definition print_digits :: "string \<Rightarrow> result" where
  "print_digits ds = (chars ds, if length ds < 64 then Done else Undefined)"

definition printBase :: "int \<Rightarrow> nat \<Rightarrow> result" where
  "printBase num base =
     seq (if num < 0 then (chars ''-'', Done) else ([], Done)) (print_digits (uintToBase_u (word_of_int num) base))"

definition pad :: "bool \<Rightarrow> bool \<Rightarrow> nat \<Rightarrow> nat \<Rightarrow> result \<Rightarrow> result" where
  "pad leftAlign zeroPad width len body =
     (if width > len
      then let padding = width - len; padChar = (if zeroPad then CHR ''0'' else CHR '' '') in
        seq (if \<not> leftAlign then (chars (replicate padding padChar), Done) else ([], Done))
          (seq body (if leftAlign then (chars (replicate padding CHR '' ''), Done) else ([], Done)))
      else body)"

subsection \<open>Formats\<close>

text \<open>The flags, the width and the length modifier of a conversion, and what follows them.\<close>

fun conv_width :: "nat \<Rightarrow> string \<Rightarrow> nat \<times> string" where
  "conv_width w [] = (w, [])"
| "conv_width w (c # cs) =
     (if 48 \<le> (of_char c :: nat) \<and> (of_char c :: nat) \<le> 57 then conv_width (w * 10 + (of_char c - 48)) cs
      else (w, c # cs))"

definition conv_flags :: "string \<Rightarrow> bool \<times> bool \<times> string" where
  "conv_flags s =
     (case s of c # cs \<Rightarrow>
        if c = CHR ''-'' then (True, False, cs) else if c = CHR ''0'' then (False, True, cs) else (False, False, s)
      | [] \<Rightarrow> (False, False, s))"

definition conv_long :: "string \<Rightarrow> bool \<times> string" where
  "conv_long s = (case s of c # cs \<Rightarrow> if c = CHR ''l'' then (True, cs) else (False, s) | [] \<Rightarrow> (False, s))"

lemma conv_width_length: "length (snd (conv_width w s)) \<le> length s"
  by (induction w s rule: conv_width.induct) auto

lemma conv_flags_length: "length (snd (snd (conv_flags s))) \<le> length s"
  by (auto simp: conv_flags_def split: list.splits)

lemma conv_long_length: "length (snd (conv_long s)) \<le> length s"
  by (auto simp: conv_long_def split: list.splits)

definition conversion :: "string \<Rightarrow> bool \<times> bool \<times> nat \<times> bool \<times> string" where
  "conversion s =
     (let (l, z, s1) = conv_flags s; (w, s2) = conv_width 0 s1; (lg, s3) = conv_long s2 in (l, z, w, lg, s3))"

lemma conversion_length: "conversion s = (l, z, w, lg, r) \<Longrightarrow> length r \<le> length s"
  using conv_flags_length [of s] conv_width_length [of 0 "snd (snd (conv_flags s))"]
    conv_long_length [of "snd (conv_width 0 (snd (snd (conv_flags s))))"]
  by (auto simp: conversion_def Let_def split: prod.splits)

lemma ansi_loop_length: "ansi_loop s p = Some (es, r) \<Longrightarrow> length r < length s"
  by (induction s p arbitrary: es r rule: ansi_loop.induct) (auto split: if_splits simp: less_Suc_eq)

lemma parseANSI_length: "parseANSI s = Some (Some (es, r)) \<Longrightarrow> length r < length s"
  by (auto simp: parseANSI_def simp del: ansi_loop.simps split: list.splits if_splits dest!: ansi_loop_length)

text \<open>
  The value of one conversion with an argument, as the switch over the specifier has it, except
  that the text of \<open>%s\<close> is left to the caller, which prints it as a format.
\<close>

definition num_conv :: "char \<Rightarrow> bool \<Rightarrow> bool \<Rightarrow> nat \<Rightarrow> bool \<Rightarrow> u64 \<Rightarrow> result" where
  "num_conv c l z w lg v =
     (if c = CHR ''x''
      then let ds = uintToBase_u (if lg then v else ucast (ucast v :: u32)) 16 in pad l z w (length ds) (print_digits ds)
      else if c = CHR ''d''
      then let value = sint (ucast v :: u32) in
        if value < 0
        then let ds = uintToBase_u (word_of_int (wrap32 (- value))) 10 in
          seq (chars ''-'', Done) (pad l z w (length ds + 1) (print_digits ds))
        else let ds = uintToBase_u (word_of_int value) 10 in pad l z w (length ds) (print_digits ds)
      else if c = CHR ''u''
      then let ds = uintToBase_u (ucast (ucast v :: u32)) 10 in pad l z w (length ds) (print_digits ds)
      else if c = CHR ''o'' then printBase (sint (ucast v :: u32)) 8
      else if c = CHR ''b'' then printBase (sint (ucast v :: u32)) 2
      else (chars [char_of (unat (ucast v :: u8))], Done))"

primrec arg_length :: "arg \<Rightarrow> nat" where
  "arg_length (ANum v) = 0"
| "arg_length (AStr s) = length s"

function vfprintf :: "string \<Rightarrow> arg list \<Rightarrow> result" where
  "vfprintf [] args = ([], Done)"
| "vfprintf (c # cs) args =
     (if c = CHR 0x1B
      then (case parseANSI cs of
              None \<Rightarrow> ([Write []], Looping)
            | Some None \<Rightarrow> ([Write []], Undefined)
            | Some (Some (es, r)) \<Rightarrow> seq (Write [] # es, Done) (vfprintf r args))
      else if c = CHR ''%''
      then (case conversion cs of (l, z, w, lg, r) \<Rightarrow>
              case r of
                [] \<Rightarrow> ([], Undefined)
              | k # r' \<Rightarrow>
                  if k \<in> {CHR ''x'', CHR ''d'', CHR ''u'', CHR ''o'', CHR ''b'', CHR ''c''}
                  then (case args of ANum v # args' \<Rightarrow> seq (num_conv k l z w lg v) (vfprintf r' args')
                        | _ \<Rightarrow> ([], Undefined))
                  else if k = CHR ''s''
                  then (case args of
                          AStr s # args' \<Rightarrow> seq (pad l False w (length s) (vfprintf s [])) (vfprintf r' args')
                        | _ \<Rightarrow> ([], Undefined))
                  else if k = CHR ''%'' then seq (chars ''%'', Done) (vfprintf r' args)
                  else vfprintf r' args)
      else seq (chars [c], Done) (vfprintf cs args))"
  by pat_completeness auto

termination
  by (relation "measure (\<lambda>(f, as). length f + sum_list (map arg_length as))")
    (auto dest!: parseANSI_length conversion_length [OF sym])

declare vfprintf.simps(2) [simp del]

definition fprintf :: "string \<Rightarrow> arg list \<Rightarrow> result" where
  "fprintf str args = vfprintf str args"

definition printf :: "string \<Rightarrow> arg list \<Rightarrow> result" where
  "printf format args = vfprintf format args"

definition puts :: "string \<Rightarrow> result" where
  "puts str = seq (printf str []) (printf [CHR 0x0A] [])"

definition perror :: "string \<Rightarrow> result" where
  "perror s1 = fprintf s1 []"

definition putchar :: "char \<Rightarrow> result" where
  "putchar c = (chars [c], Done)"

subsection \<open>Input\<close>

text \<open>
  \<open>getchar\<close> from the count and the byte that \<open>sys_read\<close> delivers.
\<close>

definition getchar :: "int \<Rightarrow> u8 \<Rightarrow> int" where
  "getchar bytes_read c = (if bytes_read \<le> 0 then - 1 else if c = 255 then - 1 else uint c)"

text \<open>
  \<open>vsscanf\<close>: the destinations are addresses, the results are stores into memory. The number in
  a 32-bit integer wraps. \<open>None\<close> when a destination was not passed or the scan would leave the
  format or the buffer.
\<close>

fun scan_digits :: "string \<Rightarrow> int \<Rightarrow> bool \<Rightarrow> int \<times> bool \<times> string" where
  "scan_digits [] num read_num = (num, read_num, [])"
| "scan_digits (c # cs) num read_num =
     (if 48 \<le> (of_char c :: nat) \<and> (of_char c :: nat) \<le> 57
      then scan_digits cs (wrap32 (num * 10 + of_char c - 48)) True else (num, read_num, c # cs))"

definition store_int :: "mem \<Rightarrow> addr \<Rightarrow> int \<Rightarrow> mem" where
  "store_int m p v =
     (let w = word_of_int v :: u32 in
      m(p := ucast w, p + 1 := ucast (drop_bit 8 w), p + 2 := ucast (drop_bit 16 w), p + 3 := ucast (drop_bit 24 w)))"

fun scan_word :: "mem \<Rightarrow> addr \<Rightarrow> string \<Rightarrow> mem \<times> string" where
  "scan_word m str [] = (m(str := 0), [])"
| "scan_word m str (c # cs) =
     (if c \<noteq> CHR '' '' \<and> c \<noteq> CHR 0x0A then scan_word (m(str := byte c)) (str + 2) cs
      else (m(str := 0), c # cs))"

fun vsscanf :: "mem \<Rightarrow> string \<Rightarrow> string \<Rightarrow> addr list \<Rightarrow> int \<Rightarrow> (int \<times> mem) option" where
  "vsscanf m buf [] args n = Some (n, m)"
| "vsscanf m buf [c] args n = (if c = CHR ''%'' then None else Some (n, m))"
| "vsscanf m buf (c # k # fmt) args n =
     (if c \<noteq> CHR ''%'' then vsscanf m buf (k # fmt) args n
      else if k = CHR ''d''
      then (case buf of
              b # bs \<Rightarrow>
                if b \<noteq> CHR ''-'' \<and> \<not> (48 \<le> (of_char b :: nat) \<and> (of_char b :: nat) \<le> 57) then vsscanf m buf fmt args n
                else (case scan_digits (if b = CHR ''-'' then bs else buf) 0 False of (num, read_num, rest) \<Rightarrow>
                  case args of [] \<Rightarrow> None
                  | a # args' \<Rightarrow>
                      vsscanf (store_int m a (if b = CHR ''-'' then - num else num)) rest fmt args'
                        (n + (if read_num then 1 else 0)))
            | [] \<Rightarrow> vsscanf m buf fmt args n)
      else if k = CHR ''c''
      then (case args of [] \<Rightarrow> None
            | a # args' \<Rightarrow>
                (case buf of [] \<Rightarrow> None | b # bs \<Rightarrow> vsscanf (m(a := byte b)) bs fmt args' (n + 1)))
      else if k = CHR ''s''
      then (case args of [] \<Rightarrow> None
            | a # args' \<Rightarrow> (case scan_word m a buf of (m', rest) \<Rightarrow> vsscanf m' rest fmt args' (n + 1)))
      else vsscanf m buf fmt args n)"

definition sscanf :: "mem \<Rightarrow> string \<Rightarrow> string \<Rightarrow> addr list \<Rightarrow> (int \<times> mem) option" where
  "sscanf m str format args = vsscanf m str format args 0"

text \<open>
  \<open>vscanf\<close> reads the characters that \<open>getchar\<close> answers one after the other, a list here; when the
  list ends the call is still waiting, \<open>None\<close>.
\<close>

fun skip_line :: "int list \<Rightarrow> int list option" where
  "skip_line [] = None"
| "skip_line (c # cs) = (if c = 10 then Some cs else skip_line cs)"

fun read_number :: "int \<Rightarrow> int list \<Rightarrow> int \<Rightarrow> bool \<Rightarrow> (int \<times> bool \<times> int list) option" where
  "read_number c [] num negative = None"
| "read_number c (d # ds) num negative =
     (let negative = (if c = 45 then True else negative);
          num = (if c = 45 then num else wrap64 (num * 10 + c - 48))
      in if 48 \<le> d \<and> d \<le> 57 \<or> num = 0 \<and> d = 45 then read_number d ds num negative
         else Some (num, negative, ds))"

fun read_word :: "mem \<Rightarrow> addr \<Rightarrow> int list \<Rightarrow> (mem \<times> int list) option" where
  "read_word m str [] = None"
| "read_word m str (c # cs) =
     (if c \<noteq> 32 \<and> c \<noteq> 10 then read_word (m(str := word_of_int c)) (str + 1) cs else Some (m(str := 0), cs))"

fun vscanf :: "mem \<Rightarrow> int list \<Rightarrow> string \<Rightarrow> addr list \<Rightarrow> int \<Rightarrow> (int \<times> mem) option" where
  "vscanf m inp [] args n = Some (n, m)"
| "vscanf m inp [c] args n = (if c = CHR ''%'' then None else Some (n, m))"
| "vscanf m inp (c # k # fmt) args n =
     (if c \<noteq> CHR ''%'' then vscanf m inp (k # fmt) args n
      else if k = CHR ''d''
      then (case inp of [] \<Rightarrow> None
            | d # ds \<Rightarrow>
                if d \<noteq> 45 \<and> (d < 48 \<or> d > 57)
                then (case skip_line ds of None \<Rightarrow> None | Some rest \<Rightarrow> vscanf m rest fmt args n)
                else (case read_number d ds 0 False of None \<Rightarrow> None
                      | Some (num, negative, rest) \<Rightarrow>
                          (case args of [] \<Rightarrow> None
                           | a # args' \<Rightarrow>
                               vscanf (store_int m a (num * (if negative then - 1 else 1))) rest fmt args' (n + 1))))
      else if k = CHR ''c''
      then (case args of [] \<Rightarrow> None
            | a # args' \<Rightarrow> (case inp of [] \<Rightarrow> None | d # ds \<Rightarrow> vscanf (m(a := word_of_int d)) ds fmt args' (n + 1)))
      else if k = CHR ''s''
      then (case args of [] \<Rightarrow> None
            | a # args' \<Rightarrow> (case read_word m a inp of None \<Rightarrow> None | Some (m', rest) \<Rightarrow> vscanf m' rest fmt args' (n + 1)))
      else vscanf m inp fmt args n)"

definition scanf :: "mem \<Rightarrow> int list \<Rightarrow> string \<Rightarrow> addr list \<Rightarrow> (int \<times> mem) option" where
  "scanf m inp format args = vscanf m inp format args 0"

section \<open>Printing\<close>

definition plain :: "string \<Rightarrow> bool" where
  "plain s \<longleftrightarrow> CHR ''%'' \<notin> set s \<and> CHR 0x1B \<notin> set s"

lemma seq_simps [simp]: "seq ([], Done) r = r" "seq (es, Done) (fs, t) = (es @ fs, t)"
  "seq (es, Undefined) r = (es, Undefined)" "seq (es, Looping) r = (es, Looping)"
  by (simp_all add: seq_def)

lemma seq_assoc: "seq (seq a b) c = seq a (seq b c)"
  by (auto simp: seq_def)

lemma chars_append [simp]: "chars (a @ b) = chars a @ chars b"
  by (simp add: chars_def)

lemma chars_Nil [simp]: "chars [] = []"
  by (simp add: chars_def)

lemma text_of_append [simp]: "text_of (a @ b) = text_of a @ text_of b"
  by (induction a rule: text_of.induct) auto

lemma text_of_chars [simp]: "text_of (chars s) = s"
  by (induction s) (auto simp: chars_def)

text \<open>Ordinary characters are printed one by one.\<close>

lemma vfprintf_plain: "plain a \<Longrightarrow> vfprintf (a @ b) args = seq (chars a, Done) (vfprintf b args)"
proof (induction a)
  case (Cons c cs)
  then have "plain cs" "c \<noteq> CHR ''%''" "c \<noteq> CHR 0x1B" by (auto simp: plain_def)
  with Cons.IH have "vfprintf (c # cs @ b) args = seq (chars [c], Done) (seq (chars cs, Done) (vfprintf b args))"
    by (subst vfprintf.simps) simp
  then show ?case by (cases "vfprintf b args") (simp add: chars_def)
qed (simp add: plain_def)

lemma conversion_letter: "\<lbrakk>c \<noteq> CHR ''-''; c \<noteq> CHR ''0''; c \<noteq> CHR ''l''; (of_char c :: nat) < 48 \<or> 57 < (of_char c :: nat)\<rbrakk>
  \<Longrightarrow> conversion (c # cs) = (False, False, 0, False, c # cs)"
  by (auto simp: conversion_def conv_flags_def conv_long_def)

lemma pad_0 [simp]: "pad l z 0 n body = body"
  by (simp add: pad_def)

lemma vfprintf_num:
  assumes "k \<in> {CHR ''x'', CHR ''d'', CHR ''u'', CHR ''o'', CHR ''b'', CHR ''c''}"
  shows "vfprintf (CHR ''%'' # k # fmt) (ANum v # args) = seq (num_conv k False False 0 False v) (vfprintf fmt args)"
proof -
  have "conversion (k # fmt) = (False, False, 0, False, k # fmt)" using assms by (intro conversion_letter) auto
  then show ?thesis using assms by (subst vfprintf.simps) simp
qed

lemma vfprintf_str: "vfprintf (CHR ''%'' # CHR ''s'' # fmt) (AStr s # args) = seq (vfprintf s []) (vfprintf fmt args)"
  by (subst vfprintf.simps) (simp add: conversion_letter)

lemma vfprintf_no_arg:
  assumes "k \<in> {CHR ''x'', CHR ''d'', CHR ''u'', CHR ''o'', CHR ''b'', CHR ''c'', CHR ''s''}"
  shows "vfprintf (CHR ''%'' # k # fmt) [] = ([], Undefined)"
proof -
  have "conversion (k # fmt) = (False, False, 0, False, k # fmt)" using assms by (intro conversion_letter) auto
  then show ?thesis using assms by (subst vfprintf.simps) auto
qed

text \<open>Decimal digits.\<close>

lemma base_loop_10: "v < 10 ^ Suc fuel \<Longrightarrow> rev (base_loop fuel v 10) = dec v"
proof (induction fuel arbitrary: v)
  case 0
  then show ?case by (subst base_loop.simps, subst dec.simps) (simp add: Let_def)
next
  case (Suc fuel)
  then have "v div 10 < 10 ^ Suc fuel" by (simp add: div_less_iff_less_mult)
  then show ?case using Suc.IH by (subst base_loop.simps, subst dec.simps) (auto simp: Let_def)
qed

lemma uintToBase_dec: "uintToBase_u v 10 = dec (unat v)"
proof -
  have "unat v < 2 ^ 64" using unsigned_less [of v] by simp
  also have "\<dots> < 10 ^ Suc 64" by simp
  finally show ?thesis by (simp add: uintToBase_u_def Let_def reverse_loop_rev base_loop_10)
qed

lemma length_dec_u64: "length (dec (unat (v :: u64))) < 64"
proof -
  have "unat v < 10 ^ Suc 19" by (rule order_less_le_trans [OF unsigned_less]) simp
  from length_dec [OF this] show ?thesis by simp
qed

lemma print_dec [simp]: "print_digits (dec (unat (v :: u64))) = (chars (dec (unat v)), Done)"
  by (simp add: print_digits_def length_dec_u64)

lemma num_conv_d:
  assumes "v = word_of_int n" and "- 2147483648 < n" and "n < 2147483648"
  shows "num_conv CHR ''d'' False False 0 False v = (chars (itoa n), Done)"
proof -
  have u: "ucast v = (word_of_int n :: u32)" unfolding assms(1) by (rule bit_word_eqI) (auto simp: bit_simps)
  have s: "sint (ucast v :: u32) = n"
    unfolding u by (simp add: signed_of_int signed_take_bit_int_eq_self assms(2,3) order_less_imp_le)
  have nat: "unat (word_of_int k :: u64) = nat k" if "0 \<le> k" "k < 2147483648" for k
    using that by (simp add: unsigned_of_int take_bit_int_eq_self)
  show ?thesis
  proof (cases "n < 0")
    case True
    then have w: "wrap32 (- n) = - n" using assms(2) by (intro wrap32_id) auto
    have u: "unat (- word_of_int n :: u64) = nat (- n)" using nat [of "- n"] True assms(2) by simp
    show ?thesis using True w
      by (simp add: num_conv_def s uintToBase_dec Let_def itoa_dec) (simp add: chars_def u)
  next
    case False
    then show ?thesis by (simp add: num_conv_def s uintToBase_dec Let_def itoa_dec) (simp add: nat assms(3))
  qed
qed

section \<open>Properties\<close>

text \<open>
  C31: printing a text, an integer and a string. Characters other than the percent sign and the
  escape character are printed as they are, \<open>%d\<close> prints the decimal numeral of a 32-bit integer
  (the least one excepted), and \<open>%s\<close> prints its string when the string holds neither of those
  two characters; the string is used as a format in turn, so a string with a conversion makes
  the call read an argument that was not passed.
\<close>

theorem printf_text:
  assumes "plain a" and "plain b" and "- 2147483648 < n" and "n < 2147483648"
  shows "printf (a @ ''%d'' @ b) [ANum (word_of_int n)] = (chars (a @ itoa n @ b), Done)
    \<and> (plain s \<longrightarrow> printf (a @ ''%s'' @ b) [AStr s] = (chars (a @ s @ b), Done))
    \<and> (plain p \<and> k \<in> {CHR ''x'', CHR ''d'', CHR ''u'', CHR ''o'', CHR ''b'', CHR ''c'', CHR ''s''} \<and> s = p @ ''%'' @ k # q
         \<longrightarrow> printf (a @ ''%s'' @ b) [AStr s] = (chars (a @ p), Undefined))"
proof (intro conjI impI)
  have tail: "vfprintf b [] = (chars b, Done)" using vfprintf_plain [OF assms(2), of "[]" "[]"] by simp
  show "printf (a @ ''%d'' @ b) [ANum (word_of_int n)] = (chars (a @ itoa n @ b), Done)"
    using vfprintf_plain [OF assms(1), of "''%d'' @ b"] num_conv_d [OF refl assms(3,4)] tail
    by (simp add: printf_def vfprintf_num)
  show "printf (a @ ''%s'' @ b) [AStr s] = (chars (a @ s @ b), Done)" if "plain s"
    using vfprintf_plain [OF assms(1), of "''%s'' @ b"] vfprintf_plain [OF that, of "[]" "[]"] tail
    by (simp add: printf_def vfprintf_str)
  show "printf (a @ ''%s'' @ b) [AStr s] = (chars (a @ p), Undefined)"
    if P: "plain p \<and> k \<in> {CHR ''x'', CHR ''d'', CHR ''u'', CHR ''o'', CHR ''b'', CHR ''c'', CHR ''s''} \<and> s = p @ ''%'' @ k # q"
  proof -
    have "vfprintf s [] = (chars p, Undefined)"
      using vfprintf_plain [of p "''%'' @ k # q" "[]"] vfprintf_no_arg [of k q] P by simp
    then show ?thesis
      using vfprintf_plain [OF assms(1), of "''%s'' @ b"] by (simp add: printf_def vfprintf_str)
  qed
qed

lemma printf_text_witness:
  "printf ''n = %d.'' [ANum (word_of_int (- 42))] = (chars ''n = -42.'', Done)
    \<and> printf ''n = %s.'' [AStr ''50%d''] = (chars ''n = 50'', Undefined)"
proof -
  have i: "itoa (- 42) = ''-42''" by code_simp
  have p: "plain ''n = ''" "plain ''.''" "plain ''50''" by (simp_all add: plain_def)
  have "(- 2147483648 :: int) < - 42" "(- 42 :: int) < 2147483648" by simp_all
  note T = printf_text [OF p(1,2) this]
  have "printf (''n = '' @ ''%d'' @ ''.'') [ANum (word_of_int (- 42))] = (chars (''n = '' @ itoa (- 42) @ ''.''), Done)"
    using T [THEN conjunct1] .
  moreover have "printf (''n = '' @ ''%s'' @ ''.'') [AStr ''50%d''] = (chars (''n = '' @ ''50''), Undefined)"
    by (rule T [where s = "''50%d''" and p = "''50''" and k = "CHR ''d''" and q = "[]", THEN conjunct2, THEN conjunct2, THEN mp]) (simp add: p(3))
  ultimately show ?thesis unfolding i by simp
qed

end
