(* ===== verification/User_Commands.thy ===== *)
theory User_Commands
  imports User_Stdio
begin

text \<open>
  The programs that the shell starts: \<open>Userland/Shell/commands.c\<close>. Those that work on a stream
  (\<open>filter\<close>, \<open>cat\<close>, \<open>wc\<close>) take the bytes that their reads deliver, up to the read that answers 0 or
  less, and give the list of their system calls and the exit status. The readers and writers of
  \<open>mvar\<close> are a state machine whose steps are single accesses to the shared record and the
  semaphores.
\<close>

section \<open>Streams\<close>

datatype call =
    Out int "event list"
  | WriteFD int string
  | CloseFD int

definition vowels :: "char set" where
  "vowels = {CHR ''a'', CHR ''e'', CHR ''i'', CHR ''o'', CHR ''u'', CHR ''A'', CHR ''E'', CHR ''I'', CHR ''O'', CHR ''U''}"

fun filter_loop :: "int \<Rightarrow> string \<Rightarrow> call list" where
  "filter_loop out [] = []"
| "filter_loop out (c # cs) = (if c \<notin> vowels then [WriteFD out [c]] else []) @ filter_loop out cs"

definition filter_wrapper :: "int \<times> int \<Rightarrow> string \<Rightarrow> call list \<times> int" where
  "filter_wrapper fds inp = (filter_loop (snd fds) inp @ [CloseFD (fst fds), CloseFD (snd fds)], 0)"

fun cat_loop :: "int \<Rightarrow> string \<Rightarrow> call list" where
  "cat_loop out [] = []"
| "cat_loop out (c # cs) = WriteFD out [c] # cat_loop out cs"

definition cat_wrapper :: "int \<times> int \<Rightarrow> string \<Rightarrow> call list \<times> int" where
  "cat_wrapper fds inp = (cat_loop (snd fds) inp @ [CloseFD (snd fds)], 0)"









text \<open>The bytes written to a descriptor.\<close>

fun written_to :: "int \<Rightarrow> call list \<Rightarrow> string" where
  "written_to fd [] = []"
| "written_to fd (Out f es # cs) = (if f = fd then text_of es else []) @ written_to fd cs"
| "written_to fd (WriteFD f s # cs) = (if f = fd then s else []) @ written_to fd cs"
| "written_to fd (CloseFD f # cs) = written_to fd cs"

definition ESC :: string where
  "ESC = [CHR 0x1B]"

definition NL :: string where
  "NL = [CHR 0x0A]"

fun counter_loop :: "nat \<Rightarrow> int \<Rightarrow> int \<Rightarrow> int \<Rightarrow> call list" where
  "counter_loop 0 out pid i = []"
| "counter_loop (Suc n) out pid i =
     [Out out (fst (fprintf (ESC @ ''[0;36m[%d]'' @ ESC @ ''[0m %d '') [ANum (word_of_int pid), ANum (word_of_int i)]))]
     @ (if i mod 10 = 0 then [Out out (fst (fprintf NL []))] else []) @ counter_loop n out pid (i + 1)"

definition counter_wrapper :: "int \<Rightarrow> int option \<Rightarrow> int \<times> int \<Rightarrow> call list \<times> int" where
  "counter_wrapper pid arg fds =
     (let mx = (case arg of None \<Rightarrow> 10 | Some v \<Rightarrow> wrap32 v); out = snd fds in
      ([Out out (fst (fprintf (ESC @ ''[0;36m[Process %d] Counting to %d...'' @ ESC @ ''[0m'' @ NL)
          [ANum (word_of_int pid), ANum (word_of_int mx)]))]
       @ counter_loop (nat mx) out pid 1
       @ [Out out (fst (fprintf (NL @ ESC @ ''[0;32m[Process %d] Done! Counted to %d'' @ ESC @ ''[0m'' @ NL)
            [ANum (word_of_int pid), ANum (word_of_int mx)])), CloseFD out], mx))"

section \<open>Readers and writers of one variable\<close>

text \<open>
  Where a process stands, named after the operation it does next. \<open>WIdle\<close> waits for \<open>sem_empty\<close>,
  \<open>RIdle\<close> for \<open>sem_full\<close>.
\<close>

datatype loc =
    WIdle | WLock | WStore | WMark | WUnlock | WPost
  | RIdle | RLock | RLoad | RMark char | RPrint char | RUnlock | RPost

record MvarShared =
  mvalue :: char
  is_empty :: bool
  sem_mutex :: nat
  sem_empty :: nat
  sem_full :: nat
  locs :: "nat \<Rightarrow> loc"
  printed :: string

definition mvar_goto :: "nat \<Rightarrow> loc \<Rightarrow> MvarShared \<Rightarrow> MvarShared" where
  "mvar_goto i l s = s\<lparr>locs := (locs s)(i := l)\<rparr>"

text \<open>One operation of writer \<open>i\<close>, whose letter is the \<open>i\<close>-th; \<open>None\<close> when it has to wait.\<close>

definition mvar_writer :: "nat \<Rightarrow> MvarShared \<Rightarrow> MvarShared option" where
  "mvar_writer i s =
     (case locs s i of
        WIdle \<Rightarrow> if sem_empty s = 0 then None else Some (mvar_goto i WLock (s\<lparr>sem_empty := sem_empty s - 1\<rparr>))
      | WLock \<Rightarrow> if sem_mutex s = 0 then None else Some (mvar_goto i WStore (s\<lparr>sem_mutex := sem_mutex s - 1\<rparr>))
      | WStore \<Rightarrow> Some (mvar_goto i WMark (s\<lparr>mvalue := char_of (65 + i)\<rparr>))
      | WMark \<Rightarrow> Some (mvar_goto i WUnlock (s\<lparr>is_empty := False\<rparr>))
      | WUnlock \<Rightarrow> Some (mvar_goto i WPost (s\<lparr>sem_mutex := sem_mutex s + 1\<rparr>))
      | WPost \<Rightarrow> Some (mvar_goto i WIdle (s\<lparr>sem_full := sem_full s + 1\<rparr>))
      | _ \<Rightarrow> None)"

definition mvar_reader :: "nat \<Rightarrow> MvarShared \<Rightarrow> MvarShared option" where
  "mvar_reader i s =
     (case locs s i of
        RIdle \<Rightarrow> if sem_full s = 0 then None else Some (mvar_goto i RLock (s\<lparr>sem_full := sem_full s - 1\<rparr>))
      | RLock \<Rightarrow> if sem_mutex s = 0 then None else Some (mvar_goto i RLoad (s\<lparr>sem_mutex := sem_mutex s - 1\<rparr>))
      | RLoad \<Rightarrow> Some (mvar_goto i (RMark (mvalue s)) s)
      | RMark c \<Rightarrow> Some (mvar_goto i (RPrint c) (s\<lparr>is_empty := True\<rparr>))
      | RPrint c \<Rightarrow> Some (mvar_goto i RUnlock (s\<lparr>printed := printed s @ [c]\<rparr>))
      | RUnlock \<Rightarrow> Some (mvar_goto i RPost (s\<lparr>sem_mutex := sem_mutex s + 1\<rparr>))
      | RPost \<Rightarrow> Some (mvar_goto i RIdle (s\<lparr>sem_empty := sem_empty s + 1\<rparr>))
      | _ \<Rightarrow> None)"

text \<open>
  All runs of \<open>w\<close> writers (processes \<open>0 \<dots> w - 1\<close>) and \<open>r\<close> readers after the set-up of
  \<open>mvar_wrapper\<close>: the states they reach, with the letters stored so far.
\<close>

definition mvar_init :: "nat \<Rightarrow> MvarShared" where
  "mvar_init w = \<lparr>mvalue = CHR 0x00, is_empty = True, sem_mutex = 1, sem_empty = 1, sem_full = 0,
     locs = (\<lambda>i. if i < w then WIdle else RIdle), printed = []\<rparr>"

inductive mvar_reach :: "nat \<Rightarrow> nat \<Rightarrow> MvarShared \<Rightarrow> string \<Rightarrow> bool" for w r where
  start: "mvar_reach w r (mvar_init w) []"
| writes: "\<lbrakk>mvar_reach w r s h; i < w; mvar_writer i s = Some s'\<rbrakk>
    \<Longrightarrow> mvar_reach w r s' (if locs s i = WStore then h @ [char_of (65 + i)] else h)"
| reads: "\<lbrakk>mvar_reach w r s h; w \<le> i; i < w + r; mvar_reader i s = Some s'\<rbrakk> \<Longrightarrow> mvar_reach w r s' h"

text \<open>The answers of the system calls that \<open>mvar_wrapper\<close> makes.\<close>

record mvar_answers =
  a_malloc :: bool
  a_sem :: "string \<Rightarrow> int"
  a_create :: "string \<Rightarrow> string \<Rightarrow> int"

datatype mvar_call =
    MOut "event list"
  | MFree
  | MSemOpen string int
  | MCreate string string

definition create_all :: "mvar_answers \<Rightarrow> string \<Rightarrow> string \<Rightarrow> string list \<Rightarrow> mvar_call list" where
  "create_all A name' what args =
     concat (map (\<lambda>(i, a). MCreate name' a
       # (if a_create A name' a < 0
          then [MOut (fst (fprintf (''Error: Could not create '' @ what @ '' %d'' @ NL) [ANum (of_nat i)]))] else []))
       (zip [0..<length args] args))"

definition mvar_wrapper :: "mvar_answers \<Rightarrow> (int \<times> int) option \<Rightarrow> mvar_call list \<times> int" where
  "mvar_wrapper A args =
     (case args of
        None \<Rightarrow>
          ([MOut (fst (fprintf (''Usage: mvar <writers> <readers>'' @ NL) [])),
            MOut (fst (fprintf (''  writers: number of writer processes (each gets a letter A, B, C, ...)'' @ NL) [])),
            MOut (fst (fprintf (''  readers: number of reader processes (each gets a different color)'' @ NL) []))], - 1)
      | Some (writers, readers) \<Rightarrow>
          if writers \<le> 0 \<or> readers \<le> 0 \<or> writers > 26
          then ([MOut (fst (fprintf (''Error: Invalid number of writers or readers'' @ NL) [])),
                 MOut (fst (fprintf (''Writers must be between 1 and 26, readers must be at least 1'' @ NL) []))], - 1)
          else let hello = MOut (fst (fprintf (ESC @ ''[1;36m=== MVAR: Starting with %d writers and %d readers ==='' @ ESC @ ''[0m'' @ NL)
                     [ANum (word_of_int writers), ANum (word_of_int readers)])) in
            if \<not> a_malloc A
            then ([hello, MOut (fst (fprintf (''Error: Could not allocate shared memory'' @ NL) []))], - 1)
            else let opens = [MSemOpen ''mvar_mutex'' 1, MSemOpen ''mvar_empty'' 1, MSemOpen ''mvar_full'' 0] in
              if a_sem A ''mvar_mutex'' < 0 \<or> a_sem A ''mvar_empty'' < 0 \<or> a_sem A ''mvar_full'' < 0
              then ([hello] @ opens @ [MOut (fst (fprintf (''Error: Could not create semaphores'' @ NL) [])), MFree], - 1)
              else ([hello] @ opens
                    @ create_all A ''mvar_writer'' ''writer'' (map (\<lambda>i. [char_of (65 + i)]) [0..<nat writers])
                    @ create_all A ''mvar_reader'' ''reader'' (map (\<lambda>i. itoa (int i)) [0..<nat readers])
                    @ [MOut (fst (fprintf (ESC @ ''[1;32m=== MVAR: All processes created and running ==='' @ ESC @ ''[0m'' @ NL) [])),
                       MOut (fst (fprintf (ESC @ ''[1;33m=== Use '' @ [CHR 0x27] @ ''ps'' @ [CHR 0x27] @ '' to see processes, ''
                         @ [CHR 0x27] @ ''kill <pid>'' @ [CHR 0x27] @ '' to stop them ==='' @ ESC @ ''[0m'' @ NL) []))], 0))"

section \<open>Counting words\<close>









section \<open>The one-place buffer\<close>

datatype token = InEmpty | InFull | At nat

definition crit :: "loc \<Rightarrow> bool" where
  "crit l \<longleftrightarrow> l \<in> {WStore, WMark, WUnlock, RLoad, RUnlock} \<or> (\<exists>c. l = RMark c \<or> l = RPrint c)"

text \<open>What a process that has taken the token knows of the letters stored and printed.\<close>

fun holds_at :: "loc \<Rightarrow> MvarShared \<Rightarrow> string \<Rightarrow> bool" where
  "holds_at WLock s h = (h = printed s)"
| "holds_at WStore s h = (h = printed s)"
| "holds_at WMark s h = (h = printed s @ [mvalue s])"
| "holds_at WUnlock s h = (h = printed s @ [mvalue s])"
| "holds_at WPost s h = (h = printed s @ [mvalue s])"
| "holds_at RLock s h = (h = printed s @ [mvalue s])"
| "holds_at RLoad s h = (h = printed s @ [mvalue s])"
| "holds_at (RMark c) s h = (h = printed s @ [c])"
| "holds_at (RPrint c) s h = (h = printed s @ [c])"
| "holds_at RUnlock s h = (h = printed s)"
| "holds_at RPost s h = (h = printed s)"
| "holds_at WIdle s h = False"
| "holds_at RIdle s h = False"

definition is_writer :: "loc \<Rightarrow> bool" where
  "is_writer l \<longleftrightarrow> l \<in> {WIdle, WLock, WStore, WMark, WUnlock, WPost}"

definition mvar_inv :: "nat \<Rightarrow> nat \<Rightarrow> token \<Rightarrow> MvarShared \<Rightarrow> string \<Rightarrow> bool" where
  "mvar_inv w r tok s h \<longleftrightarrow>
     sem_empty s = (if tok = InEmpty then 1 else 0) \<and> sem_full s = (if tok = InFull then 1 else 0)
     \<and> (\<forall>i. tok \<noteq> At i \<longrightarrow> locs s i = (if i < w then WIdle else RIdle))
     \<and> (case tok of
          InEmpty \<Rightarrow> sem_mutex s = 1 \<and> h = printed s
        | InFull \<Rightarrow> sem_mutex s = 1 \<and> h = printed s @ [mvalue s]
        | At i \<Rightarrow> i < w + r \<and> (is_writer (locs s i) \<longleftrightarrow> i < w) \<and> holds_at (locs s i) s h
            \<and> sem_mutex s = (if crit (locs s i) then 0 else 1))"

lemma mvar_writer_inv:
  assumes "mvar_inv w r tok s h" and "i < w" and "mvar_writer i s = Some s'"
  shows "\<exists>tok'. mvar_inv w r tok' s' (if locs s i = WStore then h @ [char_of (65 + i)] else h)"
proof (cases "tok = At i")
  case True
  then have tok: "tok = At i" .
  show ?thesis
  proof (cases "locs s i = WPost")
    case True
    then show ?thesis using assms tok
      by (intro exI [of _ InFull]) (auto simp: mvar_inv_def mvar_writer_def mvar_goto_def crit_def)
  next
    case False
    then show ?thesis using assms tok
      by (intro exI [of _ "At i"])
        (auto simp: mvar_inv_def mvar_writer_def mvar_goto_def crit_def is_writer_def split: loc.splits if_splits)
  qed
next
  case False
  then have "locs s i = WIdle" "tok = InEmpty"
    using assms by (auto simp: mvar_inv_def mvar_writer_def split: if_splits)
  then show ?thesis using assms
    by (intro exI [of _ "At i"]) (auto simp: mvar_inv_def mvar_writer_def mvar_goto_def crit_def is_writer_def)
qed

lemma mvar_reader_inv:
  assumes "mvar_inv w r tok s h" and "w \<le> i" and "i < w + r" and "mvar_reader i s = Some s'"
  shows "\<exists>tok'. mvar_inv w r tok' s' h"
proof (cases "tok = At i")
  case True
  then have tok: "tok = At i" .
  show ?thesis
  proof (cases "locs s i = RPost")
    case True
    then show ?thesis using assms tok
      by (intro exI [of _ InEmpty]) (auto simp: mvar_inv_def mvar_reader_def mvar_goto_def crit_def)
  next
    case False
    then show ?thesis using assms tok
      by (intro exI [of _ "At i"])
        (auto simp: mvar_inv_def mvar_reader_def mvar_goto_def crit_def is_writer_def split: loc.splits if_splits)
  qed
next
  case False
  then have "locs s i = RIdle" "tok = InFull"
    using assms by (auto simp: mvar_inv_def mvar_reader_def split: if_splits)
  then show ?thesis using assms
    by (intro exI [of _ "At i"]) (auto simp: mvar_inv_def mvar_reader_def mvar_goto_def crit_def is_writer_def)
qed

lemma mvar_reach_inv: "mvar_reach w r s h \<Longrightarrow> \<exists>tok. mvar_inv w r tok s h"
proof (induction rule: mvar_reach.induct)
  case start
  show ?case by (intro exI [of _ InEmpty]) (simp add: mvar_inv_def mvar_init_def)
next
  case (writes s h i s')
  then show ?case using mvar_writer_inv by blast
next
  case (reads s h i s')
  then show ?case using mvar_reader_inv by blast
qed

text \<open>The process that has the token can always go on, and otherwise one can take it.\<close>

lemma mvar_progress:
  assumes "mvar_inv w r tok s h" and "0 < w" and "0 < r"
  shows "(\<exists>i < w. mvar_writer i s \<noteq> None) \<or> (\<exists>i. w \<le> i \<and> i < w + r \<and> mvar_reader i s \<noteq> None)"
proof (cases tok)
  case InEmpty
  then have "locs s 0 = WIdle" "sem_empty s = 1" using assms by (simp_all add: mvar_inv_def)
  then show ?thesis using assms(2) by (intro disjI1 exI [of _ 0]) (simp add: mvar_writer_def)
next
  case InFull
  then have "locs s w = RIdle" "sem_full s = 1" using assms by (simp_all add: mvar_inv_def)
  then show ?thesis using assms(3) by (intro disjI2 exI [of _ w]) (simp add: mvar_reader_def)
next
  case (At i)
  then have I: "i < w + r" "is_writer (locs s i) \<longleftrightarrow> i < w" "holds_at (locs s i) s h"
    "sem_mutex s = (if crit (locs s i) then 0 else 1)" using assms(1) by (simp_all add: mvar_inv_def)
  show ?thesis
  proof (cases "i < w")
    case True
    then have "mvar_writer i s \<noteq> None"
      using I by (auto simp: mvar_writer_def is_writer_def crit_def split: loc.splits)
    then show ?thesis using True by blast
  next
    case False
    then have "mvar_reader i s \<noteq> None"
      using I by (cases "locs s i") (auto simp: mvar_reader_def is_writer_def crit_def)
    then show ?thesis using False I(1) by (intro disjI2 exI [of _ i]) simp
  qed
qed

lemma filter_written: "written_to out (filter_loop out inp) = filter (\<lambda>c. c \<notin> vowels) inp"
  by (induction inp) auto

lemma cat_written: "written_to out (cat_loop out inp) = inp"
  by (induction inp) auto

lemma written_to_append [simp]: "written_to fd (a @ b) = written_to fd a @ written_to fd b"
  by (induction fd a rule: written_to.induct) auto

section \<open>Properties\<close>


text \<open>
  \<open>filter\<close> writes its input without the vowels, \<open>cat\<close> writes it unchanged; so \<open>cat\<close> piped into
  \<open>filter\<close> is \<open>filter\<close>, and filtering twice changes nothing more.
\<close>

theorem stream_commands:
  "written_to out (fst (filter_wrapper (inp_fd, out) inp)) = filter (\<lambda>c. c \<notin> vowels) inp
   \<and> written_to out (fst (cat_wrapper (inp_fd, out) inp)) = inp
   \<and> fst (filter_wrapper (inp_fd, out) (written_to out (fst (cat_wrapper (inp_fd, out) inp)))) = fst (filter_wrapper (inp_fd, out) inp)
   \<and> written_to out (fst (filter_wrapper (inp_fd, out) (written_to out (fst (filter_wrapper (inp_fd, out) inp)))))
     = written_to out (fst (filter_wrapper (inp_fd, out) inp))"
  by (simp add: filter_wrapper_def cat_wrapper_def filter_written cat_written)

text \<open>
  the readers and writers exchange letters one by one. In every state that they reach, the
  letters printed are the letters stored, in the order in which they were stored, none lost and
  none printed twice, except that the last one may still be waiting; at most one process is
  between the two operations on \<open>sem_mutex\<close>; and some process can go on.
\<close>

theorem mvar_exchange:
  assumes "mvar_reach w r s h"
  shows "(h = printed s \<or> (\<exists>c. h = printed s @ [c]))
    \<and> (\<forall>i j. i < w + r \<and> j < w + r \<and> crit (locs s i) \<and> crit (locs s j) \<longrightarrow> i = j)
    \<and> (0 < w \<and> 0 < r \<longrightarrow> (\<exists>i < w. mvar_writer i s \<noteq> None) \<or> (\<exists>i. w \<le> i \<and> i < w + r \<and> mvar_reader i s \<noteq> None))"
proof -
  obtain tok where I: "mvar_inv w r tok s h" using mvar_reach_inv [OF assms] ..
  have "h = printed s \<or> (\<exists>c. h = printed s @ [c])"
  proof (cases tok)
    case (At i)
    then show ?thesis using I by (cases "locs s i") (auto simp: mvar_inv_def)
  qed (use I in \<open>auto simp: mvar_inv_def\<close>)
  moreover have "i = j" if "crit (locs s i)" "crit (locs s j)" for i j
  proof -
    have "tok = At k" if "crit (locs s k)" for k
      using I that by (cases "tok = At k") (auto simp: mvar_inv_def crit_def split: if_splits)
    then show ?thesis using that by (metis token.inject)
  qed
  ultimately show ?thesis using mvar_progress [OF I] by blast
qed

lemma mvar_exchange_witness: "\<exists>s. mvar_reach 1 1 s ''A'' \<and> printed s = []"
proof -
  let ?s1 = "mvar_goto 0 WLock ((mvar_init 1)\<lparr>sem_empty := 0\<rparr>)"
  let ?s2 = "mvar_goto 0 WStore (?s1\<lparr>sem_mutex := 0\<rparr>)"
  let ?s3 = "mvar_goto 0 WMark (?s2\<lparr>mvalue := CHR ''A''\<rparr>)"
  have "char_of (of_char CHR ''A'' :: nat) = CHR ''A''" by (rule char_of_char)
  then have A: "char_of (65 :: nat) = CHR ''A''" by simp
  have l: "locs (mvar_init 1) 0 = WIdle" "locs ?s1 0 = WLock" "locs ?s2 0 = WStore" by (simp_all add: mvar_init_def mvar_goto_def)
  have "mvar_writer 0 (mvar_init 1) = Some ?s1" unfolding mvar_writer_def l by (simp add: mvar_init_def)
  from mvar_reach.writes [OF mvar_reach.start _ this, where r = 1] have r1: "mvar_reach 1 1 ?s1 []" unfolding l by simp
  have "mvar_writer 0 ?s1 = Some ?s2" unfolding mvar_writer_def l by (simp add: mvar_init_def mvar_goto_def)
  from mvar_reach.writes [OF r1 _ this] have r2: "mvar_reach 1 1 ?s2 []" unfolding l by simp
  have "mvar_writer 0 ?s2 = Some ?s3" unfolding mvar_writer_def l by (simp add: A)
  from mvar_reach.writes [OF r2 _ this] have r3: "mvar_reach 1 1 ?s3 ''A''" unfolding l by (simp add: A)
  have "printed ?s3 = []" by (simp add: mvar_goto_def mvar_init_def)
  with r3 mvar_exchange [OF r3] show ?thesis by blast
qed

end
