(* ===== verification/Shell_Parser.thy ===== *)
theory Shell_Parser
  imports User_Strings
begin

text \<open>
  How the shell takes a command line apart: \<open>parse_arguments\<close> and \<open>parse_pipe_command\<close> of
  \<open>Userland/Shell/shell.c\<close>, on the byte memory that holds its buffers, and the functions on
  strings that they compute.
\<close>

section \<open>The program\<close>

definition MAX_BUFFER_SIZE :: nat where "MAX_BUFFER_SIZE = 1024"
definition MAX_ARGS :: nat where "MAX_ARGS = 64"

lemmas shell_consts [simp] = MAX_BUFFER_SIZE_def MAX_ARGS_def



fun trim_right :: "nat \<Rightarrow> mem \<Rightarrow> addr \<Rightarrow> mem" where
  "trim_right 0 m p = m"
| "trim_right (Suc n) m p = (if m (p + n) = 32 \<or> m (p + n) = 9 then trim_right n (m(p + n := 0)) p else m)"

partial_function (option) skip_blanks :: "mem \<Rightarrow> addr \<Rightarrow> addr option" where
  "skip_blanks m p = (if m p = 32 \<or> m p = 9 then skip_blanks m (p + 1) else Some p)"

definition parse_pipe_command :: "mem \<Rightarrow> addr \<Rightarrow> addr \<Rightarrow> addr \<Rightarrow> (int \<times> mem) option" where
  "parse_pipe_command m command_buffer left_cmd right_cmd =
     (case strchr m command_buffer 124 of
        None \<Rightarrow> None
      | Some pipe_pos \<Rightarrow>
          if pipe_pos = 0 then Some (0, m)
          else let left_len = pipe_pos - command_buffer;
                   m1 = strncpy m left_cmd command_buffer (int left_len);
                   m2 = m1(left_cmd + left_len := 0)
               in case strcpy m2 right_cmd (pipe_pos + 1) of
                    None \<Rightarrow> None
                  | Some m3 \<Rightarrow>
                      let m4 = trim_right left_len m3 left_cmd in
                      case skip_blanks m4 right_cmd of
                        None \<Rightarrow> None
                      | Some right_start \<Rightarrow>
                          case strlen_u m4 right_start of
                            None \<Rightarrow> None
                          | Some n \<Rightarrow>
                              let m5 = (if right_start \<noteq> right_cmd then snd (memmove m4 right_cmd right_start (int n + 1)) else m4)
                              in case strlen_u m5 left_cmd of
                                   None \<Rightarrow> None
                                 | Some a \<Rightarrow> case strlen_u m5 right_cmd of
                                     None \<Rightarrow> None
                                   | Some b \<Rightarrow> Some (if a = 0 \<or> b = 0 then - 1 else 1, m5))"

section \<open>What they compute\<close>

text \<open>
  The arguments of a line: the pieces between single spaces. Two spaces in a row give an empty
  argument, and so does a line that begins with one; a space at the end does not.
\<close>

function tokens :: "string \<Rightarrow> string list" where
  "tokens s =
     (let a = takeWhile (\<lambda>c. c \<noteq> CHR '' '') s; r = drop (Suc (length a)) s
      in if r = [] then [a] else a # tokens r)"
  by pat_completeness auto

termination
  by (relation "measure length") auto

declare tokens.simps [simp del]

definition blank_char :: "char \<Rightarrow> bool" where
  "blank_char c \<longleftrightarrow> c = CHR '' '' \<or> c = CHR 0x09"

definition lstrip :: "string \<Rightarrow> string" where
  "lstrip s = dropWhile blank_char s"

definition rstrip :: "string \<Rightarrow> string" where
  "rstrip s = rev (dropWhile blank_char (rev s))"

definition split_pipe :: "string \<Rightarrow> string \<times> string" where
  "split_pipe s = (rstrip (takeWhile (\<lambda>c. c \<noteq> CHR ''|'') s), lstrip (tl (dropWhile (\<lambda>c. c \<noteq> CHR ''|'') s)))"

section \<open>Arguments\<close>

lemma byte_32: "32 = byte CHR '' ''"
  by (simp add: byte_def)




definition rest_tokens :: "string \<Rightarrow> string list" where
  "rest_tokens r = (if r = [] then [] else tokens r)"

lemma tokens_rest: "tokens s = takeWhile (\<lambda>c. c \<noteq> CHR '' '') s
    # rest_tokens (drop (Suc (length (takeWhile (\<lambda>c. c \<noteq> CHR '' '') s))) s)"
  by (subst tokens.simps) (simp add: Let_def rest_tokens_def)




lemma tokens_not_Nil [simp]: "tokens s \<noteq> []"
  by (simp add: tokens_rest)



section \<open>Pipes\<close>

lemma strchr_spec:
  assumes "cstr m p s" and "0 < k" and "k < 128"
  shows "strchr_loop m p (int k) =
    Some (if char_of k \<in> set s then p + length (takeWhile (\<lambda>c. c \<noteq> char_of k) s) else 0)"
  using assms(1)
proof (induction s arbitrary: p)
  case Nil
  then show ?case using assms(2) by (subst strchr_loop.simps) simp
next
  case (Cons c cs)
  have "sint (m p) = int k \<longleftrightarrow> c = char_of k"
  proof -
    have "byte (char_of k) = of_nat k" using assms(3) by (simp add: byte_def)
    moreover have "sint (of_nat k :: u8) = int k"
      using assms(3) by (simp add: signed_of_nat signed_take_bit_int_eq_self)
    ultimately show ?thesis using Cons.prems by (metis byte_inj cstr.simps(2) sint_inj)
  qed
  then show ?case using Cons by (subst strchr_loop.simps) auto
qed

lemma strncpy_loop_spec:
  "\<lbrakk>\<forall>j < k. m (src + i + j) \<noteq> 0; {dest + i..<dest + i + k} \<inter> {src + i..<src + i + k} = {}\<rbrakk>
   \<Longrightarrow> strncpy_loop k m dest src i x = (if dest + i \<le> x \<and> x < dest + i + k then m (src + (x - dest)) else m x)"
proof (induction k arbitrary: i m)
  case (Suc k)
  let ?m = "m(dest + i := m (src + i))"
  have out: "dest + i \<notin> {src + i..<src + i + Suc k}" using Suc.prems(2) by auto
  have "m (src + i) \<noteq> 0" using Suc.prems(1) [THEN spec, of 0] by simp
  then have "strncpy_loop (Suc k) m dest src i x = strncpy_loop k ?m dest src (i + 1) x" by simp
  also have "\<dots> = (if dest + (i + 1) \<le> x \<and> x < dest + (i + 1) + k then ?m (src + (x - dest)) else ?m x)"
  proof (rule Suc.IH)
    show "\<forall>j < k. ?m (src + (i + 1) + j) \<noteq> 0"
    proof (intro allI impI)
      fix j assume "j < k"
      then have "m (src + i + Suc j) \<noteq> 0" using Suc.prems(1) by blast
      moreover have "src + (i + 1) + j = src + i + Suc j" "src + i + Suc j \<noteq> dest + i" using out \<open>j < k\<close> by auto
      ultimately show "?m (src + (i + 1) + j) \<noteq> 0" by simp
    qed
    show "{dest + (i + 1)..<dest + (i + 1) + k} \<inter> {src + (i + 1)..<src + (i + 1) + k} = {}"
      using Suc.prems(2) by fastforce
  qed
  also have "\<dots> = (if dest + i \<le> x \<and> x < dest + i + Suc k then m (src + (x - dest)) else m x)"
  proof -
    have "src + (x - dest) \<noteq> dest + i" if "dest + (i + 1) \<le> x" "x < dest + (i + 1) + k"
    proof
      assume e: "src + (x - dest) = dest + i"
      have "src + i \<le> src + (x - dest)" "src + (x - dest) < src + i + Suc k" using that by auto
      then show False using out unfolding e by simp
    qed
    then show ?thesis by auto
  qed
  finally show ?case .
qed auto

lemma trim_right_spec:
  "cstr m p s \<Longrightarrow> cstr (trim_right (length s) m p) p (rstrip s)
    \<and> (\<forall>x. x < p \<or> p + length s \<le> x \<longrightarrow> trim_right (length s) m p x = m x)"
proof (induction s arbitrary: m rule: rev_induct)
  case Nil
  then show ?case by (simp add: rstrip_def)
next
  case (snoc c s)
  have C: "nulfree (s @ [c])" "\<forall>i < Suc (length s). m (p + i) = byte ((s @ [c]) ! i)" using snoc.prems by (simp_all add: cstr_iff)
  have mc: "m (p + length s) = byte c" using C(2) by simp
  have bc: "m (p + length s) = 32 \<or> m (p + length s) = 9 \<longleftrightarrow> blank_char c"
  proof -
    have "9 = byte CHR 0x09" by (simp add: byte_def)
    then show ?thesis unfolding mc byte_32 by (simp only: byte_inj blank_char_def)
  qed
  show ?case
  proof (cases "blank_char c")
    case True
    let ?m = "m(p + length s := 0)"
    have "nulfree s" using C(1) by (simp add: nulfree_def)
    moreover have "m (p + i) = byte (s ! i)" if "i < length s" for i using C(2) that by (auto simp: nth_append)
    ultimately have "cstr ?m p s" by (simp add: cstr_iff)
    then have I: "cstr (trim_right (length s) ?m p) p (rstrip s)"
      "\<forall>x. x < p \<or> p + length s \<le> x \<longrightarrow> trim_right (length s) ?m p x = ?m x" using snoc.IH by blast+
    have t: "trim_right (length (s @ [c])) m p = trim_right (length s) ?m p" using True bc by simp
    have r: "rstrip (s @ [c]) = rstrip s" using True by (simp add: rstrip_def)
    have "trim_right (length s) ?m p x = m x" if "x < p \<or> p + length (s @ [c]) \<le> x" for x
    proof -
      have "x < p \<or> p + length s \<le> x" using that by auto
      with I(2) have "trim_right (length s) ?m p x = ?m x" by blast
      also have "\<dots> = m x" using that by auto
      finally show ?thesis .
    qed
    then show ?thesis unfolding t r using I(1) by blast
  next
    case False
    then have "trim_right (length (s @ [c])) m p = m" using bc by simp
    moreover have "rstrip (s @ [c]) = s @ [c]" using False by (simp add: rstrip_def)
    ultimately show ?thesis using snoc.prems by simp
  qed
qed

lemma skip_blanks_spec: "cstr m p s \<Longrightarrow> \<exists>q. skip_blanks m p = Some q \<and> cstr m q (lstrip s) \<and> p \<le> q \<and> q + length (lstrip s) = p + length s"
proof (induction s arbitrary: p)
  case Nil
  then show ?case by (subst skip_blanks.simps) (simp add: lstrip_def)
next
  case (Cons c cs)
  have bc: "m p = 32 \<or> m p = 9 \<longleftrightarrow> blank_char c"
  proof -
    have "9 = byte CHR 0x09" by (simp add: byte_def)
    moreover have "m p = byte c" using Cons.prems by simp
    ultimately show ?thesis unfolding byte_32 by (simp only: byte_inj blank_char_def)
  qed
  show ?case
  proof (cases "blank_char c")
    case True
    obtain q where "skip_blanks m (p + 1) = Some q" "cstr m q (lstrip cs)" "p + 1 \<le> q" "q + length (lstrip cs) = p + 1 + length cs"
      using Cons.IH [of "p + 1"] Cons.prems by auto
    then show ?thesis using True bc by (subst skip_blanks.simps) (simp add: lstrip_def)
  next
    case False
    then show ?thesis using bc Cons.prems by (subst skip_blanks.simps) (simp add: lstrip_def)
  qed
qed

lemma takeWhile_pipe:
  assumes "CHR ''|'' \<in> set s"
  shows "s = takeWhile (\<lambda>c. c \<noteq> CHR ''|'') s @ CHR ''|'' # tl (dropWhile (\<lambda>c. c \<noteq> CHR ''|'') s)"
  using assms by (induction s) auto

text \<open>Three buffers of \<open>n\<close> bytes that do not overlap.\<close>

definition apart :: "nat \<Rightarrow> addr \<Rightarrow> addr \<Rightarrow> bool" where
  "apart n p q \<longleftrightarrow> p + n \<le> q \<or> q + n \<le> p"

lemma char_124: "char_of (124 :: nat) = CHR ''|''"
proof -
  have "char_of (of_char CHR ''|'' :: nat) = CHR ''|''" by (rule char_of_char)
  then show ?thesis by simp
qed

text \<open>The part before the bar, copied and terminated.\<close>

lemma pipe_left:
  assumes "cstr m buf (a @ c # b)" and "length a < n" and "apart n buf left'"
  defines "m' \<equiv> (strncpy m left' buf (int (length a)))(left' + length a := 0)"
  shows "cstr m' left' a" and "\<forall>x. x < left' \<or> left' + length a < x \<longrightarrow> m' x = m x"
proof -
  have nul: "nulfree a" using cstr_nulfree [OF assms(1)] by (simp add: nulfree_def)
  have at: "m (buf + i) = byte (a ! i)" if "i < length a" for i
    using assms(1) that unfolding cstr_iff by (auto simp: nth_append)
  have ne: "m (buf + i) \<noteq> 0" if "i < length a" for i
  proof -
    have "a ! i \<noteq> CHR 0x00" using nth_mem [OF that] nul unfolding nulfree_def by metis
    then show ?thesis using at [OF that] by simp
  qed
  have n1: "strncpy m left' buf (int (length a)) x = (if left' \<le> x \<and> x < left' + length a then m (buf + (x - left')) else m x)" for x
    using strncpy_loop_spec [of "length a" m buf 0 left' x] ne assms(2,3) by (auto simp: strncpy_def apart_def)
  show "\<forall>x. x < left' \<or> left' + length a < x \<longrightarrow> m' x = m x" by (auto simp: m'_def n1)
  show "cstr m' left' a" unfolding cstr_iff using nul at by (simp add: m'_def n1)
qed

text \<open>The part behind it, moved over its leading blanks.\<close>

lemma pipe_right:
  assumes "cstr m p b" and "skip_blanks m p = Some q" and "cstr m q (lstrip b)"
  defines "m' \<equiv> (if q \<noteq> p then snd (memmove m p q (int (length (lstrip b)) + 1)) else m)"
  shows "cstr m' p (lstrip b)" and "\<forall>x. x < p \<or> p + length (lstrip b) < x \<longrightarrow> m' x = m x"
proof -
  have mv: "memmove m p q (int (length (lstrip b) + 1))
    = (p, \<lambda>x. if p \<le> x \<and> x < p + (length (lstrip b) + 1) then m (q + (x - p)) else m x)"
    by (rule memmove_spec)
  have m': "m' x = (if p \<le> x \<and> x < p + (length (lstrip b) + 1) then m (q + (x - p)) else m x)" for x
    using mv by (cases "q = p") (simp_all add: m'_def add.commute)
  show "cstr m' p (lstrip b)" using assms(3) unfolding cstr_iff by (simp add: m')
  show "\<forall>x. x < p \<or> p + length (lstrip b) < x \<longrightarrow> m' x = m x" by (auto simp: m')
qed

lemma parse_pipe_spec:
  assumes "cstr m buf s" and "CHR ''|'' \<in> set s" and "length s < n" and "apart n buf left'" and "apart n buf right'"
    and "apart n left' right'" and "buf \<noteq> 0"
  shows "\<exists>m'. parse_pipe_command m buf left' right'
      = Some (if fst (split_pipe s) = [] \<or> snd (split_pipe s) = [] then - 1 else 1, m')
    \<and> cstr m' left' (fst (split_pipe s)) \<and> cstr m' right' (snd (split_pipe s))"
proof -
  define a where "a = takeWhile (\<lambda>c. c \<noteq> CHR ''|'') s"
  define b where "b = tl (dropWhile (\<lambda>c. c \<noteq> CHR ''|'') s)"
  have s: "s = a @ CHR ''|'' # b" unfolding a_def b_def by (rule takeWhile_pipe [OF assms(2)])
  have lr: "split_pipe s = (rstrip a, lstrip b)" by (simp add: split_pipe_def a_def b_def)
  have len: "length a + length b + 1 < n" using assms(3) unfolding s by simp
  have c: "cstr m buf (a @ CHR ''|'' # b)" using assms(1) unfolding s .
  have cb: "cstr m (buf + length a + 1) b" using cstr_at [OF c] by simp
  have pos: "strchr m buf 124 = Some (buf + length a)"
    using strchr_spec [OF assms(1), of 124] assms(2) by (simp add: strchr_def char_124 a_def)
  define m2 where "m2 = (strncpy m left' buf (int (length a)))(left' + length a := 0)"
  have l2: "cstr m2 left' a" and f2: "\<forall>x. x < left' \<or> left' + length a < x \<longrightarrow> m2 x = m x"
    unfolding m2_def using pipe_left [OF c _ assms(4)] len by simp_all
  have b2: "cstr m2 (buf + length a + 1) b"
    by (rule cstr_frame [OF cb]) (use f2 len assms(4) in \<open>auto simp: apart_def\<close>)
  obtain m3 where m3: "strcpy_loop m2 right' (buf + length a + 1) 0 = Some m3" "cstr m3 right' b"
    "\<forall>x. x < right' \<or> right' + length b < x \<longrightarrow> m3 x = m2 x"
    using strcpy_loop_cstr [of m2 "buf + length a + 1" 0 b right'] b2 len assms(5) by (auto simp: apart_def)
  have l3: "cstr m3 left' a"
    by (rule cstr_frame [OF l2]) (use m3(3) len assms(6) in \<open>auto simp: apart_def\<close>)
  define m4 where "m4 = trim_right (length a) m3 left'"
  have l4: "cstr m4 left' (rstrip a)" and f4: "\<forall>x. x < left' \<or> left' + length a \<le> x \<longrightarrow> m4 x = m3 x"
    using trim_right_spec [OF l3] by (simp_all add: m4_def)
  have b4: "cstr m4 right' b"
    by (rule cstr_frame [OF m3(2)]) (use f4 len assms(6) in \<open>auto simp: apart_def\<close>)
  then obtain q where q: "skip_blanks m4 right' = Some q" "cstr m4 q (lstrip b)" "length (lstrip b) \<le> length b"
    using skip_blanks_spec [OF b4] by auto
  define m5 where "m5 = (if q \<noteq> right' then snd (memmove m4 right' q (int (length (lstrip b)) + 1)) else m4)"
  have r5: "cstr m5 right' (lstrip b)" and f5: "\<forall>x. x < right' \<or> right' + length (lstrip b) < x \<longrightarrow> m5 x = m4 x"
    unfolding m5_def by (rule pipe_right [OF b4 q(1,2)])+
  have la: "length (rstrip a) \<le> length a"
    unfolding rstrip_def using length_dropWhile_le [of blank_char "rev a"] by simp
  have l5: "cstr m5 left' (rstrip a)"
    by (rule cstr_frame [OF l4]) (use f5 q(3) la len assms(6) in \<open>auto simp: apart_def\<close>)
  have "parse_pipe_command m buf left' right' = Some (if rstrip a = [] \<or> lstrip b = [] then - 1 else 1, m5)"
    using pos assms(7) m3(1) q(1) strlen_u_cstr [OF q(2)] strlen_u_cstr [OF l5] strlen_u_cstr [OF r5]
    by (simp add: parse_pipe_command_def Let_def strcpy_def m2_def [symmetric] m4_def [symmetric] m5_def [symmetric])
  then show ?thesis using l5 r5 by (simp add: lr)
qed

section \<open>Properties\<close>


definition line_at :: "addr \<Rightarrow> string \<Rightarrow> mem" where
  "line_at p s = (\<lambda>x. if p \<le> x \<and> x < p + length s then byte (s ! (x - p)) else 0)"

lemma cstr_line_at: "nulfree s \<Longrightarrow> cstr (line_at p s) p s"
  by (simp add: cstr_iff line_at_def)


text \<open>
  \<open>parse_pipe_command\<close> cuts a line at its first bar. Without a bar it answers 0 and changes
  nothing; otherwise the two buffers hold the part before the bar without trailing blanks and the
  part behind it without leading blanks, and the answer is 1, or -1 when one of them is empty.
\<close>

theorem parse_pipe_splits:
  assumes "cstr m buf s" and "length s < n" and "apart n buf left'" and "apart n buf right'" and "apart n left' right'"
    and "buf \<noteq> 0"
  shows "if CHR ''|'' \<notin> set s then parse_pipe_command m buf left' right' = Some (0, m)
    else \<exists>m'. parse_pipe_command m buf left' right'
        = Some (if fst (split_pipe s) = [] \<or> snd (split_pipe s) = [] then - 1 else 1, m')
      \<and> cstr m' left' (fst (split_pipe s)) \<and> cstr m' right' (snd (split_pipe s))"
proof (cases "CHR ''|'' \<in> set s")
  case True
  with parse_pipe_spec [OF assms(1) True assms(2-6)] show ?thesis by simp
next
  case False
  have "strchr m buf 124 = Some 0" using strchr_spec [OF assms(1), of 124] False by (simp add: strchr_def char_124)
  then show ?thesis using False by (simp add: parse_pipe_command_def)
qed

lemma parse_pipe_splits_witness:
  "\<exists>m'. parse_pipe_command (line_at 5000 ''cat | wc'') 5000 1000 3000 = Some (1, m') \<and> cstr m' 1000 ''cat'' \<and> cstr m' 3000 ''wc''"
proof -
  have "cstr (line_at 5000 ''cat | wc'') 5000 ''cat | wc''" by (rule cstr_line_at) (simp add: nulfree_def)
  moreover have "split_pipe ''cat | wc'' = (''cat'', ''wc'')" by code_simp
  ultimately show ?thesis
    using parse_pipe_splits [of "line_at 5000 ''cat | wc''" 5000 "''cat | wc''" 1024 1000 3000] by (simp add: apart_def)
qed

end
