(* ===== verification/Shell.thy ===== *)
theory Shell
  imports User_Commands Shell_Parser "HOL-Library.State_Monad"
begin

text \<open>
  The shell: \<open>Userland/Shell/shell.c\<close>. Its functions run in a state monad whose state is the list
  of system calls made so far. The kernel is a parameter, the record \<open>world\<close>: what it answers to a
  call may depend on every call before it, so the theorems hold however the kernel and the other
  processes behave. Lines and arguments are strings; \<open>Shell_Parser\<close> proves that the routines over
  the shell's buffers compute \<open>tokens\<close> and \<open>split_pipe\<close>. A call list has a meaning up to its first
  output whose status is not \<open>Done\<close>.
\<close>

section \<open>The routines of the C library over strings\<close>

fun strcasecmp_s :: "string \<Rightarrow> string \<Rightarrow> int" where
  "strcasecmp_s (a # as) (b # bs) =
     (if toupper (sint (byte a)) \<noteq> toupper (sint (byte b)) then sint (byte a) - sint (byte b) else strcasecmp_s as bs)"
| "strcasecmp_s (a # as) [] = sint (byte a)"
| "strcasecmp_s [] (b # bs) = - sint (byte b)"
| "strcasecmp_s [] [] = 0"

fun satoi_digits :: "string \<Rightarrow> int \<Rightarrow> int \<Rightarrow> int" where
  "satoi_digits [] sign res = wrap64 (res * sign)"
| "satoi_digits (c # cs) sign res =
     (if sint (byte c) < 48 \<or> sint (byte c) > 57 then 0
      else satoi_digits cs sign (wrap64 (res * 10 + sint (byte c) - 48)))"

definition satoi_s :: "string \<Rightarrow> int" where
  "satoi_s s = (case s of c # cs \<Rightarrow> if c = CHR ''-'' then satoi_digits cs (- 1) 0 else satoi_digits s 1 0 | [] \<Rightarrow> 0)"

lemma strcasecmp_loop_cstr:
  "\<lbrakk>cstr m (p + i) a; cstr m (q + i) b\<rbrakk> \<Longrightarrow> strcasecmp_loop m p q i = Some (strcasecmp_s a b)"
proof (induction a b arbitrary: i rule: strcasecmp_s.induct)
  case (1 a as b bs)
  then show ?case by (subst strcasecmp_loop.simps) auto
qed (subst strcasecmp_loop.simps; simp)+

lemma strcasecmp_cstr: "\<lbrakk>cstr m p a; cstr m q b\<rbrakk> \<Longrightarrow> strcasecmp m p q = Some (strcasecmp_s a b)"
  using strcasecmp_loop_cstr [of m p 0 a q b] by (simp add: strcasecmp_def)

lemma satoi_loop_cstr: "cstr m (p + i) s \<Longrightarrow> satoi_loop m p sign i res = Some (satoi_digits s sign res)"
proof (induction s arbitrary: i res)
  case (Cons c cs)
  have b: "m (p + i) \<noteq> 0" "m (p + i) = byte c" "cstr m (p + (i + 1)) cs" using Cons.prems by auto
  show ?case using Cons.IH [OF b(3)] b(1,2) by (subst satoi_loop.simps) simp
qed (subst satoi_loop.simps; simp)

lemma wrap64_0: "wrap64 0 = 0"
  by (simp add: wrap64_def)

lemma byte_45: "byte c = 45 \<longleftrightarrow> c = CHR ''-''"
proof -
  have "45 = byte CHR ''-''" by (simp add: byte_def)
  then show ?thesis by (simp only: byte_inj)
qed

lemma satoi_cstr: "\<lbrakk>cstr m p s; p \<noteq> 0\<rbrakk> \<Longrightarrow> satoi m p = Some (satoi_s s)"
  using satoi_loop_cstr [of m p 0 s 1 0] satoi_loop_cstr [of m p 1 "tl s" "- 1" 0]
  by (cases s) (auto simp: satoi_def satoi_s_def byte_45 wrap64_0)

section \<open>System calls\<close>

datatype sh_call =
    SOut int result
  | SClear
  | SFont bool
  | SGetFD
  | SPipe
  | SClose int
  | SCreate string string "string list" int bool "int \<times> int"
  | SKill int
  | SWait int
  | SClearInput
  | SPs
  | SFree
  | SMem
  | SGetpid
  | SBlock int
  | SUnblock int
  | SNice int int
  | SSleep u32
  | SSemOpen string int
  | SSemDestroy int

text \<open>
  The entries of the process list and the fields of the memory status that the shell uses.
\<close>

record proc_entry =
  pe_name :: string
  pe_pid :: int
  pe_priority :: u32
  pe_state :: int
  pe_stackBase :: u64
  pe_stackEnd :: u64
  pe_foreground :: bool

record mem_entry =
  me_total :: u32
  me_used :: u32
  me_free :: u32
  me_base :: u64

text \<open>
  The answers: the returned number (for \<open>wait\<close> the status it delivers); a pair of descriptors; the
  process list up to its end mark, if there is one; the entries from the end mark on that lie in
  memory behind it; the memory status.
\<close>

record world =
  answer :: "sh_call list \<Rightarrow> int"
  answer_fds :: "sh_call list \<Rightarrow> int \<times> int"
  answer_procs :: "sh_call list \<Rightarrow> proc_entry list option"
  answer_behind :: "sh_call list \<Rightarrow> proc_entry list"
  answer_mem :: "sh_call list \<Rightarrow> mem_entry"

type_synonym 'a sh = "(sh_call list, 'a) state"

definition ask :: "(sh_call list \<Rightarrow> 'a) \<Rightarrow> sh_call \<Rightarrow> 'a sh" where
  "ask f c = State (\<lambda>t. (f (t @ [c]), t @ [c]))"

definition sys :: "world \<Rightarrow> sh_call \<Rightarrow> int sh" where
  "sys W c = ask (answer W) c"

definition call_unit :: "sh_call \<Rightarrow> unit sh" where
  "call_unit c = ask (\<lambda>_. ()) c"

definition say :: "int \<Rightarrow> string \<Rightarrow> arg list \<Rightarrow> unit sh" where
  "say fd fmt args = call_unit (SOut fd (fprintf fmt args))"

definition when_sh :: "bool \<Rightarrow> unit sh \<Rightarrow> unit sh" where
  "when_sh b m = (if b then m else State_Monad.return ())"

definition QUOTE :: string where
  "QUOTE = [CHR 0x27]"

definition TAB :: string where
  "TAB = [CHR 0x09]"

definition int_arg :: "int \<Rightarrow> arg" where
  "int_arg i = ANum (word_of_int i)"

section \<open>Commands\<close>

datatype builtin = Clear | Echo | Font | Help | Man | Ps | Mem | Kill | Block | Nice

text \<open>\<open>CMD_PROCESS\<close> with the name of the entry point, the priority, \<open>is_background\<close> and \<open>allow_background\<close>.\<close>

datatype handler =
    CMD_BUILTIN builtin
  | CMD_PROCESS string int bool bool

record Command =
  cmd_name :: string
  description :: string
  usage :: string
  handler :: handler

definition DEFAULT_PRIORITY :: int where
  "DEFAULT_PRIORITY = 3"

definition INIT_PID :: int where
  "INIT_PID = 1"

definition Cmd :: "string \<Rightarrow> string \<Rightarrow> string \<Rightarrow> handler \<Rightarrow> Command" where
  "Cmd n d u h = \<lparr>cmd_name = n, description = d, usage = u, handler = h\<rparr>"

definition commands :: "Command list" where
  "commands =
    [Cmd ''clear'' ''Clears the screen'' ''clear'' (CMD_BUILTIN Clear),
     Cmd ''echo'' ''Prints the input string'' ''echo <text>'' (CMD_BUILTIN Echo),
     Cmd ''font'' ''Increases or decreases the font size'' ''font [increase|decrease]'' (CMD_BUILTIN Font),
     Cmd ''help'' ''Prints the available commands'' ''help'' (CMD_BUILTIN Help),
     Cmd ''man'' ''Prints the description and usage of a command'' ''man <command>'' (CMD_BUILTIN Man),
     Cmd ''ps'' ''Prints the list of all processes with their properties'' ''ps'' (CMD_BUILTIN Ps),
     Cmd ''mem'' ''Prints memory status and usage'' ''mem'' (CMD_BUILTIN Mem),
     Cmd ''kill'' ''Kills a process by PID or all user processes'' ''kill <pid> | kill all'' (CMD_BUILTIN Kill),
     Cmd ''block'' ''Toggles process state between blocked and ready'' ''block <pid>'' (CMD_BUILTIN Block),
     Cmd ''nice'' ''Changes the priority of a process'' ''nice <pid> <priority>'' (CMD_BUILTIN Nice),
     Cmd ''counter'' ''Counts from 1 to N and exits'' ''counter [max_count]''
       (CMD_PROCESS ''counter_wrapper'' DEFAULT_PRIORITY False True),
     Cmd ''loop'' ''Prints PID with greeting every N seconds'' ''loop [seconds]''
       (CMD_PROCESS ''loop_wrapper'' DEFAULT_PRIORITY False True),
     Cmd ''loop_ps'' ''Runs ps in a loop to monitor shell state'' ''loop_ps''
       (CMD_PROCESS ''loop_ps_wrapper'' DEFAULT_PRIORITY False True),
     Cmd ''filter'' ''Reads from stdin and filters out vowels'' ''filter  (type anything and use Ctrl+D to end)''
       (CMD_PROCESS ''filter_wrapper'' DEFAULT_PRIORITY False False),
     Cmd ''cat'' ''Reads from stdin and echoes it back'' ''cat (type anything and use Ctrl+D to end)''
       (CMD_PROCESS ''cat_wrapper'' DEFAULT_PRIORITY False False),
     Cmd ''wc'' ''Reads from stdin and counts characters'' ''wc (type anything and use Ctrl+D to end)''
       (CMD_PROCESS ''wc_wrapper'' DEFAULT_PRIORITY False False),
     Cmd ''test_mm'' ''Memory manager stress test'' ''test_mm <max_memory_bytes>''
       (CMD_PROCESS ''test_mm_wrapper'' DEFAULT_PRIORITY False True),
     Cmd ''test_processes'' ''Process creation and management test'' ''test_processes <max_processes>''
       (CMD_PROCESS ''test_processes_wrapper'' DEFAULT_PRIORITY False True),
     Cmd ''test_prio'' ''Process priority test'' ''test_prio <max_value>''
       (CMD_PROCESS ''test_prio_wrapper'' DEFAULT_PRIORITY False True),
     Cmd ''test_synchro'' ''Synchronization test WITH semaphore'' ''test_synchro [iterations]''
       (CMD_PROCESS ''test_synchro_wrapper'' DEFAULT_PRIORITY False True),
     Cmd ''test_no_synchro'' ''Synchronization test WITHOUT semaphore'' ''test_no_synchro [iterations]''
       (CMD_PROCESS ''test_no_synchro_wrapper'' DEFAULT_PRIORITY False True),
     Cmd ''mvar'' ''Multiple readers/writers synchronization problem'' ''mvar <writers> <readers>''
       (CMD_PROCESS ''mvar_wrapper'' DEFAULT_PRIORITY False False)]"

definition find_command :: "string \<Rightarrow> Command option" where
  "find_command name = find (\<lambda>c. strcmp (cmd_name c) name = 0) commands"

section \<open>Built-in commands\<close>

fun echo_loop :: "string list \<Rightarrow> unit sh" where
  "echo_loop [] = State_Monad.return ()"
| "echo_loop [a] = say 1 ''%s'' [AStr a]"
| "echo_loop (a # b # as) = do { say 1 ''%s'' [AStr a]; say 1 '' '' []; echo_loop (b # as) }"

definition echo :: "string list \<Rightarrow> int sh" where
  "echo argv = do { echo_loop (tl argv); say 1 NL []; State_Monad.return 0 }"

fun help_loop :: "Command list \<Rightarrow> unit sh" where
  "help_loop [] = State_Monad.return ()"
| "help_loop (c # cs) =
     do { say 1 (''  %s'' @ TAB @ ''- %s'' @ NL) [AStr (cmd_name c), AStr (description c)]; help_loop cs }"

definition help_cmd :: "int sh" where
  "help_cmd = do {
     say 1 (''Available commands:'' @ NL) [];
     help_loop commands;
     say 1 (NL @ ''Use '' @ QUOTE @ ''man <command>'' @ QUOTE @ '' for more information.'' @ NL) [];
     State_Monad.return 0 }"

definition clear_cmd :: "int sh" where
  "clear_cmd = do { call_unit SClear; State_Monad.return 0 }"

definition font :: "world \<Rightarrow> string list \<Rightarrow> int sh" where
  "font W argv =
     (let usage_line = say 2 (''Usage: %s'' @ NL) [AStr (usage (commands ! 4))] in
      if length argv < 2 then do { usage_line; State_Monad.return 1 }
      else if strcasecmp_s (argv ! 1) ''increase'' = 0 then sys W (SFont True)
      else if strcasecmp_s (argv ! 1) ''decrease'' = 0 then sys W (SFont False)
      else do {
        say 2 (''Invalid argument: %s'' @ NL) [AStr (argv ! 1)];
        usage_line;
        State_Monad.return 1 })"

definition man :: "string list \<Rightarrow> int sh" where
  "man argv =
     (if length argv < 2 then do { say 2 (''Usage: man <command>'' @ NL) []; State_Monad.return 1 }
      else case find (\<lambda>c. strcasecmp_s (cmd_name c) (argv ! 1) = 0) commands of
        Some c \<Rightarrow> do {
          say 1 (''Command: %s'' @ NL) [AStr (cmd_name c)];
          say 1 (''Usage: %s'' @ NL) [AStr (usage c)];
          say 1 (''Description: %s'' @ NL) [AStr (description c)];
          say 1 (''Type: %s'' @ NL)
            [AStr (case handler c of CMD_BUILTIN _ \<Rightarrow> ''Built-in'' | CMD_PROCESS _ _ _ _ \<Rightarrow> ''Process'')];
          State_Monad.return 0 }
      | None \<Rightarrow> do { say 2 (''Command not found: %s'' @ NL) [AStr (argv ! 1)]; State_Monad.return 1 })"

definition stateName :: "int \<Rightarrow> string" where
  "stateName s =
     (if s = 0 then ''READY'' else if s = 1 then ''RUNNING'' else if s = 2 then ''BLOCKED''
      else if s = 3 then ''EXITED'' else ''UNKNOWN'')"

definition stateColor :: "int \<Rightarrow> string" where
  "stateColor s =
     ESC @ (if s = 1 then ''[1;32m'' else if s = 0 then ''[0;32m'' else if s = 2 then ''[0;33m''
            else if s = 3 then ''[0;31m'' else ''[0m'')"

definition label :: "string \<Rightarrow> string" where
  "label s = ESC @ ''[1;34m'' @ s @ ESC @ ''[0m''"

fun ps_loop :: "proc_entry list \<Rightarrow> unit sh" where
  "ps_loop [] = State_Monad.return ()"
| "ps_loop (p # ps) = do {
     say 1 (NL @ label ''PID:'' @ ''          %d'' @ NL) [int_arg (pe_pid p)];
     say 1 (label ''Name:'' @ ''         %s'' @ NL) [AStr (pe_name p)];
     say 1 (label ''Priority:'' @ ''     %d'' @ NL) [ANum (ucast (pe_priority p))];
     say 1 (label ''State:'' @ ''        %s%s'' @ ESC @ ''[0m'' @ NL)
       [AStr (stateColor (pe_state p)), AStr (stateName (pe_state p))];
     say 1 (label ''Stack Base:'' @ ''   0x%016lx'' @ NL) [ANum (pe_stackBase p)];
     say 1 (label ''Stack Ptr:'' @ ''    0x%016lx'' @ NL) [ANum (pe_stackEnd p)];
     say 1 (label ''Execution:'' @ ''    %s'' @ NL) [AStr (if pe_foreground p then ''Foreground'' else ''Background'')];
     say 1 (''----------------------------------'' @ NL) [];
     ps_loop ps }"

definition no_process_list :: "int sh" where
  "no_process_list = do { say 2 (''Error: Could not retrieve process information'' @ NL) []; State_Monad.return 1 }"

definition ps_cmd :: "world \<Rightarrow> int sh" where
  "ps_cmd W = do {
     processes \<leftarrow> ask (answer_procs W) SPs;
     (case processes of
        None \<Rightarrow> no_process_list
      | Some procs \<Rightarrow> do {
          say 1 (NL @ ESC @ ''[1;36m========== PROCESS LIST =========='' @ ESC @ ''[0m'' @ NL) [];
          ps_loop procs;
          say 1 NL [];
          call_unit SFree;
          State_Monad.return 0 }) }"

fun bar_loop :: "nat \<Rightarrow> nat \<Rightarrow> unit sh" where
  "bar_loop 0 filled = State_Monad.return ()"
| "bar_loop (Suc n) filled = do {
     say 1 (if 0 < filled then ESC @ ''[1;32m='' @ ESC @ ''[0m'' else ESC @ ''[0;37m-'' @ ESC @ ''[0m'') [];
     bar_loop n (filled - 1) }"

definition mem_cmd :: "world \<Rightarrow> int sh" where
  "mem_cmd W = do {
     r \<leftarrow> sys W SMem;
     if r \<noteq> 0 then do { say 2 (''Error: Could not retrieve memory status'' @ NL) []; State_Monad.return 1 }
     else do {
       t \<leftarrow> State_Monad.get;
       let st = answer_mem W t;
       say 1 (NL @ ESC @ ''[1;36m========== MEMORY STATUS =========='' @ ESC @ ''[0m'' @ NL @ NL) [];
       say 1 (label ''Total Memory:'' @ ''   %d bytes (%d KB)'' @ NL) [ANum (ucast (me_total st)), ANum (ucast (me_total st div 1024))];
       say 1 (label ''Used Memory:'' @ ''    %d bytes (%d KB)'' @ NL) [ANum (ucast (me_used st)), ANum (ucast (me_used st div 1024))];
       say 1 (label ''Free Memory:'' @ ''    %d bytes (%d KB)'' @ NL) [ANum (ucast (me_free st)), ANum (ucast (me_free st div 1024))];
       say 1 (label ''Base Address:'' @ ''   %x'' @ NL) [ANum (me_base st)];
       (if 0 < me_total st
        then let usagePercent = (me_used st * 100) div me_total st; filledWidth = (usagePercent * 40) div 100 in do {
          say 1 (label ''Usage:'' @ ''     ['') [];
          bar_loop 40 (unat filledWidth);
          say 1 (''] %d%%'' @ NL) [ANum (ucast usagePercent)] }
        else State_Monad.return ());
       say 1 NL [];
       State_Monad.return 0 } }"

text \<open>\<open>kill all\<close>: the loop over the process list with its two counters.\<close>

fun kill_loop :: "world \<Rightarrow> int \<Rightarrow> proc_entry list \<Rightarrow> int \<times> int \<Rightarrow> (int \<times> int) sh" where
  "kill_loop W shell_pid [] counts = State_Monad.return counts"
| "kill_loop W shell_pid (p # ps) counts =
     (if pe_pid p = INIT_PID \<or> pe_pid p = shell_pid then kill_loop W shell_pid ps counts
      else do {
        r \<leftarrow> sys W (SKill (pe_pid p));
        (if r = 0
         then do {
           say 1 (''  Process %d killed'' @ NL) [int_arg (pe_pid p)];
           kill_loop W shell_pid ps (fst counts + 1, snd counts) }
         else do {
           say 1 (''  Failed to kill process %d (code: %d)'' @ NL) [int_arg (pe_pid p), int_arg r];
           kill_loop W shell_pid ps (fst counts, snd counts + 1) }) })"

definition kill_all :: "world \<Rightarrow> int sh" where
  "kill_all W = do {
     processes \<leftarrow> ask (answer_procs W) SPs;
     (case processes of
        None \<Rightarrow> no_process_list
      | Some procs \<Rightarrow> do {
          shell_pid \<leftarrow> sys W SGetpid;
          say 1 (''Killing all user processes...'' @ NL) [];
          counts \<leftarrow> kill_loop W shell_pid procs (0, 0);
          say 1 (NL @ ''Summary: %d processes killed, %d failed'' @ NL) [int_arg (fst counts), int_arg (snd counts)];
          State_Monad.return (if 0 < snd counts then 1 else 0) }) }"

definition kill_cmd :: "world \<Rightarrow> string list \<Rightarrow> int sh" where
  "kill_cmd W argv =
     (if length argv < 2 then do { say 2 (''Usage: kill <pid> | kill all'' @ NL) []; State_Monad.return 1 }
      else if strcasecmp_s (argv ! 1) ''all'' = 0 then kill_all W
      else let pid = satoi_s (argv ! 1) in
        if pid \<le> 0
        then do { say 2 (''Error: Invalid PID '' @ QUOTE @ ''%s'' @ QUOTE @ NL) [AStr (argv ! 1)]; State_Monad.return 1 }
        else if pid = INIT_PID
        then do { say 2 (''Error: Cannot kill init process (PID 1) - system critical'' @ NL) []; State_Monad.return 1 }
        else do {
          me \<leftarrow> sys W SGetpid;
          if pid = me then do { say 2 (''Error: Cannot kill the shell itself'' @ NL) []; State_Monad.return 1 }
          else do {
            r \<leftarrow> sys W (SKill pid);
            if r = 0 then do { say 1 (''Process %d killed successfully'' @ NL) [int_arg pid]; State_Monad.return 0 }
            else do {
              say 2 (''Error: Could not kill process %d (code: %d)'' @ NL) [int_arg pid, int_arg r];
              State_Monad.return 1 } } })"

text \<open>The loop over the process list in \<open>block_cmd\<close>, which ends at process identifier 0.\<close>

fun block_find :: "proc_entry list \<Rightarrow> int \<Rightarrow> proc_entry option" where
  "block_find [] pid = None"
| "block_find (p # ps) pid =
     (if pe_pid p = 0 then None else if pe_pid p = pid then Some p else block_find ps pid)"

definition block_cmd :: "world \<Rightarrow> string list \<Rightarrow> int sh" where
  "block_cmd W argv =
     (if length argv < 2
      then do {
        say 1 (''Usage: block <pid>'' @ NL) [];
        say 1 (''Toggles process state between blocked and ready'' @ NL) [];
        State_Monad.return (- 1) }
      else let pid = satoi_s (argv ! 1) in
        if pid \<le> 0 then do { say 1 (''Error: Invalid PID'' @ NL) []; State_Monad.return (- 1) }
        else if pid = INIT_PID
        then do { say 2 (''Error: Cannot block init process (PID 1) - system critical'' @ NL) []; State_Monad.return 1 }
        else do {
          me \<leftarrow> sys W SGetpid;
          if pid = me then do { say 2 (''Error: Cannot block the shell itself'' @ NL) []; State_Monad.return 1 }
          else do {
            processes \<leftarrow> ask (answer_procs W) SPs;
            t \<leftarrow> State_Monad.get;
            (case processes of
               None \<Rightarrow> do { say 1 (''Error: Could not get process list'' @ NL) []; State_Monad.return (- 1) }
             | Some procs \<Rightarrow>
                 (case block_find (procs @ answer_behind W t) pid of
                    None \<Rightarrow> do { say 1 (''Error: Process with PID %d not found'' @ NL) [int_arg pid]; State_Monad.return (- 1) }
                  | Some p \<Rightarrow>
                      if pe_state p = 2
                      then do {
                        r \<leftarrow> sys W (SUnblock pid);
                        if r = 0
                        then do { say 1 (''Process %d unblocked successfully'' @ NL) [int_arg pid]; State_Monad.return 0 }
                        else do { say 1 (''Error: Could not unblock process %d'' @ NL) [int_arg pid]; State_Monad.return (- 1) } }
                      else do {
                        r \<leftarrow> sys W (SBlock pid);
                        if r = 0
                        then do { say 1 (''Process %d blocked successfully'' @ NL) [int_arg pid]; State_Monad.return 0 }
                        else do { say 1 (''Error: Could not block process %d'' @ NL) [int_arg pid]; State_Monad.return (- 1) } })) } })"

definition nice_cmd :: "world \<Rightarrow> string list \<Rightarrow> int sh" where
  "nice_cmd W argv =
     (if length argv < 3
      then do {
        say 1 (''Usage: nice <pid> <priority>'' @ NL) [];
        say 1 (''Changes the priority of a process (1-5, where 5 is highest)'' @ NL) [];
        State_Monad.return (- 1) }
      else let pid = satoi_s (argv ! 1); priority = wrap32 (satoi_s (argv ! 2)) in
        if pid \<le> 0 then do { say 1 (''Error: Invalid PID'' @ NL) []; State_Monad.return (- 1) }
        else if priority < 1 \<or> 5 < priority
        then do { say 1 (''Error: Priority must be between 1 and 5'' @ NL) []; State_Monad.return (- 1) }
        else do {
          r \<leftarrow> sys W (SNice pid priority);
          if r = 0
          then do { say 1 (''Process %d priority changed to %d successfully'' @ NL) [int_arg pid, int_arg priority]; State_Monad.return 0 }
          else do { say 1 (''Error: Could not change priority of process %d'' @ NL) [int_arg pid]; State_Monad.return (- 1) } })"

section \<open>The commands that watch processes\<close>

text \<open>
  From \<open>commands.c\<close>. \<open>loop_wrapper\<close> does not end; these are its first \<open>n\<close> rounds.
\<close>

fun loop_rounds :: "int \<Rightarrow> int \<Rightarrow> int \<Rightarrow> nat \<Rightarrow> unit sh" where
  "loop_rounds output_fd pid seconds 0 = State_Monad.return ()"
| "loop_rounds output_fd pid seconds (Suc n) = do {
     say output_fd (ESC @ ''[0;35mHola! soy el proceso %d xd'' @ ESC @ ''[0m'' @ NL) [int_arg pid];
     call_unit (SSleep (word_of_int (wrap32 (seconds * 1000))));
     loop_rounds output_fd pid seconds n }"

definition loop_wrapper :: "world \<Rightarrow> string list \<Rightarrow> nat \<Rightarrow> unit sh" where
  "loop_wrapper W argv n = do {
     fds \<leftarrow> ask (answer_fds W) SGetFD;
     pid \<leftarrow> sys W SGetpid;
     let seconds = (if 1 < length argv then (let s = wrap32 (satoi_s (argv ! 1)) in if s \<le> 0 then 2 else s) else 2);
     say (snd fds) (ESC @ ''[0;35m[Process %d] Starting loop with %d second interval...'' @ ESC @ ''[0m'' @ NL)
       [int_arg pid, int_arg seconds];
     loop_rounds (snd fds) pid seconds n }"

fun loop_ps_rounds :: "world \<Rightarrow> int \<Rightarrow> nat \<Rightarrow> unit sh" where
  "loop_ps_rounds W output_fd 0 = State_Monad.return ()"
| "loop_ps_rounds W output_fd (Suc n) = do {
     processes \<leftarrow> ask (answer_procs W) SPs;
     (case processes of
        None \<Rightarrow> State_Monad.return ()
      | Some procs \<Rightarrow> do {
          (case find (\<lambda>p. pe_pid p = 2) procs of
             None \<Rightarrow> State_Monad.return ()
           | Some p \<Rightarrow>
               say output_fd (''Shell (PID %d): %s%s'' @ ESC @ ''[0m'' @ NL)
                 [int_arg (pe_pid p), AStr (if pe_state p = 3 then ESC @ ''[0m'' else stateColor (pe_state p)),
                  AStr (stateName (pe_state p))]);
          call_unit SFree });
     loop_ps_rounds W output_fd n }"

definition loop_ps_wrapper :: "world \<Rightarrow> int sh" where
  "loop_ps_wrapper W = do {
     fds \<leftarrow> ask (answer_fds W) SGetFD;
     my_pid \<leftarrow> sys W SGetpid;
     say (snd fds) (ESC @ ''[1;33m[Process %d] Monitoring shell state.'' @ ESC @ ''[0m'' @ NL @ NL) [int_arg my_pid];
     loop_ps_rounds W (snd fds) 20;
     say (snd fds) (ESC @ ''[1;32m[Process %d] Monitoring complete.'' @ ESC @ ''[0m'' @ NL) [int_arg my_pid];
     State_Monad.return 0 }"

section \<open>The choice of a built-in command\<close>

definition run_builtin :: "world \<Rightarrow> builtin \<Rightarrow> string list \<Rightarrow> int sh" where
  "run_builtin W b argv =
     (case b of
        Clear \<Rightarrow> clear_cmd | Echo \<Rightarrow> echo argv | Font \<Rightarrow> font W argv | Help \<Rightarrow> help_cmd | Man \<Rightarrow> man argv | Ps \<Rightarrow> ps_cmd W
      | Mem \<Rightarrow> mem_cmd W | Kill \<Rightarrow> kill_cmd W argv | Block \<Rightarrow> block_cmd W argv | Nice \<Rightarrow> nice_cmd W argv)"

section \<open>Running a line\<close>

definition colored :: "string \<Rightarrow> string \<Rightarrow> string" where
  "colored color s = ESC @ color @ s @ ESC @ ''[0m''"

text \<open>
  The arguments of a line, as \<open>parse_arguments\<close> leaves them in \<open>argv\<close>.
\<close>

definition args_of :: "string \<Rightarrow> string list" where
  "args_of s = take MAX_ARGS (tokens s)"

text \<open>
  The part of \<open>execute_command\<close> for programs. A pid is an \<open>int\<close>. What \<open>buffer\<close> holds is reset
  anyway before the next line is read.
\<close>

definition execute_process :: "world \<Rightarrow> string \<Rightarrow> string \<Rightarrow> int \<Rightarrow> bool \<Rightarrow> bool \<Rightarrow> string list \<Rightarrow> bool \<Rightarrow> int sh" where
  "execute_process W name entry priority background allow argv run_in_background = do {
     when_sh (run_in_background \<and> \<not> allow)
       (say 2 (ESC @ ''[0;33mWarning: '' @ QUOTE @ ''%s'' @ QUOTE @ '' cannot run in background (requires user input).''
         @ NL @ ''Running in foreground.'' @ ESC @ ''[0m'' @ NL) [AStr name]);
     let run_in_background = (run_in_background \<and> allow);
     let is_background = (run_in_background \<or> background);
     fds \<leftarrow> ask (answer_fds W) SGetFD;
     answer \<leftarrow> sys W (SCreate name entry argv priority (\<not> is_background) fds);
     let pid = wrap32 answer;
     if pid < 0
     then do {
       say 2 (colored ''[0;31m'' (''Error: Could not create process for '' @ QUOTE @ ''%s'' @ QUOTE) @ NL) [AStr name];
       State_Monad.return (- 1) }
     else do {
       say 1 (''Process '' @ QUOTE @ ''%s'' @ QUOTE @ '' created with PID: %d (%s)'' @ NL)
         [AStr name, int_arg pid, AStr (if is_background then ''background'' else ''foreground'')];
       when_sh (\<not> is_background) (do {
         status \<leftarrow> sys W (SWait pid);
         call_unit SClearInput;
         say 1 (colored ''[0;32m'' (''Process '' @ QUOTE @ ''%s'' @ QUOTE @ '' (PID %d) completed with status: %d'') @ NL)
           [AStr name, int_arg pid, int_arg status] });
       State_Monad.return 0 } }"

definition execute_command :: "world \<Rightarrow> Command \<Rightarrow> string list \<Rightarrow> bool \<Rightarrow> int sh" where
  "execute_command W cmd argv run_in_background =
     (case handler cmd of
        CMD_BUILTIN b \<Rightarrow> run_builtin W b argv
      | CMD_PROCESS entry priority background allow \<Rightarrow>
          execute_process W (cmd_name cmd) entry priority background allow argv run_in_background)"

definition pipe_error :: "string \<Rightarrow> arg list \<Rightarrow> int sh" where
  "pipe_error text args = do { say 2 (colored ''[0;31m'' text @ NL) args; State_Monad.return (- 1) }"

text \<open>
  \<open>execute_pipe\<close> from the opening of the pipe on, for the two programs it runs; each is given by its
  name, entry point and priority.
\<close>

definition connect_pipe ::
    "world \<Rightarrow> string \<times> string \<times> int \<Rightarrow> bool \<Rightarrow> string list \<Rightarrow> string \<times> string \<times> int \<Rightarrow> string list \<Rightarrow> bool \<Rightarrow> int sh" where
  "connect_pipe W left' allow left_argv right' right_argv run_left_in_background = do {
     opened \<leftarrow> sys W SPipe;
     pipe_fds \<leftarrow> State (\<lambda>t. (answer_fds W t, t));
     if opened \<noteq> 0 then pipe_error ''Error: Could not create pipe'' []
     else if run_left_in_background \<and> \<not> allow
     then do {
       say 2 (colored ''[0;31m'' (''Error: Command '' @ QUOTE @ ''%s'' @ QUOTE @ '' cannot run in background (requires user input)'') @ NL)
         [AStr (fst left')];
       call_unit (SClose (fst pipe_fds));
       call_unit (SClose (snd pipe_fds));
       State_Monad.return (- 1) }
     else do {
       let left_is_background = run_left_in_background;
       left_answer \<leftarrow> sys W (SCreate (fst left') (fst (snd left')) left_argv (snd (snd left')) (\<not> left_is_background) (0, snd pipe_fds));
       let left_pid = wrap32 left_answer;
       if left_pid < 0
       then do {
         say 2 (colored ''[0;31m'' (''Error: Could not create left process '' @ QUOTE @ ''%s'' @ QUOTE) @ NL) [AStr (fst left')];
         call_unit (SClose (fst pipe_fds));
         call_unit (SClose (snd pipe_fds));
         State_Monad.return (- 1) }
       else do {
         right_answer \<leftarrow> sys W (SCreate (fst right') (fst (snd right')) right_argv (snd (snd right')) False (fst pipe_fds, 1));
         let right_pid = wrap32 right_answer;
         if right_pid < 0
         then do {
           say 2 (colored ''[0;31m'' (''Error: Could not create right process '' @ QUOTE @ ''%s'' @ QUOTE) @ NL) [AStr (fst right')];
           call_unit (SKill left_pid);
           call_unit (SClose (fst pipe_fds));
           call_unit (SClose (snd pipe_fds));
           State_Monad.return (- 1) }
         else do {
           when_sh (\<not> left_is_background) (do { call_unit (SWait left_pid); call_unit SClearInput });
           State_Monad.return 0 } } } }"

definition execute_pipe :: "world \<Rightarrow> string \<Rightarrow> string \<Rightarrow> bool \<Rightarrow> int sh" where
  "execute_pipe W left_cmd right_cmd run_left_in_background =
     (let left_argv = args_of (take 1023 left_cmd); right_argv = args_of (take 1023 right_cmd);
          l = [AStr (hd left_argv)]; r = [AStr (hd right_argv)];
          only = '' must be a process (built-ins not supported in pipes yet)''
      in if left_argv = [] then pipe_error ''Error: Invalid left command in pipe'' []
         else if right_argv = [] then pipe_error ''Error: Invalid right command in pipe'' []
         else case find_command (hd left_argv) of
           None \<Rightarrow> pipe_error (''Error: Left command '' @ QUOTE @ ''%s'' @ QUOTE @ '' not found'') l
         | Some left_command \<Rightarrow>
             (case find_command (hd right_argv) of
                None \<Rightarrow> pipe_error (''Error: Right command '' @ QUOTE @ ''%s'' @ QUOTE @ '' not found'') r
              | Some right_command \<Rightarrow>
                  (case handler left_command of
                     CMD_BUILTIN _ \<Rightarrow> pipe_error (''Error: Left command '' @ QUOTE @ ''%s'' @ QUOTE @ only) l
                   | CMD_PROCESS left_entry left_priority _ allow \<Rightarrow>
                       (case handler right_command of
                          CMD_BUILTIN _ \<Rightarrow> pipe_error (''Error: Right command '' @ QUOTE @ ''%s'' @ QUOTE @ only) r
                        | CMD_PROCESS right_entry right_priority _ _ \<Rightarrow>
                            connect_pipe W (cmd_name left_command, left_entry, left_priority) allow left_argv
                              (cmd_name right_command, right_entry, right_priority) right_argv run_left_in_background))))"

text \<open>
  The body of the loop in \<open>main\<close> behind the reading of a line: \<open>buffer\<close> is the line, in C up to its
  first zero. The new value of \<open>last_command_output\<close>, if there is one.
\<close>

definition background_mark :: "string \<Rightarrow> bool \<times> string" where
  "background_mark s = (if s \<noteq> [] \<and> last s = CHR ''&'' then (True, rstrip (butlast s)) else (False, s))"

definition run_line :: "world \<Rightarrow> string \<Rightarrow> int option sh" where
  "run_line W line =
     (let (run_in_background, command) = background_mark line in
      if CHR ''|'' \<in> set command
      then let (left_cmd, right_cmd) = split_pipe command in
        if left_cmd = [] \<or> right_cmd = []
        then do { say 2 (colored ''[0;31m'' ''Error: Invalid pipe syntax'' @ NL) []; State_Monad.return None }
        else do { code \<leftarrow> execute_pipe W left_cmd right_cmd run_in_background; State_Monad.return (Some code) }
      else let argv = args_of command in
        if argv = [] then State_Monad.return None
        else case find_command (hd argv) of
          Some cmd \<Rightarrow> do { code \<leftarrow> execute_command W cmd argv run_in_background; State_Monad.return (Some code) }
        | None \<Rightarrow> do {
            say 2 (colored ''[0;33m'' ''Command not found:'' @ '' %s'' @ NL) [AStr (hd argv)];
            State_Monad.return None })"

text \<open>
  The loop that reads a line from the answers of \<open>getchar\<close>: the characters in \<open>buffer\<close> and the last
  one read, or \<open>None\<close> while the input is not complete. A full buffer ends the loop as well.
\<close>

fun read_line :: "nat \<Rightarrow> int list \<Rightarrow> string \<Rightarrow> (string \<times> int list) option" where
  "read_line 0 inp buf = Some (buf, inp)"
| "read_line (Suc n) [] buf = None"
| "read_line (Suc n) (c # cs) buf = (if c = 10 then Some (buf, cs) else read_line n cs (buf @ [char_of (c mod 256)]))"

definition c_text :: "string \<Rightarrow> string" where
  "c_text s = takeWhile (\<lambda>c. c \<noteq> CHR 0x00) s"

lemma read_line_length: "read_line n inp buf = Some (b, rest) \<Longrightarrow> length rest < length inp \<or> n = 0 \<and> rest = inp"
  by (induction n inp buf rule: read_line.induct) (auto split: if_splits)

lemma skip_line_length: "skip_line inp = Some rest \<Longrightarrow> length rest < length inp"
  by (induction inp) (auto split: if_splits)

function main_loop :: "world \<Rightarrow> int list \<Rightarrow> unit sh" where
  "main_loop W inp = do {
     say 1 (ESC @ ''[0mshell '' @ ESC @ ''[0;32m$'' @ ESC @ ''[0m '') [];
     (case read_line MAX_BUFFER_SIZE inp [] of
        None \<Rightarrow> State_Monad.return ()
      | Some (buffer, rest) \<Rightarrow>
          if length buffer = MAX_BUFFER_SIZE
          then do {
            say 2 (colored ''[0;31m'' ''Shell buffer overflow'' @ NL) [];
            (case skip_line rest of None \<Rightarrow> State_Monad.return () | Some rest' \<Rightarrow> main_loop W rest') }
          else if c_text buffer = [] then main_loop W rest
          else do { run_line W (c_text buffer); main_loop W rest }) }"
  by pat_completeness auto

termination
  by (relation "measure (\<lambda>(W, inp). length inp)")
    (auto simp: MAX_BUFFER_SIZE_def dest!: read_line_length skip_line_length)

declare main_loop.simps [simp del]

definition shell_main :: "world \<Rightarrow> int list \<Rightarrow> unit sh" where
  "shell_main W inp = do { call_unit SClear; main_loop W inp }"

section \<open>What a function calls\<close>

lemma run_ask [simp]: "run_state (ask f c) t = (f (t @ [c]), t @ [c])"
  by (simp add: ask_def)

lemma run_sys [simp]: "run_state (sys W c) t = (answer W (t @ [c]), t @ [c])"
  by (simp add: sys_def)

lemma run_call_unit [simp]: "run_state (call_unit c) t = ((), t @ [c])"
  by (simp add: call_unit_def)

lemma run_say [simp]: "run_state (say fd fmt args) t = ((), t @ [SOut fd (fprintf fmt args)])"
  by (simp add: say_def)

lemma run_when_sh [simp]: "run_state (when_sh b m) t = (if b then run_state m t else ((), t))"
  by (simp add: when_sh_def)

text \<open>The calls other than output.\<close>

definition is_out :: "sh_call \<Rightarrow> bool" where
  "is_out c \<longleftrightarrow> (\<exists>fd r. c = SOut fd r)"

definition effects :: "sh_call list \<Rightarrow> sh_call list" where
  "effects t = filter (\<lambda>c. \<not> is_out c) t"

lemma effects_simps [simp]: "effects [] = []" "effects (SOut fd r # t) = effects t" "effects (a @ b) = effects a @ effects b"
  "\<not> is_out c \<Longrightarrow> effects (c # t) = c # effects t"
  by (auto simp: effects_def is_out_def)

lemma is_out_simps [simp]: "is_out (SOut fd r)" "\<not> is_out SClear" "\<not> is_out (SFont b)" "\<not> is_out SGetFD" "\<not> is_out SPipe" "\<not> is_out (SClose i)"
  "\<not> is_out (SCreate n e a p f d)" "\<not> is_out (SKill i)" "\<not> is_out (SWait i)" "\<not> is_out SClearInput" "\<not> is_out SPs"
  "\<not> is_out SFree" "\<not> is_out SMem" "\<not> is_out SGetpid" "\<not> is_out (SBlock i)" "\<not> is_out (SUnblock i)" "\<not> is_out (SNice i p)" "\<not> is_out (SSleep ms)"
  "\<not> is_out (SSemOpen sm v)" "\<not> is_out (SSemDestroy sid)"
  by (simp_all add: is_out_def)

text \<open>A function that appends calls with the property \<open>P\<close> and nothing else.\<close>

definition only :: "(sh_call \<Rightarrow> bool) \<Rightarrow> 'a sh \<Rightarrow> bool" where
  "only P m \<longleftrightarrow> (\<forall>t. \<exists>new. snd (run_state m t) = t @ new \<and> (\<forall>c \<in> set new. P c))"

named_theorems only_intros

lemma only_return [only_intros]: "only P (State_Monad.return x)"
  by (simp add: only_def)

lemma only_ask [only_intros]: "P c \<Longrightarrow> only P (ask f c)"
  by (simp add: only_def)

lemma only_sys [only_intros]: "P c \<Longrightarrow> only P (sys W c)"
  by (simp add: only_def)

lemma only_call_unit [only_intros]: "P c \<Longrightarrow> only P (call_unit c)"
  by (simp add: only_def)

lemma only_say [only_intros]: "(\<And>r. P (SOut fd r)) \<Longrightarrow> only P (say fd fmt args)"
  by (simp add: only_def)

lemma only_get [only_intros]: "only P State_Monad.get"
  by (simp add: only_def)

lemma only_when [only_intros]: "(b \<Longrightarrow> only P m) \<Longrightarrow> only P (when_sh b m)"
  by (simp add: when_sh_def only_return)

lemma only_bind [only_intros]:
  assumes "only P m" and "\<And>x. only P (f x)"
  shows "only P (State_Monad.bind m f)"
  unfolding only_def
proof
  fix t
  obtain x t1 where x: "run_state m t = (x, t1)" by force
  obtain n1 where n1: "t1 = t @ n1" "\<forall>c \<in> set n1. P c" using assms(1) x unfolding only_def by (metis snd_conv)
  obtain n2 where "snd (run_state (f x) t1) = t1 @ n2" "\<forall>c \<in> set n2. P c" using assms(2) unfolding only_def by blast
  then show "\<exists>new. snd (run_state (State_Monad.bind m f) t) = t @ new \<and> (\<forall>c \<in> set new. P c)"
    using x n1 by (intro exI [of _ "n1 @ n2"]) auto
qed

lemma only_if [only_intros]: "\<lbrakk>b \<Longrightarrow> only P m; \<not> b \<Longrightarrow> only P n\<rbrakk> \<Longrightarrow> only P (if b then m else n)"
  by simp

lemma only_option [only_intros]: "\<lbrakk>only P m; \<And>x. only P (f x)\<rbrakk> \<Longrightarrow> only P (case v of None \<Rightarrow> m | Some x \<Rightarrow> f x)"
  by (cases v) simp_all

lemma only_Let [only_intros]: "only P (f x) \<Longrightarrow> only P (Let x f)"
  by simp

lemma only_getpid:
  assumes "\<And>h. answer W (h @ [SGetpid]) = me" and "P SGetpid" and "only P (f me)"
  shows "only P (State_Monad.bind (sys W SGetpid) f)"
  unfolding only_def
proof
  fix t
  obtain n where "snd (run_state (f me) (t @ [SGetpid])) = (t @ [SGetpid]) @ n" "\<forall>c \<in> set n. P c"
    using assms(3) unfolding only_def by blast
  then show "\<exists>new. snd (run_state (State_Monad.bind (sys W SGetpid) f) t) = t @ new \<and> (\<forall>c \<in> set new. P c)"
    using assms(1,2) by (intro exI [of _ "SGetpid # n"]) simp
qed

text \<open>The calls that the shell may make on its own behalf when \<open>me\<close> is its process.\<close>

definition spares :: "int \<Rightarrow> sh_call \<Rightarrow> bool" where
  "spares me c \<longleftrightarrow> c \<notin> {SKill INIT_PID, SKill me, SBlock INIT_PID, SBlock me}"

lemma spares_simps [simp]: "spares me (SOut fd r)" "spares me SClear" "spares me (SFont b)" "spares me SGetFD" "spares me SPs"
  "spares me SFree" "spares me SMem" "spares me SGetpid" "spares me (SUnblock i)" "spares me (SNice i p)"
  "spares me (SCreate n e a q f d)" "spares me (SWait i)" "spares me SClearInput"
  "spares me (SKill i) \<longleftrightarrow> i \<noteq> INIT_PID \<and> i \<noteq> me" "spares me (SBlock i) \<longleftrightarrow> i \<noteq> INIT_PID \<and> i \<noteq> me"
  by (auto simp: spares_def)

lemma echo_loop_spares: "only (spares me) (echo_loop args)"
  by (induction args rule: echo_loop.induct) (auto intro!: only_intros)

lemma help_loop_spares: "only (spares me) (help_loop cs)"
  by (induction cs) (auto intro!: only_intros)

lemma ps_loop_spares: "only (spares me) (ps_loop procs)"
  by (induction procs) (auto intro!: only_intros)

lemma bar_loop_spares: "only (spares me) (bar_loop n k)"
  by (induction n arbitrary: k) (auto intro!: only_intros)

lemma kill_loop_spares: "only (spares me) (kill_loop W me procs counts)"
  by (induction W me procs counts rule: kill_loop.induct) (auto intro!: only_intros)

lemmas loops_spare = echo_loop_spares help_loop_spares ps_loop_spares bar_loop_spares kill_loop_spares

lemma run_builtin_spares:
  assumes "\<And>h. answer W (h @ [SGetpid]) = me"
  shows "only (spares me) (run_builtin W b argv)"
proof (cases b)
  case Kill
  have "only (spares me) (kill_cmd W argv)"
    unfolding kill_cmd_def kill_all_def no_process_list_def
    by (intro only_intros loops_spare only_getpid [OF assms]; simp add: only_intros loops_spare)
  then show ?thesis using Kill by (simp add: run_builtin_def)
next
  case Block
  have "only (spares me) (block_cmd W argv)"
    unfolding block_cmd_def
    by (intro only_intros only_getpid [OF assms]; simp add: only_intros)
  then show ?thesis using Block by (simp add: run_builtin_def)
qed (auto simp: run_builtin_def clear_cmd_def echo_def font_def help_cmd_def man_def ps_cmd_def mem_cmd_def nice_cmd_def
      no_process_list_def Let_def intro!: only_intros loops_spare)

section \<open>Programs and pipes\<close>

text \<open>The command at the beginning of a line, when it is a program.\<close>

definition program_of :: "string \<Rightarrow> (string \<times> string \<times> int \<times> bool \<times> bool) option" where
  "program_of line =
     (case find_command (hd (args_of line)) of
        None \<Rightarrow> None
      | Some c \<Rightarrow> (case handler c of CMD_BUILTIN _ \<Rightarrow> None | CMD_PROCESS e p b a \<Rightarrow> Some (cmd_name c, e, p, b, a)))"

lemma args_of_not_Nil [simp]: "args_of s \<noteq> []"
  by (simp add: args_of_def MAX_ARGS_def)

lemma run_pipe_error [simp]: "run_state (pipe_error text args) t = (- 1, t @ [SOut 2 (fprintf (colored ''[0;31m'' text @ NL) args)])"
  by (simp add: pipe_error_def)

lemma execute_pipe_error:
  assumes "program_of (take 1023 l) = None \<or> program_of (take 1023 r) = None"
  shows "\<exists>msg args. execute_pipe W l r bg = pipe_error msg args"
  using assms by (auto simp: execute_pipe_def program_of_def Let_def split: option.split option.splits handler.splits)

lemma execute_pipe_programs:
  assumes "program_of (take 1023 l) = Some (n, e, p, b, a)" and "program_of (take 1023 r) = Some (n', e', p', b', a')"
  shows "execute_pipe W l r bg = connect_pipe W (n, e, p) a (args_of (take 1023 l)) (n', e', p') (args_of (take 1023 r)) bg"
  using assms by (auto simp: execute_pipe_def program_of_def Let_def split: option.splits handler.splits)

lemma effects_Cons: "effects (c # t) = (if is_out c then effects t else c # effects t)"
  by (simp add: effects_def)

text \<open>The process identifier that some call \<open>c\<close> returned, as an \<open>int\<close>.\<close>

definition pid_from :: "world \<Rightarrow> sh_call \<Rightarrow> int \<Rightarrow> bool" where
  "pid_from W c pid \<longleftrightarrow> (\<exists>h. pid = wrap32 (answer W (h @ [c])))"

lemma pid_from_ask [simp]: "pid_from W c (wrap32 (answer W (h @ [c])))" "pid_from W c (wrap32 (answer W (a # h @ [c])))"
  "pid_from W c (wrap32 (answer W (h @ [a, c])))" "pid_from W c (wrap32 (answer W (h @ [a, b, c])))"
  unfolding pid_from_def by (metis append.assoc append_Cons append_Nil)+

text \<open>The calls of \<open>connect_pipe\<close> besides output, with its answer.\<close>

definition pipe_calls ::
    "world \<Rightarrow> sh_call list \<Rightarrow> (bool \<Rightarrow> int \<Rightarrow> sh_call) \<Rightarrow> (int \<Rightarrow> sh_call) \<Rightarrow> bool \<Rightarrow> bool \<Rightarrow> int \<Rightarrow> sh_call list \<Rightarrow> bool" where
  "pipe_calls W t left' right' allow bg code calls \<longleftrightarrow>
     (let (rd, wr) = answer_fds W (t @ [SPipe]); closed = [SClose rd, SClose wr] in
      if answer W (t @ [SPipe]) \<noteq> 0 then code = - 1 \<and> calls = [SPipe]
      else if bg \<and> \<not> allow then code = - 1 \<and> calls = SPipe # closed
      else code = - 1 \<and> calls = [SPipe, left' (\<not> bg) wr] @ closed
        \<or> (\<exists>pid. 0 \<le> pid \<and> pid_from W (left' (\<not> bg) wr) pid \<and> code = - 1 \<and> calls = [SPipe, left' (\<not> bg) wr, right' rd, SKill pid] @ closed)
        \<or> (\<exists>pid. 0 \<le> pid \<and> pid_from W (left' (\<not> bg) wr) pid \<and> code = 0
             \<and> calls = [SPipe, left' (\<not> bg) wr, right' rd] @ (if bg then [] else [SWait pid, SClearInput])))"

lemma connect_pipe_calls:
  assumes "run_state (connect_pipe W (n, e, p) a la (n', e', p') ra bg) t = (code, t')"
  shows "\<exists>new. t' = t @ new
    \<and> pipe_calls W t (\<lambda>fg wr. SCreate n e la p fg (0, wr)) (\<lambda>rd. SCreate n' e' ra p' False (rd, 1)) a bg code (effects new)"
proof -
  obtain rd wr where fds: "answer_fds W (t @ [SPipe]) = (rd, wr)" by force
  show ?thesis
  proof (cases "answer W (t @ [SPipe]) \<noteq> 0 \<or> bg \<and> \<not> a")
    case True
    then show ?thesis
      using assms fds by (auto simp: connect_pipe_def pipe_calls_def effects_Cons Let_def split: if_splits)
  next
    case False
    define pid where "pid = wrap32 (answer W (t @ [SPipe, SCreate n e la p (\<not> bg) (0, wr)]))"
    have P: "pid_from W (SCreate n e la p (\<not> bg) (0, wr)) pid" by (simp add: pid_def)
    show ?thesis
    proof (cases "pid < 0")
      case True
      then show ?thesis
        using assms fds False by (auto simp: connect_pipe_def pipe_calls_def effects_Cons Let_def pid_def split: if_splits)
    next
      case pos: False
      then show ?thesis
        using assms fds False P
        by (cases bg) (auto simp: connect_pipe_def pipe_calls_def effects_Cons Let_def pid_def linorder_not_less
            split: if_splits intro!: exI [of _ pid])
    qed
  qed
qed

text \<open>The calls of \<open>execute_process\<close> besides output.\<close>

lemma execute_process_calls:
  "\<exists>new pid h. let create = SCreate n e argv p (\<not> (bg \<and> allow \<or> bk)) (answer_fds W (h @ [SGetFD])) in
     snd (run_state (execute_process W n e p bk allow argv bg) t) = t @ new \<and> pid_from W create pid
     \<and> (fst (run_state (execute_process W n e p bk allow argv bg) t) = - 1 \<and> pid < 0 \<and> effects new = [SGetFD, create]
        \<or> fst (run_state (execute_process W n e p bk allow argv bg) t) = 0 \<and> 0 \<le> pid
            \<and> effects new = [SGetFD, create] @ (if bg \<and> allow \<or> bk then [] else [SWait pid, SClearInput]))"
proof -
  define warn where "warn = fprintf (ESC @ ''[0;33mWarning: '' @ QUOTE @ ''%s'' @ QUOTE @ '' cannot run in background (requires user input).''
         @ NL @ ''Running in foreground.'' @ ESC @ ''[0m'' @ NL) [AStr n]"
  define w where "w = (if bg \<and> \<not> allow then [SOut 2 warn] else [])"
  define fg where "fg \<longleftrightarrow> \<not> (bg \<and> allow \<or> bk)"
  define create where "create = SCreate n e argv p fg (answer_fds W ((t @ w) @ [SGetFD]))"
  define pid where "pid = wrap32 (answer W ((t @ w) @ [SGetFD, create]))"
  have w: "effects w = []" by (simp add: w_def)
  have pre: "run_state (if bg \<and> \<not> allow then say 2 (ESC @ ''[0;33mWarning: '' @ QUOTE @ ''%s'' @ QUOTE @ '' cannot run in background (requires user input).''
         @ NL @ ''Running in foreground.'' @ ESC @ ''[0m'' @ NL) [AStr n] else State_Monad.return ()) t = ((), t @ w)"
    by (simp add: w_def warn_def)
  have "\<exists>new. run_state (execute_process W n e p bk allow argv bg) t = (if pid < 0 then - 1 else 0, t @ new)
    \<and> effects new = [SGetFD, create] @ (if pid < 0 \<or> \<not> fg then [] else [SWait pid, SClearInput])"
    unfolding execute_process_def Let_def when_sh_def run_state_bind pre
    by (cases "bg \<and> allow \<or> bk") (auto simp: fg_def create_def pid_def effects_Cons w when_sh_def)
  then obtain new where R: "run_state (execute_process W n e p bk allow argv bg) t = (if pid < 0 then - 1 else 0, t @ new)"
    and E: "effects new = [SGetFD, create] @ (if pid < 0 \<or> \<not> fg then [] else [SWait pid, SClearInput])" by blast
  have P: "pid_from W create pid" unfolding pid_from_def pid_def by (intro exI [of _ "(t @ w) @ [SGetFD]"]) simp
  have cr: "SCreate n e argv p (\<not> (bg \<and> allow \<or> bk)) (answer_fds W ((t @ w) @ [SGetFD])) = create"
    by (simp add: create_def fg_def)
  have f: "(bg \<and> allow \<or> bk) = (\<not> fg)" by (simp add: fg_def)
  have "t @ new = t @ new \<and> pid_from W create pid
     \<and> ((if pid < 0 then - 1 else 0 :: int) = - 1 \<and> pid < 0 \<and> effects new = [SGetFD, create]
        \<or> (if pid < 0 then - 1 else 0 :: int) = 0 \<and> 0 \<le> pid
            \<and> effects new = [SGetFD, create] @ (if \<not> fg then [] else [SWait pid, SClearInput]))"
    using P E by auto
  then show ?thesis
    unfolding R fst_conv snd_conv Let_def
    by - (rule exI [of _ new], rule exI [of _ pid], rule exI [of _ "t @ w"], simp only: cr, simp only: f)
qed

section \<open>Lines\<close>

definition typed :: "string \<Rightarrow> int list" where
  "typed l = map (\<lambda>c. int (of_char c)) l"

definition prompt :: "unit sh" where
  "prompt = say 1 (ESC @ ''[0mshell '' @ ESC @ ''[0;32m$'' @ ESC @ ''[0m '') []"

definition handle_line :: "world \<Rightarrow> string \<Rightarrow> unit sh" where
  "handle_line W l =
     (if MAX_BUFFER_SIZE \<le> length l then say 2 (colored ''[0;31m'' ''Shell buffer overflow'' @ NL) []
      else if c_text l = [] then State_Monad.return ()
      else do { run_line W (c_text l); State_Monad.return () })"

lemma of_char_newline: "int (of_char c) = 10 \<longleftrightarrow> c = CHR 0x0A"
proof -
  have "(of_char c :: nat) = of_char CHR 0x0A \<longleftrightarrow> c = CHR 0x0A" by (rule of_char_eq_iff)
  moreover have "(of_char CHR 0x0A :: nat) = 10" by simp
  ultimately show ?thesis by (metis of_nat_eq_iff of_nat_numeral)
qed

lemma char_of_typed: "char_of (int (of_char c) mod 256) = c"
proof -
  have "char_of (int (of_char c)) = c" unfolding of_nat_of_char by (rule char_of_char)
  then show ?thesis by simp
qed

lemma read_line_typed:
  "CHR 0x0A \<notin> set l \<Longrightarrow> read_line n (typed l @ 10 # rest) buf
    = (if length l < n then Some (buf @ l, rest) else Some (buf @ take n l, typed (drop n l) @ 10 # rest))"
proof (induction l arbitrary: n buf)
  case Nil
  then show ?case by (cases n) (simp_all add: typed_def)
next
  case (Cons c cs)
  then have "int (of_char c) \<noteq> 10" using of_char_newline by auto
  with Cons show ?case by (cases n) (simp_all add: typed_def char_of_typed)
qed

lemma skip_line_typed: "CHR 0x0A \<notin> set l \<Longrightarrow> skip_line (typed l @ 10 # rest) = Some rest"
proof (induction l)
  case (Cons c cs)
  then have "int (of_char c) \<noteq> 10" using of_char_newline by auto
  with Cons show ?case by (simp add: typed_def)
qed (simp add: typed_def)

lemma main_loop_step:
  assumes "CHR 0x0A \<notin> set l"
  shows "main_loop W (typed l @ 10 # rest) = do { prompt; handle_line W l; main_loop W rest }"
proof (cases "length l < MAX_BUFFER_SIZE")
  case True
  then show ?thesis
    using assms by (subst main_loop.simps) (auto simp: read_line_typed handle_line_def prompt_def split: if_splits)
next
  case False
  moreover have "CHR 0x0A \<notin> set (drop MAX_BUFFER_SIZE l)" using assms by (meson in_set_dropD)
  ultimately show ?thesis
    using assms by (subst main_loop.simps) (simp add: read_line_typed skip_line_typed handle_line_def prompt_def)
qed

lemma main_loop_Nil: "main_loop W [] = prompt"
  by (rule state_ext, subst main_loop.simps) (simp add: prompt_def MAX_BUFFER_SIZE_def eval_nat_numeral)

section \<open>Properties\<close>

text \<open>
  C23: \<open>execute_pipe\<close> leaves nothing behind when it fails. Whatever the kernel answers: unless both
  commands are programs it makes no system call but its error message; if the pipe could not be
  opened that is its only call; in every other failure it closes both ends of the pipe, having
  killed the left process if that was already there; and if it answers 0 it has created exactly the
  left process with the pipe's write end as output and the right one with the read end as input, in
  the background, and waits for the left one exactly when it runs in the foreground.
\<close>

theorem execute_pipe_effects:
  "case run_state (execute_pipe W l r bg) t of (code, t') \<Rightarrow>
     \<exists>new. t' = t @ new \<and>
       (case (program_of (take 1023 l), program_of (take 1023 r)) of
          (Some (n, e, p, _, allow), Some (n', e', p', _, _)) \<Rightarrow>
            pipe_calls W t (\<lambda>fg wr. SCreate n e (args_of (take 1023 l)) p fg (0, wr))
              (\<lambda>rd. SCreate n' e' (args_of (take 1023 r)) p' False (rd, 1)) allow bg code (effects new)
        | _ \<Rightarrow> code = - 1 \<and> effects new = [])"
proof (cases "program_of (take 1023 l) = None \<or> program_of (take 1023 r) = None")
  case True
  from execute_pipe_error [OF this] obtain msg args where "execute_pipe W l r bg = pipe_error msg args" by blast
  with True show ?thesis by (auto split: option.splits)
next
  case False
  then obtain n e p b a n' e' p' b' a' where "program_of (take 1023 l) = Some (n, e, p, b, a)"
    "program_of (take 1023 r) = Some (n', e', p', b', a')" by auto
  then show ?thesis
    using connect_pipe_calls [of W n e p a "args_of (take 1023 l)" n' e' p' "args_of (take 1023 r)" bg t]
    by (simp add: execute_pipe_programs split: prod.splits)
qed

text \<open>
  C25: the shell protects itself and the first process: no built-in command, whatever its arguments
  and whatever the process list holds, kills or blocks process 1 or the shell.
\<close>

theorem builtins_spare_shell:
  assumes "\<And>h. answer W (h @ [SGetpid]) = me" and "run_state (run_builtin W b argv) t = (code, t')"
  shows "\<exists>new. t' = t @ new \<and> SKill 1 \<notin> set new \<and> SKill me \<notin> set new \<and> SBlock 1 \<notin> set new \<and> SBlock me \<notin> set new"
proof -
  have "only (spares me) (run_builtin W b argv)" by (rule run_builtin_spares [OF assms(1)])
  then obtain new where "t' = t @ new" "\<forall>c \<in> set new. spares me c" using assms(2) unfolding only_def by (metis snd_conv)
  then show ?thesis by (intro exI [of _ new]) (auto simp: spares_def INIT_PID_def)
qed

definition a_world :: world where
  "a_world = \<lparr>answer = (\<lambda>h. if last h = SGetpid then 2 else 0), answer_fds = (\<lambda>_. (0, 1)),
     answer_procs = (\<lambda>_. Some (map (\<lambda>i. \<lparr>pe_name = ''p'', pe_pid = i, pe_priority = 3, pe_state = 0, pe_stackBase = 0,
       pe_stackEnd = 0, pe_foreground = True\<rparr>) [1, 2, 3])),
     answer_behind = (\<lambda>_. []), answer_mem = (\<lambda>_. \<lparr>me_total = 0, me_used = 0, me_free = 0, me_base = 0\<rparr>)\<rparr>"

lemma builtins_spare_shell_witness:
  "\<exists>new. snd (run_state (run_builtin a_world Kill [''kill'', ''all'']) []) = [] @ new \<and> SKill 2 \<notin> set new
    \<and> effects new = [SPs, SGetpid, SKill 3]"
proof -
  have pid: "\<And>h. answer a_world (h @ [SGetpid]) = 2" by (simp add: a_world_def)
  obtain code t' where r: "run_state (run_builtin a_world Kill [''kill'', ''all'']) [] = (code, t')" by force
  have "strcasecmp_s ''all'' ''all'' = 0" by code_simp
  then have "effects t' = [SPs, SGetpid, SKill 3]"
    using r by (auto simp: run_builtin_def kill_cmd_def kill_all_def a_world_def INIT_PID_def effects_Cons)
  with builtins_spare_shell [OF pid r] show ?thesis using r by auto
qed

text \<open>
  C24: a line that names a program starts it once, with the words of the line as its arguments and
  with the descriptors of the shell. The shell waits for it, and then drops the input typed
  meanwhile, exactly when it runs in the foreground: when the line does not end in \<open>&\<close>, or when
  the program may not run in the background.
\<close>

theorem program_line:
  assumes "background_mark line = (bg, command)" and "CHR ''|'' \<notin> set command"
    and "program_of command = Some (n, e, p, False, allow)"
  shows "case run_state (run_line W line) t of (code, t') \<Rightarrow>
    \<exists>new pid h. let create = SCreate n e (args_of command) p (\<not> (bg \<and> allow)) (answer_fds W (h @ [SGetFD])) in
      t' = t @ new \<and> pid_from W create pid
      \<and> (code = Some (- 1) \<and> pid < 0 \<and> effects new = [SGetFD, create]
         \<or> code = Some 0 \<and> 0 \<le> pid
             \<and> effects new = [SGetFD, create] @ (if bg \<and> allow then [] else [SWait pid, SClearInput]))"
proof -
  obtain c where c: "find_command (hd (args_of command)) = Some c" "cmd_name c = n" "handler c = CMD_PROCESS e p False allow"
    using assms(3) by (auto simp: program_of_def split: option.splits handler.splits)
  have "run_line W line = do { code \<leftarrow> execute_process W n e p False allow (args_of command) bg; State_Monad.return (Some code) }"
    using assms(1,2) c by (simp add: run_line_def execute_command_def)
  then have r: "run_state (run_line W line) t
      = (Some (fst (run_state (execute_process W n e p False allow (args_of command) bg) t)),
         snd (run_state (execute_process W n e p False allow (args_of command) bg) t))"
    by (simp split: prod.splits)
  from execute_process_calls [of n e "args_of command" p bg allow False W t] obtain new pid h
    where E: "let create = SCreate n e (args_of command) p (\<not> (bg \<and> allow \<or> False)) (answer_fds W (h @ [SGetFD])) in
     snd (run_state (execute_process W n e p False allow (args_of command) bg) t) = t @ new \<and> pid_from W create pid
     \<and> (fst (run_state (execute_process W n e p False allow (args_of command) bg) t) = - 1 \<and> pid < 0 \<and> effects new = [SGetFD, create]
        \<or> fst (run_state (execute_process W n e p False allow (args_of command) bg) t) = 0 \<and> 0 \<le> pid
            \<and> effects new = [SGetFD, create] @ (if bg \<and> allow \<or> False then [] else [SWait pid, SClearInput]))"
    by blast
  show ?thesis
    unfolding r prod.case
    by (rule exI [of _ new], rule exI [of _ pid], rule exI [of _ h]) (use E in \<open>simp only: Let_def simp_thms option.inject\<close>)
qed

lemma program_line_witness:
  "case run_state (run_line a_world ''cat &'') [] of (code, t') \<Rightarrow>
    \<exists>new pid h. let create = SCreate ''cat'' ''cat_wrapper'' (args_of ''cat'') 3 (\<not> (True \<and> False)) (answer_fds a_world (h @ [SGetFD])) in
      t' = [] @ new \<and> pid_from a_world create pid
      \<and> (code = Some (- 1) \<and> pid < 0 \<and> effects new = [SGetFD, create]
         \<or> code = Some 0 \<and> 0 \<le> pid
             \<and> effects new = [SGetFD, create] @ (if True \<and> False then [] else [SWait pid, SClearInput]))"
proof -
  have "background_mark ''cat &'' = (True, ''cat'')" by code_simp
  moreover have "program_of ''cat'' = Some (''cat'', ''cat_wrapper'', 3, False, False)" by code_simp
  ultimately show ?thesis by (intro program_line) simp_all
qed

text \<open>
  C26: the shell treats its input line by line. For every sequence of typed lines it prompts, handles
  the line on its own, and prompts again; a line of 1024 characters or more is reported and dropped
  as a whole, an empty one ignored.
\<close>

theorem main_loop_lines:
  assumes "\<forall>l \<in> set lines. CHR 0x0A \<notin> set l"
  shows "main_loop W (concat (map (\<lambda>l. typed l @ [10]) lines))
    = foldr (\<lambda>l m. do { prompt; handle_line W l; m }) lines prompt"
  using assms by (induction lines) (simp_all add: main_loop_Nil main_loop_step)

lemma main_loop_lines_witness:
  "main_loop a_world (typed ''ps'' @ [10] @ typed ''mem'' @ [10])
    = do { prompt; handle_line a_world ''ps''; prompt; handle_line a_world ''mem''; prompt }"
  using main_loop_lines [of "[''ps'', ''mem'']" a_world] by simp

text \<open>
  \<open>echo\<close> prints its arguments, separated by single spaces, and a newline, as long as none of
  them contains a percent sign or an escape.
\<close>

fun unwords :: "string list \<Rightarrow> string" where
  "unwords [] = []"
| "unwords [a] = a"
| "unwords (a # b # as) = a @ '' '' @ unwords (b # as)"

fun printed_by :: "sh_call list \<Rightarrow> string" where
  "printed_by [] = []"
| "printed_by (SOut fd r # cs) = text_of (fst r) @ printed_by cs"
| "printed_by (c # cs) = printed_by cs"

lemma echo_loop_prints:
  "\<forall>a \<in> set args. plain a \<Longrightarrow> \<exists>new. run_state (echo_loop args) t = ((), t @ new) \<and> printed_by new = unwords args
     \<and> (\<forall>c \<in> set new. \<exists>es. c = SOut 1 (es, Done))"
proof (induction args arbitrary: t rule: echo_loop.induct)
  case 1
  then show ?case by simp
next
  case (2 a)
  then have "fprintf ''%s'' [AStr a] = (chars a, Done)"
    using vfprintf_plain [of a "[]" "[]"] by (simp add: fprintf_def vfprintf_str)
  then show ?case by simp
next
  case (3 a b as)
  have p: "fprintf ''%s'' [AStr a] = (chars a, Done)" "fprintf '' '' [] = (chars '' '', Done)"
    using vfprintf_plain [of a "[]" "[]"] vfprintf_plain [of "'' ''" "[]" "[]"] 3(2)
    by (simp_all add: fprintf_def vfprintf_str plain_def)
  define pre where "pre = [SOut 1 (chars a, Done), SOut 1 (chars '' '', Done)]"
  have "\<forall>a \<in> set (b # as). plain a" using 3(2) by simp
  from 3(1) [OF this, of "t @ pre"] obtain new where "run_state (echo_loop (b # as)) (t @ pre) = ((), (t @ pre) @ new)"
    "printed_by new = unwords (b # as)" "\<forall>c \<in> set new. \<exists>es. c = SOut 1 (es, Done)" by blast
  then show ?case
    by (intro exI [of _ "pre @ new"]) (simp add: p pre_def)
qed

theorem echo_prints:
  assumes "\<forall>a \<in> set (tl argv). plain a"
  shows "\<exists>new. run_state (echo argv) t = (0, t @ new) \<and> printed_by new = unwords (tl argv) @ NL
     \<and> (\<forall>c \<in> set new. \<exists>es. c = SOut 1 (es, Done))"
proof -
  obtain new where "run_state (echo_loop (tl argv)) t = ((), t @ new)" "printed_by new = unwords (tl argv)"
    "\<forall>c \<in> set new. \<exists>es. c = SOut 1 (es, Done)"
    using echo_loop_prints [OF assms] by blast
  moreover have "fprintf NL [] = (chars NL, Done)"
    using vfprintf_plain [of NL "[]" "[]"] by (simp add: fprintf_def plain_def NL_def)
  moreover have "printed_by (a @ b) = printed_by a @ printed_by b" for a b
    by (induction a rule: printed_by.induct) simp_all
  ultimately show ?thesis by (intro exI [of _ "new @ [SOut 1 (chars NL, Done)]"]) (simp add: echo_def)
qed

end
