(* ===== verification/Boot.thy ===== *)
theory Boot
  imports Process_Lifecycle Kernel_Lib
begin

text \<open>
  From power-on to the first program: \<open>Kernel/moduleLoader.c\<close> and \<open>Kernel/kernel.c\<close>, which place
  the programs that are packed behind the kernel and clear its variables, \<open>Kernel/idt/idtLoader.c\<close>,
  which fills the interrupt table, and \<open>main\<close>, which brings up the parts of the kernel in order and
  starts the first two processes.
\<close>

section \<open>The module loader\<close>

text \<open>Programs are packed one behind the other, each behind its size, and their number in front.\<close>

definition readUint32 :: "mem \<Rightarrow> addr \<Rightarrow> u32 \<times> addr" where
  "readUint32 m address =
     (ucast (m address) OR push_bit 8 (ucast (m (address + 1))) OR push_bit 16 (ucast (m (address + 2)))
        OR push_bit 24 (ucast (m (address + 3))), address + 4)"

definition loadModule :: "mem \<Rightarrow> addr \<Rightarrow> addr \<Rightarrow> addr \<times> mem" where
  "loadModule m modul targetModuleAddress =
     (let (moduleSize, p) = readUint32 m modul
      in (p + unat moduleSize, snd (memcpy m targetModuleAddress p (unat moduleSize))))"

text \<open>The loop, with the number of rounds left; \<open>targetModuleAddress\<close> is an array.\<close>

fun load_loop :: "nat \<Rightarrow> nat \<Rightarrow> mem \<Rightarrow> addr \<Rightarrow> (nat \<Rightarrow> addr) \<Rightarrow> mem" where
  "load_loop 0 i m currentModule targetModuleAddress = m"
| "load_loop (Suc k) i m currentModule targetModuleAddress =
     (let (p, m1) = loadModule m currentModule (targetModuleAddress i)
      in load_loop k (i + 1) m1 p targetModuleAddress)"

definition loadModules :: "mem \<Rightarrow> addr \<Rightarrow> (nat \<Rightarrow> addr) \<Rightarrow> mem" where
  "loadModules m payloadStart targetModuleAddress =
     (let (moduleCount, p) = readUint32 m payloadStart
      in load_loop (unat moduleCount) 0 m p targetModuleAddress)"

definition PageSize :: nat where "PageSize = 0x1000"
definition shellModuleAddress :: addr where "shellModuleAddress = 0x400000"
definition memoryStart :: addr where "memoryStart = 0xF00000"
definition memorySize :: u32 where "memorySize = 0x400000"

definition clearBSS :: "mem \<Rightarrow> addr \<Rightarrow> nat \<Rightarrow> mem" where
  "clearBSS m bssAddress bssSize = snd (memset m bssAddress 0 bssSize)"

definition getStackBase :: "addr \<Rightarrow> addr" where
  "getStackBase endOfKernel = endOfKernel + PageSize * 8 - 8"

text \<open>
  The linker's symbols are arguments. The array of targets has one entry; the model takes the same
  address for every module, and the properties are about a single one.
\<close>

definition initializeKernelBinary :: "mem \<Rightarrow> addr \<Rightarrow> addr \<Rightarrow> addr \<Rightarrow> addr \<times> mem" where
  "initializeKernelBinary m endOfKernelBinary bss endOfKernel =
     (let m1 = loadModules m endOfKernelBinary (\<lambda>_. shellModuleAddress)
      in (getStackBase endOfKernel, clearBSS m1 bss (endOfKernel - bss)))"

section \<open>The interrupt table\<close>

type_synonym u16 = "16 word"

record DESCR_INT =
  offset_l :: u16
  selector :: u16
  zero :: u8
  access :: u8
  offset_m :: u16
  offset_h :: u32
  other_zero :: u32

text \<open>The table, the two interrupt masks and the interrupt flag of the processor.\<close>

record cpu =
  idt :: "nat \<Rightarrow> DESCR_INT"
  pic_master :: u8
  pic_slave :: u8
  interrupts_on :: bool

definition ACS_INT :: u8 where "ACS_INT = 0x80 OR 0x0E"
definition TIMER_PIC_MASTER :: u8 where "TIMER_PIC_MASTER = 0xFE"
definition KEYBOARD_PIC_MASTER :: u8 where "KEYBOARD_PIC_MASTER = 0xFD"
definition NO_INTERRUPTS :: u8 where "NO_INTERRUPTS = 0xFF"

definition setup_IDT_entry :: "nat \<Rightarrow> u64 \<Rightarrow> cpu \<Rightarrow> cpu" where
  "setup_IDT_entry index offset c = c\<lparr>idt := (idt c)(index :=
     \<lparr>offset_l = ucast (offset AND 0xFFFF), selector = 0x08, zero = 0, access = ACS_INT,
      offset_m = ucast (drop_bit 16 offset AND 0xFFFF), offset_h = ucast (drop_bit 32 offset AND 0xFFFFFFFF),
      other_zero = 0\<rparr>)\<rparr>"

text \<open>The addresses of the five entry points in \<open>interrupts.asm\<close> are given by \<open>entry\<close>.\<close>

definition load_idt :: "(nat \<Rightarrow> u64) \<Rightarrow> cpu \<Rightarrow> cpu" where
  "load_idt entry c =
     (let c1 = fold (\<lambda>i. setup_IDT_entry i (entry i)) [0x00, 0x06, 0x20, 0x21, 0x80] (c\<lparr>interrupts_on := False\<rparr>)
      in c1\<lparr>pic_master := KEYBOARD_PIC_MASTER AND TIMER_PIC_MASTER, pic_slave := NO_INTERRUPTS, interrupts_on := True\<rparr>)"

text \<open>The address a gate leads to, as the processor puts it together.\<close>

definition gate_address :: "DESCR_INT \<Rightarrow> u64" where
  "gate_address d = ucast (offset_l d) OR push_bit 16 (ucast (offset_m d)) OR push_bit 32 (ucast (offset_h d))"

section \<open>The start of the kernel\<close>

definition INIT_PRIORITY :: nat where "INIT_PRIORITY = MIN_PRIORITY"
definition SHELL_PRIORITY :: nat where "SHELL_PRIORITY = MAX_PRIORITY"

text \<open>The parts of the kernel, in the order of \<open>main\<close>; \<open>mk\<close> is \<open>createMemoryManager\<close>.\<close>

definition kernel_setup ::
  "'m mm \<Rightarrow> ('m \<Rightarrow> addr \<Rightarrow> u32 \<Rightarrow> 'm) \<Rightarrow> ('m, 'z) kernel_scheme \<Rightarrow> ('m, 'z) kernel_scheme" where
  "kernel_setup M mk s =
     (let s1 = s\<lparr>lh := (lh s)\<lparr>lmem := mk (lmem (lh s)) memoryStart memorySize\<rparr>\<rparr>;
          s2 = initSemManager s1;
          s3 = snd (initFileDescriptors M s2);
          s4 = initKeyboard M s3;
          s5 = upd_con (\<lambda>c. snd (setFontSize 2 c)) s4
      in initScheduler M (initProcesses s5))"

definition init_params :: "addr \<Rightarrow> creationParameters" where
  "init_params idle = \<lparr>c_argc = 0, c_argv = [], c_name = Some ''init'', c_priority = INIT_PRIORITY,
     c_entryPoint = idle, c_foreground = 0, c_fd_in = 0, c_fd_out = 1\<rparr>"

definition shell_params :: creationParameters where
  "shell_params = \<lparr>c_argc = 0, c_argv = [], c_name = Some ''shell'', c_priority = SHELL_PRIORITY,
     c_entryPoint = shellModuleAddress, c_foreground = 1, c_fd_in = 0, c_fd_out = 1\<rparr>"

text \<open>\<open>idle\<close> is the address of \<open>process_idle\<close>, which halts the processor for ever.\<close>

definition start_init :: "'m mm \<Rightarrow> addr \<Rightarrow> ('m, 'z) kernel_scheme \<Rightarrow> ('m, 'z) kernel_scheme" where
  "start_init M idle s = snd (createProcess M (Some (init_params idle)) s)"

definition start_shell :: "'m mm \<Rightarrow> ('m, 'z) kernel_scheme \<Rightarrow> ('m, 'z) kernel_scheme" where
  "start_shell M s = snd (createProcess M (Some shell_params) s)"

text \<open>
  \<open>main\<close>, on the kernel's state and the processor's; \<open>_sti\<close> comes after the parts of the kernel and
  before the processes.
\<close>

definition kernel_main ::
  "'m mm \<Rightarrow> ('m \<Rightarrow> addr \<Rightarrow> u32 \<Rightarrow> 'm) \<Rightarrow> addr \<Rightarrow> (nat \<Rightarrow> u64) \<Rightarrow> ('m, 'z) kernel_scheme \<times> cpu
   \<Rightarrow> ('m, 'z) kernel_scheme \<times> cpu" where
  "kernel_main M mk idle entry sc =
     (let c1 = load_idt entry (snd sc);
          s1 = kernel_setup M mk (fst sc);
          c2 = c1\<lparr>interrupts_on := True\<rparr>
      in (forceSwitchContext M (start_shell M (start_init M idle s1)), c2))"

section \<open>Gates\<close>

lemma mask_literals: "0xFFFF = (mask 16 :: u64)" "0xFFFFFFFF = (mask 32 :: u64)"
  by (simp_all add: mask_eq_exp_minus_1)

lemma gate_roundtrip:
  "ucast (ucast (offset AND 0xFFFF) :: u16) OR push_bit 16 (ucast (ucast (drop_bit 16 offset AND 0xFFFF) :: u16))
    OR push_bit 32 (ucast (ucast (drop_bit 32 offset AND 0xFFFFFFFF) :: u32)) = (offset :: u64)"
  (is "?l = _")
proof (rule bit_word_eqI)
  fix n assume "n < LENGTH(64)"
  then consider "n < 16" | "16 \<le> n" "n < 32" | "32 \<le> n" "n < 64" by fastforce
  then show "bit ?l n = bit offset n"
    unfolding mask_literals by cases (auto simp: bit_simps)
qed

definition gate :: "u64 \<Rightarrow> DESCR_INT" where
  "gate offset = \<lparr>offset_l = ucast (offset AND 0xFFFF), selector = 0x08, zero = 0, access = ACS_INT,
     offset_m = ucast (drop_bit 16 offset AND 0xFFFF), offset_h = ucast (drop_bit 32 offset AND 0xFFFFFFFF), other_zero = 0\<rparr>"

definition demo_cpu :: cpu where
  "demo_cpu = \<lparr>idt = (\<lambda>_. gate 0), pic_master = 0, pic_slave = 0, interrupts_on = False\<rparr>"

lemma gate_fields: "gate_address (gate offset) = offset" "access (gate offset) = 0x8E" "selector (gate offset) = 8"
  using gate_roundtrip [of offset] by (simp_all add: gate_address_def gate_def ACS_INT_def)

lemma idt_setup: "idt (setup_IDT_entry i offset c) = (idt c)(i := gate offset)"
  by (simp add: setup_IDT_entry_def gate_def)

lemma load_idt_fields:
  "idt (load_idt entry c) = (idt c)(0 := gate (entry 0), 6 := gate (entry 6), 0x20 := gate (entry 0x20),
     0x21 := gate (entry 0x21), 0x80 := gate (entry 0x80))"
  "pic_master (load_idt entry c) = 0xFC" "pic_slave (load_idt entry c) = 0xFF" "interrupts_on (load_idt entry c)"
  by (simp_all add: load_idt_def idt_setup KEYBOARD_PIC_MASTER_def TIMER_PIC_MASTER_def NO_INTERRUPTS_def)

lemma mask_bits:
  assumes "n < 8"
  shows "\<not> bit (0xFC :: u8) n \<longleftrightarrow> n = 0 \<or> n = 1" and "bit (0xFF :: u8) n"
proof -
  have "n \<in> {0, 1, 2, 3, 4, 5, 6, 7}" using assms by auto
  then show "\<not> bit (0xFC :: u8) n \<longleftrightarrow> n = 0 \<or> n = 1" "bit (0xFF :: u8) n"
    by (auto simp: bit_iff_odd_drop_bit)
qed

section \<open>Modules\<close>

text \<open>The modules \<open>mods\<close> lie packed from \<open>p\<close> on; \<open>extent\<close> is the number of bytes they take.\<close>

fun packed :: "mem \<Rightarrow> addr \<Rightarrow> u8 list list \<Rightarrow> bool" where
  "packed m p [] = True"
| "packed m p (bs # mods) =
     (fst (readUint32 m p) = of_nat (length bs) \<and> (\<forall>i < length bs. m (p + 4 + i) = bs ! i)
      \<and> packed m (p + 4 + length bs) mods)"

fun packed_size :: "u8 list list \<Rightarrow> nat" where
  "packed_size [] = 0"
| "packed_size (bs # mods) = 4 + length bs + packed_size mods"

lemma packed_frame: "\<lbrakk>packed m p mods; \<forall>x. p \<le> x \<and> x < p + packed_size mods \<longrightarrow> m' x = m x\<rbrakk> \<Longrightarrow> packed m' p mods"
proof (induction mods arbitrary: p)
  case (Cons bs mods)
  have "readUint32 m' p = readUint32 m p" using Cons.prems(2) by (simp add: readUint32_def)
  moreover have "packed m' (p + 4 + length bs) mods" by (rule Cons.IH) (use Cons.prems in auto)
  ultimately show ?case using Cons.prems by simp
qed simp

definition apart_from :: "addr \<Rightarrow> nat \<Rightarrow> addr \<Rightarrow> nat \<Rightarrow> bool" where
  "apart_from p n q k \<longleftrightarrow> p + n \<le> q \<or> q + k \<le> p"

text \<open>The targets of the modules \<open>mods\<close> overlap neither each other nor the packed modules.\<close>

fun targets_ok :: "(nat \<Rightarrow> addr) \<Rightarrow> nat \<Rightarrow> addr \<Rightarrow> u8 list list \<Rightarrow> bool" where
  "targets_ok t i p [] = True"
| "targets_ok t i p (bs # mods) =
     (length bs < 2 ^ 32 \<and> apart_from (t i) (length bs) p (4 + length bs + packed_size mods)
      \<and> (\<forall>j < length mods. apart_from (t i) (length bs) (t (i + 1 + j)) (length (mods ! j)))
      \<and> targets_ok t (i + 1) (p + 4 + length bs) mods)"

text \<open>Where the modules are put.\<close>

fun covered :: "(nat \<Rightarrow> addr) \<Rightarrow> nat \<Rightarrow> u8 list list \<Rightarrow> addr \<Rightarrow> bool" where
  "covered t i [] x = False"
| "covered t i (bs # mods) x = (t i \<le> x \<and> x < t i + length bs \<or> covered t (i + 1) mods x)"

lemma not_covered:
  "\<forall>j < length mods. apart_from p n (t (i + j)) (length (mods ! j)) \<Longrightarrow> k < n \<Longrightarrow> \<not> covered t i mods (p + k)"
proof (induction mods arbitrary: i)
  case (Cons bs mods)
  have "apart_from p n (t i) (length bs)" using Cons.prems(1) [rule_format, of 0] by simp
  moreover have "apart_from p n (t (i + 1 + j)) (length (mods ! j))" if "j < length mods" for j
    using Cons.prems(1) [rule_format, of "Suc j"] that by simp
  ultimately show ?case using Cons.IH [of "i + 1"] Cons.prems(2) by (auto simp: apart_from_def)
qed simp

lemma load_loop_spec:
  "\<lbrakk>packed m p mods; targets_ok t i p mods\<rbrakk> \<Longrightarrow>
   (\<forall>j < length mods. \<forall>k < length (mods ! j). load_loop (length mods) i m p t (t (i + j) + k) = mods ! j ! k)
   \<and> (\<forall>x. \<not> covered t i mods x \<longrightarrow> load_loop (length mods) i m p t x = m x)"
proof (induction mods arbitrary: m p i)
  case (Cons bs mods)
  let ?n = "length bs"
  define m1 where "m1 = snd (memcpy m (t i) (p + 4) ?n)"
  have r: "unat (fst (readUint32 m p)) = ?n" "snd (readUint32 m p) = p + 4"
    using Cons.prems by (simp_all add: unat_of_nat readUint32_def take_bit_nat_eq_self)
  then have l: "loadModule m p (t i) = (p + 4 + ?n, m1)" by (simp add: loadModule_def m1_def split_beta)
  have "{t i..<t i + ?n} \<inter> {p + 4..<p + 4 + ?n} = {}" using Cons.prems(2) by (auto simp: apart_from_def)
  from memcpy_copies [OF this, of m] have c: "\<forall>k < ?n. m1 (t i + k) = bs ! k" "\<forall>x. x < t i \<or> t i + ?n \<le> x \<longrightarrow> m1 x = m x"
    using Cons.prems(1) by (auto simp: m1_def)
  have "packed m1 (p + 4 + ?n) mods"
    by (rule packed_frame [of m]) (use Cons.prems c(2) in \<open>auto simp: apart_from_def\<close>)
  from Cons.IH [OF this, of "i + 1"] Cons.prems(2)
  have IH: "\<forall>j < length mods. \<forall>k < length (mods ! j).
      load_loop (length mods) (i + 1) m1 (p + 4 + ?n) t (t (i + 1 + j) + k) = mods ! j ! k"
    "\<forall>x. \<not> covered t (i + 1) mods x \<longrightarrow> load_loop (length mods) (i + 1) m1 (p + 4 + ?n) t x = m1 x" by simp_all
  have step: "load_loop (length (bs # mods)) i m p t = load_loop (length mods) (i + 1) m1 (p + 4 + ?n) t"
    using l by simp
  have first: "\<not> covered t (i + 1) mods (t i + k)" if "k < ?n" for k
    using not_covered [of mods "t i" ?n t "i + 1"] Cons.prems(2) that by simp
  have "load_loop (length (bs # mods)) i m p t (t (i + j) + k) = (bs # mods) ! j ! k"
    if "j < length (bs # mods)" "k < length ((bs # mods) ! j)" for j k
  proof (cases j)
    case 0
    then show ?thesis using that IH(2) first c(1) unfolding step by simp
  next
    case (Suc j')
    then show ?thesis using that IH(1) unfolding step by simp
  qed
  moreover have "load_loop (length (bs # mods)) i m p t x = m x" if "\<not> covered t i (bs # mods) x" for x
    using that IH(2) c(2) unfolding step by auto
  ultimately show ?case by blast
qed simp

section \<open>Properties\<close>

text \<open>
  loading the shell. When one program is packed behind the kernel and its place overlaps neither
  the packed bytes nor the kernel's variables, \<open>initializeKernelBinary\<close> leaves the program at
  0x400000, the variables zero, and all other memory as it was, and answers the top of the stack.
\<close>

theorem shell_loaded:
  assumes "fst (readUint32 m e) = 1" and "packed m (e + 4) [bs]" and "length bs < 2 ^ 32"
    and "apart_from 0x400000 (length bs) e (8 + length bs)" and "apart_from 0x400000 (length bs) bss (endOfKernel - bss)"
  shows "case initializeKernelBinary m e bss endOfKernel of (sp, m') \<Rightarrow>
     (\<forall>k < length bs. m' (0x400000 + k) = bs ! k) \<and> (\<forall>x. bss \<le> x \<and> x < endOfKernel \<longrightarrow> m' x = 0)
     \<and> (\<forall>x. \<not> (0x400000 \<le> x \<and> x < 0x400000 + length bs) \<and> \<not> (bss \<le> x \<and> x < endOfKernel) \<longrightarrow> m' x = m x)
     \<and> sp + 8 = endOfKernel + 0x8000"
proof -
  define m1 where "m1 = loadModules m e (\<lambda>_. shellModuleAddress)"
  have "m1 = load_loop (length [bs]) 0 m (e + 4) (\<lambda>_. shellModuleAddress)"
    using assms(1) by (simp add: m1_def loadModules_def readUint32_def)
  moreover have "targets_ok (\<lambda>_. shellModuleAddress) 0 (e + 4) [bs]"
    using assms(3,4) by (auto simp: shellModuleAddress_def apart_from_def)
  ultimately have m1: "\<forall>k < length bs. m1 (0x400000 + k) = bs ! k"
    "\<forall>x. \<not> (0x400000 \<le> x \<and> x < 0x400000 + length bs) \<longrightarrow> m1 x = m x"
    using load_loop_spec [OF assms(2), of "\<lambda>_. shellModuleAddress" 0] by (simp_all add: shellModuleAddress_def)
  have "initializeKernelBinary m e bss endOfKernel
      = (endOfKernel + 0x8000 - 8, \<lambda>x. if bss \<le> x \<and> x < bss + (endOfKernel - bss) then 0 else m1 x)"
    by (simp add: initializeKernelBinary_def m1_def [symmetric] clearBSS_def memset_def memset_loop_spec fun_eq_iff
        getStackBase_def PageSize_def)
  then show ?thesis using m1 assms(5) by (auto simp: apart_from_def)
qed

definition packed_demo :: mem where
  "packed_demo = (\<lambda>x. if x = 0x100000 then 1 else if x = 0x100004 then 2
     else if x = 0x100008 then 0x90 else if x = 0x100009 then 0xF4 else 0)"

lemma shell_loaded_witness:
  "snd (initializeKernelBinary packed_demo 0x100000 0x100000 0x108000) 0x400001 = 0xF4"
proof -
  have 1: "fst (readUint32 packed_demo 0x100000) = 1" by (simp add: readUint32_def packed_demo_def)
  have 2: "packed packed_demo (0x100000 + 4) [[0x90, 0xF4]]"
    by (simp add: readUint32_def packed_demo_def less_Suc_eq_0_disj)
  show ?thesis
    using shell_loaded [OF 1 2, of "0x100000" "0x108000"] by (auto simp: apart_from_def split: prod.splits)
qed

text \<open>
  the interrupt table. After \<open>load_idt\<close> the gates of the two exceptions, the timer, the
  keyboard and the system calls lead to their entry points, all other gates are as before, and of
  the sixteen interrupt lines exactly those of the timer and the keyboard are let through.
\<close>

theorem idt_loaded:
  "(\<forall>v. idt (load_idt entry c) v = (if v \<in> {0x00, 0x06, 0x20, 0x21, 0x80} then gate (entry v) else idt c v))
   \<and> (\<forall>a. gate_address (gate a) = a \<and> access (gate a) = 0x8E \<and> selector (gate a) = 8)
   \<and> {n. n < 8 \<and> \<not> bit (pic_master (load_idt entry c)) n} = {0, 1}
   \<and> {n. n < 8 \<and> \<not> bit (pic_slave (load_idt entry c)) n} = {} \<and> interrupts_on (load_idt entry c)"
  unfolding load_idt_fields(2,3) using mask_bits
  by (intro conjI set_eqI) (auto simp: load_idt_fields(1,4) gate_fields)

end
