(* ===== verification/Boot_Properties.thy ===== *)
theory Boot_Properties
  imports Boot
begin

text \<open>
  The start of the kernel establishes the invariants that the other theories assume, with the naive
  manager: the semaphores that come up before the scheduler, the first two processes, and the first
  dispatch. And what a timer tick between the two processes does.
\<close>

section \<open>Before the scheduler is up\<close>

text \<open>
  The queues are well formed and every semaphore in use has an empty one of its own.
\<close>

definition early_ok :: "(naive, 'z) sem_state_scheme \<Rightarrow> bool" where
  "early_ok s \<longleftrightarrow> l_wf naive_inv naive_live (lh s)
     \<and> (\<forall>i < 500. \<not> locked (sems s i)
          \<and> (used (sems s i) \<longrightarrow> lq (lh s) (waiting (sems s i)) = Some [] \<and> waiting (sems s i) \<noteq> 0
               \<and> 0 \<le> svalue (sems s i)))
     \<and> (\<forall>i < 500. \<forall>j < 500. used (sems s i) \<and> used (sems s j) \<and> i \<noteq> j \<longrightarrow> waiting (sems s i) \<noteq> waiting (sems s j))"

lemma early_okD:
  assumes "early_ok s"
  shows "l_wf naive_inv naive_live (lh s)" and "i < 500 \<Longrightarrow> \<not> locked (sems s i)"
    and "\<lbrakk>i < 500; used (sems s i)\<rbrakk> \<Longrightarrow> lq (lh s) (waiting (sems s i)) = Some []"
    and "\<lbrakk>i < 500; used (sems s i)\<rbrakk> \<Longrightarrow> waiting (sems s i) \<noteq> 0 \<and> 0 \<le> svalue (sems s i)"
    and "\<lbrakk>i < 500; j < 500; used (sems s i); used (sems s j); i \<noteq> j\<rbrakk> \<Longrightarrow> waiting (sems s i) \<noteq> waiting (sems s j)"
  using assms unfolding early_ok_def by blast+

text \<open>A semaphore as \<open>semCreate\<close> leaves it.\<close>

definition fresh_sem :: "string \<Rightarrow> int \<Rightarrow> addr \<Rightarrow> int \<Rightarrow> sem_t \<Rightarrow> sem_t" where
  "fresh_sem nm v q me x = x\<lparr>svalue := v, used := True, waiting := q, sname := nm @ drop (length nm) (sname x),
     openedBy := (\<lambda>_. False)(nat me := True)\<rparr>"

lemma semCreate_early:
  assumes "early_ok s" and "tailroom (40 + m) (lmem (lh s))" and "8 \<le> m" and "length nm \<le> 28"
    and "findSemByName s nm = - 1" and "findFreeSem s = int j" and "j < 500" and "\<not> used (sems s j)"
    and "0 \<le> getpid s" and "getpid s < 100" and "0 \<le> v"
  obtains q l where "semCreate naive_mm nm v s = (int j, s\<lparr>lh := l, sems := (sems s)(j := fresh_sem nm v q (getpid s) (sems s j))\<rparr>)"
    and "early_ok (s\<lparr>lh := l, sems := (sems s)(j := fresh_sem nm v q (getpid s) (sems s j))\<rparr>)"
    and "tailroom m (lmem l)" and "lq l = (lq (lh s))(q \<mapsto> [])" and "lq (lh s) q = None" and "q \<noteq> 0"
proof -
  obtain q l where q: "l_newQueue naive_mm (lh s) = (q, l)" by force
  note wf = early_okD(1) [OF assms(1)]
  have room: "q \<noteq> 0" "tailroom m (lmem l)" using tailroom_newQueue [OF assms(2,3)] q by simp_all
  have new: "q \<notin> owned (lh s)" "lq l = (lq (lh s))(q \<mapsto> [])" "l_wf naive_inv naive_live l"
    using naive.newQueue_cases [OF wf q] room(1) by blast+
  have n: "lq (lh s) q = None" using new(1) by (auto simp: owned_def)
  have gp: "getpid (upd_sem j f (s\<lparr>lh := l\<rparr>)) = getpid s" for f
    by (simp add: getpid_def getCurrentProcess_def pid_at_def upd_sem_def pcb_def)
  let ?t = "s\<lparr>lh := l, sems := (sems s)(j := fresh_sem nm v q (getpid s) (sems s j))\<rparr>"
  have c: "semCreate naive_mm nm v s = (int j, ?t)"
    using assms(4-6,9,10) q gp
    by (simp add: semCreate_def Let_def set_opened_def) (simp add: upd_sem_def fresh_sem_def)
  have other: "waiting (sems s i) \<noteq> q" if "i < 500" "used (sems s i)" for i
    using early_okD(3) [OF assms(1) that] n by auto
  let ?f = "fresh_sem nm v q (getpid s) (sems s j)"
  have f: "waiting ?f = q" "locked ?f = locked (sems s j)" "used ?f" "svalue ?f = v" by (simp_all add: fresh_sem_def)
  have e1: "\<forall>i < 500. \<not> locked (sems ?t i)
      \<and> (used (sems ?t i) \<longrightarrow> lq (lh ?t) (waiting (sems ?t i)) = Some []
           \<and> waiting (sems ?t i) \<noteq> 0 \<and> 0 \<le> svalue (sems ?t i))"
    using early_okD(2-4) [OF assms(1)] new(2) other assms(11) f room(1) by simp
  have e2: "waiting (sems ?t a) \<noteq> waiting (sems ?t b)"
    if "a < 500" "b < 500" "used (sems ?t a)" "used (sems ?t b)" "a \<noteq> b" for a b
    using that early_okD(5) [OF assms(1), of a b] other [of a] other [of b] f
    by (cases "a = j"; cases "b = j") auto
  have "early_ok ?t" unfolding early_ok_def using e1 e2 new(3) by simp
  with c room new(2) n that show ?thesis by blast
qed

lemma find_name_unused: "\<forall>i < 500. used (sems s i) \<longrightarrow> strcmp (sem_name s i) nm \<noteq> 0 \<Longrightarrow> findSemByName s nm = - 1"
  using find_name_from_none [of MAX_SEMS 0 s nm] by (simp add: findSemByName_def)

lemma free_sem_first:
  assumes "j < 500" and "\<not> used (sems s j)" and "\<forall>i < j. used (sems s i)"
  shows "findFreeSem s = int j"
proof -
  have "k + i = 500 \<Longrightarrow> i \<le> j \<Longrightarrow> free_sem_from k i (sems s) = int j" for k i
  proof (induction k arbitrary: i)
    case (Suc k)
    then show ?case using assms by (cases "i = j") auto
  qed (use assms(1) in simp)
  from this [of 500 0] show ?thesis by (simp add: findFreeSem_def)
qed

text \<open>Nothing else of the state matters to it.\<close>

lemma early_frame [simp]:
  "early_ok (s\<lparr>fileDescriptors := f\<rparr>) = early_ok s" "early_ok (s\<lparr>streams := x\<rparr>) = early_ok s"
  "early_ok (s\<lparr>kbd := k\<rparr>) = early_ok s" "early_ok (s\<lparr>con := c\<rparr>) = early_ok s"
  "early_ok (s\<lparr>processes := ps\<rparr>) = early_ok s"
  "getpid (s\<lparr>fileDescriptors := f\<rparr>) = getpid s" "getpid (s\<lparr>streams := x\<rparr>) = getpid s" "getpid (s\<lparr>kbd := k\<rparr>) = getpid s"
  by (simp_all add: early_ok_def getpid_def getCurrentProcess_def pid_at_def pcb_def)

lemma l_wf_alloc:
  assumes "l_wf naive_inv naive_live l" and "allocMemory_naive (lmem l) n = (a, m)" and "naive_okreq n"
  shows "l_wf naive_inv naive_live (l\<lparr>lmem := m\<rparr>)"
proof -
  have inv: "naive_inv (lmem l)" using assms(1) by (simp add: l_wf_def)
  have m: "naive_inv m" using naive_alloc_inv [OF inv, of n] assms(2) by simp
  have own: "owned (l\<lparr>lmem := m\<rparr>) = owned l" "qnodes (l\<lparr>lmem := m\<rparr>) = qnodes l"
    by (auto simp: owned_def qnodes_def fun_eq_iff)
  have live: "naive_live m x = naive_live (lmem l) x" if "x \<in> owned l" for x
  proof (cases "a = 0")
    case True
    then show ?thesis using naive_alloc_fail [OF inv, of n] assms(2) by simp
  next
    case False
    have "naive_live (lmem l) x \<noteq> None" using assms(1) that by (auto simp: l_wf_def)
    then show ?thesis using naive_alloc_live [OF inv assms(3)] assms(2) False by auto
  qed
  show ?thesis using assms(1) m live by (auto simp: l_wf_def own)
qed

lemma early_alloc:
  assumes "early_ok s" and "k_alloc naive_mm n s = (a, t)" and "naive_okreq n"
  shows "early_ok t" and "t = s\<lparr>lh := (lh s)\<lparr>lmem := lmem (lh t)\<rparr>\<rparr>"
proof -
  obtain m where m: "allocMemory_naive (lmem (lh s)) n = (a, m)" "t = s\<lparr>lh := (lh s)\<lparr>lmem := m\<rparr>\<rparr>"
    using assms(2) by (auto simp: k_alloc_def split: prod.splits)
  then show "t = s\<lparr>lh := (lh s)\<lparr>lmem := lmem (lh t)\<rparr>\<rparr>" by simp
  show "early_ok t" using assms(1) l_wf_alloc [OF _ m(1) assms(3)] by (simp add: early_ok_def m(2))
qed

lemma early_scheduler:
  assumes "early_ok s" and "tailroom (200 + m) (lmem (lh s))" and "8 \<le> m" and "\<forall>i \<ge> 5. priorityQueues s i = 0"
    and "s' = initScheduler naive_mm (initProcesses s)"
  shows "sem_inv naive_inv naive_live s'" and "tailroom m (lmem (lh s'))" and "rqueued s' = {#}" and "placed s'"
    and "currentProcess s' = 0" and "\<forall>i < 100. pstate (processes s' i) = EXITED" and "sched.more s' = sched.more s"
    and "cpu_rsp s' = cpu_rsp s" and "\<forall>i \<ge> 5. priorityQueues s' i = 0"
proof -
  let ?s = "initProcesses s"
  have e: "lh ?s = lh s" "priorityQueues ?s = priorityQueues s" "sched.more ?s = sched.more s" by (simp_all add: initProcesses_def)
  have ps: "pid (pcb ?s p) = int p \<and> pstate (pcb ?s p) = EXITED" if "1 \<le> p" "p \<le> 100" for p
    using that by (cases p) (simp_all add: initProcesses_def pcb_def)
  have wf: "l_wf naive_inv naive_live (lh ?s)" using early_okD(1) [OF assms(1)] e by simp
  note t = tailroom_initScheduler [of m ?s, unfolded e, OF assms(2,3), folded assms(5)]
  show "tailroom m (lmem (lh s'))" by (fact t(1))
  note S = naive.initScheduler_spec [OF wf assms(5) t(2)]
  have S': "naive_swf s'" "currentProcess s' = 0" "processes s' = processes ?s" "rqueued s' = {#}" "placed s'"
    using S ps by simp_all
  show "rqueued s' = {#}" "placed s'" "currentProcess s' = 0" by (fact S')+
  show "\<forall>i < 100. pstate (processes s' i) = EXITED" unfolding S'(3) by (simp add: initProcesses_def)
  let ?q = "init_queues naive_mm [0..<5] ?s"
  have s': "s' = ?q\<lparr>currentProcess := 0\<rparr>" using assms(5) by (simp add: initScheduler_def)
  have fr: "sched.more (init_queues naive_mm is x) = sched.more x \<and> cpu_rsp (init_queues naive_mm is x) = cpu_rsp x"
    for "is" and x :: "(naive, 'b) sched_scheme"
    by (induction "is" arbitrary: x) (auto split: prod.splits)
  show m: "sched.more s' = sched.more s" and "cpu_rsp s' = cpu_rsp s" by (simp_all add: s' fr initProcesses_def)
  have "\<forall>i < 5. priorityQueues ?q i \<noteq> 0" using t(2) by (simp add: s')
  note Q = naive.init_queues_spec [OF wf _ refl, of "[0..<5]"]
  have Q': "\<forall>i. \<not> i < 5 \<longrightarrow> priorityQueues s' i = priorityQueues s i" "\<forall>i < 5. lq (lh s) (priorityQueues s' i) = None"
    "\<forall>q xs. lq (lh s) q = Some xs \<longrightarrow> lq (lh s') q = Some xs"
    using Q t(2) by (simp_all add: s' e)
  show pq: "\<forall>i \<ge> 5. priorityQueues s' i = 0" using Q'(1) assms(4) by simp
  have sm: "sems s' = sems s" using m by (rule same_more(1))
  have ok: "sem_ok s' i" if "i < 500" "used (sems s i)" for i
  proof -
    note E = early_okD(3,4) [OF assms(1) that]
    have q: "lq (lh s') (waiting (sems s i)) = Some []" using E(1) Q'(3) by blast
    have "priorityQueues s' j \<noteq> waiting (sems s i)" for j
      using E Q'(2) pq by (cases "j < 5") (auto simp: not_less)
    then have "waiting (sems s i) \<notin> range (priorityQueues s')" by (metis rangeE)
    then show ?thesis using q E(2) by (simp add: sem_ok_def sem_wait_list_def sm qdata_def qnodes_def domI)
  qed
  show "sem_inv naive_inv naive_live s'"
    unfolding sem_inv_def sm using S'(1) ok early_okD(2,5) [OF assms(1)] by blast
qed


section \<open>The parts of the kernel\<close>

text \<open>The variables of the kernel as \<open>clearBSS\<close> leaves them.\<close>

definition cleared :: "naive kernel \<Rightarrow> bool" where
  "cleared s \<longleftrightarrow> lq (lh s) = Map.empty \<and> currentProcess s = 0 \<and> nullPid s = 0 \<and> priorityQueues s = (\<lambda>_. 0)
     \<and> (\<forall>i < 500. sname (sems s i) = replicate 28 (CHR 0x00)) \<and> \<not> hung s \<and> \<not> stray s"

lemma sem_name_zero:
  assumes "sname (sems s i) = nm @ replicate (Suc k) (CHR 0x00)" and "CHR 0x00 \<notin> set nm"
  shows "sem_name s i = nm"
proof -
  have "takeWhile (\<lambda>c. c \<noteq> CHR 0x00) (nm @ CHR 0x00 # ys) = nm" for ys
    using assms(2) by (subst takeWhile_append2) auto
  then show ?thesis by (simp add: sem_name_def name_bytes_def assms(1))
qed

text \<open>The first semaphores have the names and values \<open>ns\<close>; no other is in use.\<close>

definition name_ok :: "string \<Rightarrow> bool" where
  "name_ok nm \<longleftrightarrow> length nm < 28 \<and> CHR 0x00 \<notin> set nm"

definition sems_named :: "(naive, 'z) sem_state_scheme \<Rightarrow> (string \<times> int) list \<Rightarrow> bool" where
  "sems_named s ns \<longleftrightarrow> early_ok s \<and> getpid s = 0 \<and> (\<forall>i < 500. used (sems s i) \<longleftrightarrow> i < length ns)
     \<and> (\<forall>i < length ns. name_ok (fst (ns ! i)) \<and> svalue (sems s i) = snd (ns ! i)
          \<and> sname (sems s i) = fst (ns ! i) @ replicate (28 - length (fst (ns ! i))) (CHR 0x00))
     \<and> (\<forall>i < 500. length ns \<le> i \<longrightarrow> sname (sems s i) = replicate 28 (CHR 0x00))"

lemma semCreate_next:
  assumes "sems_named s ns" and "tailroom (40 + m) (lmem (lh s))" and "8 \<le> m" and "name_ok nm" and "nm \<notin> fst ` set ns"
    and "length ns < 500" and "0 \<le> v" and "semCreate naive_mm nm v s = (r, t)"
  shows "r = int (length ns)" and "t = s\<lparr>lh := lh t, sems := sems t\<rparr>" and "sems_named t (ns @ [(nm, v)])" and "tailroom m (lmem (lh t))"
proof -
  let ?j = "length ns"
  have S: "early_ok s" "getpid s = 0" using assms(1) by (simp_all add: sems_named_def)
  have neq: "strcmp (sem_name s i) nm \<noteq> 0" if "i < ?j" for i
  proof -
    let ?x = "fst (ns ! i)"
    have x: "name_ok ?x" "sname (sems s i) = ?x @ replicate (Suc (27 - length ?x)) (CHR 0x00)"
      using assms(1) that by (auto simp: sems_named_def name_ok_def Suc_diff_le simp del: replicate_Suc)
    have "?x \<noteq> nm" using assms(5) that by (metis image_eqI nth_mem)
    then show ?thesis
      using sem_name_zero [OF x(2)] x(1) assms(4) strcmp_eq_0 [of ?x nm] by (simp add: nulfree_def name_ok_def)
  qed
  have F: "findSemByName s nm = - 1" "findFreeSem s = int ?j" "\<not> used (sems s ?j)"
    using find_name_unused [of s nm] free_sem_first [of ?j s] neq assms(1,6) by (auto simp: sems_named_def)
  have nm: "length nm \<le> 28" using assms(4) by (simp add: name_ok_def)
  let ?t = "\<lambda>q l. s\<lparr>lh := l, sems := (sems s)(?j := fresh_sem nm v q (getpid s) (sems s ?j))\<rparr>"
  obtain q l where t: "t = ?t q l" and r: "r = int ?j" and e: "early_ok (?t q l)" and m: "tailroom m (lmem l)"
    by (rule semCreate_early [OF S(1) assms(2,3) nm F(1,2) assms(6) F(3)]) (use S(2) assms(7,8) in auto)
  show "r = int (length ns)" "t = s\<lparr>lh := lh t, sems := sems t\<rparr>" "tailroom m (lmem (lh t))" using t r m by simp_all
  have "getpid t = getpid s" by (simp add: t getpid_def getCurrentProcess_def pid_at_def pcb_def)
  then have g: "getpid t = 0" using S(2) by simp
  show "sems_named t (ns @ [(nm, v)])"
    unfolding sems_named_def using assms(1,4,6) e g
    by (auto simp: sems_named_def t fresh_sem_def nth_append less_Suc_eq)
qed

lemma sems_named_frame [simp]:
  "sems_named (s\<lparr>fileDescriptors := f\<rparr>) ns = sems_named s ns" "sems_named (s\<lparr>streams := x\<rparr>) ns = sems_named s ns"
  "sems_named (s\<lparr>kbd := k\<rparr>) ns = sems_named s ns" "sems_named (s\<lparr>con := c\<rparr>) ns = sems_named s ns"
  by (simp_all add: sems_named_def getpid_def getCurrentProcess_def pid_at_def pcb_def)

lemma sem_fields_only:
  fixes s t :: "('m, 'z) kernel_scheme"
  assumes "t = s\<lparr>lh := l, sems := x\<rparr>"
  shows "fileDescriptors t = fileDescriptors s" "streams t = streams s" "con t = con s" "kbd t = kbd s" "hung t = hung s"
    "stray t = stray s" "priorityQueues t = priorityQueues s" "cpu_rsp t = cpu_rsp s"
  using assms by simp_all

text \<open>Where \<open>kernel_setup\<close> leaves the kernel.\<close>

definition services :: "naive kernel \<Rightarrow> bool" where
  "services t \<longleftrightarrow> (\<forall>i < 500. used (sems t i) \<longleftrightarrow> i < 3)
     \<and> map (\<lambda>i. (sem_name t i, svalue (sems t i))) [0, 1, 2]
         = [(''/stdin_read'', 0), (''/stdin_write'', 2048), (''keyboard_input'', 0)]
     \<and> keyboard_semaphore (kbd t) = 2 \<and> readSem (streams t (resource (fileDescriptors t 0))) = 0
     \<and> writeSem (streams t (resource (fileDescriptors t 0))) = 1 \<and> fontSize (con t) = 2
     \<and> (\<forall>i < 1024. isOpen (fileDescriptors t i) \<longleftrightarrow> i < 3) \<and> \<not> hung t \<and> \<not> stray t"

definition set_up :: "naive kernel \<Rightarrow> naive kernel \<Rightarrow> bool" where
  "set_up s t \<longleftrightarrow> sem_inv naive_inv naive_live t \<and> rqueued t = {#} \<and> placed t \<and> currentProcess t = 0
     \<and> (\<forall>i < 100. pstate (processes t i) = EXITED) \<and> cpu_rsp t = cpu_rsp s \<and> services t"

lemma services_frame: "sched.more t = sched.more s \<Longrightarrow> services t = services s"
  using same_kernel [of t s] same_more [of t s] by (simp add: services_def sem_name_def name_bytes_def)

lemma init_fds_spec:
  assumes "sems_named s []" and "tailroom (5000 + m) (lmem (lh s))" and "8 \<le> m"
    and "t = snd (initFileDescriptors naive_mm s)"
  shows "sems_named t [(''/stdin_read'', 0), (''/stdin_write'', 2048)]" and "tailroom m (lmem (lh t))"
    and "readSem (streams t (resource (fileDescriptors t 0))) = 0"
    and "writeSem (streams t (resource (fileDescriptors t 0))) = 1"
    and "\<forall>i < 1024. isOpen (fileDescriptors t i) \<longleftrightarrow> i < 3"
    and "con t = con s" "kbd t = kbd s" "hung t = hung s" "stray t = stray s" "priorityQueues t = priorityQueues s"
      "cpu_rsp t = cpu_rsp s"
proof -
  define s1 where "s1 = s\<lparr>fileDescriptors := (\<lambda>i. if i < MAX_FDS then (fileDescriptors s i)\<lparr>isOpen := False, resource := 0\<rparr>
                                        else fileDescriptors s i)\<rparr>"
  obtain a s2 where al: "k_alloc naive_mm sizeof_Stream s1 = (a, s2)" by force
  have e1: "early_ok s1" "getpid s1 = 0" "sems_named s1 []" using assms(1) by (simp_all add: s1_def sems_named_def)
  have ok: "naive_okreq sizeof_Stream" by (simp add: naive_okreq_def sizeof_Stream_def)
  note A = early_alloc [OF e1(1) al ok]
  have g: "sems s2 = sems s1" "getpid s2 = getpid s1"
    using al by (auto simp: k_alloc_def getpid_def getCurrentProcess_def pid_at_def pcb_def split: prod.splits)
  have n2: "sems_named s2 []" using e1 A(1) unfolding sems_named_def g by blast
  have "tailroom (unat (ALIGN 2080) + 24 + (2000 + m)) (lmem (lh s1))"
    using tailroom_mono [OF assms(2)] by (simp add: s1_def ALIGN_unfold)
  from tailroom_alloc(2) [OF this] have m2: "tailroom (2000 + m) (lmem (lh s2))"
    using al assms(3) by (auto simp: k_alloc_def sizeof_Stream_def split: prod.splits)
  define s3 where "s3 = upd_stream a fresh_stream (upd_fd 0 (\<lambda>f. f\<lparr>isOpen := True, fmode := FRW, resource := a\<rparr>) s2)"
  have n3: "sems_named s3 []" and m3: "tailroom (40 + (1900 + m)) (lmem (lh s3))"
    using n2 tailroom_mono [OF m2] by (simp_all add: s3_def upd_stream_def upd_fd_def)
  obtain r s4 where c1: "semCreate naive_mm ''/stdin_read'' 0 s3 = (r, s4)" by force
  note C1 = semCreate_next [OF n3 m3 _ _ _ _ _ c1]
  define s5 where "s5 = upd_stream a (\<lambda>x. x\<lparr>readSem := r\<rparr>) s4"
  have n5: "sems_named s5 [(''/stdin_read'', 0)]" and m5: "tailroom (40 + (1800 + m)) (lmem (lh s5))"
    using C1(3,4) tailroom_mono [of "1900 + m" _ "1840 + m"] assms(3) by (simp_all add: s5_def upd_stream_def name_ok_def)
  obtain w s6 where c2: "semCreate naive_mm ''/stdin_write'' 2048 s5 = (w, s6)" by force
  note C2 = semCreate_next [OF n5 m5 _ _ _ _ _ c2]
  have t: "t = upd_fd 2 (\<lambda>f. f\<lparr>isOpen := True, fmode := FW, resource := 0\<rparr>)
      (upd_fd 1 (\<lambda>f. f\<lparr>isOpen := True, fmode := FW, resource := 0\<rparr>) (upd_stream a (\<lambda>x. x\<lparr>writeSem := w\<rparr>) s6))"
    using assms(4) al c1 c2 unfolding s1_def s3_def s5_def
    by (simp add: initFileDescriptors_def open_sems_def Let_def)
  have rw: "r = 0" "w = 1" using C1(1) C2(1) assms(3) by (simp_all add: name_ok_def)
  have "s4 = s3\<lparr>lh := lh s4, sems := sems s4\<rparr>" "s6 = s5\<lparr>lh := lh s6, sems := sems s6\<rparr>"
    using C1(2) C2(2) assms(3) by (simp_all add: name_ok_def)
  note f4 = sem_fields_only [OF this(1)] and f6 = sem_fields_only [OF this(2)]
  have f2: "fileDescriptors s2 = fileDescriptors s1" "streams s2 = streams s1" "con s2 = con s1" "kbd s2 = kbd s1" "hung s2 = hung s1"
    "stray s2 = stray s1" "priorityQueues s2 = priorityQueues s1" "cpu_rsp s2 = cpu_rsp s1"
    using al by (auto simp: k_alloc_def split: prod.splits)
  have fd: "fileDescriptors t = (fileDescriptors s3)(1 := (fileDescriptors s3 1)\<lparr>isOpen := True, fmode := FW, resource := 0\<rparr>,
      2 := (fileDescriptors s3 2)\<lparr>isOpen := True, fmode := FW, resource := 0\<rparr>)"
    by (simp add: t f6 s5_def f4)
  show "sems_named t [(''/stdin_read'', 0), (''/stdin_write'', 2048)]" "tailroom m (lmem (lh t))"
    using C2(3,4) assms(3) tailroom_mono [of "1800 + m" _ m] by (simp_all add: t upd_fd_def upd_stream_def name_ok_def)
  show "readSem (streams t (resource (fileDescriptors t 0))) = 0" "writeSem (streams t (resource (fileDescriptors t 0))) = 1"
    unfolding fd by (simp_all add: t f6 s5_def f4 s3_def f2 rw)
  show "\<forall>i < 1024. isOpen (fileDescriptors t i) \<longleftrightarrow> i < 3"
    unfolding fd by (auto simp: s3_def f2 s1_def)
  show "con t = con s" "kbd t = kbd s" "hung t = hung s" "stray t = stray s" "priorityQueues t = priorityQueues s"
      "cpu_rsp t = cpu_rsp s"
    using f2 f4 f6 by (simp_all add: t s5_def s3_def s1_def upd_stream_def upd_fd_def)
qed

lemma setup_spec:
  assumes "cleared s" and "t = kernel_setup naive_mm createMemoryManager_naive s"
  shows "set_up s t" and "tailroom 100000 (lmem (lh t))"
proof -
  define s1 where "s1 = initSemManager (s\<lparr>lh := (lh s)\<lparr>lmem := createMemoryManager_naive (lmem (lh s)) memoryStart memorySize\<rparr>\<rparr>)"
  have room1: "tailroom 4194280 (lmem (lh s1))"
    using tailroom_create [of memoryStart memorySize "lmem (lh s)"]
    by (simp add: s1_def initSemManager_def memoryStart_def memorySize_def dvd_def)
  have lq1: "lq (lh s1) = Map.empty" using assms(1) by (simp add: s1_def initSemManager_def cleared_def)
  have "l_wf naive_inv naive_live (lh s1)"
    using tailroom_inv [OF room1] lq1 by (simp add: l_wf_def owned_def qnodes_def)
  then have n1: "sems_named s1 []"
    using assms(1) by (simp add: sems_named_def early_ok_def s1_def initSemManager_def cleared_def getpid_def getCurrentProcess_def pid_at_def)
  define s2 where "s2 = snd (initFileDescriptors naive_mm s1)"
  have "tailroom (5000 + 200000) (lmem (lh s1))" using tailroom_mono [OF room1] by simp
  note F = init_fds_spec [OF n1 this _ s2_def, simplified]
  obtain k s3 where c: "semCreate naive_mm ''keyboard_input'' 0 s2 = (k, s3)" by force
  have "tailroom (40 + 150000) (lmem (lh s2))" using tailroom_mono [OF F(2)] by simp
  note C = semCreate_next [OF F(1) this _ _ _ _ _ c, simplified name_ok_def, simplified]
  note f3 = sem_fields_only [OF C(2)]
  define s4 where "s4 = upd_con (\<lambda>c. snd (setFontSize 2 c)) (upd_kbd (\<lambda>x. x\<lparr>keyboard_semaphore := k\<rparr>) s3)"
  have t: "t = initScheduler naive_mm (initProcesses s4)"
    using assms(2) c unfolding s1_def s2_def s4_def by (simp add: kernel_setup_def initKeyboard_def Let_def)
  have n4: "sems_named s4 [(''/stdin_read'', 0), (''/stdin_write'', 2048), (''keyboard_input'', 0)]"
    using C(3) by (simp add: s4_def upd_con_def upd_kbd_def)
  have m4: "tailroom (200 + 100000) (lmem (lh s4))" using tailroom_mono [OF C(4)] by (simp add: s4_def upd_con_def upd_kbd_def)
  have pq: "\<forall>i \<ge> 5. priorityQueues s4 i = 0"
    using assms(1) by (simp add: s4_def upd_con_def upd_kbd_def f3 F s1_def initSemManager_def cleared_def)
  have e4: "early_ok s4" using n4 by (simp add: sems_named_def)
  note S = early_scheduler [OF e4 m4 _ pq t, simplified]
  show "tailroom 100000 (lmem (lh t))" by (fact S(2))
  note K = same_kernel [OF S(7)]
  have m: "sems t = sems s4" "stray t = stray s4" using same_more [OF S(7)] by simp_all
  have nm: "sem_name t i = fst (ns ! i) \<and> svalue (sems t i) = snd (ns ! i)"
    if "i < length ns" and "ns = [(''/stdin_read'', 0), (''/stdin_write'', 2048), (''keyboard_input'', 0)]" for i ns
  proof -
    have x: "sname (sems t i) = fst (ns ! i) @ replicate (28 - length (fst (ns ! i))) (CHR 0x00)" "name_ok (fst (ns ! i))"
      "svalue (sems t i) = snd (ns ! i)"
      using n4 that unfolding sems_named_def m by blast+
    have "28 - length (fst (ns ! i)) = Suc (27 - length (fst (ns ! i)))" using x(2) unfolding name_ok_def by linarith
    note x(1) [unfolded this]
    from sem_name_zero [OF this] show ?thesis using x by (simp add: name_ok_def)
  qed
  have names: "map (\<lambda>i. (sem_name t i, svalue (sems t i))) [0, 1, 2]
         = [(''/stdin_read'', 0), (''/stdin_write'', 2048), (''keyboard_input'', 0)]"
    using nm [OF _ refl, of 0] nm [OF _ refl, of 1] nm [OF _ refl, of 2] by simp
  have used: "\<forall>i < 500. used (sems t i) \<longleftrightarrow> i < 3" using n4 unfolding sems_named_def m numeral_3_eq_3 by simp
  have kb: "keyboard_semaphore (kbd t) = 2" "fontSize (con t) = 2"
    using C(1) by (simp_all add: K s4_def upd_con_def upd_kbd_def setFontSize_def Let_def)
  have fd: "fileDescriptors t = fileDescriptors s2" "streams t = streams s2" "hung t = hung s" "stray t = stray s"
    by (simp_all add: K m s4_def upd_con_def upd_kbd_def f3 F s1_def initSemManager_def)
  have rsp: "cpu_rsp t = cpu_rsp s" using S(8) by (simp add: s4_def upd_con_def upd_kbd_def f3 F s1_def initSemManager_def)
  show "set_up s t"
    unfolding set_up_def services_def fd using S(1,3-6) names used kb F(3-5) rsp assms(1) by (simp add: cleared_def)
qed

section \<open>The first processes\<close>

lemma params_ok:
  "c_argc (init_params idle) = 0" "checkPriority (c_priority (init_params idle))" "c_entryPoint (init_params idle) = idle"
  "checkName (c_name (init_params idle))" "c_argc shell_params = 0" "checkPriority (c_priority shell_params)"
  "c_entryPoint shell_params \<noteq> 0" "checkName (c_name shell_params)"
  by (simp_all add: init_params_def shell_params_def checkPriority_def checkName_def INIT_PRIORITY_def SHELL_PRIORITY_def
      shellModuleAddress_def)

text \<open>After \<open>init\<close> is created, and after \<open>shell\<close> is.\<close>

lemma start_init_spec:
  assumes "cleared s" and "idle \<noteq> 0" and "s1 = kernel_setup naive_mm createMemoryManager_naive s" and "t = start_init naive_mm idle s1"
  shows "created naive_mm naive_inv naive_live (init_params idle) 1 s1 t" and "tailroom 60000 (lmem (lh t))"
    and "rqueued t = {#1#}" and "placed t" and "sched.more t = sched.more s1"
proof -
  have room: "tailroom (4200 + 60000) (lmem (lh s1))" using tailroom_mono [OF setup_spec(2) [OF assms(1,3)]] by simp
  have S: "sem_inv naive_inv naive_live s1" "rqueued s1 = {#}" "placed s1" "pstate (processes s1 0) = EXITED"
    using setup_spec(1) [OF assms(1,3)] by (simp_all add: set_up_def)
  have e: "c_entryPoint (init_params idle) \<noteq> 0" using assms(2) by (simp add: params_ok)
  note C = create_room [OF S(1) room _ S(4) _ _ params_ok(1,2) e params_ok(4) assms(4) [unfolded start_init_def], simplified]
  show "created naive_mm naive_inv naive_live (init_params idle) 1 s1 t" "tailroom 60000 (lmem (lh t))"
    "rqueued t = {#1#}" "placed t" "sched.more t = sched.more s1"
    using C S by simp_all
qed

lemma start_shell_spec:
  assumes "cleared s" and "idle \<noteq> 0" and "s1 = kernel_setup naive_mm createMemoryManager_naive s" and "s2 = start_init naive_mm idle s1"
    and "t = start_shell naive_mm s2"
  shows "created naive_mm naive_inv naive_live shell_params 2 s2 t" and "tailroom 50000 (lmem (lh t))"
    and "rqueued t = {#1, 2#}" and "placed t" and "sched.more t = sched.more s1"
proof -
  note I = start_init_spec [OF assms(1-4)]
  have room: "tailroom (4200 + 50000) (lmem (lh s2))" using tailroom_mono [OF I(2)] by simp
  have "\<forall>i < 100. pstate (processes s1 i) = EXITED" using setup_spec(1) [OF assms(1,3)] by (simp add: set_up_def)
  then have "pstate (pcb s1 2) = EXITED" by (simp add: pcb_def)
  then have S: "sem_inv naive_inv naive_live s2" "pstate (processes s2 1) = EXITED" "\<forall>k < 1. pstate (processes s2 k) \<noteq> EXITED"
    using I(1) by (auto simp: created_def fill_pcb_def pcb_def dest: spec [of _ 2])
  note C = create_room [OF S(1) room _ S(2,3) _ params_ok(5-8) assms(5) [unfolded start_shell_def], simplified]
  show "created naive_mm naive_inv naive_live shell_params 2 s2 t" "tailroom 50000 (lmem (lh t))"
    "rqueued t = {#1, 2#}" "placed t" "sched.more t = sched.more s1"
    using C I(3-5) by (simp_all add: numeral_2_eq_2 add_mset_commute)
qed

text \<open>The serving order goes by falling priority.\<close>

lemma serving_sorted:
  assumes "placed s"
  shows "sorted_wrt (\<lambda>p q. priority (pcb s q) \<le> priority (pcb s p)) (serving_order s)"
proof -
  have p: "priority (pcb s p) = i + 1" if "i < 5" "p \<in> set (rq s i)" for i p
    using assms that by (auto simp: placed_def)
  have one: "sorted_wrt (\<lambda>p q. priority (pcb s q) \<le> priority (pcb s p)) (rq s i)" if "i < 5" for i
    unfolding sorted_wrt_iff_nth_less using p [OF that] by (auto dest!: nth_mem)
  show ?thesis
    using one p [of 0] p [of 1] p [of 2] p [of 3] p [of 4] by (auto simp: serving_order_def sorted_wrt_append)
qed

lemma two_served:
  assumes "placed s" and "rqueued s = {#1, 2#}" and "priority (pcb s 1) < priority (pcb s 2)"
  shows "serving_order s = [2, 1]"
proof -
  have m: "mset (serving_order s) = {#1, 2#}" by (simp add: mset_serving assms(2))
  then have "length (serving_order s) = 2" by (metis size_mset size_add_mset size_empty Suc_1 One_nat_def)
  then obtain a b where ab: "serving_order s = [a, b]" by (auto simp: numeral_2_eq_2 length_Suc_conv)
  have "set [a, b] = {1, 2}" using m unfolding ab by (metis set_mset_mset set_mset_add_mset_insert set_mset_empty)
  then have "a = 1 \<and> b = 2 \<or> a = 2 \<and> b = 1" by (auto simp: doubleton_eq_iff)
  moreover have "priority (pcb s b) \<le> priority (pcb s a)" using serving_sorted [OF assms(1)] by (simp add: ab)
  ultimately show ?thesis using assms(3) ab by auto
qed

text \<open>The two processes once they are created, and all others.\<close>

lemma createdD:
  assumes "created M I lv c p s t"
  shows "sem_inv I lv t" and "\<exists>st args. pcb t p = fill_pcb c st args (pcb s p)" and "\<forall>q \<ge> 1. q \<noteq> p \<longrightarrow> pcb t q = pcb s q"
    and "currentProcess t = currentProcess s"
  using assms by (auto simp: created_def)

lemma two_processes:
  assumes "cleared s" and "idle \<noteq> 0" and "s1 = kernel_setup naive_mm createMemoryManager_naive s" and "s2 = start_init naive_mm idle s1"
    and "s3 = start_shell naive_mm s2"
  obtains st1 a1 st2 a2 where "pcb s3 1 = fill_pcb (init_params idle) st1 a1 (pcb s1 1)"
    and "pcb s3 2 = fill_pcb shell_params st2 a2 (pcb s1 2)" and "\<forall>q \<ge> 3. pcb s3 q = pcb s1 q"
    and "sem_inv naive_inv naive_live s3" and "currentProcess s3 = 0"
proof -
  note I = createdD [OF start_init_spec(1) [OF assms(1-4)]] and S = createdD [OF start_shell_spec(1) [OF assms]]
  obtain st1 a1 st2 a2 where "pcb s2 1 = fill_pcb (init_params idle) st1 a1 (pcb s1 1)" "pcb s3 2 = fill_pcb shell_params st2 a2 (pcb s2 2)"
    using I(2) S(2) by blast
  moreover have "pcb s3 1 = pcb s2 1" "pcb s2 2 = pcb s1 2" "\<forall>q \<ge> 3. pcb s3 q = pcb s1 q" using I(3) S(3) by simp_all
  moreover have "currentProcess s3 = 0" using I(4) S(4) setup_spec(1) [OF assms(1,3)] by (simp add: set_up_def)
  ultimately show ?thesis using that S(1) by simp
qed

text \<open>The dispatch at the end of \<open>main\<close>, and any timer tick while no process runs.\<close>

lemma first_dispatch:
  assumes "sem_inv naive_inv naive_live s" and "currentProcess s = 0" and "serving_order s = p # ps" and "t = irq00Handler naive_mm s"
  shows "sem_inv naive_inv naive_live t" and "currentProcess t = p" and "serving_order t = ps" and "cpu_rsp t = stackEnd (pcb s p)"
    and "\<forall>q \<ge> 1. pcb t q = (if q = p then (pcb s q)\<lparr>pstate := RUNNING, agingCounter := 0\<rparr> else pcb s q)"
    and "sched.more t = sched.more s" and "rqueued t = mset ps" and "p \<noteq> 0"
proof -
  have sw: "naive_swf s" using assms(1) by (simp add: sem_inv_def)
  show "sched.more t = sched.more s" by (simp add: assms(4) irq00_more)
  show "sem_inv naive_inv naive_live t"
    using naive.sem_inv_step(1) [OF assms(1) naive.step_irq00 [OF sw]] by (simp add: assms(4))
  let ?s = "s\<lparr>ticks := ticks s + 1\<rparr>"
  obtain r u where sc: "switchContext naive_mm (cpu_rsp s) ?s = (r, u)" by force
  have t: "t = u\<lparr>cpu_rsp := r\<rparr>" using sc by (simp add: assms(4) irq00_fields Let_def)
  have w: "naive_swf ?s" "currentProcess ?s = 0" using sw assms(2) by simp_all
  from naive.switch_idle_start(3) [OF w sc] show res: "currentProcess t = p" "serving_order t = ps" "p \<noteq> 0"
    "cpu_rsp t = stackEnd (pcb s p)"
    "\<forall>q \<ge> 1. pcb t q = (if q = p then (pcb s q)\<lparr>pstate := RUNNING, agingCounter := 0\<rparr> else pcb s q)"
    using assms(3) by (auto simp: t)
  show "rqueued t = mset ps" using res(2) by (metis mset_serving)
qed

text \<open>What \<open>main\<close> ends in, in terms of the table before the shell is dispatched.\<close>

lemma booted:
  assumes "cleared s" and "idle \<noteq> 0" and "kernel_main naive_mm createMemoryManager_naive idle entry (s, c) = (t, c')"
    and s1: "s1 = kernel_setup naive_mm createMemoryManager_naive s" and s2: "s2 = start_init naive_mm idle s1"
    and s3: "s3 = start_shell naive_mm s2"
  shows "sem_inv naive_inv naive_live t" and "services t" and "currentProcess t = 2" and "rqueued t = {#1#}"
    and "cpu_rsp t = stackEnd (pcb s3 2)"
    and "\<forall>q \<ge> 1. pcb t q = (if q = 2 then (pcb s3 q)\<lparr>pstate := RUNNING, agingCounter := 0\<rparr> else pcb s3 q)"
    and "interrupts_on c'"
proof -
  have t: "t = irq00Handler naive_mm s3" and on: "interrupts_on c'"
    using assms(3) by (auto simp: kernel_main_def forceSwitchContext_def s1 s2 s3 Let_def)
  note U = setup_spec(1) [OF assms(1) s1, unfolded set_up_def] and S = start_shell_spec [OF assms(1,2) s1 s2 s3]
  obtain st1 a1 st2 a2 where p: "pcb s3 1 = fill_pcb (init_params idle) st1 a1 (pcb s1 1)"
    "pcb s3 2 = fill_pcb shell_params st2 a2 (pcb s1 2)"
    and c: "sem_inv naive_inv naive_live s3" "currentProcess s3 = 0"
    by (rule two_processes [OF assms(1,2) s1 s2 s3])
  have pr: "priority (pcb s3 1) < priority (pcb s3 2)"
    unfolding p by (simp add: fill_pcb_def init_params_def shell_params_def INIT_PRIORITY_def SHELL_PRIORITY_def)
  note D = first_dispatch [OF c two_served [OF S(4,3) pr] t]
  show "services t" using services_frame [of t s1] D(6) S(5) U by simp
  show "sem_inv naive_inv naive_live t" "currentProcess t = 2" "rqueued t = {#1#}" "cpu_rsp t = stackEnd (pcb s3 2)"
    "\<forall>q \<ge> 1. pcb t q = (if q = 2 then (pcb s3 q)\<lparr>pstate := RUNNING, agingCounter := 0\<rparr> else pcb s3 q)" "interrupts_on c'"
    using D(1,2,4,5,7) on by simp_all
qed

section \<open>Properties\<close>

text \<open>
  C32: the start of the kernel. From cleared variables, \<open>main\<close> with the naive manager establishes the
  invariant of the kernel, and brings up the three semaphores of the standard streams and of the
  keyboard, and the three standard descriptors. It ends in the first instruction of the shell,
  process 2, in the foreground and with the highest priority, whose stack is the one that the
  processor uses; init, process 1, is ready and waits with the lowest priority; there is no other.
\<close>

theorem boot_starts_shell:
  assumes "cleared s" and "idle \<noteq> 0" and "kernel_main naive_mm createMemoryManager_naive idle entry (s, c) = (t, c')"
  shows "interrupts_on c' \<and> sem_inv naive_inv naive_live t \<and> services t \<and> currentProcess t = 2 \<and> rqueued t = {#1#}
    \<and> pstate (pcb t 1) = READY \<and> pname (pcb t 1) = ''init'' \<and> priority (pcb t 1) = 1 \<and> entryPoint (pcb t 1) = idle
    \<and> pstate (pcb t 2) = RUNNING \<and> pname (pcb t 2) = ''shell'' \<and> priority (pcb t 2) = 5
    \<and> entryPoint (pcb t 2) = 0x400000 \<and> foreground (pcb t 2) = 1 \<and> fd_in (pcb t 2) = 0 \<and> fd_out (pcb t 2) = 1
    \<and> cpu_rsp t = stackEnd (pcb t 2) \<and> stackEnd (pcb t 2) = stackBase (pcb t 2) - 160
    \<and> (\<forall>p. 3 \<le> p \<and> p \<le> 100 \<longrightarrow> pstate (pcb t p) = EXITED)"
proof -
  define s1 where "s1 = kernel_setup naive_mm createMemoryManager_naive s"
  define s2 where "s2 = start_init naive_mm idle s1"
  define s3 where "s3 = start_shell naive_mm s2"
  note U = setup_spec(1) [OF assms(1) s1_def, unfolded set_up_def]
  obtain st1 a1 st2 a2 where p: "pcb s3 1 = fill_pcb (init_params idle) st1 a1 (pcb s1 1)"
    "pcb s3 2 = fill_pcb shell_params st2 a2 (pcb s1 2)" "\<forall>q \<ge> 3. pcb s3 q = pcb s1 q"
    by (rule two_processes [OF assms(1,2) s1_def s2_def s3_def])
  note D = booted [OF assms s1_def s2_def s3_def]
  have ex: "pstate (pcb t q) = EXITED" if "3 \<le> q" "q \<le> 100" for q
  proof -
    have "pcb t q = pcb s1 q" using D(6) p(3) that by simp
    moreover have "q - 1 < 100" using that by linarith
    ultimately show ?thesis using U by (simp add: pcb_def)
  qed
  have q: "pcb t 1 = pcb s3 1" "pcb t 2 = (pcb s3 2)\<lparr>pstate := RUNNING, agingCounter := 0\<rparr>" using D(6) by simp_all
  show ?thesis
    using D(1-5,7) ex unfolding q p
    by (simp add: fill_pcb_def init_params_def shell_params_def INIT_PRIORITY_def SHELL_PRIORITY_def
        shellModuleAddress_def setupStack_def)
qed

definition power_on :: "naive kernel" where
  "power_on = boot_kernel demo_keyboard (sched.extend
     \<lparr>lh = \<lparr>lmem = no_pool, lq = Map.empty\<rparr>, processes = demo_process, currentProcess = 0, quantumsLeft = 0,
      isYield = False, priorityQueues = (\<lambda>_. 0), ticks = 0, cpu_rsp = 7, nullPid = 0, nullForeground = 0\<rparr>
     \<lparr>sems = (\<lambda>_. demo_slot ''''), hung = False, stray = False\<rparr>)"

lemma power_on_cleared: "cleared power_on"
  by (simp add: cleared_def power_on_def boot_kernel_def sem_state.defs sched.defs demo_slot_def)

lemma boot_starts_shell_witness:
  "currentProcess (fst (kernel_main naive_mm createMemoryManager_naive 0x100123 (\<lambda>_. 0) (power_on, demo_cpu))) = 2
   \<and> keyboard_semaphore (kbd (fst (kernel_main naive_mm createMemoryManager_naive 0x100123 (\<lambda>_. 0) (power_on, demo_cpu)))) = 2"
  using boot_starts_shell [OF power_on_cleared _ surjective_pairing, of "0x100123"] by (simp add: services_def)

lemma unschedule_rsp: "unschedule M (s\<lparr>cpu_rsp := a\<rparr>) = (fst (unschedule M s), (snd (unschedule M s))\<lparr>cpu_rsp := a\<rparr>)"
proof -
  have "unschedule_from M n (s\<lparr>cpu_rsp := a\<rparr>) = (fst (unschedule_from M n s), (snd (unschedule_from M n s))\<lparr>cpu_rsp := a\<rparr>)" for n
    by (induction n) (simp_all add: split_beta Let_def)
  then show ?thesis by (simp add: unschedule_def)
qed

lemma idle_tick_forgets:
  assumes "currentProcess s = 0" and "fst (unschedule M (s\<lparr>ticks := ticks s + 1\<rparr>)) \<noteq> 0"
  shows "irq00Handler M (s\<lparr>cpu_rsp := a\<rparr>) = irq00Handler M s"
proof -
  let ?t = "s\<lparr>ticks := ticks s + 1\<rparr>"
  have e: "s\<lparr>cpu_rsp := a, ticks := ticks s + 1\<rparr> = ?t\<lparr>cpu_rsp := a\<rparr>" by simp
  obtain p u where u: "unschedule M ?t = (p, u)" by force
  then have "unschedule M (s\<lparr>cpu_rsp := a, ticks := ticks s + 1\<rparr>) = (p, u\<lparr>cpu_rsp := a\<rparr>)"
    unfolding e unschedule_rsp by simp
  then show ?thesis
    using assms u by (simp add: irq00_fields switchContext_def Let_def run_current_def upd_pcb_def pcb_def)
qed

text \<open>
  C33: the window before the shell exists. Interrupts are on from \<open>load_idt\<close> and \<open>_sti\<close> on. A timer
  tick after init is created and before the shell is dispatches init, with nothing else to run, and
  the outcome does not depend on the stack pointer \<open>a\<close> of the interrupted \<open>main\<close>: it is kept
  nowhere, so \<open>main\<close> cannot be continued to create the shell.
\<close>

theorem boot_race:
  assumes "cleared s" and "idle \<noteq> 0" and "s2 = start_init naive_mm idle (kernel_setup naive_mm createMemoryManager_naive s)"
    and "t = irq00Handler naive_mm s2"
  shows "irq00Handler naive_mm (s2\<lparr>cpu_rsp := a\<rparr>) = t \<and> currentProcess t = 1 \<and> pstate (pcb t 1) = RUNNING
    \<and> cpu_rsp t = stackEnd (pcb s2 1) \<and> rqueued t = {#} \<and> (\<forall>p. 2 \<le> p \<and> p \<le> 100 \<longrightarrow> pstate (pcb t p) = EXITED)"
proof -
  define s1 where "s1 = kernel_setup naive_mm createMemoryManager_naive s"
  note I = start_init_spec [OF assms(1,2) s1_def assms(3) [folded s1_def]]
  note C = createdD [OF I(1)] and U = setup_spec(1) [OF assms(1) s1_def, unfolded set_up_def]
  have c: "currentProcess s2 = 0" using C(4) U by simp
  have "mset (serving_order s2) = {#1#}" using I(3) by (simp add: mset_serving)
  then have so: "serving_order s2 = [1]" by (simp add: mset_single_iff_right)
  note D = first_dispatch [OF C(1) c so assms(4)]
  have "EXITED = pstate (pcb t p)" if "2 \<le> p" "p \<le> 100" for p
  proof -
    have "pcb t p = pcb s1 p" using D(5) C(3) that by simp
    moreover have "p - 1 < 100" using that by linarith
    ultimately show ?thesis using U by (simp add: pcb_def)
  qed
  moreover have "fst (unschedule naive_mm (s2\<lparr>ticks := ticks s2 + 1\<rparr>)) \<noteq> 0"
  proof -
    obtain p u where un: "unschedule naive_mm (s2\<lparr>ticks := ticks s2 + 1\<rparr>) = (p, u)" by force
    have "naive_swf (s2\<lparr>ticks := ticks s2 + 1\<rparr>)" using C(1) by (simp add: sem_inv_def)
    from naive.swfD(1,7) [OF this] un show ?thesis by (cases rule: naive.unschedule_cases) (use so un in simp_all)
  qed
  ultimately show ?thesis using idle_tick_forgets [OF c] D by (simp add: assms(4))
qed

lemma boot_race_witness:
  "currentProcess (irq00Handler naive_mm (start_init naive_mm 0x100123
     (kernel_setup naive_mm createMemoryManager_naive power_on))) = 1"
  using boot_race [OF power_on_cleared _ refl refl, of "0x100123"] by simp

end
