(* ===== verification/Exceptions.thy ===== *)
theory Exceptions
  imports Boot
begin

text \<open>
  The exceptions of the processor, \<open>Kernel/idt/exceptionDispatcher.c\<close>: the screen with the registers,
  and the wait for the key \<open>r\<close>, with the timer masked. The interrupt masks are fields of \<open>cpu\<close>.
\<close>

section \<open>The program\<close>

definition register_names :: "string list" where
  "register_names = [''rax'', ''rbx'', ''rcx'', ''rdx'', ''rbp'', ''rdi'', ''rsi'', ''r8 '', ''r9 '', ''r10'', ''r11'',
     ''r12'', ''r13'', ''r14'', ''r15'', ''rsp'', ''rip'', ''rflags'']"

definition ZERO_EXCEPTION_ID :: int where "ZERO_EXCEPTION_ID = 0"
definition INVALID_OPCODE_ID :: int where "INVALID_OPCODE_ID = 6"

definition say :: "string \<Rightarrow> console \<Rightarrow> console" where
  "say str = print (map byte str)"

definition print_register :: "string \<times> u64 \<Rightarrow> console \<Rightarrow> console" where
  "print_register r c = newLine (printHex (snd r) (say '': '' (say (fst r) c)))"

text \<open>What \<open>printExceptionData\<close> prints before it waits.\<close>

definition exception_data :: "u64 list \<Rightarrow> int \<Rightarrow> console \<Rightarrow> console" where
  "exception_data registers errorCode c =
     (let c1 = say '') triggered
'' (printDec (of_int errorCode) (say ''Exception (# '' c));
          c2 = say ''Current registers values are
'' c1;
          c3 = fold print_register (zip register_names registers) c2
      in say ''Press r to go back to Shell'' (setTextColor 0x00FFFFFF c3))"

text \<open>
  The loop that waits for the key. A round takes a character out of the buffer or goes to sleep,
  so one round more than the buffer holds is enough.
\<close>

fun wait_r :: "nat \<Rightarrow> 'm mm \<Rightarrow> ('m, 'z) kernel_scheme \<Rightarrow> unit outcome \<times> ('m, 'z) kernel_scheme" where
  "wait_r 0 M s = (Sleep, s\<lparr>hung := True\<rparr>)"
| "wait_r (Suc n) M s =
     (case getKeyboardCharacter M 0 s of
        (Sleep, s1) \<Rightarrow> (Sleep, s1)
      | (Ret a, s1) \<Rightarrow> if a \<noteq> byte (CHR ''r'') then wait_r n M s1 else (Ret (), s1))"

definition confirmed ::
  "unit outcome \<times> ('m, 'z) kernel_scheme \<Rightarrow> cpu \<Rightarrow> unit outcome \<times> ('m, 'z) kernel_scheme \<times> cpu" where
  "confirmed r c =
     (case r of
        (Sleep, s) \<Rightarrow> (Sleep, s, c)
      | (Ret u, s) \<Rightarrow> (Ret (), s, c\<lparr>pic_master := KEYBOARD_PIC_MASTER AND TIMER_PIC_MASTER, pic_slave := NO_INTERRUPTS\<rparr>))"

definition printExceptionData ::
  "'m mm \<Rightarrow> u64 list \<Rightarrow> int \<Rightarrow> ('m, 'z) kernel_scheme \<Rightarrow> cpu \<Rightarrow> unit outcome \<times> ('m, 'z) kernel_scheme \<times> cpu" where
  "printExceptionData M registers errorCode s c =
     (let s1 = upd_con (exception_data registers errorCode) s;
          c1 = c\<lparr>pic_master := KEYBOARD_PIC_MASTER, pic_slave := NO_INTERRUPTS\<rparr>
      in confirmed (wait_r (KBD_BUFFER_SIZE + 1) M s1) c1)"

text \<open>What a handler that sleeps executes when it is dispatched again.\<close>

definition printExceptionData_again ::
  "'m mm \<Rightarrow> ('m, 'z) kernel_scheme \<Rightarrow> cpu \<Rightarrow> unit outcome \<times> ('m, 'z) kernel_scheme \<times> cpu" where
  "printExceptionData_again M s c =
     confirmed (case getKeyboardCharacter_resume M s of
        (Sleep, s1) \<Rightarrow> (Sleep, s1)
      | (Ret a, s1) \<Rightarrow> if a \<noteq> byte (CHR ''r'') then wait_r (KBD_BUFFER_SIZE + 1) M s1 else (Ret (), s1)) c"

definition exception_title :: "u32 \<Rightarrow> string \<Rightarrow> string \<Rightarrow> console \<Rightarrow> console" where
  "exception_title color t1 t2 c =
     say t2 (snd (setFontSize 2 (say t1 (snd (setFontSize 3 (setTextColor color c))))))"

definition zero_division ::
  "'m mm \<Rightarrow> u64 list \<Rightarrow> int \<Rightarrow> ('m, 'z) kernel_scheme \<Rightarrow> cpu \<Rightarrow> unit outcome \<times> ('m, 'z) kernel_scheme \<times> cpu" where
  "zero_division M registers errorCode s c =
     printExceptionData M registers errorCode (upd_con (exception_title 0x00FF0000 ''Division exception
'' ''Arqui Screen of Death
'') s) c"

definition invalid_opcode ::
  "'m mm \<Rightarrow> u64 list \<Rightarrow> int \<Rightarrow> ('m, 'z) kernel_scheme \<Rightarrow> cpu \<Rightarrow> unit outcome \<times> ('m, 'z) kernel_scheme \<times> cpu" where
  "invalid_opcode M registers errorCode s c =
     printExceptionData M registers errorCode (upd_con (exception_title 0x00FF6600 ''Invalid Opcode Exception
'' ''Arqui screen of death
'') s) c"

definition exceptionDispatcher ::
  "'m mm \<Rightarrow> int \<Rightarrow> u64 list \<Rightarrow> ('m, 'z) kernel_scheme \<Rightarrow> cpu \<Rightarrow> unit outcome \<times> ('m, 'z) kernel_scheme \<times> cpu" where
  "exceptionDispatcher M exception registers s c =
     (let s1 = upd_con clear s
      in if exception = ZERO_EXCEPTION_ID then zero_division M registers exception s1 c
         else if exception = INVALID_OPCODE_ID then invalid_opcode M registers exception s1 c
         else (Ret (), s1, c))"

section \<open>Waiting for the key\<close>

lemma get_pending:
  assumes "kbd_ok (kbd s)" and "pending (kbd s) = a # as"
  shows "\<exists>s'. getKeyboardCharacter M 0 s = (Ret a, s') \<and> pending (kbd s') = as \<and> kbd_ok (kbd s')
    \<and> s' = s\<lparr>kbd := kbd s'\<rparr> \<and> keyboard_semaphore (kbd s') = keyboard_semaphore (kbd s)"
proof -
  let ?k = "(kbd s)\<lparr>keyboard_options := 0 OR MODIFY_BUFFER\<rparr>"
  let ?s = "s\<lparr>kbd := ?k\<rparr>"
  have k: "kbd_ok ?k" "pending ?k = a # as" using assms by (simp_all add: kbd_ok_def pending_def held_def)
  have "\<not> must_wait ?k" using pending_empty [OF k(1)] k(2) by (auto simp: must_wait_def)
  then have "getKeyboardCharacter M 0 s = (Ret (fst (take_char ?s)), snd (take_char ?s))"
    by (simp add: getKeyboardCharacter_def kbd_rounds_def upd_kbd_def split_beta Let_def)
  moreover have "pending ?k \<noteq> []" using k(2) by simp
  note P = pending_take [OF k(1) this refl]
  ultimately show ?thesis using P k(2) by (simp add: take_char_def upd_kbd_def)
qed

lemma sem_inv_kbd [simp]: "sem_inv I lv (s\<lparr>kbd := k\<rparr>) = sem_inv I lv s" "sem_inv I lv (s\<lparr>con := c\<rparr>) = sem_inv I lv s"
  by (simp_all add: sem_inv_def sem_ok_def sem_wait_list_def sched_wf_def queues_ok_def members_ok_def rqueued_def rq_def pcb_def)

lemma wait_r_spec:
  assumes "sem_inv naive_inv naive_live s" and "keyboard_semaphore (kbd s) = int i" and "i < 500"
    and "used (sems s i)" and "currentProcess s \<noteq> 0" and "kbd_ok (kbd s)" and "length (pending (kbd s)) < n"
    and "wait_r n naive_mm s = (r, s')"
  shows "hung s' = hung s \<and> (if byte (CHR ''r'') \<in> set (pending (kbd s))
     then r = Ret () \<and> pending (kbd s') = tl (dropWhile (\<lambda>a. a \<noteq> byte (CHR ''r'')) (pending (kbd s)))
     else r = Sleep \<and> pending (kbd s') = [])"
  using assms
proof (induction n arbitrary: s)
  case (Suc n)
  show ?case
  proof (cases "pending (kbd s)")
    case Nil
    obtain x t where g: "getKeyboardCharacter naive_mm 0 s = (x, t)" by force
    have "must_wait ((kbd s)\<lparr>keyboard_options := 0 OR MODIFY_BUFFER\<rparr>)"
      using Nil pending_empty [OF Suc.prems(6)] by (simp add: must_wait_def)
    then show ?thesis
      using keyboard_read_blocks [OF Suc.prems(1-6) g refl] g Suc.prems(8) Nil by simp
  next
    case (Cons a as)
    obtain t where t: "getKeyboardCharacter naive_mm 0 s = (Ret a, t)" "pending (kbd t) = as" "kbd_ok (kbd t)"
      "t = s\<lparr>kbd := kbd t\<rparr>" "keyboard_semaphore (kbd t) = keyboard_semaphore (kbd s)"
      using get_pending [OF Suc.prems(6) Cons] by blast
    obtain k where tk: "t = s\<lparr>kbd := k\<rparr>" using t(4) by blast
    have f: "sem_inv naive_inv naive_live t" "sems t = sems s" "currentProcess t = currentProcess s" "hung t = hung s"
      using Suc.prems(1) by (simp_all add: tk)
    show ?thesis
    proof (cases "a = byte (CHR ''r'')")
      case True
      then show ?thesis using Suc.prems(8) t f Cons by simp
    next
      case False
      then have "wait_r n naive_mm t = (r, s')" using Suc.prems(8) t(1) by simp
      from Suc.IH [OF f(1) _ Suc.prems(3) _ _ t(3) _ this] show ?thesis
        using Suc.prems Cons f t False by simp
    qed
  qed
qed simp

section \<open>Properties\<close>

text \<open>
  C34: the two exceptions. After a division by zero or an invalid opcode the screen is drawn, the
  typed characters up to the first \<open>r\<close> are consumed and the handler returns with the timer let
  through again; without an \<open>r\<close> the whole buffer is consumed and the handler sleeps, with the
  timer masked: only the keyboard can wake it. Any other exception only clears the screen.
\<close>

theorem exception_waits_for_r:
  assumes "sem_inv naive_inv naive_live s" and "keyboard_semaphore (kbd s) = int i" and "i < 500"
    and "used (sems s i)" and "currentProcess s \<noteq> 0" and "kbd_ok (kbd s)"
    and "exceptionDispatcher naive_mm e registers s c = (r, s', c')"
  shows "hung s' = hung s \<and> idt c' = idt c \<and>
    (if e = 0 \<or> e = 6
     then pic_slave c' = 0xFF \<and>
       (if byte (CHR ''r'') \<in> set (pending (kbd s))
        then r = Ret () \<and> pic_master c' = 0xFC
          \<and> pending (kbd s') = tl (dropWhile (\<lambda>a. a \<noteq> byte (CHR ''r'')) (pending (kbd s)))
        else r = Sleep \<and> pic_master c' = 0xFD \<and> pending (kbd s') = [])
     else r = Ret () \<and> c' = c \<and> s' = s\<lparr>con := clear (con s)\<rparr>)"
proof (cases "e = 0 \<or> e = 6")
  case True
  obtain d where d: "exceptionDispatcher naive_mm e registers s c
      = confirmed (wait_r 1025 naive_mm (s\<lparr>con := d\<rparr>)) (c\<lparr>pic_master := KEYBOARD_PIC_MASTER, pic_slave := NO_INTERRUPTS\<rparr>)"
    using True that by (fastforce simp: exceptionDispatcher_def ZERO_EXCEPTION_ID_def INVALID_OPCODE_ID_def zero_division_def
        invalid_opcode_def printExceptionData_def upd_con_def Let_def)
  obtain x t where w: "wait_r 1025 naive_mm (s\<lparr>con := d\<rparr>) = (x, t)" by force
  have "length (pending (kbd (s\<lparr>con := d\<rparr>))) < 1025" using held_less [of "kbd s"] by simp
  note W = wait_r_spec [OF _ _ assms(3) _ _ _ this w]
  show ?thesis
    using W assms(1,2,4-7) True unfolding d w
    by (auto simp: confirmed_def KEYBOARD_PIC_MASTER_def TIMER_PIC_MASTER_def NO_INTERRUPTS_def split: if_splits)
next
  case False
  then show ?thesis using assms(7) by (auto simp: exceptionDispatcher_def ZERO_EXCEPTION_ID_def INVALID_OPCODE_ID_def upd_con_def)
qed

lemma exception_waits_for_r_witness:
  "fst (exceptionDispatcher naive_mm 0 [] (boot_kernel (demo_keyboard\<lparr>to_read := 4\<rparr>) (demo_mutex 0)) demo_cpu) = Sleep
   \<and> fst (exceptionDispatcher naive_mm 6 [] (boot_kernel (demo_keyboard\<lparr>to_read := 3, to_write := 5, kbuffer := \<lambda>_. 0x72\<rparr>) (demo_mutex 0)) demo_cpu) = Ret ()"
proof -
  have v: "(0 :: int) \<le> 0" by simp
  let ?a = "boot_kernel (demo_keyboard\<lparr>to_read := 4\<rparr>) (demo_mutex 0)"
  let ?b = "boot_kernel (demo_keyboard\<lparr>to_read := 3, to_write := 5, kbuffer := \<lambda>_. 0x72\<rparr>) (demo_mutex 0)"
  obtain r1 s1 c1 where a: "exceptionDispatcher naive_mm 0 [] ?a demo_cpu = (r1, s1, c1)" by (metis surj_pair)
  obtain r2 s2 c2 where b: "exceptionDispatcher naive_mm 6 [] ?b demo_cpu = (r2, s2, c2)" by (metis surj_pair)
  show ?thesis
    using exception_waits_for_r [OF _ _ _ _ _ _ a, of 0] exception_waits_for_r [OF _ _ _ _ _ _ b, of 0] demo_mutex_facts(1,2,5) [OF v]
    unfolding a b fst_conv
    by (simp add: demo_keyboard_def kbd_ok_def pending_def held_def byte_def upt_rec)
qed

end
