(* ===== verification/Module_Packer.thy ===== *)
theory Module_Packer
  imports Boot
begin

text \<open>
  \<open>Toolchain/ModulePacker/main.c\<close>: the tool that appends the programs to the kernel's binary. What it
  writes is what \<open>moduleLoader.c\<close> of the kernel reads.

  The file system is a map from names to contents. The argument library calls \<open>parse_opt\<close> once for
  each option and argument; these calls are a list of \<open>key\<close>s. The host is little-endian.
\<close>

section \<open>The program\<close>











definition u32_bytes :: "u32 \<Rightarrow> u8 list" where
  "u32_bytes w = [ucast w, ucast (drop_bit 8 w), ucast (drop_bit 16 w), ucast (drop_bit 24 w)]"








section \<open>The image\<close>








section \<open>Reading it back\<close>



lemma length_u32_bytes [simp]: "length (u32_bytes w) = 4"
  by (simp add: u32_bytes_def)



section \<open>Properties\<close>





end
