(* ===== verification/Test_Memory.thy ===== *)
theory Test_Memory
  imports Naive_Manager Buddy_Manager User_Commands
begin

text \<open>
  The memory test, \<open>Userland/tests/test_mm.c\<close>, over a memory manager and the bytes it hands out, and
  \<open>memset\<close> of the programs, \<open>Userland/Shell/_loader.c\<close>. It is a client of the manager's contract.

  \<open>GetUniform\<close> scales a random number in floating point; the scaling is the parameter \<open>scale\<close>. The
  kernel is represented by the manager \<open>M\<close>: \<open>malloc\<close> and \<open>free\<close> are its entry points.
\<close>

section \<open>The program\<close>

fun memset_u_loop :: "mem \<Rightarrow> addr \<Rightarrow> u8 \<Rightarrow> nat \<Rightarrow> mem" where
  "memset_u_loop m dst chr 0 = m"
| "memset_u_loop m dst chr (Suc len) = memset_u_loop (m(dst + len := chr)) dst chr len"

definition memset_u :: "mem \<Rightarrow> addr \<Rightarrow> u32 \<Rightarrow> u64 \<Rightarrow> mem" where
  "memset_u m destination c len = memset_u_loop m destination (ucast c) (unat len)"

text \<open>A program starts by clearing its variables.\<close>

definition loader_start :: "mem \<Rightarrow> addr \<Rightarrow> addr \<Rightarrow> mem" where
  "loader_start m bss endOfBinary = memset_u m bss 0 (of_int (int endOfBinary - int bss))"

definition MAX_BLOCKS :: nat where "MAX_BLOCKS = 128"

record mm_rq =
  rq_address :: addr
  rq_size :: u32

type_synonym seed = "u32 \<times> u32"

definition GetUniform :: "(u32 \<Rightarrow> u32 \<Rightarrow> u32) \<Rightarrow> u32 \<Rightarrow> seed \<Rightarrow> u32 \<times> seed" where
  "GetUniform scale maxi z = (let (u, z') = GetUint z in (scale u maxi, z'))"

text \<open>
  Requesting blocks. A refused request is repeated with another size, so the loop need not end:
  \<open>None\<close> when the given number of rounds was not enough.
\<close>

fun request_loop ::
  "nat \<Rightarrow> 'm mm \<Rightarrow> (u32 \<Rightarrow> u32 \<Rightarrow> u32) \<Rightarrow> u64 \<Rightarrow> mm_rq list \<Rightarrow> u32 \<Rightarrow> 'm \<Rightarrow> seed \<Rightarrow> (mm_rq list \<times> 'm \<times> seed) option" where
  "request_loop 0 M scale max_memory rqs used s z = None"
| "request_loop (Suc n) M scale max_memory rqs used s z =
     (if length rqs < MAX_BLOCKS \<and> ucast used < max_memory
      then let (u, z') = GetUniform scale (ucast (max_memory - ucast used - 1)) z;
               sz = u + 1;
               (p, s') = mm_alloc M s sz
           in if p \<noteq> 0
              then request_loop n M scale max_memory (rqs @ [\<lparr>rq_address = p, rq_size = sz\<rparr>]) (used + sz) s' z'
              else request_loop n M scale max_memory rqs used s' z'
      else Some (rqs, s, z))"

fun set_loop :: "nat \<Rightarrow> mm_rq list \<Rightarrow> mem \<Rightarrow> mem" where
  "set_loop i [] m = m"
| "set_loop i (q # qs) m =
     set_loop (i + 1) qs (if rq_address q \<noteq> 0 then memset_u m (rq_address q) (of_nat i) (ucast (rq_size q)) else m)"

fun check_loop :: "nat \<Rightarrow> mm_rq list \<Rightarrow> mem \<Rightarrow> bool" where
  "check_loop i [] m = True"
| "check_loop i (q # qs) m =
     (if rq_address q \<noteq> 0 \<and> \<not> memcheck m (rq_address q) (of_nat i) (rq_size q) then False else check_loop (i + 1) qs m)"

fun free_loop :: "'m mm \<Rightarrow> mm_rq list \<Rightarrow> 'm \<Rightarrow> 'm" where
  "free_loop M [] s = s"
| "free_loop M (q # qs) s = free_loop M qs (if rq_address q \<noteq> 0 then mm_free M s (rq_address q) else s)"

text \<open>One round: what the check says, and the state behind it.\<close>

definition mm_round ::
  "nat \<Rightarrow> 'm mm \<Rightarrow> (u32 \<Rightarrow> u32 \<Rightarrow> u32) \<Rightarrow> u64 \<Rightarrow> 'm \<times> mem \<times> seed \<Rightarrow> (bool \<times> 'm \<times> mem \<times> seed) option" where
  "mm_round fuel M scale max_memory st =
     (let (s, m, z) = st
      in case request_loop fuel M scale max_memory [] 0 s z of
           None \<Rightarrow> None
         | Some (rqs, s1, z1) \<Rightarrow>
             let m1 = set_loop 0 rqs m
             in if check_loop 0 rqs m1 then Some (True, free_loop M rqs s1, m1, z1) else Some (False, s1, m1, z1))"

text \<open>
  The endless loop, by its first \<open>n\<close> rounds: the output, and \<open>Exit\<close> when the test has ended, \<open>Running\<close>
  when it goes on, \<open>Requesting\<close> when it is still in the loop of requests.
\<close>

datatype mm_end = Exit int | Running | Requesting

fun mm_rounds ::
  "nat \<Rightarrow> nat \<Rightarrow> 'm mm \<Rightarrow> (u32 \<Rightarrow> u32 \<Rightarrow> u32) \<Rightarrow> u64 \<Rightarrow> u64 \<Rightarrow> 'm \<times> mem \<times> seed \<Rightarrow> result list \<times> mm_end \<times> 'm \<times> mem \<times> seed" where
  "mm_rounds 0 fuel M scale max_memory iterations st = ([], Running, st)"
| "mm_rounds (Suc n) fuel M scale max_memory iterations st =
     (let iterations = iterations + 1
      in case mm_round fuel M scale max_memory st of
           None \<Rightarrow> ([], Requesting, st)
         | Some (False, st') \<Rightarrow> ([fprintf (''test_mm ERROR'' @ NL) []], Exit (- 1), st')
         | Some (True, st') \<Rightarrow>
             let out = (if iterations mod 50000 = 0
                        then [fprintf (''test_mm: %d iterations OK'' @ NL) [ANum iterations]] else []);
                 (o', e, st'') = mm_rounds n fuel M scale max_memory iterations st'
             in (out @ o', e, st''))"

definition test_mm ::
  "nat \<Rightarrow> nat \<Rightarrow> 'm mm \<Rightarrow> (u32 \<Rightarrow> u32 \<Rightarrow> u32) \<Rightarrow> nat \<Rightarrow> int \<Rightarrow> 'm \<times> mem \<times> seed \<Rightarrow> result list \<times> mm_end \<times> 'm \<times> mem \<times> seed" where
  "test_mm n fuel M scale argc arg st =
     (let start = fprintf (''Starting test_mm (im in test_mm right now)'' @ NL) []
      in if argc \<noteq> 1 then ([start], Exit (- 1), st)
         else if (of_int arg :: u64) \<le> 0 then ([start], Exit (- 1), st)
         else let (o', e) = mm_rounds n fuel M scale (of_int arg) 0 st in (start # o', e))"

section \<open>Bytes\<close>

lemma unat_wide [simp]: "unat (ucast (n :: u32) :: u64) = unat n"
  by transfer (simp add: take_bit_take_bit min_def)

lemma ucast_byte [simp]: "ucast (of_nat i :: u32) = (of_nat i :: u8)"
  by transfer (simp add: take_bit_take_bit min_def)

lemma memset_u_spec: "memset_u m dst c n x = (if dst \<le> x \<and> x < dst + unat n then ucast c else m x)"
proof -
  have "memset_u_loop m dst b k x = (if dst \<le> x \<and> x < dst + k then b else m x)" for b k
    by (induction k arbitrary: m) auto
  then show ?thesis by (simp add: memset_u_def)
qed

lemma memcheck_iff: "memcheck m p b n \<longleftrightarrow> (\<forall>i < unat n. m (p + i) = b)"
proof -
  have "memcheck_loop k m p b \<longleftrightarrow> (\<forall>i < k. m (p + i) = b)" for k
  proof (induction k arbitrary: p)
    case (Suc k)
    have "(\<forall>i < Suc k. m (p + i) = b) \<longleftrightarrow> m p = b \<and> (\<forall>i < k. m (p + 1 + i) = b)"
      by (auto simp: less_Suc_eq_0_disj)
    then show ?case using Suc by simp
  qed simp
  then show ?thesis by (simp add: memcheck_def)
qed

text \<open>The bytes of a request, and requests that share none.\<close>

definition rq_bytes :: "mm_rq \<Rightarrow> addr set" where
  "rq_bytes q = {rq_address q..<rq_address q + unat (rq_size q)}"

fun apart :: "mm_rq list \<Rightarrow> bool" where
  "apart [] = True"
| "apart (q # qs) = ((\<forall>r \<in> set qs. rq_bytes q \<inter> rq_bytes r = {}) \<and> apart qs)"

lemma set_loop_outside: "\<forall>q \<in> set qs. x \<notin> rq_bytes q \<Longrightarrow> set_loop i qs m x = m x"
  by (induction i qs m rule: set_loop.induct) (auto simp: memset_u_spec rq_bytes_def)

lemma set_check: "apart qs \<Longrightarrow> check_loop i qs (set_loop i qs m)"
proof (induction qs arbitrary: i m)
  case (Cons q qs)
  define m1 where "m1 = (if rq_address q \<noteq> 0 then memset_u m (rq_address q) (of_nat i) (ucast (rq_size q)) else m)"
  have "set_loop (i + 1) qs m1 x = of_nat i" if "x \<in> rq_bytes q" "rq_address q \<noteq> 0" for x
  proof -
    have "\<forall>r \<in> set qs. x \<notin> rq_bytes r" using Cons.prems that(1) by auto
    then have "set_loop (i + 1) qs m1 x = m1 x" by (rule set_loop_outside)
    then show ?thesis using that by (simp add: m1_def memset_u_spec rq_bytes_def)
  qed
  then have "rq_address q \<noteq> 0 \<longrightarrow> memcheck (set_loop (i + 1) qs m1) (rq_address q) (of_nat i) (rq_size q)"
    by (auto simp: memcheck_iff rq_bytes_def)
  then show ?case using Cons by (cases "rq_address q = 0") (auto simp: m1_def)
qed simp

section \<open>A client of the contract\<close>

text \<open>The blocks a client holds on top of those that were live in \<open>s\<close>.\<close>

definition rqs_live ::
  "('m \<Rightarrow> bool) \<Rightarrow> ('m \<Rightarrow> addr \<rightharpoonup> nat) \<Rightarrow> 'm \<Rightarrow> mm_rq list \<Rightarrow> 'm \<Rightarrow> bool" where
  "rqs_live I lv s qs t \<longleftrightarrow> I t \<and> distinct (map rq_address qs)
     \<and> (\<forall>q \<in> set qs. rq_address q \<noteq> 0 \<and> lv s (rq_address q) = None \<and> (\<exists>k \<ge> unat (rq_size q). lv t (rq_address q) = Some k))
     \<and> (\<forall>p. p \<notin> rq_address ` set qs \<longrightarrow> lv t p = lv s p)"

text \<open>The sizes the test can ask for are sizes for which the manager keeps its promises.\<close>

definition sizes_ok :: "(u32 \<Rightarrow> bool) \<Rightarrow> (u32 \<Rightarrow> u32 \<Rightarrow> u32) \<Rightarrow> u64 \<Rightarrow> bool" where
  "sizes_ok ok scale max_memory \<longleftrightarrow> (\<forall>u k. unat k < unat max_memory \<longrightarrow> ok (scale u k + 1))"

lemma request_bound:
  assumes "ucast used < (max_memory :: u64)"
  shows "unat (ucast (max_memory - ucast used - 1) :: u32) < unat max_memory"
    and "unat max_memory \<le> 2 ^ 32 \<Longrightarrow> unat (ucast (max_memory - ucast used - 1) :: u32) = unat max_memory - unat (used :: u32) - 1"
proof -
  let ?d = "max_memory - ucast used - 1"
  have "unat used < unat max_memory" using assms by (simp add: word_less_nat_alt)
  then have d: "unat ?d = unat max_memory - unat used - 1"
    using assms unat_minus_one [of "max_memory - ucast used"] by (simp add: unat_sub less_imp_le)
  have u: "unat (ucast ?d :: u32) = unat ?d mod 2 ^ 32" by (simp add: unsigned_ucast_eq take_bit_eq_mod)
  show "unat (ucast ?d :: u32) < unat max_memory"
    unfolding u d using \<open>unat used < unat max_memory\<close> by (intro le_less_trans [OF mod_less_eq_dividend]) linarith
  show "unat (ucast ?d :: u32) = unat max_memory - unat used - 1" if "unat max_memory \<le> 2 ^ 32"
    unfolding u d using that \<open>unat used < unat max_memory\<close> by (intro mod_less) linarith
qed

context memory_manager
begin

lemma rqs_live_apart:
  assumes "rqs_live inv live s qs t"
  shows "apart qs"
proof -
  have lv: "\<exists>k \<ge> unat (rq_size q). live t (rq_address q) = Some k" if "q \<in> set qs" for q
    using assms that by (simp add: rqs_live_def)
  have "apart ps" if "set ps \<subseteq> set qs" "distinct (map rq_address ps)" for ps
    using that
  proof (induction ps)
    case (Cons q ps)
    have "rq_bytes q \<inter> rq_bytes r = {}" if r: "r \<in> set ps" for r
    proof -
      obtain k l where kl: "live t (rq_address q) = Some k" "unat (rq_size q) \<le> k" "live t (rq_address r) = Some l" "unat (rq_size r) \<le> l"
        using lv [of q] lv [of r] Cons.prems(1) r by auto
      have "rq_address q \<noteq> rq_address r" using Cons.prems(2) r by auto
      moreover have "inv t" using assms by (simp add: rqs_live_def)
      ultimately have "{rq_address q..<rq_address q + k} \<inter> {rq_address r..<rq_address r + l} = {}"
        using live_bytes_disjoint kl(1,3) by blast
      then show ?thesis using kl(2,4) by (auto simp: rq_bytes_def)
    qed
    then show ?case using Cons by auto
  qed simp
  then show ?thesis using assms by (simp add: rqs_live_def)
qed

text \<open>The blocks of others are not written.\<close>

lemma rqs_live_others:
  assumes "rqs_live inv live s qs t" and "live s p = Some k" and "p \<le> x" and "x < p + k"
  shows "set_loop i qs m x = m x"
proof (rule set_loop_outside, rule ballI)
  fix q assume q: "q \<in> set qs"
  obtain l where l: "live t (rq_address q) = Some l" "unat (rq_size q) \<le> l" "live s (rq_address q) = None"
    using assms(1) q by (auto simp: rqs_live_def)
  have p: "p \<notin> rq_address ` set qs" using assms(1,2) by (auto simp: rqs_live_def)
  then have "live t p = Some k" "rq_address q \<noteq> p" using assms(1,2) q by (auto simp: rqs_live_def)
  moreover have "inv t" using assms(1) by (simp add: rqs_live_def)
  ultimately have "{rq_address q..<rq_address q + l} \<inter> {p..<p + k} = {}" using live_bytes_disjoint l(1) by blast
  then show "x \<notin> rq_bytes q" using assms(3,4) l(2) by (auto simp: rq_bytes_def)
qed

lemma request_loop_live:
  assumes "rqs_live inv live s qs t" and "sizes_ok okreq scale max_memory"
    and "request_loop n M scale max_memory qs used t z = Some (qs', t', z')"
  shows "rqs_live inv live s qs' t'"
  using assms(1,3)
proof (induction n arbitrary: qs used t z)
  case (Suc n)
  show ?case
  proof (cases "length qs < MAX_BLOCKS \<and> ucast used < max_memory")
    case True
    obtain u z1 where g: "GetUniform scale (ucast (max_memory - ucast used - 1)) z = (u, z1)"
      by (cases "GetUniform scale (ucast (max_memory - ucast used - 1)) z")
    have ok: "okreq (u + 1)"
      using assms(2) g request_bound(1) [of used max_memory] True by (auto simp: sizes_ok_def GetUniform_def split_beta)
    obtain p t1 where al: "mm_alloc M t (u + 1) = (p, t1)" by force
    have inv: "inv t" using Suc.prems(1) by (simp add: rqs_live_def)
    from inv ok al show ?thesis
    proof (cases rule: alloc_cases)
      case Fail
      then show ?thesis using Suc g al True by (simp add: Let_def)
    next
      case (Ok k)
      have new: "p \<notin> rq_address ` set qs" "live s p = None"
      proof -
        show "p \<notin> rq_address ` set qs" using Suc.prems(1) Ok(2) by (fastforce simp: rqs_live_def)
        then show "live s p = None" using Suc.prems(1) Ok(2) by (simp add: rqs_live_def)
      qed
      have "rqs_live inv live s (qs @ [\<lparr>rq_address = p, rq_size = u + 1\<rparr>]) t1"
        using Suc.prems(1) Ok new unfolding rqs_live_def by auto
      then show ?thesis using Suc g al True Ok(1) by (simp add: Let_def)
    qed
  next
    case False
    then show ?thesis using Suc.prems by auto
  qed
qed simp

lemma free_loop_live:
  "rqs_live inv live s qs t \<Longrightarrow> inv (free_loop M qs t) \<and> live (free_loop M qs t) = live s"
proof (induction qs arbitrary: t)
  case Nil
  then show ?case by (auto simp: rqs_live_def)
next
  case (Cons q qs)
  obtain k where k: "live t (rq_address q) = Some k" "rq_address q \<noteq> 0" and inv: "inv t"
    using Cons.prems by (auto simp: rqs_live_def)
  note F = free_inv [OF inv k(1)] free_live [OF inv k(1)]
  have ne: "\<forall>r \<in> set qs. rq_address r \<noteq> rq_address q" using Cons.prems by (auto simp: rqs_live_def image_iff)
  have "rqs_live inv live s qs (mm_free M t (rq_address q))"
    using Cons.prems F ne unfolding rqs_live_def by auto
  then show ?case using Cons.IH k(2) by simp
qed

lemma mm_round_ok:
  assumes "inv s" and "sizes_ok okreq scale max_memory" and "mm_round fuel M scale max_memory (s, m, z) = Some (b, s', m', z')"
  shows "b \<and> inv s' \<and> live s' = live s \<and> (\<forall>p k x. live s p = Some k \<and> p \<le> x \<and> x < p + k \<longrightarrow> m' x = m x)"
proof -
  obtain qs t z1 where r: "request_loop fuel M scale max_memory [] 0 s z = Some (qs, t, z1)"
    using assms(3) by (auto simp: mm_round_def Let_def split: option.splits)
  have "rqs_live inv live s [] s" using assms(1) by (simp add: rqs_live_def)
  note L = request_loop_live [OF this assms(2) r]
  have "check_loop 0 qs (set_loop 0 qs m)" by (rule set_check [OF rqs_live_apart [OF L]])
  then have "b" "s' = free_loop M qs t" "m' = set_loop 0 qs m" using assms(3) r by (auto simp: mm_round_def Let_def)
  then show ?thesis using free_loop_live [OF L] rqs_live_others [OF L] by blast
qed

lemma mm_rounds_ok:
  assumes "inv s" and "sizes_ok okreq scale max_memory" and "mm_rounds n fuel M scale max_memory k (s, m, z) = (o', e, s', m', z')"
  shows "(\<forall>c. e \<noteq> Exit c) \<and> inv s' \<and> live s' = live s \<and> (\<forall>p k x. live s p = Some k \<and> p \<le> x \<and> x < p + k \<longrightarrow> m' x = m x)"
  using assms(1,3)
proof (induction n arbitrary: k s m z o')
  case (Suc n)
  show ?case
  proof (cases "mm_round fuel M scale max_memory (s, m, z)")
    case None
    then show ?thesis using Suc.prems by (auto simp: Let_def)
  next
    case (Some r)
    obtain b s1 m1 z1 where r: "r = (b, s1, m1, z1)" by (metis surj_pair)
    note R = mm_round_ok [OF Suc.prems(1) assms(2) Some [unfolded r]]
    obtain o1 where "mm_rounds n fuel M scale max_memory (k + 1) (s1, m1, z1) = (o1, e, s', m', z')"
      using Suc.prems(2) Some r R by (auto simp: Let_def split: prod.splits)
    from Suc.IH [OF _ this] R show ?thesis by auto
  qed
qed auto

end

section \<open>The round always ends, with room in the pool\<close>

text \<open>The blocks of a pool are determined by what is live in it.\<close>

lemma blocks_canonical:
  "\<lbrakk>coalesced bs; coalesced cs; live_at a bs = live_at a cs; extent bs = extent cs\<rbrakk> \<Longrightarrow> bs = cs"
proof (induction bs arbitrary: a cs)
  case Nil
  then show ?case by (cases cs) auto
next
  case (Cons b bs)
  obtain n f where b: "b = (n, f)" by force
  obtain n' f' cs' where c: "cs = (n', f') # cs'" using Cons.prems(4) b by (cases cs) auto
  have L: "live_at a ((n, f) # bs) p = live_at a ((n', f') # cs') p" for p using Cons.prems(3) by (simp add: b c)
  have f: "f = f'" using L [of "a + 24"] by (cases f; cases f') auto
  have n: "n = n'"
  proof (cases f)
    case False
    then show ?thesis using L [of "a + 24"] f by simp
  next
    case True
    have "\<not> k < k'" if co: "coalesced ((k, True) # xs)" and live: "\<And>p. live_at a ((k, True) # xs) p = live_at a ((k', True) # ys) p"
      and ex: "extent ((k, True) # xs) = extent ((k', True) # ys)" for k k' xs ys
    proof
      assume lt: "k < k'"
      then obtain l xs' where xs: "xs = (l, False) # xs'" using co ex by (cases xs) auto
      have "live_at a ((k, True) # xs) (a + 24 + k + 24) = Some l" by (simp add: xs)
      then show False using live [of "a + 24 + k + 24"] lt by simp
    qed
    from this [of n bs n' cs'] this [of n' cs' n bs] show ?thesis
      using Cons.prems(1,2,4) L True f unfolding b c by (metis linorder_neqE_nat)
  qed
  have "live_at (a + 24 + n) bs p = live_at (a + 24 + n) cs' p" for p
  proof (cases "p = a + 24")
    case False
    then show ?thesis using L [of p] f n by (auto split: if_splits)
  qed simp
  then have "live_at (a + 24 + n) bs = live_at (a + 24 + n) cs'" by blast
  from Cons.IH [OF _ _ this] show ?case using Cons.prems(1,2,4) by (simp add: b c f n)
qed

lemma request_frame:
  assumes "sizes_ok naive_okreq scale max_memory" and "naive_inv s"
    and "request_loop n naive_mm scale max_memory qs used s z = Some (qs', s', z')"
  shows "firstBlock s' = firstBlock s \<and> memoryPoolSize s' = memoryPoolSize s"
  using assms(2,3)
proof (induction n arbitrary: qs used s z)
  case (Suc n)
  show ?case
  proof (cases "length qs < MAX_BLOCKS \<and> ucast used < max_memory")
    case True
    obtain u z1 where g: "GetUniform scale (ucast (max_memory - ucast used - 1)) z = (u, z1)"
      by (cases "GetUniform scale (ucast (max_memory - ucast used - 1)) z")
    have ok: "naive_okreq (u + 1)"
      using assms(1) g request_bound(1) [of used max_memory] True by (auto simp: sizes_ok_def GetUniform_def split_beta)
    obtain p t where al: "mm_alloc naive_mm s (u + 1) = (p, t)" by force
    have "legal naive_mm naive_live naive_okreq [Alloc (u + 1)] s" using ok by simp
    from naive_step_frame [OF Suc.prems(1) this] naive.step_inv [OF Suc.prems(1) this]
    have F: "firstBlock t = firstBlock s" "memoryPoolSize t = memoryPoolSize s" "naive_inv t" using al by simp_all
    show ?thesis
    proof (cases "p = 0")
      case True
      then have "request_loop n naive_mm scale max_memory qs used t z1 = Some (qs', s', z')"
        using Suc.prems(2) g al \<open>length qs < MAX_BLOCKS \<and> ucast used < max_memory\<close> by (simp add: Let_def)
      from Suc.IH [OF F(3) this] F show ?thesis by simp
    next
      case False
      then have "request_loop n naive_mm scale max_memory (qs @ [\<lparr>rq_address = p, rq_size = u + 1\<rparr>]) (used + (u + 1)) t z1 = Some (qs', s', z')"
        using Suc.prems(2) g al True by (simp add: Let_def)
      from Suc.IH [OF F(3) this] F show ?thesis by simp
    qed
  next
    case False
    then show ?thesis using Suc.prems by auto
  qed
qed simp

lemma free_frame:
  "rqs_live naive_inv naive_live s qs t \<Longrightarrow>
   firstBlock (free_loop naive_mm qs t) = firstBlock t \<and> memoryPoolSize (free_loop naive_mm qs t) = memoryPoolSize t"
proof (induction qs arbitrary: t)
  case (Cons q qs)
  obtain k where k: "naive_live t (rq_address q) = Some k" "rq_address q \<noteq> 0" and inv: "naive_inv t"
    using Cons.prems by (auto simp: rqs_live_def)
  have ne: "\<forall>r \<in> set qs. rq_address r \<noteq> rq_address q" using Cons.prems by (auto simp: rqs_live_def image_iff)
  have "rqs_live naive_inv naive_live s qs (mm_free naive_mm t (rq_address q))"
    using Cons.prems ne naive.free_inv [OF inv k(1)] naive.free_live [OF inv k(1)] unfolding rqs_live_def by auto
  moreover have "legal naive_mm naive_live naive_okreq [Free (rq_address q)] t" using k by simp
  note naive_step_frame [OF inv this]
  ultimately show ?case using Cons.IH k(2) by simp
qed simp

lemma request_ends:
  assumes "\<forall>u k. unat (scale u k) \<le> unat k" and "unat max_memory \<le> 2 ^ 31"
    and "tailroom (unat max_memory - unat used + 31 * (128 - length qs) + 8) s" and "unat used \<le> unat max_memory"
    and "128 - length qs < n"
  shows "request_loop n naive_mm scale max_memory qs used s z \<noteq> None"
  using assms(3-5)
proof (induction n arbitrary: qs used s z)
  case (Suc n)
  show ?case
  proof (cases "length qs < MAX_BLOCKS \<and> ucast used < max_memory")
    case True
    obtain u z1 where g: "GetUniform scale (ucast (max_memory - ucast used - 1)) z = (u, z1)"
      by (cases "GetUniform scale (ucast (max_memory - ucast used - 1)) z")
    have "unat u \<le> unat (ucast (max_memory - ucast used - 1) :: u32)"
      using g assms(1) by (auto simp: GetUniform_def split_beta)
    then have u: "unat u \<le> unat max_memory - unat used - 1" using request_bound(2) [of used max_memory] True assms(2) by simp
    have lt: "unat used < unat max_memory" using True by (simp add: word_less_nat_alt)
    have sz: "unat (u + 1) = unat u + 1" using u lt assms(2) by (simp add: unat_word_ariths)
    have us: "unat (used + (u + 1)) = unat used + unat u + 1"
      using u lt assms(2) sz by (simp add: unat_add_no_wrap)
    obtain p t where al: "allocMemory_naive s (u + 1) = (p, t)" by force
    let ?m = "unat max_memory - unat (used + (u + 1)) + 31 * (128 - length (qs @ [\<lparr>rq_address = p, rq_size = u + 1\<rparr>])) + 8"
    have al8: "unat (ALIGN (u + 1)) \<le> unat u + 8"
      using unat_ALIGN [of "u + 1"] sz u lt assms(2) by simp
    have "unat (ALIGN (u + 1)) + 24 + ?m \<le> unat max_memory - unat used + 31 * (128 - length qs) + 8"
    proof -
      have "length qs < 128" using True by (simp add: MAX_BLOCKS_def)
      then have l: "128 - length qs = 127 - length qs + 1" by linarith
      have l2: "128 - length (qs @ [\<lparr>rq_address = p, rq_size = u + 1\<rparr>]) = 127 - length qs" by simp
      have d: "unat u + 1 + (unat max_memory - (unat used + unat u + 1)) = unat max_memory - unat used" using u lt by linarith
      have e: "31 * (127 - length qs + 1) = 31 * (127 - length qs) + 31" by simp
      show ?thesis unfolding us l2 l e using al8 d by linarith
    qed
    note room = tailroom_alloc [OF tailroom_mono [OF Suc.prems(1) this]]
    have "u + 1 \<noteq> 0" using sz by (intro notI) simp
    with room have T: "p \<noteq> 0" "tailroom ?m t" using al by simp_all
    have "length qs < 128" using True by (simp add: MAX_BLOCKS_def)
    then have q: "127 - length qs < n" using Suc.prems(3) by linarith
    have "request_loop n naive_mm scale max_memory (qs @ [\<lparr>rq_address = p, rq_size = u + 1\<rparr>]) (used + (u + 1)) t z1 \<noteq> None"
      by (rule Suc.IH [OF T(2)]) (use us u lt q in simp_all)
    then show ?thesis using g al True T(1) by (simp add: Let_def)
  next
    case False
    then show ?thesis by auto
  qed
qed simp

lemma round_total:
  assumes "\<forall>u k. unat (scale u k) \<le> unat k" and "unat max_memory \<le> 2 ^ 31"
    and "tailroom (unat max_memory + 3976) s"
  obtains s' m' z' where "mm_round 129 naive_mm scale max_memory (s, m, z) = Some (True, s', m', z')"
    and "blocks s' = blocks s" and "tailroom (unat max_memory + 3976) s'"
    and "naive_live s' = naive_live s" and "\<forall>p k x. naive_live s p = Some k \<and> p \<le> x \<and> x < p + k \<longrightarrow> m' x = m x"
proof -
  have inv: "naive_inv s" by (rule tailroom_inv [OF assms(3)])
  have ok: "sizes_ok naive_okreq scale max_memory"
    unfolding sizes_ok_def
  proof (intro allI impI)
    fix u k :: u32 assume k: "unat k < unat max_memory"
    have "unat (scale u k) \<le> unat k" using assms(1) by blast
    then have "unat (scale u k + 1) = unat (scale u k) + 1" "unat (scale u k) < 2 ^ 31"
      using k assms(2) by (simp_all add: unat_word_ariths)
    then show "naive_okreq (scale u k + 1)" by (simp add: naive_okreq_def)
  qed
  have "request_loop 129 naive_mm scale max_memory [] 0 s z \<noteq> None"
    by (rule request_ends [OF assms(1,2)]) (use assms(3) in \<open>simp_all add: add.commute\<close>)
  then obtain qs t z1 where r: "request_loop 129 naive_mm scale max_memory [] 0 s z = Some (qs, t, z1)" by (metis not_None_eq surj_pair)
  have l0: "rqs_live naive_inv naive_live s [] s" using inv by (simp add: rqs_live_def)
  note L = naive.request_loop_live [OF l0 ok r]
  let ?s = "free_loop naive_mm qs t" and ?m = "set_loop 0 qs m"
  have "check_loop 0 qs ?m" by (rule set_check [OF naive.rqs_live_apart [OF L]])
  then have R: "mm_round 129 naive_mm scale max_memory (s, m, z) = Some (True, ?s, ?m, z1)" using r by (simp add: mm_round_def Let_def)
  note O = naive.mm_round_ok [OF inv ok R]
  have fr: "firstBlock ?s = firstBlock s" "memoryPoolSize ?s = memoryPoolSize s"
    using request_frame [OF ok inv r] free_frame [OF L] by simp_all
  have i: "naive_inv ?s" "naive_live ?s = naive_live s" using O by simp_all
  have bl: "blocks ?s = blocks s"
    by (rule blocks_canonical [of _ _ "firstBlock s"]) (use i inv fr in \<open>simp_all add: naive_inv_def naive_live_def\<close>)
  then have "tailroom (unat max_memory + 3976) ?s" using assms(3) i(1) by (simp add: tailroom_def)
  with R bl i(2) O that show ?thesis by blast
qed

lemma rounds_total:
  assumes "\<forall>u k. unat (scale u k) \<le> unat k" and "unat max_memory \<le> 2 ^ 31"
    and "tailroom (unat max_memory + 3976) s" and "mm_rounds n 129 naive_mm scale max_memory j (s, m, z) = (o', e, s', m', z')"
  shows "e = Running \<and> blocks s' = blocks s \<and> (\<forall>p k x. naive_live s p = Some k \<and> p \<le> x \<and> x < p + k \<longrightarrow> m' x = m x)"
  using assms(3,4)
proof (induction n arbitrary: j s m z o')
  case (Suc n)
  obtain s1 m1 z1 where R: "mm_round 129 naive_mm scale max_memory (s, m, z) = Some (True, s1, m1, z1)"
    "blocks s1 = blocks s" "tailroom (unat max_memory + 3976) s1" "naive_live s1 = naive_live s"
    "\<forall>p k x. naive_live s p = Some k \<and> p \<le> x \<and> x < p + k \<longrightarrow> m1 x = m x"
    by (rule round_total [OF assms(1,2) Suc.prems(1)])
  obtain o1 where "mm_rounds n 129 naive_mm scale max_memory (j + 1) (s1, m1, z1) = (o1, e, s', m', z')"
    using Suc.prems(2) R(1) by (auto simp: Let_def split: prod.splits)
  from Suc.IH [OF R(3) this] R(2,4,5) show ?case by auto
qed auto

section \<open>Properties\<close>

text \<open>
  C36: the memory test over the naive manager. With an argument between 1 and \<open>2 ^ 31\<close> bytes and
  that much room (and 31 bytes per request) at the end of the pool, every round of the test ends,
  within 129 passes of its request loop, and passes: the test never reports an error. Behind it the
  blocks of the pool are the same as before, and no byte of a block that was in use has changed.
\<close>

theorem test_mm_passes:
  assumes "\<forall>u k. unat (scale u k) \<le> unat k" and "0 < arg" and "arg \<le> 2 ^ 31" and "tailroom (nat arg + 3976) s"
    and "test_mm n 129 naive_mm scale 1 arg (s, m, z) = (out, e, s', m', z')"
  shows "e = Running \<and> blocks s' = blocks s \<and> (\<forall>p k x. naive_live s p = Some k \<and> p \<le> x \<and> x < p + k \<longrightarrow> m' x = m x)"
proof -
  have a: "unat (of_int arg :: u64) = nat arg"
    using assms(2,3) by (simp add: unat_eq_nat_uint uint_word_of_int_eq take_bit_int_eq_self)
  then have "\<not> (of_int arg :: u64) \<le> 0" using assms(2) by (simp add: word_le_nat_alt)
  then obtain o1 where "mm_rounds n 129 naive_mm scale (of_int arg) 0 (s, m, z) = (o1, e, s', m', z')"
    using assms(5) by (auto simp: test_mm_def Let_def split: prod.splits)
  from rounds_total [OF assms(1) _ _ this] show ?thesis using assms(3,4) a by simp
qed

lemma test_mm_passes_witness:
  "fst (snd (test_mm 3 129 naive_mm (\<lambda>u k. k) 1 1024 (createMemoryManager_naive no_pool 4096 65536, (\<lambda>_. 0), (1, 1)))) = Running"
proof -
  have t: "tailroom 65512 (createMemoryManager_naive no_pool 4096 65536)"
    using tailroom_create [of 4096 65536 no_pool] by (simp add: dvd_def)
  obtain out e s' m' z' where r: "test_mm 3 129 naive_mm (\<lambda>u k. k) 1 1024 (createMemoryManager_naive no_pool 4096 65536, (\<lambda>_. 0), (1, 1))
      = (out, e, s', m', z')" by (metis surj_pair)
  have "e = Running" using test_mm_passes [OF _ _ _ _ r] tailroom_mono [OF t] by simp
  then show ?thesis unfolding r by simp
qed

end
