(* ===== verification/Test_Sync.thy ===== *)
theory Test_Sync
  imports Shell
begin

text \<open>
  \<open>Userland/tests/test_sync.c\<close>: processes that change a shared counter, with or without a semaphore.
  The body of \<open>process_inc\<close> is a state machine whose steps are single accesses to the shared
  variables and single semaphore operations; the scheduler is any interleaving of these steps. The
  functions around it run in the monad of \<open>Shell\<close>, with the kernel as parameter.
\<close>

section \<open>The processes\<close>

text \<open>
  The arguments of \<open>process_inc\<close>: iterations, increment and \<open>use_sem\<close>, or \<open>None\<close> where it returns -1.
  The comparison of the unsigned \<open>n\<close> with \<open>\<le> 0\<close> rejects 0 only.
\<close>

definition process_inc_args :: "string list \<Rightarrow> (u64 \<times> 8 word \<times> bool) option" where
  "process_inc_args argv =
     (if length argv \<noteq> 3 then None
      else let n = word_of_int (satoi_s (argv ! 0)) :: u64 in
        if n \<le> 0 then None
        else let inc = word_of_int (satoi_s (argv ! 1)) :: 8 word in
          if inc = 0 then None
          else let use_sem = word_of_int (satoi_s (argv ! 2)) :: 8 word in
            if sint use_sem < 0 then None else Some (n, inc, use_sem \<noteq> 0))"

text \<open>
  Where a process stands, named after what it does next; \<open>IStore\<close> carries the copy \<open>aux\<close> that
  \<open>slowInc\<close> took before it yielded.
\<close>

datatype sloc = IOpen | ILoop | IWait | ILoad | IStore u64 | IPost | IClose | IExit

text \<open>
  The shared state: \<open>global\<close> and the value of the semaphore, once it exists; and of each process the
  position and the loop variable.
\<close>

record SyncShared =
  global_var :: u64
  sync_sem :: "nat option"
  slocs :: "nat \<Rightarrow> sloc"
  iters :: "nat \<Rightarrow> u64"

definition sync_goto :: "nat \<Rightarrow> sloc \<Rightarrow> SyncShared \<Rightarrow> SyncShared" where
  "sync_goto i l s = s\<lparr>slocs := (slocs s)(i := l)\<rparr>"

definition next_iter :: "nat \<Rightarrow> SyncShared \<Rightarrow> SyncShared" where
  "next_iter i s = sync_goto i ILoop (s\<lparr>iters := (iters s)(i := iters s i + 1)\<rparr>)"

text \<open>\<open>slowInc\<close> before and after it yields.\<close>

definition slowInc_load :: "nat \<Rightarrow> SyncShared \<Rightarrow> SyncShared" where
  "slowInc_load i s = sync_goto i (IStore (global_var s)) s"

definition slowInc_store :: "8 word \<Rightarrow> u64 \<Rightarrow> SyncShared \<Rightarrow> SyncShared" where
  "slowInc_store inc aux s = s\<lparr>global_var := aux + scast inc\<rparr>"

lemmas slowInc_simps [simp] = slowInc_load_def slowInc_store_def

text \<open>
  One step of process \<open>i\<close>; \<open>None\<close> when it has to wait or has ended. \<open>room\<close> says whether the kernel
  has a free semaphore. A wait or post on a semaphore that does not exist is refused and the process
  goes on, as the code ignores the answer.
\<close>

definition process_inc :: "bool \<Rightarrow> bool \<Rightarrow> u64 \<Rightarrow> (nat \<Rightarrow> 8 word) \<Rightarrow> nat \<Rightarrow> SyncShared \<Rightarrow> SyncShared option" where
  "process_inc use_sem room n inc i s =
     (case slocs s i of
        IOpen \<Rightarrow>
          if \<not> use_sem then Some (sync_goto i ILoop s)
          else (case sync_sem s of
                  Some v \<Rightarrow> Some (sync_goto i ILoop s)
                | None \<Rightarrow> if room then Some (sync_goto i ILoop (s\<lparr>sync_sem := Some 1\<rparr>))
                          else Some (sync_goto i IExit s))
      | ILoop \<Rightarrow>
          if iters s i < n then Some (sync_goto i (if use_sem then IWait else ILoad) s)
          else Some (sync_goto i (if use_sem then IClose else IExit) s)
      | IWait \<Rightarrow>
          (case sync_sem s of
             None \<Rightarrow> Some (sync_goto i ILoad s)
           | Some v \<Rightarrow> if v = 0 then None else Some (sync_goto i ILoad (s\<lparr>sync_sem := Some (v - 1)\<rparr>)))
      | ILoad \<Rightarrow> Some (slowInc_load i s)
      | IStore aux \<Rightarrow>
          let s' = slowInc_store (inc i) aux s
          in Some (if use_sem then sync_goto i IPost s' else next_iter i s')
      | IPost \<Rightarrow> Some (next_iter i (s\<lparr>sync_sem := map_option Suc (sync_sem s)\<rparr>))
      | IClose \<Rightarrow> Some (sync_goto i IExit s)
      | IExit \<Rightarrow> None)"

text \<open>All interleavings of \<open>k\<close> processes, started after \<open>test_sync\<close> has set \<open>global\<close> to 0.\<close>

definition sync_init :: SyncShared where
  "sync_init = \<lparr>global_var = 0, sync_sem = None, slocs = (\<lambda>_. IOpen), iters = (\<lambda>_. 0)\<rparr>"

inductive sync_reach :: "nat \<Rightarrow> bool \<Rightarrow> bool \<Rightarrow> u64 \<Rightarrow> (nat \<Rightarrow> 8 word) \<Rightarrow> SyncShared \<Rightarrow> bool"
  for k use_sem room n inc where
  start: "sync_reach k use_sem room n inc sync_init"
| step: "\<lbrakk>sync_reach k use_sem room n inc s; i < k; process_inc use_sem room n inc i s = Some s'\<rbrakk>
    \<Longrightarrow> sync_reach k use_sem room n inc s'"

text \<open>A given schedule: the processes that take the steps, in order.\<close>

fun sync_run :: "nat \<Rightarrow> bool \<Rightarrow> bool \<Rightarrow> u64 \<Rightarrow> (nat \<Rightarrow> 8 word) \<Rightarrow> nat list \<Rightarrow> SyncShared \<Rightarrow> SyncShared option" where
  "sync_run k use_sem room n inc [] s = Some s"
| "sync_run k use_sem room n inc (i # is) s =
     (if i < k
      then (case process_inc use_sem room n inc i s of
              None \<Rightarrow> None
            | Some s' \<Rightarrow> sync_run k use_sem room n inc is s')
      else None)"

lemma sync_run_reach:
  "\<lbrakk>sync_reach k us room n inc s; sync_run k us room n inc is s = Some s'\<rbrakk> \<Longrightarrow> sync_reach k us room n inc s'"
proof (induction "is" arbitrary: s)
  case (Cons i "is")
  then show ?case by (auto split: if_splits option.splits intro: sync_reach.step)
qed simp

section \<open>With the semaphore\<close>

definition in_crit :: "sloc \<Rightarrow> bool" where
  "in_crit l \<longleftrightarrow> l = ILoad \<or> l = IPost \<or> (\<exists>a. l = IStore a)"

lemma in_crit_simps [simp]:
  "in_crit ILoad" "in_crit IPost" "in_crit (IStore a)"
  "\<not> in_crit IOpen" "\<not> in_crit ILoop" "\<not> in_crit IWait" "\<not> in_crit IClose" "\<not> in_crit IExit"
  by (simp_all add: in_crit_def)

text \<open>The additions that process \<open>i\<close> has finished: one more than its loop variable before the post.\<close>

definition added :: "SyncShared \<Rightarrow> nat \<Rightarrow> nat" where
  "added s i = unat (iters s i) + (if slocs s i = IPost then 1 else 0)"

definition total_added :: "nat \<Rightarrow> (nat \<Rightarrow> 8 word) \<Rightarrow> SyncShared \<Rightarrow> u64" where
  "total_added k inc s = (\<Sum>i < k. of_nat (added s i) * scast (inc i))"

text \<open>
  The invariant: either the semaphore is still to be created and every process is at its start, or it
  counts the processes between a wait and its post, whose copy \<open>aux\<close> is up to date.
\<close>

definition proc_ok :: "u64 \<Rightarrow> u64 \<Rightarrow> nat option \<Rightarrow> nat \<Rightarrow> sloc \<Rightarrow> u64 \<Rightarrow> bool" where
  "proc_ok n g owner i l x \<longleftrightarrow>
     (in_crit l \<longleftrightarrow> owner = Some i) \<and> x \<le> n \<and> (in_crit l \<or> l = IWait \<longrightarrow> x < n)
     \<and> (l = IClose \<or> l = IExit \<longrightarrow> x = n) \<and> (\<forall>a. l = IStore a \<longrightarrow> a = g)"

definition sync_inv :: "nat \<Rightarrow> u64 \<Rightarrow> (nat \<Rightarrow> 8 word) \<Rightarrow> nat option \<Rightarrow> SyncShared \<Rightarrow> bool" where
  "sync_inv k n inc owner s \<longleftrightarrow>
     (if sync_sem s = None then owner = None \<and> (\<forall>i < k. slocs s i = IOpen)
      else sync_sem s = Some (if owner = None then 1 else 0))
     \<and> (\<forall>j. owner = Some j \<longrightarrow> j < k)
     \<and> (\<forall>i < k. proc_ok n (global_var s) owner i (slocs s i) (iters s i))
     \<and> global_var s = total_added k inc s"

lemma sync_fields [simp]:
  "global_var (sync_goto i l s) = global_var s" "sync_sem (sync_goto i l s) = sync_sem s"
  "iters (sync_goto i l s) = iters s" "slocs (sync_goto i l s) = (slocs s)(i := l)"
  "global_var (next_iter i s) = global_var s" "sync_sem (next_iter i s) = sync_sem s"
  "iters (next_iter i s) = (iters s)(i := iters s i + 1)" "slocs (next_iter i s) = (slocs s)(i := ILoop)"
  by (simp_all add: sync_goto_def next_iter_def)

lemma total_cong:
  "(\<And>i. i < k \<Longrightarrow> added s' i = added s i) \<Longrightarrow> total_added k inc s' = total_added k inc s"
  by (simp add: total_added_def)

lemma total_bump:
  assumes "i < k" and "added s' i = Suc (added s i)" and "\<And>j. \<lbrakk>j < k; j \<noteq> i\<rbrakk> \<Longrightarrow> added s' j = added s j"
  shows "total_added k inc s' = total_added k inc s + scast (inc i)"
proof -
  have "total_added k inc s' = of_nat (added s' i) * scast (inc i) + (\<Sum>j \<in> {..<k} - {i}. of_nat (added s' j) * scast (inc j))"
    using assms(1) by (simp add: total_added_def sum.remove)
  moreover have "(\<Sum>j \<in> {..<k} - {i}. of_nat (added s' j) * scast (inc j)) = (\<Sum>j \<in> {..<k} - {i}. of_nat (added s j) * (scast (inc j) :: u64))"
    by (rule sum.cong) (use assms(3) in auto)
  ultimately show ?thesis
    using assms(1,2) by (simp add: total_added_def sum.remove [of "{..<k}" i] algebra_simps)
qed

lemma iters_next:
  assumes "(x :: u64) < n"
  shows "unat (x + 1) = Suc (unat x)" and "x + 1 \<le> n"
proof -
  have "unat n < 2 ^ 64" using unsigned_less [of n] by simp
  then have "unat x + 1 < 2 ^ 64" using assms by (simp add: word_less_nat_alt)
  then show u: "unat (x + 1) = Suc (unat x)" by (simp add: unat_word_ariths)
  show "x + 1 \<le> n" using assms u by (simp add: word_less_nat_alt word_le_nat_alt)
qed

lemma sync_inv_init: "sync_inv k n inc None sync_init"
  by (simp add: sync_inv_def proc_ok_def sync_init_def total_added_def added_def)

text \<open>What is left to show of a step of process \<open>i\<close>: only that process and the shared values change.\<close>

lemma sync_inv_update:
  assumes I: "sync_inv k n inc owner s" and i: "i < k"
    and locs: "slocs s' = (slocs s)(i := l)" "iters s' = (iters s)(i := x)"
    and ok: "proc_ok n (global_var s') owner' i l x"
    and sem: "sync_sem s' = Some (if owner' = None then 1 else 0)"
    and own: "\<And>j. j \<noteq> i \<Longrightarrow> owner' = Some j \<longleftrightarrow> owner = Some j"
    and g: "global_var s' = global_var s \<or> owner = Some i" and tot: "global_var s' = total_added k inc s'"
  shows "sync_inv k n inc owner' s'"
proof -
  have "proc_ok n (global_var s') owner' j (slocs s' j) (iters s' j)" if "j < k" for j
  proof (cases "j = i")
    case True
    then show ?thesis using ok locs by simp
  next
    case False
    have "proc_ok n (global_var s) owner j (slocs s j) (iters s j)" using I that unfolding sync_inv_def by blast
    then show ?thesis using False own [OF False] g locs by (auto simp: proc_ok_def)
  qed
  moreover have "\<forall>j. owner' = Some j \<longrightarrow> j < k" using I i own by (metis sync_inv_def)
  ultimately show ?thesis using sem tot by (simp add: sync_inv_def)
qed

lemma sync_invD:
  assumes "sync_inv k n inc owner s" and "i < k"
  shows "proc_ok n (global_var s) owner i (slocs s i) (iters s i)"
    and "slocs s i \<noteq> IOpen \<Longrightarrow> sync_sem s = Some (if owner = None then 1 else 0)"
    and "sync_sem s = None \<and> owner = None \<or> sync_sem s = Some (if owner = None then 1 else 0)"
    and "global_var s = total_added k inc s"
  using assms by (auto simp: sync_inv_def split: if_splits)

text \<open>The steps outside of an addition leave the sum alone.\<close>

lemma total_same:
  assumes "slocs s' = (slocs s)(i := l)" and "iters s' = iters s" and "l \<noteq> IPost" and "slocs s i \<noteq> IPost"
  shows "total_added k inc s' = total_added k inc s"
  by (rule total_cong) (use assms in \<open>simp add: added_def\<close>)

lemma sync_inv_step:
  assumes I: "sync_inv k n inc owner s" and i: "i < k" and st: "process_inc True True n inc i s = Some s'"
  shows "\<exists>owner'. sync_inv k n inc owner' s'"
proof -
  note P = sync_invD(1,2) [OF I i] and sem = sync_invD(3) [OF I i] and sum = sync_invD(4) [OF I i]
  show ?thesis
  proof (cases "slocs s i")
    case IOpen
    have "total_added k inc s' = total_added k inc s"
      by (rule total_same [where l = "ILoop"]) (use IOpen st in \<open>auto simp: process_inc_def split: option.splits\<close>)
    then have t: "global_var s' = total_added k inc s'" using IOpen st sum by (auto simp: process_inc_def split: option.splits)
    have "sync_inv k n inc owner s'"
      by (rule sync_inv_update [OF I i _ _ _ _ _ _ t, where l = ILoop and x = "iters s i"])
        (use IOpen st P(1) sem in \<open>auto simp: process_inc_def proc_ok_def split: option.splits\<close>)
    then show ?thesis by blast
  next
    case ILoop
    have "total_added k inc s' = total_added k inc s"
      by (rule total_same [where l = "if iters s i < n then IWait else IClose"]) (use ILoop st in \<open>auto simp: process_inc_def split: if_splits\<close>)
    then have t: "global_var s' = total_added k inc s'" using ILoop st sum by (auto simp: process_inc_def split: if_splits)
    have "sync_inv k n inc owner s'"
      by (rule sync_inv_update [OF I i _ _ _ _ _ _ t, where l = "if iters s i < n then IWait else IClose" and x = "iters s i"])
        (use ILoop st P in \<open>auto simp: process_inc_def proc_ok_def split: if_splits\<close>)
    then show ?thesis by blast
  next
    case IWait
    have "total_added k inc s' = total_added k inc s"
      by (rule total_same [where l = "ILoad"]) (use IWait st in \<open>auto simp: process_inc_def split: option.splits if_splits\<close>)
    then have t: "global_var s' = total_added k inc s'" using IWait st sum by (auto simp: process_inc_def split: option.splits if_splits)
    have "sync_inv k n inc (Some i) s'"
      by (rule sync_inv_update [OF I i _ _ _ _ _ _ t, where l = ILoad and x = "iters s i"])
        (use IWait st P in \<open>auto simp: process_inc_def proc_ok_def split: if_splits\<close>)
    then show ?thesis by blast
  next
    case ILoad
    have "total_added k inc s' = total_added k inc s"
      by (rule total_same [where l = "IStore (global_var s)"]) (use ILoad st in \<open>auto simp: process_inc_def\<close>)
    then have t: "global_var s' = total_added k inc s'" using ILoad st sum by (auto simp: process_inc_def)
    have "sync_inv k n inc owner s'"
      by (rule sync_inv_update [OF I i _ _ _ _ _ _ t, where l = "IStore (global_var s)" and x = "iters s i"])
        (use ILoad st P in \<open>auto simp: process_inc_def proc_ok_def\<close>)
    then show ?thesis by blast
  next
    case (IStore a)
    have "total_added k inc s' = total_added k inc s + scast (inc i)"
      by (rule total_bump [OF i]) (use IStore st in \<open>auto simp: process_inc_def added_def Let_def\<close>)
    then have t: "global_var s' = total_added k inc s'"
      using IStore st sum P(1) by (auto simp: process_inc_def proc_ok_def Let_def)
    have "sync_inv k n inc owner s'"
      by (rule sync_inv_update [OF I i _ _ _ _ _ _ t, where l = IPost and x = "iters s i"])
        (use IStore st P in \<open>auto simp: process_inc_def proc_ok_def Let_def\<close>)
    then show ?thesis by blast
  next
    case IPost
    have lt: "iters s i < n" using P(1) IPost by (simp add: proc_ok_def)
    note nx = iters_next [OF lt]
    have "total_added k inc s' = total_added k inc s"
      by (rule total_cong) (use IPost st nx in \<open>auto simp: process_inc_def added_def split: if_splits\<close>)
    then have t: "global_var s' = total_added k inc s'" using IPost st sum by (auto simp: process_inc_def)
    have "sync_inv k n inc None s'"
      by (rule sync_inv_update [OF I i _ _ _ _ _ _ t, where l = ILoop and x = "iters s i + 1"])
        (use IPost st P nx in \<open>auto simp: process_inc_def proc_ok_def\<close>)
    then show ?thesis by blast
  next
    case IClose
    have "total_added k inc s' = total_added k inc s"
      by (rule total_same [where l = "IExit"]) (use IClose st in \<open>auto simp: process_inc_def\<close>)
    then have t: "global_var s' = total_added k inc s'" using IClose st sum by (auto simp: process_inc_def)
    have "sync_inv k n inc owner s'"
      by (rule sync_inv_update [OF I i _ _ _ _ _ _ t, where l = IExit and x = "iters s i"])
        (use IClose st P in \<open>auto simp: process_inc_def proc_ok_def\<close>)
    then show ?thesis by blast
  next
    case IExit
    then show ?thesis using st by (simp add: process_inc_def)
  qed
qed

lemma sync_reach_inv: "sync_reach k True True n inc s \<Longrightarrow> \<exists>owner. sync_inv k n inc owner s"
proof (induction rule: sync_reach.induct)
  case start
  then show ?case using sync_inv_init by blast
next
  case (step s i s')
  then show ?case using sync_inv_step by blast
qed

text \<open>The process inside can go on; when there is none, no process waits in vain.\<close>

lemma sync_progress:
  assumes I: "sync_inv k n inc owner s" and i: "i < k" "slocs s i \<noteq> IExit"
  shows "\<exists>j < k. process_inc True True n inc j s \<noteq> None"
proof (cases owner)
  case None
  then have "process_inc True True n inc i s \<noteq> None"
    using sync_invD(3) [OF I i(1)] i(2) by (cases "slocs s i") (auto simp: process_inc_def)
  then show ?thesis using i(1) by blast
next
  case (Some j)
  then have j: "j < k" using I by (simp add: sync_inv_def)
  have "in_crit (slocs s j)" using sync_invD(1) [OF I j] Some by (simp add: proc_ok_def)
  then have "process_inc True True n inc j s \<noteq> None" by (auto simp: process_inc_def in_crit_def Let_def)
  then show ?thesis using j by blast
qed

lemma sync_exclusion:
  assumes "sync_inv k n inc owner s" and "i < k" "in_crit (slocs s i)" and "j < k" "in_crit (slocs s j)"
  shows "i = j"
  using sync_invD(1) [OF assms(1,2)] sync_invD(1) [OF assms(1,4)] assms(3,5) by (simp add: proc_ok_def)

lemma sync_result:
  assumes I: "sync_inv k n inc owner s" and "\<forall>i < k. slocs s i = IExit"
  shows "global_var s = (\<Sum>i < k. n * scast (inc i))"
proof -
  have "added s i = unat n" if "i < k" for i
    using sync_invD(1) [OF I that] assms(2) that by (simp add: proc_ok_def added_def)
  then have "total_added k inc s = (\<Sum>i < k. n * scast (inc i))" by (simp add: total_added_def)
  then show ?thesis using sync_invD(4) [OF I] I by (simp add: sync_inv_def)
qed

text \<open>Every step, of any process, uses up some of what is left to do, so every run ends.\<close>

definition steps_left :: "u64 \<Rightarrow> sloc \<Rightarrow> u64 \<Rightarrow> nat" where
  "steps_left n l x =
     5 * (unat n - unat x) +
     (case l of IOpen \<Rightarrow> 3 | ILoop \<Rightarrow> 2 | IWait \<Rightarrow> 1 | ILoad \<Rightarrow> 0 | IStore a \<Rightarrow> 0 | IPost \<Rightarrow> 0 | IClose \<Rightarrow> 1 | IExit \<Rightarrow> 0)
     - (case l of IStore a \<Rightarrow> 1 | IPost \<Rightarrow> 2 | _ \<Rightarrow> 0)"

definition sync_left :: "nat \<Rightarrow> u64 \<Rightarrow> SyncShared \<Rightarrow> nat" where
  "sync_left k n s = (\<Sum>i < k. steps_left n (slocs s i) (iters s i))"

lemma sync_left_step:
  assumes "i < k" and st: "process_inc us room n inc i s = Some s'" and "iters s i \<le> n"
    and "in_crit (slocs s i) \<longrightarrow> iters s i < n"
  shows "sync_left k n s' < sync_left k n s"
proof -
  have o: "slocs s' j = slocs s j" "iters s' j = iters s j" if "j \<noteq> i" for j
    using st that by (auto simp: process_inc_def Let_def split: sloc.splits option.splits if_splits)
  have "steps_left n (slocs s' i) (iters s' i) < steps_left n (slocs s i) (iters s i)"
    using st assms(3,4) iters_next(1) [of "iters s i" n]
    by (auto simp: process_inc_def steps_left_def word_less_nat_alt word_le_nat_alt Let_def
        split: sloc.splits option.splits if_splits)
  moreover have "(\<Sum>j \<in> {..<k} - {i}. steps_left n (slocs s' j) (iters s' j)) = (\<Sum>j \<in> {..<k} - {i}. steps_left n (slocs s j) (iters s j))"
    by (rule sum.cong) (use o in auto)
  ultimately show ?thesis using assms(1) by (simp add: sync_left_def sum.remove [of "{..<k}" i])
qed

section \<open>Properties\<close>

text \<open>The increments of the four processes of \<open>test_sync\<close>, in the order it creates them.\<close>

definition test_incs :: "nat \<Rightarrow> 8 word" where
  "test_incs i = (if even i then - 1 else 1)"

lemma test_incs_simps:
  "test_incs 0 = - 1" "test_incs (Suc 0) = 1" "test_incs (Suc (Suc 0)) = - 1" "test_incs (Suc (Suc (Suc 0))) = 1"
  by (simp_all add: test_incs_def)

text \<open>
  C37: the synchronised counter. In every interleaving of any number of processes that use the
  semaphore at most one is between a wait and its post; when all have ended the counter is the sum of
  all their increments, for the test 0; as long as one has not ended some process can go on; and every
  step uses up some of a bounded number of steps, so every run ends.
\<close>

theorem sync_with_semaphore:
  assumes "sync_reach k True True n inc s"
  shows "(\<forall>i j. i < k \<and> j < k \<and> in_crit (slocs s i) \<and> in_crit (slocs s j) \<longrightarrow> i = j)
    \<and> ((\<forall>i < k. slocs s i = IExit) \<longrightarrow> global_var s = (\<Sum>i < k. n * scast (inc i)))
    \<and> ((\<exists>i < k. slocs s i \<noteq> IExit) \<longrightarrow> (\<exists>i < k. process_inc True True n inc i s \<noteq> None))
    \<and> (\<forall>i < k. \<forall>s'. process_inc True True n inc i s = Some s' \<longrightarrow> sync_left k n s' < sync_left k n s)"
proof -
  obtain owner where I: "sync_inv k n inc owner s" using sync_reach_inv [OF assms] by blast
  have "sync_left k n s' < sync_left k n s" if "i < k" "process_inc True True n inc i s = Some s'" for i s'
    by (rule sync_left_step [OF that]) (use sync_invD(1) [OF I that(1)] in \<open>simp_all add: proc_ok_def\<close>)
  then show ?thesis using sync_exclusion [OF I] sync_result [OF I] sync_progress [OF I] by blast
qed

text \<open>The four processes of the test with one iteration each, one after the other.\<close>

definition one_by_one :: "nat list" where
  "one_by_one = concat (map (replicate 8) [0, 1, 2, 3])"

lemma one_by_one_runs:
  "\<exists>s. sync_run 4 True True 1 test_incs one_by_one sync_init = Some s \<and> (\<forall>i < 4. slocs s i = IExit)"
  by (simp add: one_by_one_def process_inc_def sync_init_def sync_goto_def next_iter_def test_incs_simps Let_def
      numeral_eq_Suc less_Suc_eq)

lemma sync_with_semaphore_witness:
  "\<exists>s. sync_reach 4 True True 1 test_incs s \<and> (\<forall>i < 4. slocs s i = IExit) \<and> global_var s = 0"
proof -
  obtain s where r: "sync_run 4 True True 1 test_incs one_by_one sync_init = Some s" and e: "\<forall>i < 4. slocs s i = IExit"
    using one_by_one_runs by blast
  have R: "sync_reach 4 True True 1 test_incs s" by (rule sync_run_reach [OF sync_reach.start r])
  have "global_var s = (\<Sum>i < 4. 1 * scast (test_incs i))" using sync_with_semaphore [OF R] e by blast
  also have "\<dots> = 0" by (simp add: test_incs_simps numeral_eq_Suc)
  finally show ?thesis using R e by blast
qed

text \<open>
  Without the semaphore an update can be lost: all four load before the first one stores, and the
  counter ends at the increment of the last one.
\<close>

definition all_load_first :: "nat list" where
  "all_load_first = [0, 0, 0, 1, 1, 1, 2, 2, 2, 3, 3, 3, 0, 1, 2, 3, 0, 1, 2, 3]"

lemma sync_without_semaphore:
  "\<exists>s. sync_reach 4 False True 1 test_incs s \<and> (\<forall>i < 4. slocs s i = IExit) \<and> global_var s = 1"
proof -
  have "\<exists>s. sync_run 4 False True 1 test_incs all_load_first sync_init = Some s
      \<and> (\<forall>i < 4. slocs s i = IExit) \<and> global_var s = 1"
    by (simp add: all_load_first_def process_inc_def sync_init_def sync_goto_def next_iter_def test_incs_simps Let_def
        numeral_eq_Suc less_Suc_eq)
  then show ?thesis using sync_run_reach [OF sync_reach.start] by blast
qed

end
