(* ===== verification/Sync_On_Kernel.thy ===== *)
theory Sync_On_Kernel
  imports Semaphore_Properties Buddy_Manager Test_Sync
begin

text \<open>
  The programs of \<open>Test_Sync\<close> on the kernel. There the semaphore is a counter; here it is one of the
  kernel's, and the scheduler decides who runs. The locale states what a program relies on; the
  kernel's semaphores provide it, and in every run of the kernel the processes of the test only do
  what the step relation of \<open>Test_Sync\<close> allows.
\<close>

section \<open>The interface\<close>

text \<open>
  A semaphore as its users see it: a wait, entered or resumed, by the running process; a post; and
  whatever else the kernel does in between, which keeps the value. \<open>running\<close> is 0 when none runs.
\<close>

locale counting_semaphore =
  fixes ok :: "'s \<Rightarrow> bool"
    and count :: "'s \<Rightarrow> nat"
    and running :: "'s \<Rightarrow> nat"
    and wait :: "'s \<Rightarrow> int outcome \<times> 's"
    and resume :: "'s \<Rightarrow> int outcome \<times> 's"
    and post :: "'s \<Rightarrow> int \<times> 's"
    and other :: "'s \<Rightarrow> 's \<Rightarrow> bool"
  assumes wait_takes: "\<lbrakk>ok s; running s \<noteq> 0; 0 < count s\<rbrakk> \<Longrightarrow> \<exists>s'. wait s = (Ret 0, s') \<and> ok s' \<and> Suc (count s') = count s"
    and wait_sleeps: "\<lbrakk>ok s; running s \<noteq> 0; count s = 0\<rbrakk> \<Longrightarrow> \<exists>s'. wait s = (Sleep, s') \<and> ok s' \<and> count s' = 0"
    and resume_waits: "\<lbrakk>ok s; running s \<noteq> 0\<rbrakk> \<Longrightarrow> resume s = wait s"
    and post_adds: "\<lbrakk>ok s; running s \<noteq> 0\<rbrakk> \<Longrightarrow> \<exists>s'. post s = (0, s') \<and> ok s' \<and> count s' = Suc (count s)"
    and other_keeps: "\<lbrakk>ok s; other s s'\<rbrakk> \<Longrightarrow> ok s' \<and> count s' = count s"

section \<open>The processes on a semaphore\<close>

text \<open>
  The steps of the processes \<open>0 \<dots> k - 1\<close> of the test, of which \<open>pids j\<close> are the process numbers: only the
  one that runs takes a step. The state is the kernel, the variables of the test, and which processes
  sleep inside a wait. The test starts behind \<open>semOpen\<close>.
\<close>

definition opened :: "nat \<Rightarrow> SyncShared" where
  "opened k = sync_init\<lparr>sync_sem := Some 1, slocs := (\<lambda>i. if i < k then ILoop else IOpen)\<rparr>"

inductive sync_service ::
    "('s \<Rightarrow> nat) \<Rightarrow> ('s \<Rightarrow> int outcome \<times> 's) \<Rightarrow> ('s \<Rightarrow> int outcome \<times> 's) \<Rightarrow> ('s \<Rightarrow> int \<times> 's) \<Rightarrow> ('s \<Rightarrow> 's \<Rightarrow> bool)
     \<Rightarrow> (nat \<Rightarrow> nat) \<Rightarrow> nat \<Rightarrow> u64 \<Rightarrow> (nat \<Rightarrow> 8 word) \<Rightarrow> 's \<Rightarrow> 's \<Rightarrow> SyncShared \<Rightarrow> (nat \<Rightarrow> bool) \<Rightarrow> bool"
  for running wait resume post other pids k n inc s0 where
  start: "sync_service running wait resume post other pids k n inc s0 s0 (opened k) (\<lambda>_. False)"
| kernel: "\<lbrakk>sync_service running wait resume post other pids k n inc s0 s u a; other s s'\<rbrakk>
    \<Longrightarrow> sync_service running wait resume post other pids k n inc s0 s' u a"
| own: "\<lbrakk>sync_service running wait resume post other pids k n inc s0 s u a; j < k; running s = pids j;
      slocs u j \<noteq> IWait; slocs u j \<noteq> IPost; process_inc True True n inc j u = Some u'\<rbrakk>
    \<Longrightarrow> sync_service running wait resume post other pids k n inc s0 s u' a"
| takes: "\<lbrakk>sync_service running wait resume post other pids k n inc s0 s u a; j < k; running s = pids j; slocs u j = IWait;
      (if a j then resume s else wait s) = (Ret v, s')\<rbrakk>
    \<Longrightarrow> sync_service running wait resume post other pids k n inc s0 s' (sync_goto j ILoad u) (a(j := False))"
| sleeps: "\<lbrakk>sync_service running wait resume post other pids k n inc s0 s u a; j < k; running s = pids j; slocs u j = IWait;
      (if a j then resume s else wait s) = (Sleep, s')\<rbrakk>
    \<Longrightarrow> sync_service running wait resume post other pids k n inc s0 s' u (a(j := True))"
| posts: "\<lbrakk>sync_service running wait resume post other pids k n inc s0 s u a; j < k; running s = pids j; slocs u j = IPost;
      post s = (v, s')\<rbrakk>
    \<Longrightarrow> sync_service running wait resume post other pids k n inc s0 s' (next_iter j u) a"

text \<open>The variables of the test, with the count of the semaphore as the value they see.\<close>

definition seen :: "nat \<Rightarrow> SyncShared \<Rightarrow> SyncShared" where
  "seen v u = u\<lparr>sync_sem := Some v\<rparr>"

lemma seen_fields [simp]:
  "global_var (seen v u) = global_var u" "slocs (seen v u) = slocs u" "iters (seen v u) = iters u"
  "sync_sem (seen v u) = Some v" "(seen v u)\<lparr>sync_sem := Some w\<rparr> = seen w u"
  by (simp_all add: seen_def)

lemma seen_goto [simp]: "seen v (sync_goto j l u) = sync_goto j l (seen v u)" "seen v (next_iter j u) = next_iter j (seen v u)"
  by (simp_all add: seen_def sync_goto_def next_iter_def)

lemma process_inc_seen:
  "\<lbrakk>slocs u j \<notin> {IWait, IPost, IOpen}; process_inc True True n inc j u = Some u'\<rbrakk>
   \<Longrightarrow> process_inc True True n inc j (seen v u) = Some (seen v u')"
  by (cases "slocs u j") (auto simp: process_inc_def Let_def seen_def sync_goto_def next_iter_def split: if_splits)

text \<open>All processes can open the semaphore first.\<close>

lemma opened_prefix:
  "j \<le> k \<Longrightarrow> sync_reach k True True n inc (if j = 0 then sync_init else opened j)"
proof (induction j)
  case 0
  then show ?case by (simp add: sync_reach.start)
next
  case (Suc j)
  have "process_inc True True n inc j (if j = 0 then sync_init else opened j) = Some (opened (Suc j))"
    by (auto simp: process_inc_def opened_def sync_init_def sync_goto_def fun_eq_iff less_Suc_eq)
  then show ?case using sync_reach.step [OF Suc.IH, of j] Suc.prems by simp
qed

lemma opened_reached: "0 < k \<Longrightarrow> sync_reach k True True n inc (opened k)"
  using opened_prefix [of k k] by simp

context counting_semaphore
begin

lemma wait_cases:
  assumes "ok s" and "running s \<noteq> 0" and "(if b then resume s else wait s) = (r, s')"
  obtains "r = Ret 0" "ok s'" "0 < count s" "Suc (count s') = count s"
  | "r = Sleep" "ok s'" "count s = 0" "count s' = 0"
proof (cases "count s")
  case 0
  then show ?thesis using wait_sleeps [OF assms(1,2) 0] resume_waits [OF assms(1,2)] assms(3) that(2) by (auto split: if_splits)
next
  case (Suc m)
  then have pos: "0 < count s" by simp
  show ?thesis using wait_takes [OF assms(1,2) pos] resume_waits [OF assms(1,2)] assms(3) that(1) by (auto split: if_splits)
qed

text \<open>Every run on the semaphore is a run of the step relation, seen through the count.\<close>

lemma service_refines:
  assumes "sync_service running wait resume post other pids k n inc s0 s u a" and "ok s0" and "count s0 = 1" and "0 < k" and "\<forall>j < k. pids j \<noteq> 0"
  shows "ok s \<and> sync_reach k True True n inc (seen (count s) u) \<and> (\<forall>j < k. slocs u j \<noteq> IOpen)"
  using assms(1)
proof (induction rule: sync_service.induct)
  case start
  have "seen 1 (opened k) = opened k" by (simp add: seen_def opened_def sync_init_def)
  then have "ok s0 \<and> sync_reach k True True n inc (seen (count s0) (opened k))"
    using opened_reached [OF assms(4)] assms(2,3) by simp
  then show ?case by (simp add: opened_def)
next
  case (kernel s u a s')
  then show ?case using other_keeps [of s s'] by simp
next
  case (own s u a j u')
  have "process_inc True True n inc j (seen (count s) u) = Some (seen (count s) u')"
    using process_inc_seen own by simp
  moreover have "\<forall>i < k. slocs u' i \<noteq> IOpen"
    using own by (auto simp: process_inc_def Let_def split: sloc.splits if_splits)
  ultimately show ?case using own sync_reach.step by blast
next
  case (takes s u a j v s')
  have run: "running s \<noteq> 0" using takes assms(5) by simp
  from takes have o: "ok s" by blast
  have w: "ok s' \<and> 0 < count s \<and> Suc (count s') = count s" by (rule wait_cases [OF o run takes(5)]) auto
  then have c: "count s - Suc 0 = count s'" by linarith
  from w have "process_inc True True n inc j (seen (count s) u) = Some (seen (count s') (sync_goto j ILoad u))"
    using takes(4) by (cases u) (simp add: process_inc_def seen_def sync_goto_def c)
  then show ?case using takes w sync_reach.step by (auto split: if_splits)
next
  case (sleeps s u a j s')
  have run: "running s \<noteq> 0" using sleeps assms(5) by simp
  from sleeps have o: "ok s" by blast
  have "ok s' \<and> count s = 0 \<and> count s' = 0" by (rule wait_cases [OF o run sleeps(5)]) auto
  then show ?case using sleeps by simp
next
  case (posts s u a j v s')
  have run: "running s \<noteq> 0" using posts assms(5) by simp
  from posts have o: "ok s" by blast
  obtain t where "post s = (0, t)" "ok t" "count t = Suc (count s)" using post_adds [OF o run] by blast
  then have t: "ok s'" "count s' = Suc (count s)" using posts by simp_all
  then have "process_inc True True n inc j (seen (count s) u) = Some (seen (count s') (next_iter j u))"
    using posts by (simp add: process_inc_def seen_def next_iter_def sync_goto_def)
  then show ?case using posts t sync_reach.step by auto
qed

end

section \<open>The kernel's semaphores\<close>

text \<open>
  What the rest of the kernel does meanwhile: timer ticks, the yield inside \<open>slowInc\<close>, and all that
  other processes do with other semaphores.
\<close>

inductive kernel_other :: "'m mm \<Rightarrow> nat \<Rightarrow> ('m, 'z) sem_state_scheme \<Rightarrow> ('m, 'z) sem_state_scheme \<Rightarrow> bool" for M i where
  event: "\<lbrakk>sem_exec M e s = (r, s'); e \<notin> {EWait (int i), EResume i, EPost (int i)}\<rbrakk> \<Longrightarrow> kernel_other M i s s'"
| yields: "kernel_other M i s (snd (yield M s))"

context kernel_memory
begin

lemma yield_step: "swf s \<Longrightarrow> sched_step s (snd (yield M s))"
  using step_irq00 [of "setYield s"] by (simp add: yield_def forceSwitchContext_def setYield_def)

lemma kernel_counts:
  "counting_semaphore (\<lambda>s. i < 500 \<and> swfs s \<and> used (sems s i)) (\<lambda>s. nat (svalue (sems s i))) currentProcess
     (semWait M (int i)) (semWait_resume M i) (semPost M (int i)) (kernel_other M i)"
proof
  fix s :: "('a, 'z) sem_state_scheme"
  assume ok: "i < 500 \<and> swfs s \<and> used (sems s i)" and run: "currentProcess s \<noteq> 0"
  then have I: "swfs s" "i < 500" "used (sems s i)" by simp_all
  note D = sem_invD [OF I] and E = semWait_enter [OF I]
  obtain r s' where l: "semWait_loop M i (upd_sem i (\<lambda>x. x\<lparr>locked := True\<rparr>) s) = (r, s')" by force
  show "semWait_resume M i s = semWait M (int i) s" using E by simp
  show "\<exists>s'. semWait M (int i) s = (Ret 0, s') \<and> (i < 500 \<and> swfs s' \<and> used (sems s' i))
      \<and> Suc (nat (svalue (sems s' i))) = nat (svalue (sems s i))" if "0 < nat (svalue (sems s i))"
    using semWait_take [OF I _ l] that E(1) l I by simp
  show "\<exists>s'. semWait M (int i) s = (Sleep, s') \<and> (i < 500 \<and> swfs s' \<and> used (sems s' i)) \<and> nat (svalue (sems s' i)) = 0"
    if "nat (svalue (sems s i)) = 0"
  proof -
    have "svalue (sems s i) = 0" using D(6) that by simp
    from semWait_sleep(1-3) [OF I this run l] show ?thesis using E(1) l I that by simp
  qed
  obtain v t where p: "semPost M (int i) s = (v, t)" by force
  show "\<exists>s'. semPost M (int i) s = (0, s') \<and> (i < 500 \<and> swfs s' \<and> used (sems s' i))
      \<and> nat (svalue (sems s' i)) = Suc (nat (svalue (sems s i)))"
    using semPost_spec [OF I p] p I D(6) by auto
next
  fix s s' :: "('a, 'z) sem_state_scheme"
  assume ok: "i < 500 \<and> swfs s \<and> used (sems s i)" and "kernel_other M i s s'"
  from this(2) show "(i < 500 \<and> swfs s' \<and> used (sems s' i)) \<and> nat (svalue (sems s' i)) = nat (svalue (sems s i))"
  proof cases
    case (event e r)
    then show ?thesis using sem_exec_spec [of s i e r s'] ok by (auto simp: acquired_def posted_def)
  next
    case yields
    have "swf s" using ok by (simp add: sem_inv_def)
    then have "sched_step s s'" using yield_step yields by simp
    then show ?thesis using sem_inv_step(1,2) [of s s'] ok by simp
  qed
qed

end

interpretation naive_sem: counting_semaphore "\<lambda>s. i < 500 \<and> sem_inv naive_inv naive_live s \<and> used (sems s i)"
  "\<lambda>s. nat (svalue (sems s i))" currentProcess "semWait naive_mm (int i)" "semWait_resume naive_mm i"
  "semPost naive_mm (int i)" "kernel_other naive_mm i" for i :: nat
  by (rule naive.kernel_counts)

interpretation buddy_sem: counting_semaphore "\<lambda>s. i < 500 \<and> sem_inv buddy_inv buddy_live s \<and> used (sems s i)"
  "\<lambda>s. nat (svalue (sems s i))" currentProcess "semWait buddy_mm (int i)" "semWait_resume buddy_mm i"
  "semPost buddy_mm (int i)" "kernel_other buddy_mm i" for i :: nat
  by (rule buddy.kernel_counts)

section \<open>Properties\<close>

text \<open>
  C38: the test on the kernel. Let a semaphore of the kernel hold 1, and let processes of the test run
  on it in any way the kernel lets them: only the running one takes steps, it may fall asleep in a
  wait and resume later, and timer ticks, yields and the other processes' semaphores come in between.
  Then the kernel's invariant holds, what the processes have done is a run of the step relation with
  the semaphore's value as the counter, two of them are never between a wait and its post at once,
  and when all have ended the counter is the sum of their increments.
\<close>

theorem test_sync_on_kernel:
  assumes "sem_inv naive_inv naive_live s0" and "i < 500" and "used (sems s0 i)" and "svalue (sems s0 i) = 1"
    and "0 < k" and "\<forall>j < k. pids j \<noteq> 0"
    and "sync_service currentProcess (semWait naive_mm (int i)) (semWait_resume naive_mm i) (semPost naive_mm (int i))
           (kernel_other naive_mm i) pids k n inc s0 s u a"
  shows "sem_inv naive_inv naive_live s \<and> sync_reach k True True n inc (seen (nat (svalue (sems s i))) u)
    \<and> (\<forall>j l. j < k \<and> l < k \<and> in_crit (slocs u j) \<and> in_crit (slocs u l) \<longrightarrow> j = l)
    \<and> ((\<forall>j < k. slocs u j = IExit) \<longrightarrow> global_var u = (\<Sum>j < k. n * scast (inc j)))"
proof -
  have c: "i < 500 \<and> sem_inv naive_inv naive_live s0 \<and> used (sems s0 i)" "nat (svalue (sems s0 i)) = 1"
    using assms(1-4) by simp_all
  note R = naive_sem.service_refines [OF assms(7) c assms(5,6)]
  then obtain owner where I: "sync_inv k n inc owner (seen (nat (svalue (sems s i))) u)"
    using sync_reach_inv by blast
  show ?thesis using R sync_exclusion [OF I] sync_result [OF I] by simp
qed

text \<open>Two processes, 3 and 4, on the semaphore of \<open>demo_mutex\<close>: the running one, 3, gets inside.\<close>

lemma test_sync_on_kernel_witness:
  "\<exists>(s :: naive sem_state) u. slocs u 0 = ILoad \<and> slocs u 1 = ILoop \<and> svalue (sems s 0) = 0
     \<and> sync_reach 2 True True 1 test_incs (seen (nat (svalue (sems s 0))) u)"
proof -
  have v: "(0 :: int) \<le> 1" by simp
  note D = demo_mutex_facts [OF v]
  let ?run = "sync_service currentProcess (semWait naive_mm (int 0)) (semWait_resume naive_mm 0) (semPost naive_mm (int 0))
      (kernel_other naive_mm 0) (\<lambda>j. j + 3) 2 1 test_incs (demo_mutex 1)"
  obtain r s where w: "semWait naive_mm (int 0) (demo_mutex 1) = (r, s)" by force
  have l: "semWait_loop naive_mm 0 (upd_sem 0 (\<lambda>x. x\<lparr>locked := True\<rparr>) (demo_mutex 1)) = (r, s)"
    using naive.semWait_enter(1) [OF D(1) _ D(2)] w by simp
  have t: "r = Ret 0" "svalue (sems s 0) = 0" using naive.semWait_take(1,2) [OF D(1) _ D(2) _ l] D(3) by simp_all
  let ?u = "sync_goto 0 IWait (opened 2)"
  have "?run (demo_mutex 1) ?u (\<lambda>_. False)"
    by (rule sync_service.own [OF sync_service.start, where j = 0])
      (use D(5) in \<open>simp_all add: opened_def process_inc_def sync_init_def\<close>)
  from sync_service.takes [OF this, where j = 0] w t(1) D(5)
  have s: "?run s (sync_goto 0 ILoad ?u) ((\<lambda>_. False)(0 := False))" by simp
  have "sync_reach 2 True True 1 test_incs (seen (nat (svalue (sems s 0))) (sync_goto 0 ILoad ?u))"
    using test_sync_on_kernel [OF D(1) _ D(2,3) _ _ s] by simp
  then show ?thesis using t(2) by (intro exI [of _ s] exI [of _ "sync_goto 0 ILoad ?u"]) (simp add: opened_def)
qed

end
