(* ===== verification/Mvar_On_Kernel.thy ===== *)
theory Mvar_On_Kernel
  imports Sync_On_Kernel Boot_Properties
begin

text \<open>
  The readers and writers of \<open>User_Commands\<close> on the kernel: their three semaphores are semaphores of
  the kernel, and the scheduler decides who runs. The locale extends the interface of
  \<open>Sync_On_Kernel\<close> to several semaphores at once, and gives it back for each of them.
\<close>

section \<open>Several semaphores\<close>

locale semaphore_family =
  fixes ids :: "'i set"
    and ok :: "'s \<Rightarrow> bool"
    and count :: "'s \<Rightarrow> 'i \<Rightarrow> nat"
    and running :: "'s \<Rightarrow> nat"
    and wait :: "'i \<Rightarrow> 's \<Rightarrow> int outcome \<times> 's"
    and resume :: "'i \<Rightarrow> 's \<Rightarrow> int outcome \<times> 's"
    and post :: "'i \<Rightarrow> 's \<Rightarrow> int \<times> 's"
    and other :: "'s \<Rightarrow> 's \<Rightarrow> bool"
  assumes takes: "\<lbrakk>ok s; running s \<noteq> 0; i \<in> ids; 0 < count s i\<rbrakk>
      \<Longrightarrow> \<exists>s'. wait i s = (Ret 0, s') \<and> ok s' \<and> count s' = (count s)(i := count s i - 1)"
    and sleeps: "\<lbrakk>ok s; running s \<noteq> 0; i \<in> ids; count s i = 0\<rbrakk>
      \<Longrightarrow> \<exists>s'. wait i s = (Sleep, s') \<and> ok s' \<and> count s' = count s"
    and resumes: "\<lbrakk>ok s; running s \<noteq> 0; i \<in> ids\<rbrakk> \<Longrightarrow> resume i s = wait i s"
    and adds: "\<lbrakk>ok s; running s \<noteq> 0; i \<in> ids\<rbrakk>
      \<Longrightarrow> \<exists>s'. post i s = (0, s') \<and> ok s' \<and> count s' = (count s)(i := Suc (count s i))"
    and keeps: "\<lbrakk>ok s; other s s'\<rbrakk> \<Longrightarrow> ok s' \<and> count s' = count s"

locale semaphore_member = semaphore_family +
  fixes i
  assumes member: "i \<in> ids"

text \<open>To the users of one member the operations on the others are part of the rest.\<close>

sublocale semaphore_member \<subseteq> counting_semaphore ok "\<lambda>s. count s i" running "wait i" "resume i" "post i"
  "\<lambda>s s'. other s s' \<or> running s \<noteq> 0 \<and> (\<exists>j \<in> ids - {i}. s' = snd (wait j s) \<or> s' = snd (post j s))"
proof
  fix s
  assume s: "ok s" "running s \<noteq> 0"
  show "resume i s = wait i s" by (rule resumes [OF s member])
  show "\<exists>s'. wait i s = (Ret 0, s') \<and> ok s' \<and> Suc (count s' i) = count s i" if "0 < count s i"
    using takes [OF s member that] that by auto
  show "\<exists>s'. wait i s = (Sleep, s') \<and> ok s' \<and> count s' i = 0" if "count s i = 0"
    using sleeps [OF s member that] that by auto
  show "\<exists>s'. post i s = (0, s') \<and> ok s' \<and> count s' i = Suc (count s i)"
    using adds [OF s member] by auto
next
  fix s s'
  assume s: "ok s" and o: "other s s' \<or> running s \<noteq> 0 \<and> (\<exists>j \<in> ids - {i}. s' = snd (wait j s) \<or> s' = snd (post j s))"
  show "ok s' \<and> count s' i = count s i"
  proof (cases "other s s'")
    case True
    then show ?thesis using keeps [OF s True] by simp
  next
    case False
    then obtain j where j: "running s \<noteq> 0" "j \<in> ids" "j \<noteq> i" "s' = snd (wait j s) \<or> s' = snd (post j s)" using o by blast
    consider (take) "s' = snd (wait j s)" "0 < count s j" | (sleep) "s' = snd (wait j s)" "count s j = 0" | (post) "s' = snd (post j s)"
      using j(4) by blast
    then show ?thesis
    proof cases
      case take
      then show ?thesis using takes [OF s j(1,2) take(2)] j(3) by auto
    next
      case sleep
      then show ?thesis using sleeps [OF s j(1,2) sleep(2)] by auto
    next
      case post
      then show ?thesis using adds [OF s j(1,2)] j(3) by auto
    qed
  qed
qed

section \<open>The kernel's semaphores\<close>

inductive kernel_rest :: "'m mm \<Rightarrow> nat set \<Rightarrow> ('m, 'z) sem_state_scheme \<Rightarrow> ('m, 'z) sem_state_scheme \<Rightarrow> bool" for M I where
  event: "\<lbrakk>sem_exec M e s = (r, s'); \<And>i. i \<in> I \<Longrightarrow> e \<notin> {EWait (int i), EResume i, EPost (int i)}\<rbrakk> \<Longrightarrow> kernel_rest M I s s'"
| yields: "kernel_rest M I s (snd (yield M s))"

definition kernel_count :: "nat set \<Rightarrow> ('m, 'z) sem_state_scheme \<Rightarrow> nat \<Rightarrow> nat" where
  "kernel_count I s i = (if i \<in> I then nat (svalue (sems s i)) else 0)"

definition kernel_ready :: "('m \<Rightarrow> bool) \<Rightarrow> ('m \<Rightarrow> addr \<rightharpoonup> nat) \<Rightarrow> nat set \<Rightarrow> ('m, 'z) sem_state_scheme \<Rightarrow> bool" where
  "kernel_ready iv lv I s \<longleftrightarrow> sem_inv iv lv s \<and> I \<noteq> {} \<and> (\<forall>i \<in> I. i < 500 \<and> used (sems s i))"

context kernel_memory
begin

lemma kernel_family:
  "semaphore_family I (kernel_ready inv live I) (kernel_count I) currentProcess
     (\<lambda>i. semWait M (int i)) (semWait_resume M) (\<lambda>i. semPost M (int i)) (kernel_rest M I)"
proof
  fix s :: "('a, 'z) sem_state_scheme" and i
  assume ok: "kernel_ready inv live I s" and run: "currentProcess s \<noteq> 0" and i: "i \<in> I"
  then have S: "swfs s" "i < 500" "used (sems s i)" by (simp_all add: kernel_ready_def)
  note D = sem_invD [OF S] and E = semWait_enter [OF S]
  obtain r s' where l: "semWait_loop M i (upd_sem i (\<lambda>x. x\<lparr>locked := True\<rparr>) s) = (r, s')" by force
  show "semWait_resume M i s = semWait M (int i) s" using E by simp
  show "\<exists>s'. semWait M (int i) s = (Ret 0, s') \<and> kernel_ready inv live I s' \<and> kernel_count I s' = (kernel_count I s)(i := kernel_count I s i - 1)"
    if "0 < kernel_count I s i"
  proof -
    have "0 < svalue (sems s i)" using that i by (simp add: kernel_count_def)
    from semWait_take [OF S this l] show ?thesis
      using E(1) l ok i by (auto simp: kernel_ready_def kernel_count_def fun_eq_iff nat_diff_distrib)
  qed
  show "\<exists>s'. semWait M (int i) s = (Sleep, s') \<and> kernel_ready inv live I s' \<and> kernel_count I s' = kernel_count I s"
    if "kernel_count I s i = 0"
  proof -
    have "svalue (sems s i) = 0" using D(6) that i by (simp add: kernel_count_def)
    from semWait_sleep(1-3) [OF S this run l] show ?thesis
      using E(1) l ok by (auto simp: kernel_ready_def kernel_count_def fun_eq_iff)
  qed
  obtain v t where p: "semPost M (int i) s = (v, t)" by force
  from semPost_spec(1-3) [OF S p]
  show "\<exists>s'. semPost M (int i) s = (0, s') \<and> kernel_ready inv live I s' \<and> kernel_count I s' = (kernel_count I s)(i := Suc (kernel_count I s i))"
    using p ok i D(6) by (auto simp: kernel_ready_def kernel_count_def fun_eq_iff nat_add_distrib)
next
  fix s s' :: "('a, 'z) sem_state_scheme"
  assume ok: "kernel_ready inv live I s" and "kernel_rest M I s s'"
  from this(2) show "kernel_ready inv live I s' \<and> kernel_count I s' = kernel_count I s"
  proof cases
    case (event e r)
    have s: "swfs s" using ok by (simp add: kernel_ready_def)
    have m: "swfs s' \<and> used (sems s' i) \<and> svalue (sems s' i) = svalue (sems s i)" if "i \<in> I" for i
    proof -
      have i: "i < 500" "used (sems s i)" using ok that by (simp_all add: kernel_ready_def)
      show ?thesis using sem_exec_spec [OF s i event(1)] event(2) [OF that] by (auto simp: acquired_def posted_def)
    qed
    then show ?thesis using ok by (auto simp: kernel_ready_def kernel_count_def fun_eq_iff)
  next
    case yields
    have "swf s" using ok by (simp add: kernel_ready_def sem_inv_def)
    then have "sched_step s s'" using yield_step yields by simp
    then show ?thesis using sem_inv_step(1,2) [of s s'] ok by (simp add: kernel_ready_def kernel_count_def fun_eq_iff)
  qed
qed

end

interpretation naive_family: semaphore_family I "kernel_ready naive_inv naive_live I" "kernel_count I" currentProcess
  "\<lambda>i. semWait naive_mm (int i)" "semWait_resume naive_mm" "\<lambda>i. semPost naive_mm (int i)" "kernel_rest naive_mm I" for I
  by (rule naive.kernel_family)

interpretation buddy_family: semaphore_family I "kernel_ready buddy_inv buddy_live I" "kernel_count I" currentProcess
  "\<lambda>i. semWait buddy_mm (int i)" "semWait_resume buddy_mm" "\<lambda>i. semPost buddy_mm (int i)" "kernel_rest buddy_mm I" for I
  by (rule buddy.kernel_family)

interpretation naive_member: semaphore_member "insert i I" "kernel_ready naive_inv naive_live (insert i I)" "kernel_count (insert i I)"
  currentProcess "\<lambda>i. semWait naive_mm (int i)" "semWait_resume naive_mm" "\<lambda>i. semPost naive_mm (int i)"
  "kernel_rest naive_mm (insert i I)" i for i I
  by unfold_locales simp

section \<open>Readers and writers on three semaphores\<close>

datatype mv_sem = MvMutex | MvEmpty | MvFull

text \<open>The semaphore that a process waits on or posts where it stands, and where it goes from there.\<close>

fun waits_on :: "loc \<Rightarrow> mv_sem option" where
  "waits_on WIdle = Some MvEmpty"
| "waits_on WLock = Some MvMutex"
| "waits_on RIdle = Some MvFull"
| "waits_on RLock = Some MvMutex"
| "waits_on l = None"

fun posts_to :: "loc \<Rightarrow> mv_sem option" where
  "posts_to WUnlock = Some MvMutex"
| "posts_to WPost = Some MvFull"
| "posts_to RUnlock = Some MvMutex"
| "posts_to RPost = Some MvEmpty"
| "posts_to l = None"

fun after_sem :: "loc \<Rightarrow> loc" where
  "after_sem WIdle = WLock"
| "after_sem WLock = WStore"
| "after_sem WUnlock = WPost"
| "after_sem WPost = WIdle"
| "after_sem RIdle = RLock"
| "after_sem RLock = RLoad"
| "after_sem RUnlock = RPost"
| "after_sem RPost = RIdle"
| "after_sem l = l"

text \<open>
  The steps of \<open>w\<close> writers and \<open>r\<close> readers with the process numbers \<open>pids\<close>, on the semaphores \<open>sem\<close>: only the
  running one takes a step. The state is the kernel, the shared record, the letters stored so far and
  which processes sleep inside a wait.
\<close>

inductive mvar_service ::
    "('s \<Rightarrow> nat) \<Rightarrow> ('i \<Rightarrow> 's \<Rightarrow> int outcome \<times> 's) \<Rightarrow> ('i \<Rightarrow> 's \<Rightarrow> int outcome \<times> 's) \<Rightarrow> ('i \<Rightarrow> 's \<Rightarrow> int \<times> 's) \<Rightarrow> ('s \<Rightarrow> 's \<Rightarrow> bool)
     \<Rightarrow> (mv_sem \<Rightarrow> 'i) \<Rightarrow> (nat \<Rightarrow> nat) \<Rightarrow> nat \<Rightarrow> nat \<Rightarrow> 's \<Rightarrow> 's \<Rightarrow> MvarShared \<Rightarrow> string \<Rightarrow> (nat \<Rightarrow> bool) \<Rightarrow> bool"
  for running wait resume post other sem pids w r s0 where
  start: "mvar_service running wait resume post other sem pids w r s0 s0 (mvar_init w) [] (\<lambda>_. False)"
| kernel: "\<lbrakk>mvar_service running wait resume post other sem pids w r s0 s u h a; other s s'\<rbrakk>
    \<Longrightarrow> mvar_service running wait resume post other sem pids w r s0 s' u h a"
| writer: "\<lbrakk>mvar_service running wait resume post other sem pids w r s0 s u h a; j < w; running s = pids j;
      locs u j = WStore \<or> locs u j = WMark; mvar_writer j u = Some u'\<rbrakk>
    \<Longrightarrow> mvar_service running wait resume post other sem pids w r s0 s u' (if locs u j = WStore then h @ [char_of (65 + j)] else h) a"
| reader: "\<lbrakk>mvar_service running wait resume post other sem pids w r s0 s u h a; w \<le> j; j < w + r; running s = pids j;
      locs u j = RLoad \<or> (\<exists>c. locs u j = RMark c \<or> locs u j = RPrint c); mvar_reader j u = Some u'\<rbrakk>
    \<Longrightarrow> mvar_service running wait resume post other sem pids w r s0 s u' h a"
| takes: "\<lbrakk>mvar_service running wait resume post other sem pids w r s0 s u h a; j < w + r; running s = pids j;
      waits_on (locs u j) = Some x; (if a j then resume (sem x) s else wait (sem x) s) = (Ret v, s')\<rbrakk>
    \<Longrightarrow> mvar_service running wait resume post other sem pids w r s0 s' (mvar_goto j (after_sem (locs u j)) u) h (a(j := False))"
| sleeps: "\<lbrakk>mvar_service running wait resume post other sem pids w r s0 s u h a; j < w + r; running s = pids j;
      waits_on (locs u j) = Some x; (if a j then resume (sem x) s else wait (sem x) s) = (Sleep, s')\<rbrakk>
    \<Longrightarrow> mvar_service running wait resume post other sem pids w r s0 s' u h (a(j := True))"
| posts: "\<lbrakk>mvar_service running wait resume post other sem pids w r s0 s u h a; j < w + r; running s = pids j;
      posts_to (locs u j) = Some x; post (sem x) s = (v, s')\<rbrakk>
    \<Longrightarrow> mvar_service running wait resume post other sem pids w r s0 s' (mvar_goto j (after_sem (locs u j)) u) h a"

text \<open>The shared record with the counts of the semaphores.\<close>

definition mv_seen :: "(mv_sem \<Rightarrow> nat) \<Rightarrow> MvarShared \<Rightarrow> MvarShared" where
  "mv_seen c u = u\<lparr>sem_mutex := c MvMutex, sem_empty := c MvEmpty, sem_full := c MvFull\<rparr>"

lemma mv_seen_fields [simp]:
  "mvalue (mv_seen c u) = mvalue u" "locs (mv_seen c u) = locs u" "printed (mv_seen c u) = printed u"
  by (simp_all add: mv_seen_def)

lemma seen_local:
  "\<lbrakk>locs u j = WStore \<or> locs u j = WMark; mvar_writer j u = Some u'\<rbrakk> \<Longrightarrow> mvar_writer j (mv_seen c u) = Some (mv_seen c u')"
  "\<lbrakk>locs u j = RLoad \<or> (\<exists>c. locs u j = RMark c \<or> locs u j = RPrint c); mvar_reader j u = Some u'\<rbrakk>
    \<Longrightarrow> mvar_reader j (mv_seen c u) = Some (mv_seen c u')"
  by (cases u; auto simp: mvar_writer_def mvar_reader_def mv_seen_def mvar_goto_def)+

text \<open>The steps on a semaphore that is positive, or posted, are the steps of the abstract processes.\<close>

lemma seen_sem:
  assumes "waits_on (locs u j) = Some x \<and> 0 < c x \<and> d = c(x := c x - 1) \<or> posts_to (locs u j) = Some x \<and> d = c(x := Suc (c x))"
  shows "is_writer (locs u j) \<Longrightarrow> mvar_writer j (mv_seen c u) = Some (mv_seen d (mvar_goto j (after_sem (locs u j)) u))"
    and "\<not> is_writer (locs u j) \<Longrightarrow> mvar_reader j (mv_seen c u) = Some (mv_seen d (mvar_goto j (after_sem (locs u j)) u))"
  using assms
  by (cases u; cases "locs u j"; auto simp: mvar_writer_def mvar_reader_def mv_seen_def mvar_goto_def is_writer_def)+

lemma after_sem_writer [simp]: "is_writer (after_sem l) = is_writer l"
  by (cases l) (simp_all add: is_writer_def)

lemma writer_locs:
  "mvar_writer j u = Some u' \<Longrightarrow> is_writer (locs u' j) \<and> is_writer (locs u j) \<and> (\<forall>i. i \<noteq> j \<longrightarrow> locs u' i = locs u i)"
  by (cases "locs u j") (auto simp: mvar_writer_def is_writer_def mvar_goto_def split: if_splits)

lemma reader_locs:
  "mvar_reader j u = Some u' \<Longrightarrow> \<not> is_writer (locs u' j) \<and> \<not> is_writer (locs u j) \<and> (\<forall>i. i \<noteq> j \<longrightarrow> locs u' i = locs u i)"
  by (cases "locs u j") (auto simp: mvar_reader_def is_writer_def mvar_goto_def split: if_splits)

lemma sem_not_store: "waits_on l = Some x \<or> posts_to l = Some x \<Longrightarrow> l \<noteq> WStore"
  by (cases l) simp_all

text \<open>A step of process \<open>j\<close> on a semaphore, as a step of the abstract runs.\<close>

lemma mvar_reach_sem:
  assumes "mvar_reach w r (mv_seen c u) h" and "j < w + r" and "is_writer (locs u j) \<longleftrightarrow> j < w"
    and "waits_on (locs u j) = Some x \<and> 0 < c x \<and> d = c(x := c x - 1) \<or> posts_to (locs u j) = Some x \<and> d = c(x := Suc (c x))"
  shows "mvar_reach w r (mv_seen d (mvar_goto j (after_sem (locs u j)) u)) h"
proof (cases "j < w")
  case True
  have "locs u j \<noteq> WStore" using assms(4) sem_not_store by blast
  then show ?thesis using mvar_reach.writes [OF assms(1) True seen_sem(1) [OF assms(4)]] assms(3) True by simp
next
  case False
  then show ?thesis using mvar_reach.reads [OF assms(1) _ assms(2) seen_sem(2) [OF assms(4)]] assms(3) by simp
qed

context semaphore_family
begin

lemma family_wait_cases:
  assumes "ok s" and "running s \<noteq> 0" and "i \<in> ids" and "(if b then resume i s else wait i s) = (r, s')"
  shows "ok s' \<and> (0 < count s i \<and> r = Ret 0 \<and> count s' = (count s)(i := count s i - 1)
      \<or> count s i = 0 \<and> r = Sleep \<and> count s' = count s)"
proof (cases "count s i = 0")
  case True
  then show ?thesis using sleeps [OF assms(1-3) True] resumes [OF assms(1-3)] assms(4) by (auto split: if_splits)
next
  case False
  then have pos: "0 < count s i" by simp
  show ?thesis using takes [OF assms(1-3) pos] resumes [OF assms(1-3)] assms(4) pos by (auto split: if_splits)
qed

text \<open>Every run on the semaphores is a run of the abstract readers and writers.\<close>

lemma mvar_refines:
  assumes "mvar_service running wait resume post other sem pids w r s0 s u h a"
    and "ok s0" and "range sem \<subseteq> ids" and "inj sem" and "\<forall>j < w + r. pids j \<noteq> 0"
    and "count s0 (sem MvMutex) = 1" and "count s0 (sem MvEmpty) = 1" and "count s0 (sem MvFull) = 0"
  shows "ok s \<and> mvar_reach w r (mv_seen (\<lambda>x. count s (sem x)) u) h \<and> (\<forall>j < w + r. is_writer (locs u j) \<longleftrightarrow> j < w)"
  using assms(1)
proof (induction rule: mvar_service.induct)
  case start
  have "mv_seen (\<lambda>x. count s0 (sem x)) (mvar_init w) = mvar_init w"
    using assms(6-8) by (simp add: mv_seen_def mvar_init_def)
  then show ?case using mvar_reach.start assms(2) by (simp add: mvar_init_def is_writer_def)
next
  case (kernel s u h a s')
  then show ?case using keeps [of s s'] by simp
next
  case (writer s u h a j u')
  from seen_local(1) [OF writer(4,5)]
  have "mvar_writer j (mv_seen (\<lambda>x. count s (sem x)) u) = Some (mv_seen (\<lambda>x. count s (sem x)) u')" .
  from mvar_reach.writes [OF _ writer(2) this] writer writer_locs [OF writer(5)]
  show ?case by (metis mv_seen_fields(2))
next
  case (reader s u h a j u')
  from seen_local(2) [OF reader(5,6)]
  have "mvar_reader j (mv_seen (\<lambda>x. count s (sem x)) u) = Some (mv_seen (\<lambda>x. count s (sem x)) u')" .
  from mvar_reach.reads [OF _ reader(2,3) this] reader reader_locs [OF reader(6)]
  show ?case by (metis not_less)
next
  case (takes s u h a j x v s')
  have run: "running s \<noteq> 0" and i: "sem x \<in> ids" using takes assms(3,5) by auto
  from takes have o: "ok s" by blast
  note W = family_wait_cases [OF o run i takes(5)]
  then have c: "(\<lambda>y. count s' (sem y)) = (\<lambda>y. count s (sem y))(x := count s (sem x) - 1)" "0 < count s (sem x)"
    using assms(4) by (auto simp: fun_eq_iff inj_eq)
  have "mvar_reach w r (mv_seen (\<lambda>y. count s' (sem y)) (mvar_goto j (after_sem (locs u j)) u)) h"
    by (rule mvar_reach_sem [where c = "\<lambda>y. count s (sem y)" and x = x]) (use takes c in auto)
  then show ?case using takes W by (auto simp: mvar_goto_def)
next
  case (sleeps s u h a j x s')
  have run: "running s \<noteq> 0" and i: "sem x \<in> ids" using sleeps assms(3,5) by auto
  from sleeps have o: "ok s" by blast
  show ?case using family_wait_cases [OF o run i sleeps(5)] sleeps by auto
next
  case (posts s u h a j x v s')
  have run: "running s \<noteq> 0" and i: "sem x \<in> ids" using posts assms(3,5) by auto
  from posts have o: "ok s" by blast
  have P: "ok s'" "count s' = (count s)(sem x := Suc (count s (sem x)))" using adds [OF o run i] posts(5) by auto
  then have c: "(\<lambda>y. count s' (sem y)) = (\<lambda>y. count s (sem y))(x := Suc (count s (sem x)))"
    using assms(4) by (auto simp: fun_eq_iff inj_eq)
  have "mvar_reach w r (mv_seen (\<lambda>y. count s' (sem y)) (mvar_goto j (after_sem (locs u j)) u)) h"
    by (rule mvar_reach_sem [where c = "\<lambda>y. count s (sem y)" and x = x]) (use posts c in auto)
  then show ?case using posts P by (auto simp: mvar_goto_def)
qed

end

section \<open>Properties\<close>

lemma kernel_count_range [simp]: "kernel_count (range sem) s (sem x) = nat (svalue (sems s (sem x)))"
  by (simp add: kernel_count_def)

text \<open>
  C22: \<open>mvar\<close> on the kernel. Let three semaphores of the kernel hold 1, 1 and 0, and let writers and
  readers run on them in any way the kernel lets them: only the running process takes steps, it may
  fall asleep in a wait and resume later, and timer ticks, yields and the other processes' semaphores
  come in between. Then the kernel's invariant holds, what the processes have done is a run of the
  abstract readers and writers with the semaphores' values as counters, the letters printed are the
  letters stored, in order, none lost or repeated, except that the last may still be waiting, and at
  most one process is between the two operations on the mutex.
\<close>

theorem mvar_on_kernel:
  assumes "sem_inv naive_inv naive_live s0" and "\<forall>x. sem x < 500 \<and> used (sems s0 (sem x))" and "inj sem"
    and "svalue (sems s0 (sem MvMutex)) = 1" and "svalue (sems s0 (sem MvEmpty)) = 1" and "svalue (sems s0 (sem MvFull)) = 0"
    and "\<forall>j < w + r. pids j \<noteq> 0"
    and "mvar_service currentProcess (\<lambda>i. semWait naive_mm (int i)) (semWait_resume naive_mm) (\<lambda>i. semPost naive_mm (int i))
           (kernel_rest naive_mm (range sem)) sem pids w r s0 s u h a"
  shows "sem_inv naive_inv naive_live s \<and> mvar_reach w r (mv_seen (\<lambda>x. nat (svalue (sems s (sem x)))) u) h
    \<and> (h = printed u \<or> (\<exists>c. h = printed u @ [c]))
    \<and> (\<forall>i j. i < w + r \<and> j < w + r \<and> crit (locs u i) \<and> crit (locs u j) \<longrightarrow> i = j)"
proof -
  have k: "kernel_ready naive_inv naive_live (range sem) s0" using assms(1,2) by (auto simp: kernel_ready_def)
  have c: "kernel_count (range sem) s0 (sem MvMutex) = 1" "kernel_count (range sem) s0 (sem MvEmpty) = 1"
    "kernel_count (range sem) s0 (sem MvFull) = 0" using assms(4-6) by simp_all
  note R = naive_family.mvar_refines [OF assms(8) k subset_refl assms(3,7) c]
  then have M: "mvar_reach w r (mv_seen (\<lambda>x. nat (svalue (sems s (sem x)))) u) h" by simp
  show ?thesis using R M mvar_exchange [OF M] by (simp add: kernel_ready_def)
qed

text \<open>
  The kernel as it is booted, with the shell, process 2, running: its three semaphores serve as those
  of one writer and one reader once their values are set, and the writer passes the first.
\<close>

definition mv_slot :: "mv_sem \<Rightarrow> nat" where
  "mv_slot x = (case x of MvMutex \<Rightarrow> 2 | MvEmpty \<Rightarrow> 1 | MvFull \<Rightarrow> 0)"

lemma mv_slot_simps [simp]: "mv_slot MvMutex = 2" "mv_slot MvEmpty = 1" "mv_slot MvFull = 0"
  by (simp_all add: mv_slot_def)

lemma set_value_inv:
  assumes "sem_inv naive_inv naive_live s" and "i < 500" and "used (sems s i)" and "0 < svalue (sems s i)" and "0 \<le> v"
  shows "sem_inv naive_inv naive_live (s\<lparr>sems := (sems s)(i := (sems s i)\<lparr>svalue := v\<rparr>)\<rparr>)"
proof -
  note D = naive.sem_invD [OF assms(1-3)]
  have "qdata (lh s) (waiting (sems s i)) = []" using D(7) assms(4) by (simp add: sem_wait_list_def)
  then show ?thesis
    by (intro naive.sem_inv_one [OF assms(1-3), where v = v]) (use D assms(5) in \<open>simp_all add: not_locked_upd\<close>)
qed

lemma mvar_on_kernel_witness:
  "\<exists>(s :: naive kernel) u. locs u 0 = WLock \<and> svalue (sems s 1) = 0
     \<and> mvar_reach 1 1 (mv_seen (\<lambda>x. nat (svalue (sems s (mv_slot x)))) u) []"
proof -
  obtain t c' where b: "kernel_main naive_mm createMemoryManager_naive 0x100123 (\<lambda>_. 0) (power_on, demo_cpu) = (t, c')" by force
  have "(0x100123 :: nat) \<noteq> 0" by simp
  note B = booted(1-3) [OF power_on_cleared this b refl refl refl]
  have t: "sem_inv naive_inv naive_live t" "used (sems t 0)" "used (sems t 1)" "used (sems t 2)"
    "svalue (sems t 0) = 0" "svalue (sems t 1) = 2048" "svalue (sems t 2) = 0" "currentProcess t = 2"
    using B by (auto simp: services_def)
  define s1 where "s1 = t\<lparr>sems := (sems t)(1 := (sems t 1)\<lparr>svalue := 1\<rparr>)\<rparr>"
  have i1: "sem_inv naive_inv naive_live s1" using set_value_inv [OF t(1) _ t(3)] t(6) by (simp add: s1_def)
  obtain v s0 where p: "semPost naive_mm (int 2) s1 = (v, s0)" by force
  have u2: "used (sems s1 2)" using t(4) by (simp add: s1_def)
  note P = naive.semPost_spec [OF i1 _ u2 p]
  have s0: "sem_inv naive_inv naive_live s0" "svalue (sems s0 2) = 1" "svalue (sems s0 1) = 1" "svalue (sems s0 0) = 0"
    "currentProcess s0 = 2" "used (sems s0 0)" "used (sems s0 1)" "used (sems s0 2)"
    using P t by (simp_all add: s1_def)
  have us: "\<forall>x. mv_slot x < 500 \<and> used (sems s0 (mv_slot x))"
    using s0(6-8) by (auto simp: mv_slot_def split: mv_sem.split)
  have inj: "inj mv_slot" by (rule injI) (auto simp: mv_slot_def split: mv_sem.splits)
  let ?run = "mvar_service currentProcess (\<lambda>i. semWait naive_mm (int i)) (semWait_resume naive_mm) (\<lambda>i. semPost naive_mm (int i))
      (kernel_rest naive_mm (range mv_slot)) mv_slot (\<lambda>j. j + 2) 1 1 s0"
  obtain q s where w: "semWait naive_mm (int 1) s0 = (q, s)" by force
  have l: "semWait_loop naive_mm 1 (upd_sem 1 (\<lambda>x. x\<lparr>locked := True\<rparr>) s0) = (q, s)"
    using naive.semWait_enter(1) [OF s0(1) _ s0(7)] w by simp
  have e: "q = Ret 0" "svalue (sems s 1) = 0" using naive.semWait_take(1,2) [OF s0(1) _ s0(7) _ l] s0(3) by simp_all
  have x: "waits_on (locs (mvar_init 1) 0) = Some MvEmpty" "after_sem (locs (mvar_init 1) 0) = WLock" by (simp_all add: mvar_init_def)
  have r: "?run s (mvar_goto 0 (after_sem (locs (mvar_init 1) 0)) (mvar_init 1)) [] ((\<lambda>_. False)(0 := False))"
    by (rule mvar_service.takes [OF mvar_service.start _ _ x(1)]) (use w e(1) s0(5) in simp_all)
  have "mvar_reach 1 1 (mv_seen (\<lambda>x. nat (svalue (sems s (mv_slot x)))) (mvar_goto 0 WLock (mvar_init 1))) []"
    using mvar_on_kernel [OF s0(1) us inj _ _ _ _ r] s0(2-4) x(2) by simp
  then show ?thesis using e(2) by (intro exI [of _ s] exI [of _ "mvar_goto 0 WLock (mvar_init 1)"]) (simp add: mvar_goto_def)
qed

end
