(* ===== verification/Test_Programs.thy ===== *)
theory Test_Programs
  imports Test_Memory Test_Sync
begin

text \<open>
  The programs of \<open>Userland/tests\<close> around their processes: \<open>test_sync.c\<close>, \<open>test_prio.c\<close>,
  \<open>test_processes.c\<close> and the wrappers of \<open>test_util.c\<close>, in the monad of \<open>Shell\<close>. A list of arguments
  stands for \<open>argc\<close> and \<open>argv\<close> together.
\<close>

section \<open>\<open>test_sync\<close>\<close>

definition TOTAL_PAIR_PROCESSES :: nat where "TOTAL_PAIR_PROCESSES = 2"
definition SEM_ID :: string where "SEM_ID = ''test_sync''"

definition create_inc :: "world \<Rightarrow> int \<times> int \<Rightarrow> string list \<Rightarrow> int sh" where
  "create_inc W fds argv = sys W (SCreate ''process_inc'' ''process_inc'' argv 5 False fds)"

fun sync_create :: "world \<Rightarrow> int \<times> int \<Rightarrow> string list \<Rightarrow> string list \<Rightarrow> nat \<Rightarrow> (int \<times> int) list sh" where
  "sync_create W fds argvDec argvInc 0 = State_Monad.return []"
| "sync_create W fds argvDec argvInc (Suc n) = do {
     d \<leftarrow> create_inc W fds argvDec;
     say (snd fds) (''Created decrementing process with PID %ld'' @ NL) [int_arg d];
     i \<leftarrow> create_inc W fds argvInc;
     say (snd fds) (''Created incrementing process with PID %ld'' @ NL) [int_arg i];
     pids \<leftarrow> sync_create W fds argvDec argvInc n;
     State_Monad.return ((d, i) # pids) }"

fun wait_all :: "world \<Rightarrow> int list \<Rightarrow> unit sh" where
  "wait_all W [] = State_Monad.return ()"
| "wait_all W (p # ps) = do { sys W (SWait p); wait_all W ps }"

text \<open>\<open>final\<close> is the value of \<open>global\<close> when the processes have ended.\<close>

definition test_sync :: "world \<Rightarrow> u64 \<Rightarrow> string list \<Rightarrow> int sh" where
  "test_sync W final argv = do {
     fds \<leftarrow> ask (answer_fds W) SGetFD;
     (if length argv \<noteq> 2 then State_Monad.return (- 1)
      else do {
        pids \<leftarrow> sync_create W fds [argv ! 0, ''-1'', argv ! 1] [argv ! 0, ''1'', argv ! 1] TOTAL_PAIR_PROCESSES;
        wait_all W (concat (map (\<lambda>(d, i). [d, i]) pids));
        sem_index \<leftarrow> sys W (SSemOpen SEM_ID 1);
        call_unit (SSemDestroy (wrap32 sem_index));
        say (snd fds) (''Final value: %ld'' @ NL) [ANum final];
        State_Monad.return 0 }) }"

section \<open>\<open>test_prio\<close>\<close>

definition prio :: "int list" where "prio = [2, 3, 4]"

definition create_ztm :: "world \<Rightarrow> int \<times> int \<Rightarrow> int sh" where
  "create_ztm W fds = sys W (SCreate ''zero_to_max'' ''zero_to_max_wrapper'' [] 1 True fds)"

fun prio_create :: "world \<Rightarrow> int \<times> int \<Rightarrow> nat \<Rightarrow> int list sh" where
  "prio_create W fds 0 = State_Monad.return []"
| "prio_create W fds (Suc n) = do {
     p \<leftarrow> create_ztm W fds;
     pids \<leftarrow> prio_create W fds n;
     State_Monad.return (p # pids) }"

fun prio_change :: "world \<Rightarrow> int \<times> int \<Rightarrow> bool \<Rightarrow> int list \<Rightarrow> int list sh" where
  "prio_change W fds blocked [] = State_Monad.return []"
| "prio_change W fds blocked (v # vs) = do {
     p \<leftarrow> create_ztm W fds;
     when_sh blocked (call_unit (SBlock p));
     call_unit (SNice p v);
     say (snd fds) (''  PROCESS %d NEW PRIORITY: %d'' @ NL) [int_arg p, int_arg v];
     pids \<leftarrow> prio_change W fds blocked vs;
     State_Monad.return (p # pids) }"

fun unblock_all :: "int list \<Rightarrow> unit sh" where
  "unblock_all [] = State_Monad.return ()"
| "unblock_all (p # ps) = do { call_unit (SUnblock p); unblock_all ps }"

text \<open>The value it leaves in \<open>max_value\<close>, and its answer.\<close>

definition test_prio :: "world \<Rightarrow> string list \<Rightarrow> u64 \<Rightarrow> (u64 \<times> int) sh" where
  "test_prio W argv max_value = do {
     fds \<leftarrow> ask (answer_fds W) SGetFD;
     (if length argv \<noteq> 1 then State_Monad.return (max_value, - 1)
      else let mv = word_of_int (satoi_s (argv ! 0)) :: u64 in
        if mv \<le> 0 then State_Monad.return (mv, - 1)
        else do {
          say (snd fds) (''SAME PRIORITY...'' @ NL) [];
          pids \<leftarrow> prio_create W fds (length prio);
          wait_all W pids;
          say (snd fds) (''SAME PRIORITY, THEN CHANGE IT...'' @ NL) [];
          pids \<leftarrow> prio_change W fds False prio;
          wait_all W pids;
          say (snd fds) (''SAME PRIORITY, THEN CHANGE IT WHILE BLOCKED...'' @ NL) [];
          pids \<leftarrow> prio_change W fds True prio;
          unblock_all pids;
          wait_all W pids;
          State_Monad.return (mv, 0) }) }"

text \<open>The processes of the test: they count up to \<open>max_value\<close>.\<close>

function count_up :: "u64 \<Rightarrow> u64 \<Rightarrow> u64" where
  "count_up mx v = (if v \<noteq> mx then count_up mx (v + 1) else v + 1)"
  by pat_completeness auto

termination
proof (relation "measure (\<lambda>(mx, v). unat (mx - v))")
  fix mx v :: u64
  assume "v \<noteq> mx"
  then have "mx - v \<noteq> 0" by simp
  then have "unat (mx - v - 1) < unat (mx - v)"
    by (metis measure_unat)
  then show "((mx, v + 1), mx, v) \<in> measure (\<lambda>(mx, v). unat (mx - v))" by (simp add: algebra_simps)
qed simp

declare count_up.simps [simp del]

definition zero_to_max :: "world \<Rightarrow> u64 \<Rightarrow> u64 sh" where
  "zero_to_max W max_value = do {
     fds \<leftarrow> ask (answer_fds W) SGetFD;
     pid \<leftarrow> sys W SGetpid;
     say (snd fds) (''PROCESS %d STARTED! (counting to %d)'' @ NL) [int_arg pid, ANum max_value];
     let value = count_up max_value 0;
     pid \<leftarrow> sys W SGetpid;
     say (snd fds) (''PROCESS %d DONE!'' @ NL) [int_arg pid];
     State_Monad.return value }"

definition zero_to_max_wrapper :: "world \<Rightarrow> u64 \<Rightarrow> int sh" where
  "zero_to_max_wrapper W max_value = do { zero_to_max W max_value; State_Monad.return 0 }"

section \<open>\<open>test_processes\<close>\<close>

datatype TestState = TEST_RUNNING | TEST_BLOCKED | TEST_KILLED

record p_rq =
  tp_pid :: int
  tp_state :: TestState

text \<open>What a loop comes to within the given number of passes.\<close>

datatype 'a pass = Finished 'a | Failed | Unfinished

text \<open>The loop that creates the processes; \<open>rq\<close> and \<open>alive\<close> are 8 bits wide.\<close>

fun tp_create ::
  "nat \<Rightarrow> world \<Rightarrow> u64 \<Rightarrow> int \<times> int \<Rightarrow> u8 \<Rightarrow> u8 \<Rightarrow> (u8 \<Rightarrow> p_rq) \<Rightarrow> (u8 \<times> (u8 \<Rightarrow> p_rq)) pass sh" where
  "tp_create 0 W max_processes fds rq alive rqs = State_Monad.return Unfinished"
| "tp_create (Suc k) W max_processes fds rq alive rqs =
     (if ucast rq < max_processes
      then do {
        p \<leftarrow> sys W (SCreate ''endless_loop'' ''endless_loop_wrapper'' [] 2 False fds);
        (if wrap32 p = - 1
         then do { say (snd fds) (''test_processes: ERROR creating process'' @ NL) []; State_Monad.return Failed }
         else tp_create k W max_processes fds (rq + 1) (alive + 1)
                (rqs(rq := \<lparr>tp_pid = wrap32 p, tp_state = TEST_RUNNING\<rparr>))) }
      else State_Monad.return (Finished (alive, rqs)))"

definition mark :: "u8 \<Rightarrow> TestState \<Rightarrow> (u8 \<Rightarrow> p_rq) \<Rightarrow> (u8 \<Rightarrow> p_rq)" where
  "mark rq st rqs = rqs(rq := (rqs rq)\<lparr>tp_state := st\<rparr>)"

definition tp_error :: "int \<Rightarrow> string \<Rightarrow> int \<Rightarrow> 'a pass sh" where
  "tp_error out what p = do {
     say out (''test_processes: ERROR '' @ what @ '' process PID %d'' @ NL) [int_arg p];
     State_Monad.return Failed }"

text \<open>The pass that kills or blocks at random.\<close>

fun tp_kill_block ::
  "nat \<Rightarrow> world \<Rightarrow> (u32 \<Rightarrow> u32 \<Rightarrow> u32) \<Rightarrow> u64 \<Rightarrow> int \<Rightarrow> u8 \<Rightarrow> u8 \<times> (u8 \<Rightarrow> p_rq) \<times> seed \<Rightarrow> (u8 \<times> (u8 \<Rightarrow> p_rq) \<times> seed) pass sh" where
  "tp_kill_block 0 W scale max_processes out rq st = State_Monad.return Unfinished"
| "tp_kill_block (Suc k) W scale max_processes out rq (alive, rqs, z) =
     (if ucast rq < max_processes
      then let (u, z') = GetUniform scale 100 z; p = tp_pid (rqs rq) in
        if u mod 2 = 0
        then (if tp_state (rqs rq) = TEST_RUNNING \<or> tp_state (rqs rq) = TEST_BLOCKED
              then do {
                r \<leftarrow> sys W (SKill p);
                (if r = - 1 then tp_error out ''killing'' p
                 else tp_kill_block k W scale max_processes out (rq + 1) (alive - 1, mark rq TEST_KILLED rqs, z')) }
              else tp_kill_block k W scale max_processes out (rq + 1) (alive, rqs, z'))
        else (if tp_state (rqs rq) = TEST_RUNNING
              then do {
                r \<leftarrow> sys W (SBlock p);
                (if r = - 1 then tp_error out ''blocking'' p
                 else tp_kill_block k W scale max_processes out (rq + 1) (alive, mark rq TEST_BLOCKED rqs, z')) }
              else tp_kill_block k W scale max_processes out (rq + 1) (alive, rqs, z'))
      else State_Monad.return (Finished (alive, rqs, z)))"

text \<open>The pass that unblocks at random; it draws a number for the blocked processes only.\<close>

fun tp_unblock ::
  "nat \<Rightarrow> world \<Rightarrow> (u32 \<Rightarrow> u32 \<Rightarrow> u32) \<Rightarrow> u64 \<Rightarrow> int \<Rightarrow> u8 \<Rightarrow> (u8 \<Rightarrow> p_rq) \<times> seed \<Rightarrow> ((u8 \<Rightarrow> p_rq) \<times> seed) pass sh" where
  "tp_unblock 0 W scale max_processes out rq st = State_Monad.return Unfinished"
| "tp_unblock (Suc k) W scale max_processes out rq (rqs, z) =
     (if ucast rq < max_processes
      then if tp_state (rqs rq) = TEST_BLOCKED
           then let (u, z') = GetUniform scale 100 z; p = tp_pid (rqs rq) in
             if u mod 2 \<noteq> 0
             then do {
               r \<leftarrow> sys W (SUnblock p);
               (if r = - 1 then tp_error out ''unblocking'' p
                else tp_unblock k W scale max_processes out (rq + 1) (mark rq TEST_RUNNING rqs, z')) }
             else tp_unblock k W scale max_processes out (rq + 1) (rqs, z')
           else tp_unblock k W scale max_processes out (rq + 1) (rqs, z)
      else State_Monad.return (Finished (rqs, z)))"

text \<open>The loop until none is alive. 256 passes of an inner loop are enough, as \<open>rq\<close> has 8 bits.\<close>

fun tp_alive ::
  "nat \<Rightarrow> world \<Rightarrow> (u32 \<Rightarrow> u32 \<Rightarrow> u32) \<Rightarrow> u64 \<Rightarrow> int \<Rightarrow> u8 \<times> (u8 \<Rightarrow> p_rq) \<times> seed \<Rightarrow> (u8 \<times> (u8 \<Rightarrow> p_rq) \<times> seed) pass sh" where
  "tp_alive 0 W scale max_processes out st = State_Monad.return Unfinished"
| "tp_alive (Suc n) W scale max_processes out (alive, rqs, z) =
     (if 0 < alive
      then do {
        r \<leftarrow> tp_kill_block 256 W scale max_processes out 0 (alive, rqs, z);
        (case r of
           Finished (alive', rqs', z') \<Rightarrow> do {
             r' \<leftarrow> tp_unblock 256 W scale max_processes out 0 (rqs', z');
             (case r' of
                Finished (rqs'', z'') \<Rightarrow> tp_alive n W scale max_processes out (alive', rqs'', z'')
              | Failed \<Rightarrow> State_Monad.return Failed
              | Unfinished \<Rightarrow> State_Monad.return Unfinished) }
         | Failed \<Rightarrow> State_Monad.return Failed
         | Unfinished \<Rightarrow> State_Monad.return Unfinished) }
      else State_Monad.return (Finished (alive, rqs, z)))"

text \<open>One round of the endless loop: create the processes, then kill them all.\<close>

definition tp_round ::
  "nat \<Rightarrow> world \<Rightarrow> (u32 \<Rightarrow> u32 \<Rightarrow> u32) \<Rightarrow> u64 \<Rightarrow> int \<times> int \<Rightarrow> u8 \<times> (u8 \<Rightarrow> p_rq) \<times> seed \<Rightarrow> (u8 \<times> (u8 \<Rightarrow> p_rq) \<times> seed) pass sh" where
  "tp_round n W scale max_processes fds st =
     (let (alive, rqs, z) = st in do {
        r \<leftarrow> tp_create 256 W max_processes fds 0 alive rqs;
        (case r of
           Finished (alive', rqs') \<Rightarrow> tp_alive n W scale max_processes (snd fds) (alive', rqs', z)
         | Failed \<Rightarrow> State_Monad.return Failed
         | Unfinished \<Rightarrow> State_Monad.return Unfinished) })"

fun tp_rounds ::
  "nat \<Rightarrow> nat \<Rightarrow> world \<Rightarrow> (u32 \<Rightarrow> u32 \<Rightarrow> u32) \<Rightarrow> u64 \<Rightarrow> int \<times> int \<Rightarrow> u8 \<times> (u8 \<Rightarrow> p_rq) \<times> seed \<Rightarrow> int option sh" where
  "tp_rounds 0 n W scale max_processes fds st = State_Monad.return None"
| "tp_rounds (Suc m) n W scale max_processes fds st = do {
     r \<leftarrow> tp_round n W scale max_processes fds st;
     (case r of
        Finished st' \<Rightarrow> tp_rounds m n W scale max_processes fds st'
      | Failed \<Rightarrow> State_Monad.return (Some (- 1))
      | Unfinished \<Rightarrow> State_Monad.return None) }"

text \<open>Its answer, or \<open>None\<close> when it is still running after \<open>m\<close> rounds of at most \<open>n\<close> passes.\<close>

definition test_processes ::
  "nat \<Rightarrow> nat \<Rightarrow> world \<Rightarrow> (u32 \<Rightarrow> u32 \<Rightarrow> u32) \<Rightarrow> string list \<Rightarrow> (u8 \<Rightarrow> p_rq) \<times> seed \<Rightarrow> int option sh" where
  "test_processes m n W scale argv st = do {
     fds \<leftarrow> ask (answer_fds W) SGetFD;
     (if length argv \<noteq> 1 then State_Monad.return (Some (- 1))
      else let max_processes = word_of_int (satoi_s (argv ! 0)) :: u64 in
        if max_processes \<le> 0 then State_Monad.return (Some (- 1))
        else tp_rounds m n W scale max_processes fds (0, st)) }"

section \<open>The wrappers\<close>

text \<open>
  The entry points that the shell's table names. They take the command's arguments, its name first,
  and hand the test its own; the test is an argument here.
\<close>

definition using_default :: "world \<Rightarrow> string \<Rightarrow> string list \<Rightarrow> unit sh" where
  "using_default W fmt vs = do {
     fds \<leftarrow> ask (answer_fds W) SGetFD;
     say (snd fds) (fmt @ NL) (map AStr vs) }"

definition test_mm_wrapper :: "world \<Rightarrow> (string list \<Rightarrow> 'a sh) \<Rightarrow> string list \<Rightarrow> 'a sh" where
  "test_mm_wrapper W test argv =
     (if length argv < 2
      then do { using_default W ''test_mm: Using default max_memory = %s bytes'' [''1024'']; test [''1024''] }
      else test (tl argv))"

definition test_prio_wrapper :: "world \<Rightarrow> (string list \<Rightarrow> 'a sh) \<Rightarrow> string list \<Rightarrow> 'a sh" where
  "test_prio_wrapper W test argv =
     (if length argv < 2
      then do { using_default W ''test_prio: Using default max_value = %s'' [''1000000'']; test [''1000000''] }
      else test (tl argv))"

definition test_sync_wrapper :: "world \<Rightarrow> (string list \<Rightarrow> 'a sh) \<Rightarrow> string list \<Rightarrow> 'a sh" where
  "test_sync_wrapper W test argv =
     (if length argv < 3
      then do {
        using_default W ''test_sync: Using defaults: iterations=%s, use_semaphore=%s'' [''1000'', ''1''];
        test [''1000'', ''1''] }
      else test (tl argv))"

definition test_synchro_wrapper :: "world \<Rightarrow> (string list \<Rightarrow> 'a sh) \<Rightarrow> string list \<Rightarrow> 'a sh" where
  "test_synchro_wrapper W test argv =
     (if length argv < 2
      then do {
        using_default W ''test_synchro: Using defaults: iterations=%s, use_semaphore=1'' [''1000''];
        test [''1000'', ''1''] }
      else test [argv ! 1, ''1''])"

definition test_no_synchro_wrapper :: "world \<Rightarrow> (string list \<Rightarrow> 'a sh) \<Rightarrow> string list \<Rightarrow> 'a sh" where
  "test_no_synchro_wrapper W test argv =
     (if length argv < 2
      then do {
        using_default W ''test_no_synchro: Using defaults: iterations=%s, use_semaphore=0'' [''1000''];
        test [''1000'', ''0''] }
      else test [argv ! 1, ''0''])"

definition test_processes_wrapper :: "world \<Rightarrow> (string list \<Rightarrow> 'a sh) \<Rightarrow> string list \<Rightarrow> 'a sh" where
  "test_processes_wrapper W test argv =
     (if length argv < 2
      then do { using_default W ''test_processes: Using default max_processes = %s'' [''5'']; test [''5''] }
      else test (tl argv))"

section \<open>What the calls do to the processes\<close>

text \<open>The identifiers of the processes that the calls \<open>new\<close>, made after \<open>t\<close>, create.\<close>

definition is_create :: "sh_call \<Rightarrow> bool" where
  "is_create c \<longleftrightarrow> (\<exists>n e a p f d. c = SCreate n e a p f d)"

fun created :: "world \<Rightarrow> sh_call list \<Rightarrow> sh_call list \<Rightarrow> int list" where
  "created W t [] = []"
| "created W t (c # new) = (if is_create c then [answer W (t @ [c])] else []) @ created W (t @ [c]) new"

fun killed :: "sh_call list \<Rightarrow> int list" where
  "killed [] = []"
| "killed (SKill p # new) = p # killed new"
| "killed (c # new) = killed new"

fun blocked :: "sh_call list \<Rightarrow> int list" where
  "blocked [] = []"
| "blocked (SBlock p # new) = p # blocked new"
| "blocked (SUnblock p # new) = p # blocked new"
| "blocked (c # new) = blocked new"

lemma created_append [simp]: "created W t (a @ b) = created W t a @ created W (t @ a) b"
  by (induction a arbitrary: t) simp_all

lemma killed_append [simp]: "killed (a @ b) = killed a @ killed b"
  by (induction a rule: killed.induct) simp_all

lemma blocked_append [simp]: "blocked (a @ b) = blocked a @ blocked b"
  by (induction a rule: blocked.induct) simp_all

lemma is_create_simps [simp]:
  "is_create (SCreate n e a p f d)" "\<not> is_create (SOut fd r)" "\<not> is_create (SKill i)" "\<not> is_create (SBlock i)"
  "\<not> is_create (SUnblock i)" "\<not> is_create SGetFD" "\<not> is_create (SWait i)" "\<not> is_create (SNice i v)"
  "\<not> is_create (SSemOpen sm v)" "\<not> is_create (SSemDestroy i)"
  by (simp_all add: is_create_def)















text \<open>The passes, and the loops around them.\<close>

lemma u8_less: "ucast (rq :: u8) < (mp :: u64) \<longleftrightarrow> unat rq < unat mp"
proof -
  have "unat (ucast rq :: u64) = unat rq" by transfer (simp add: take_bit_take_bit min_def)
  then show ?thesis by (simp add: word_less_nat_alt)
qed

lemma run_tp_error [simp]: "\<exists>c. run_state (tp_error out what p) t = (Failed, t @ [c])"
  by (simp add: tp_error_def)

lemma tp_error_not_finished [simp]: "run_state (tp_error out what p) t \<noteq> (Finished x, t')"
  by (simp add: tp_error_def)






text \<open>The inner loops end within their passes when there are at most 255 processes.\<close>

lemma tp_create_ends:
  "\<lbrakk>unat mp \<le> 255; unat rq + k = 256; unat rq \<le> unat mp\<rbrakk> \<Longrightarrow> fst (run_state (tp_create k W mp fds rq alive rqs) t) \<noteq> Unfinished"
proof (induction k arbitrary: rq alive rqs t)
  case (Suc k)
  have "unat (rq + 1) = unat rq + 1" if "unat rq < unat mp" using Suc.prems that by (simp add: unat_word_ariths)
  then show ?case using Suc by (auto simp: u8_less)
qed simp

lemma rq_next: "\<lbrakk>unat (rq :: u8) < n; n \<le> 255\<rbrakk> \<Longrightarrow> unat (rq + 1) = unat rq + 1"
  by (simp add: unat_word_ariths)

lemma tp_kill_block_ends:
  "\<lbrakk>unat mp \<le> 255; unat rq \<le> unat mp; unat mp < unat rq + k\<rbrakk> \<Longrightarrow> fst (run_state (tp_kill_block k W scale mp out rq st) t) \<noteq> Unfinished"
proof (induction k arbitrary: rq st t)
  case (Suc k)
  obtain alive rqs z where st: "st = (alive, rqs, z)" by (cases st)
  have n: "unat (rq + 1) \<le> unat mp" "unat mp < unat (rq + 1) + k" if "unat rq < unat mp" using Suc.prems that rq_next [OF that] by simp_all
  show ?case
    using Suc.IH [OF Suc.prems(1) n] by (auto simp: st u8_less tp_error_def Let_def split: prod.split)
qed simp

lemma tp_unblock_ends:
  "\<lbrakk>unat mp \<le> 255; unat rq \<le> unat mp; unat mp < unat rq + k\<rbrakk> \<Longrightarrow> fst (run_state (tp_unblock k W scale mp out rq st) t) \<noteq> Unfinished"
proof (induction k arbitrary: rq st t)
  case (Suc k)
  obtain rqs z where st: "st = (rqs, z)" by (cases st)
  have n: "unat (rq + 1) \<le> unat mp" "unat mp < unat (rq + 1) + k" if "unat rq < unat mp" using Suc.prems that rq_next [OF that] by simp_all
  show ?case
    using Suc.IH [OF Suc.prems(1) n] by (auto simp: st u8_less tp_error_def Let_def split: prod.split)
qed simp

text \<open>With more than 255 processes the 8-bit \<open>rq\<close> never reaches the end of the loop that creates them.\<close>

lemma tp_create_wide:
  "256 \<le> unat mp \<Longrightarrow> fst (run_state (tp_create k W mp fds rq alive rqs) t) \<in> {Failed, Unfinished}"
proof (induction k arbitrary: rq alive rqs t)
  case (Suc k)
  have "unat rq < 256" using unsigned_less [of rq] by simp
  then have "ucast rq < mp" using Suc.prems by (simp add: u8_less)
  then show ?case using Suc.IH [OF Suc.prems] by auto
qed simp

text \<open>What \<open>test_sync\<close> passes makes two processes that subtract and two that add, all with the same count.\<close>

lemma test_sync_args:
  assumes "0 < (word_of_int (satoi_s n) :: u64)" and "0 \<le> sint (word_of_int (satoi_s u) :: 8 word)"
  shows "process_inc_args [n, ''-1'', u] = Some (word_of_int (satoi_s n), test_incs 0, (word_of_int (satoi_s u) :: 8 word) \<noteq> 0)"
    and "process_inc_args [n, ''1'', u] = Some (word_of_int (satoi_s n), test_incs 1, (word_of_int (satoi_s u) :: 8 word) \<noteq> 0)"
  using assms by (simp_all add: process_inc_args_def satoi_s_def byte_def wrap64_def test_incs_def not_le not_less word_gt_0)

section \<open>Properties\<close>

fun waited :: "sh_call list \<Rightarrow> int list" where
  "waited [] = []"
| "waited (SWait p # new) = p # waited new"
| "waited (c # new) = waited new"

fun niced :: "sh_call list \<Rightarrow> (int \<times> int) list" where
  "niced [] = []"
| "niced (SNice p v # new) = (p, v) # niced new"
| "niced (c # new) = niced new"

lemma run_wait_all [simp]: "run_state (wait_all W ps) t = ((), t @ map SWait ps)"
  by (induction ps arbitrary: t) simp_all

lemma run_unblock_all [simp]: "run_state (unblock_all ps) t = ((), t @ map SUnblock ps)"
  by (induction ps arbitrary: t) simp_all

lemma waited_append [simp]: "waited (a @ b) = waited a @ waited b"
  by (induction a rule: waited.induct) simp_all

lemma niced_append [simp]: "niced (a @ b) = niced a @ niced b"
  by (induction a rule: niced.induct) simp_all

lemma map_calls [simp]:
  "waited (map SWait ps) = ps" "niced (map SWait ps) = []" "created W t (map SWait ps) = []"
  "waited (map SUnblock ps) = []" "niced (map SUnblock ps) = []" "created W t (map SUnblock ps) = []"
  by (induction ps arbitrary: t) simp_all

text \<open>What the loops that create processes return, and the calls they make.\<close>

lemma sync_create_calls:
  "\<exists>pids new. run_state (sync_create W fds av bv n) t = (pids, t @ new) \<and> waited new = []
     \<and> created W t new = concat (map (\<lambda>(d, i). [d, i]) pids) \<and> length pids = n"
proof (induction n arbitrary: t)
  case (Suc n)
  let ?D = "SCreate ''process_inc'' ''process_inc'' av 5 False fds"
  let ?I = "SCreate ''process_inc'' ''process_inc'' bv 5 False fds"
  let ?d = "answer W (t @ [?D])"
  let ?o = "SOut (snd fds) (fprintf (''Created decrementing process with PID %ld'' @ NL) [int_arg ?d])"
  let ?i = "answer W (t @ [?D, ?o, ?I])"
  let ?p = "SOut (snd fds) (fprintf (''Created incrementing process with PID %ld'' @ NL) [int_arg ?i])"
  obtain pids new where "run_state (sync_create W fds av bv n) (t @ [?D, ?o, ?I, ?p]) = (pids, (t @ [?D, ?o, ?I, ?p]) @ new)"
    "waited new = []" "created W (t @ [?D, ?o, ?I, ?p]) new = concat (map (\<lambda>(d, i). [d, i]) pids)" "length pids = n"
    using Suc.IH by blast
  then show ?case
    by (intro exI [of _ "(?d, ?i) # pids"] exI [of _ "[?D, ?o, ?I, ?p] @ new"]) (simp add: create_inc_def)
qed simp

lemma prio_create_calls:
  "\<exists>pids new. run_state (prio_create W fds n) t = (pids, t @ new) \<and> waited new = [] \<and> niced new = []
     \<and> created W t new = pids \<and> length pids = n"
proof (induction n arbitrary: t)
  case (Suc n)
  let ?C = "SCreate ''zero_to_max'' ''zero_to_max_wrapper'' [] 1 True fds"
  obtain pids new where "run_state (prio_create W fds n) (t @ [?C]) = (pids, (t @ [?C]) @ new)" "waited new = []"
    "niced new = []" "created W (t @ [?C]) new = pids" "length pids = n" using Suc.IH by blast
  then show ?case
    by (intro exI [of _ "answer W (t @ [?C]) # pids"] exI [of _ "[?C] @ new"]) (simp add: create_ztm_def)
qed simp

lemma prio_change_calls:
  "\<exists>pids new. run_state (prio_change W fds b vs) t = (pids, t @ new) \<and> waited new = [] \<and> niced new = zip pids vs
     \<and> created W t new = pids \<and> length pids = length vs"
proof (induction vs arbitrary: t)
  case (Cons v vs)
  let ?C = "SCreate ''zero_to_max'' ''zero_to_max_wrapper'' [] 1 True fds"
  let ?p = "answer W (t @ [?C])"
  let ?o = "SOut (snd fds) (fprintf (''  PROCESS %d NEW PRIORITY: %d'' @ NL) [int_arg ?p, int_arg v])"
  let ?l = "?C # (if b then [SBlock ?p] else []) @ [SNice ?p v, ?o]"
  obtain pids new where "run_state (prio_change W fds b vs) (t @ ?l) = (pids, (t @ ?l) @ new)" "waited new = []"
    "niced new = zip pids vs" "created W (t @ ?l) new = pids" "length pids = length vs" using Cons.IH by blast
  then show ?case
    by (intro exI [of _ "?p # pids"] exI [of _ "?l @ new"]) (cases b; simp add: create_ztm_def)
qed simp

lemma test_sync_calls:
  "\<exists>new. snd (run_state (test_sync W v argv) t) = t @ new \<and> waited new = created W t new
     \<and> length (created W t new) = (if length argv = 2 then 4 else 0)"
proof (cases "length argv = 2")
  case True
  obtain pids new where c: "run_state (sync_create W (answer_fds W (t @ [SGetFD])) [argv ! 0, ''-1'', argv ! 1] [argv ! 0, ''1'', argv ! 1] 2) (t @ [SGetFD])
      = (pids, t @ SGetFD # new)" "waited new = []" "created W (t @ [SGetFD]) new = concat (map (\<lambda>(d, i). [d, i]) pids)" "length pids = 2"
    using sync_create_calls [of W _ _ _ 2 "t @ [SGetFD]"] by fastforce
  have "length (concat (map (\<lambda>(d, i). [d, i]) pids)) = 4"
    using c(4) by (auto simp: length_Suc_conv numeral_2_eq_2)
  then show ?thesis using True c by (simp add: test_sync_def TOTAL_PAIR_PROCESSES_def)
next
  case False
  then show ?thesis by (simp add: test_sync_def)
qed

lemma test_prio_calls:
  "\<exists>new. snd (run_state (test_prio W argv mv) t) = t @ new \<and> waited new = created W t new
     \<and> niced new = zip (drop 3 (created W t new)) (prio @ prio)
     \<and> length (created W t new) = (if length argv = 1 \<and> 0 < (word_of_int (satoi_s (argv ! 0)) :: u64) then 9 else 0)"
proof (cases "length argv = 1 \<and> 0 < (word_of_int (satoi_s (argv ! 0)) :: u64)")
  case True
  let ?fds = "answer_fds W (t @ [SGetFD])"
  let ?o = "\<lambda>m. [SOut (snd ?fds) (fprintf (m @ NL) [])]"
  let ?t1 = "t @ SGetFD # ?o ''SAME PRIORITY...''"
  obtain p1 n1 where 1: "run_state (prio_create W ?fds (length prio)) ?t1 = (p1, ?t1 @ n1)" "waited n1 = []" "niced n1 = []"
    "created W ?t1 n1 = p1" "length p1 = length prio" using prio_create_calls by blast
  let ?t2 = "?t1 @ n1 @ map SWait p1 @ ?o ''SAME PRIORITY, THEN CHANGE IT...''"
  obtain p2 n2 where 2: "run_state (prio_change W ?fds False prio) ?t2 = (p2, ?t2 @ n2)" "waited n2 = []" "niced n2 = zip p2 prio"
    "created W ?t2 n2 = p2" "length p2 = length prio" using prio_change_calls by blast
  let ?t3 = "?t2 @ n2 @ map SWait p2 @ ?o ''SAME PRIORITY, THEN CHANGE IT WHILE BLOCKED...''"
  obtain p3 n3 where 3: "run_state (prio_change W ?fds True prio) ?t3 = (p3, ?t3 @ n3)" "waited n3 = []" "niced n3 = zip p3 prio"
    "created W ?t3 n3 = p3" "length p3 = length prio" using prio_change_calls by blast
  have "snd (run_state (test_prio W argv mv) t) = ?t3 @ n3 @ map SUnblock p3 @ map SWait p3"
    using True 1(1) 2(1) 3(1) by (simp add: test_prio_def Let_def word_gt_0)
  moreover have l: "length prio = 3" by (simp add: prio_def)
  moreover have "zip (p2 @ p3) (prio @ prio) = zip p2 prio @ zip p3 prio" using 2(5) by simp
  ultimately show ?thesis
    using True 1(2-5) 2(2-5) 3(2-5)
    by (intro exI [of _ "SGetFD # ?o ''SAME PRIORITY...'' @ n1 @ map SWait p1 @ ?o ''SAME PRIORITY, THEN CHANGE IT...'' @ n2
        @ map SWait p2 @ ?o ''SAME PRIORITY, THEN CHANGE IT WHILE BLOCKED...'' @ n3 @ map SUnblock p3 @ map SWait p3"])
      simp
next
  case False
  then show ?thesis by (auto simp: test_prio_def Let_def word_gt_0)
qed

text \<open>
  the tests wait for what they create. Whatever the kernel answers, \<open>test_sync\<close> and \<open>test_prio\<close>
  wait for exactly the processes they have created, each once and in the order of creation, and
  \<open>test_prio\<close> gives the second and third three of its nine processes the priorities 2, 3 and 4.
\<close>

theorem tests_wait_for_all:
  "\<exists>new new'. snd (run_state (test_sync W v argv) t) = t @ new \<and> waited new = created W t new
     \<and> length (created W t new) = (if length argv = 2 then 4 else 0)
     \<and> snd (run_state (test_prio W argv mv) t) = t @ new' \<and> waited new' = created W t new'
     \<and> niced new' = zip (drop 3 (created W t new')) (prio @ prio)
     \<and> length (created W t new') = (if length argv = 1 \<and> 0 < (word_of_int (satoi_s (argv ! 0)) :: u64) then 9 else 0)"
  using test_sync_calls [of W v argv t] test_prio_calls [of W argv mv t] by blast





end
