(* ===== verification/User_Library.thy ===== *)
theory User_Library
  imports Syscalls
begin

text \<open>
  \<open>Userland/libsys/libsys.c\<close>: the functions through which programs reach the kernel, over the stubs of
  \<open>libsys/asm/libsys.asm\<close>, which put the number of the call into \<open>rax\<close> and raise interrupt 0x80.

  Arguments are words of the width of their C type. A 32-bit argument fills the lower half of its
  register and leaves the upper half as it was; the registers a call does not use hold what they held.
  The kernel \<open>K\<close> answers through the lower half of \<open>rax\<close>; what a compiled kernel leaves in the upper
  half is a parameter, which the functions of type \<open>long\<close> and the pointers read along.
\<close>

section \<open>The interface to the kernel\<close>

unbundle bit_operations_syntax

record abi =
  before :: Registers
  rax_high :: "int \<Rightarrow> u32"

type_synonym 'k kernel_fn = "'k user \<Rightarrow> Registers \<Rightarrow> 'k \<Rightarrow> 'k sysret"

definition put32 :: "u64 \<Rightarrow> u32 \<Rightarrow> u64" where
  "put32 old v = (old AND NOT (mask 32)) OR ucast v"

definition set_rdi32 :: "u32 \<Rightarrow> Registers \<Rightarrow> Registers" where "set_rdi32 v g = g\<lparr>rdi := put32 (rdi g) v\<rparr>"
definition set_rsi32 :: "u32 \<Rightarrow> Registers \<Rightarrow> Registers" where "set_rsi32 v g = g\<lparr>rsi := put32 (rsi g) v\<rparr>"
definition set_rdx32 :: "u32 \<Rightarrow> Registers \<Rightarrow> Registers" where "set_rdx32 v g = g\<lparr>rdx := put32 (rdx g) v\<rparr>"

definition int80 :: "'k kernel_fn \<Rightarrow> 'k user \<Rightarrow> abi \<Rightarrow> u64 \<Rightarrow> (Registers \<Rightarrow> Registers) \<Rightarrow> 'k \<Rightarrow> 'k sysret" where
  "int80 K U A n args s = K U ((args (before A))\<lparr>rax := n\<rparr>) s"

text \<open>How a function reads the answer, by its type.\<close>

definition with_answer :: "(int \<Rightarrow> int) \<Rightarrow> 'k sysret \<Rightarrow> 'k sysret" where
  "with_answer f r = (case r of (Ret v, w, s) \<Rightarrow> (Ret (f v), w, s) | (Sleep, w, s) \<Rightarrow> (Sleep, w, s))"

definition as_void :: "'k sysret \<Rightarrow> 'k sysret" where "as_void = with_answer (\<lambda>_. 0)"
definition as_u8 :: "'k sysret \<Rightarrow> 'k sysret" where "as_u8 = with_answer (\<lambda>v. uint (of_int v :: u8))"

definition as_long :: "abi \<Rightarrow> 'k sysret \<Rightarrow> 'k sysret" where
  "as_long A = with_answer (\<lambda>v. sint (word_cat (rax_high A v) (of_int v :: u32) :: u64))"

definition as_ptr :: "abi \<Rightarrow> 'k sysret \<Rightarrow> 'k sysret" where
  "as_ptr A = with_answer (\<lambda>v. uint (word_cat (rax_high A v) (of_int v :: u32) :: u64))"

section \<open>The functions\<close>

definition u_setTextColor :: "'k kernel_fn \<Rightarrow> 'k user \<Rightarrow> abi \<Rightarrow> u32 \<Rightarrow> 'k \<Rightarrow> 'k sysret" where
  "u_setTextColor K U A color s = as_void (int80 K U A 0x80000002 (set_rdi32 color) s)"

definition u_setBackgroundColor :: "'k kernel_fn \<Rightarrow> 'k user \<Rightarrow> abi \<Rightarrow> u32 \<Rightarrow> 'k \<Rightarrow> 'k sysret" where
  "u_setBackgroundColor K U A color s = as_void (int80 K U A 0x80000003 (set_rdi32 color) s)"

definition u_increaseFontSize :: "'k kernel_fn \<Rightarrow> 'k user \<Rightarrow> abi \<Rightarrow> 'k \<Rightarrow> 'k sysret" where
  "u_increaseFontSize K U A s = as_u8 (int80 K U A 0x80000008 id s)"

definition u_decreaseFontSize :: "'k kernel_fn \<Rightarrow> 'k user \<Rightarrow> abi \<Rightarrow> 'k \<Rightarrow> 'k sysret" where
  "u_decreaseFontSize K U A s = as_u8 (int80 K U A 0x80000007 id s)"

definition u_setFontSize :: "'k kernel_fn \<Rightarrow> 'k user \<Rightarrow> abi \<Rightarrow> u8 \<Rightarrow> 'k \<Rightarrow> 'k sysret" where
  "u_setFontSize K U A size' s = as_u8 (int80 K U A 0x80000009 (set_rdi32 (ucast size')) s)"

text \<open>The three calls of \<open>getDate\<close>, with what each writes.\<close>

definition u_getDate :: "'k kernel_fn \<Rightarrow> 'k user \<Rightarrow> abi \<Rightarrow> u64 \<Rightarrow> u64 \<Rightarrow> u64 \<Rightarrow> 'k \<Rightarrow> user_out list \<times> 'k" where
  "u_getDate K U A hour minute second s =
     (let (_, w1, s1) = int80 K U A 0x80000010 (\<lambda>g. g\<lparr>rdi := hour\<rparr>) s;
          (_, w2, s2) = int80 K U A 0x80000011 (\<lambda>g. g\<lparr>rdi := minute\<rparr>) s1;
          (_, w3, s3) = int80 K U A 0x80000012 (\<lambda>g. g\<lparr>rdi := second\<rparr>) s2
      in ([w1, w2, w3], s3))"

definition u_clearScreen :: "'k kernel_fn \<Rightarrow> 'k user \<Rightarrow> abi \<Rightarrow> 'k \<Rightarrow> 'k sysret" where
  "u_clearScreen K U A s = as_void (int80 K U A 0x8000000A id s)"

definition u_clearInputBuffer :: "'k kernel_fn \<Rightarrow> 'k user \<Rightarrow> abi \<Rightarrow> 'k \<Rightarrow> 'k sysret" where
  "u_clearInputBuffer K U A s = as_void (int80 K U A 0x8000000B id s)"

definition u_drawCircle :: "'k kernel_fn \<Rightarrow> 'k user \<Rightarrow> abi \<Rightarrow> u32 \<Rightarrow> u64 \<Rightarrow> u64 \<Rightarrow> u64 \<Rightarrow> 'k \<Rightarrow> 'k sysret" where
  "u_drawCircle K U A color topleftX topLefyY diameter s =
     as_void (int80 K U A 0x80000019
       (\<lambda>g. (set_rdi32 color g)\<lparr>rsi := topleftX, rdx := topLefyY, rcx := diameter\<rparr>) s)"

definition u_drawRectangle ::
  "'k kernel_fn \<Rightarrow> 'k user \<Rightarrow> abi \<Rightarrow> u32 \<Rightarrow> u64 \<Rightarrow> u64 \<Rightarrow> u64 \<Rightarrow> u64 \<Rightarrow> 'k \<Rightarrow> 'k sysret" where
  "u_drawRectangle K U A color width_pixels height_pixels initial_pos_x initial_pos_y s =
     as_void (int80 K U A 0x80000020
       (\<lambda>g. (set_rdi32 color g)\<lparr>rsi := width_pixels, rdx := height_pixels, rcx := initial_pos_x, r8 := initial_pos_y\<rparr>) s)"

definition u_fillVideoMemory :: "'k kernel_fn \<Rightarrow> 'k user \<Rightarrow> abi \<Rightarrow> u32 \<Rightarrow> 'k \<Rightarrow> 'k sysret" where
  "u_fillVideoMemory K U A hexColor s = as_void (int80 K U A 0x80000021 (set_rdi32 hexColor) s)"

definition u_exec :: "'k kernel_fn \<Rightarrow> 'k user \<Rightarrow> abi \<Rightarrow> u64 \<Rightarrow> 'k \<Rightarrow> 'k sysret" where
  "u_exec K U A fnPtr s = int80 K U A 0x800000A0 (\<lambda>g. g\<lparr>rdi := fnPtr\<rparr>) s"

text \<open>The enumeration is passed on as an 8-bit scan code.\<close>

definition u_registerKey :: "'k kernel_fn \<Rightarrow> 'k user \<Rightarrow> abi \<Rightarrow> u32 \<Rightarrow> u64 \<Rightarrow> 'k \<Rightarrow> 'k sysret" where
  "u_registerKey K U A scancode f s =
     as_void (int80 K U A 0x800000B0 (\<lambda>g. (set_rdi32 (ucast (ucast scancode :: u8)) g)\<lparr>rsi := f\<rparr>) s)"

definition u_getWindowWidth :: "'k kernel_fn \<Rightarrow> 'k user \<Rightarrow> abi \<Rightarrow> 'k \<Rightarrow> 'k sysret" where
  "u_getWindowWidth K U A s = int80 K U A 0x800000C0 id s"

definition u_getWindowHeight :: "'k kernel_fn \<Rightarrow> 'k user \<Rightarrow> abi \<Rightarrow> 'k \<Rightarrow> 'k sysret" where
  "u_getWindowHeight K U A s = int80 K U A 0x800000C1 id s"

definition u_sleep :: "'k kernel_fn \<Rightarrow> 'k user \<Rightarrow> abi \<Rightarrow> u32 \<Rightarrow> 'k \<Rightarrow> 'k sysret" where
  "u_sleep K U A miliseconds s = as_void (int80 K U A 0x800000D0 (set_rdi32 miliseconds) s)"

definition u_getRegisterSnapshot :: "'k kernel_fn \<Rightarrow> 'k user \<Rightarrow> abi \<Rightarrow> u64 \<Rightarrow> 'k \<Rightarrow> 'k sysret" where
  "u_getRegisterSnapshot K U A registers s = int80 K U A 0x800000E0 (\<lambda>g. g\<lparr>rdi := registers\<rparr>) s"

definition u_getCharacterWithoutDisplay :: "'k kernel_fn \<Rightarrow> 'k user \<Rightarrow> abi \<Rightarrow> 'k \<Rightarrow> 'k sysret" where
  "u_getCharacterWithoutDisplay K U A s = int80 K U A 0x800000F0 id s"

definition u_getMemoryStatus :: "'k kernel_fn \<Rightarrow> 'k user \<Rightarrow> abi \<Rightarrow> u64 \<Rightarrow> 'k \<Rightarrow> 'k sysret" where
  "u_getMemoryStatus K U A memStatus s = int80 K U A 0x80000100 (\<lambda>g. g\<lparr>rdi := memStatus\<rparr>) s"

definition u_malloc :: "'k kernel_fn \<Rightarrow> 'k user \<Rightarrow> abi \<Rightarrow> u32 \<Rightarrow> 'k \<Rightarrow> 'k sysret" where
  "u_malloc K U A size' s = as_ptr A (int80 K U A 0x80000101 (set_rdi32 size') s)"

definition u_free :: "'k kernel_fn \<Rightarrow> 'k user \<Rightarrow> abi \<Rightarrow> u64 \<Rightarrow> 'k \<Rightarrow> 'k sysret" where
  "u_free K U A p s = int80 K U A 0x80000102 (\<lambda>g. g\<lparr>rdi := p\<rparr>) s"

text \<open>\<open>createProcess\<close> fills a record of parameters in its own frame, at \<open>p\<close>, and passes its address.\<close>

definition u_params :: "string option \<Rightarrow> addr \<Rightarrow> u32 \<Rightarrow> string list \<Rightarrow> u32 \<Rightarrow> u32 \<Rightarrow> u32 \<times> u32 \<Rightarrow> creationParameters" where
  "u_params name' entry ac av priority' foreground' fds' =
     \<lparr>c_argc = sint ac, c_argv = av, c_name = name', c_priority = unat priority', c_entryPoint = entry,
      c_foreground = sint foreground', c_fd_in = sint (fst fds'), c_fd_out = sint (snd fds')\<rparr>"

definition u_createProcess ::
  "'k kernel_fn \<Rightarrow> 'k user \<Rightarrow> abi \<Rightarrow> u64 \<Rightarrow> string option \<Rightarrow> addr \<Rightarrow> u32 \<Rightarrow> string list \<Rightarrow> u32 \<Rightarrow> u32 \<Rightarrow> u32 \<times> u32 \<Rightarrow> 'k \<Rightarrow> 'k sysret" where
  "u_createProcess K U A p name' entry ac av priority' foreground' fds' s =
     (let U' = U\<lparr>user_params := (user_params U)(ptr p := u_params name' entry ac av priority' foreground' fds')\<rparr>
      in as_long A (int80 K U' A 0x80000200 (\<lambda>g. g\<lparr>rdi := p\<rparr>) s))"

definition u_getpid :: "'k kernel_fn \<Rightarrow> 'k user \<Rightarrow> abi \<Rightarrow> 'k \<Rightarrow> 'k sysret" where
  "u_getpid K U A s = as_long A (int80 K U A 0x80000201 id s)"

definition u_kill :: "'k kernel_fn \<Rightarrow> 'k user \<Rightarrow> abi \<Rightarrow> u64 \<Rightarrow> 'k \<Rightarrow> 'k sysret" where
  "u_kill K U A i s = int80 K U A 0x80000202 (\<lambda>g. g\<lparr>rdi := i\<rparr>) s"

definition u_block :: "'k kernel_fn \<Rightarrow> 'k user \<Rightarrow> abi \<Rightarrow> u64 \<Rightarrow> 'k \<Rightarrow> 'k sysret" where
  "u_block K U A i s = int80 K U A 0x80000203 (\<lambda>g. g\<lparr>rdi := i\<rparr>) s"

definition u_unblock :: "'k kernel_fn \<Rightarrow> 'k user \<Rightarrow> abi \<Rightarrow> u64 \<Rightarrow> 'k \<Rightarrow> 'k sysret" where
  "u_unblock K U A i s = int80 K U A 0x80000204 (\<lambda>g. g\<lparr>rdi := i\<rparr>) s"

definition u_getProcessList :: "'k kernel_fn \<Rightarrow> 'k user \<Rightarrow> abi \<Rightarrow> 'k \<Rightarrow> 'k sysret" where
  "u_getProcessList K U A s = as_ptr A (int80 K U A 0x80000205 id s)"

definition u_nice :: "'k kernel_fn \<Rightarrow> 'k user \<Rightarrow> abi \<Rightarrow> u64 \<Rightarrow> u32 \<Rightarrow> 'k \<Rightarrow> 'k sysret" where
  "u_nice K U A i priority' s = int80 K U A 0x80000206 (\<lambda>g. (set_rsi32 priority' g)\<lparr>rdi := i\<rparr>) s"

definition u_yield :: "'k kernel_fn \<Rightarrow> 'k user \<Rightarrow> abi \<Rightarrow> 'k \<Rightarrow> 'k sysret" where
  "u_yield K U A s = int80 K U A 0x80000207 id s"

definition u_wait :: "'k kernel_fn \<Rightarrow> 'k user \<Rightarrow> abi \<Rightarrow> u64 \<Rightarrow> u64 \<Rightarrow> 'k \<Rightarrow> 'k sysret" where
  "u_wait K U A i wstatus s = int80 K U A 0x80000208 (\<lambda>g. g\<lparr>rdi := i, rsi := wstatus\<rparr>) s"

definition u_semOpen :: "'k kernel_fn \<Rightarrow> 'k user \<Rightarrow> abi \<Rightarrow> u64 \<Rightarrow> u32 \<Rightarrow> 'k \<Rightarrow> 'k sysret" where
  "u_semOpen K U A nm v s = int80 K U A 0x80000300 (\<lambda>g. (set_rsi32 v g)\<lparr>rdi := nm\<rparr>) s"

definition u_semClose :: "'k kernel_fn \<Rightarrow> 'k user \<Rightarrow> abi \<Rightarrow> u32 \<Rightarrow> 'k \<Rightarrow> 'k sysret" where
  "u_semClose K U A semId s = int80 K U A 0x80000301 (set_rdi32 semId) s"

definition u_semWait :: "'k kernel_fn \<Rightarrow> 'k user \<Rightarrow> abi \<Rightarrow> u32 \<Rightarrow> 'k \<Rightarrow> 'k sysret" where
  "u_semWait K U A semId s = as_void (int80 K U A 0x80000302 (set_rdi32 semId) s)"

definition u_semPost :: "'k kernel_fn \<Rightarrow> 'k user \<Rightarrow> abi \<Rightarrow> u32 \<Rightarrow> 'k \<Rightarrow> 'k sysret" where
  "u_semPost K U A semId s = as_void (int80 K U A 0x80000303 (set_rdi32 semId) s)"

definition u_semDestroy :: "'k kernel_fn \<Rightarrow> 'k user \<Rightarrow> abi \<Rightarrow> u32 \<Rightarrow> 'k \<Rightarrow> 'k sysret" where
  "u_semDestroy K U A semId s = as_void (int80 K U A 0x80000305 (set_rdi32 semId) s)"

definition u_semSetValue :: "'k kernel_fn \<Rightarrow> 'k user \<Rightarrow> abi \<Rightarrow> u32 \<Rightarrow> u32 \<Rightarrow> 'k \<Rightarrow> 'k sysret" where
  "u_semSetValue K U A semId newValue s = int80 K U A 0x80000304 (\<lambda>g. set_rsi32 newValue (set_rdi32 semId g)) s"

definition u_pipe :: "'k kernel_fn \<Rightarrow> 'k user \<Rightarrow> abi \<Rightarrow> u64 \<Rightarrow> 'k \<Rightarrow> 'k sysret" where
  "u_pipe K U A fds' s = int80 K U A 0x80000400 (\<lambda>g. g\<lparr>rdi := fds'\<rparr>) s"

definition u_close :: "'k kernel_fn \<Rightarrow> 'k user \<Rightarrow> abi \<Rightarrow> u32 \<Rightarrow> 'k \<Rightarrow> 'k sysret" where
  "u_close K U A fd s = int80 K U A 0x80000401 (set_rdi32 fd) s"

definition u_getFD :: "'k kernel_fn \<Rightarrow> 'k user \<Rightarrow> abi \<Rightarrow> u64 \<Rightarrow> 'k \<Rightarrow> 'k sysret" where
  "u_getFD K U A fds' s = int80 K U A 0x80000402 (\<lambda>g. g\<lparr>rdi := fds'\<rparr>) s"

definition u_readAtCurrentPos :: "'k kernel_fn \<Rightarrow> 'k user \<Rightarrow> abi \<Rightarrow> u32 \<Rightarrow> u64 \<Rightarrow> u32 \<Rightarrow> 'k \<Rightarrow> 'k sysret" where
  "u_readAtCurrentPos K U A fd buf cnt s =
     int80 K U A 0x80000403 (\<lambda>g. set_rdx32 cnt ((set_rdi32 fd g)\<lparr>rsi := buf\<rparr>)) s"

text \<open>\<open>read\<close> and \<open>write\<close> pass descriptor and count on as 64-bit integers.\<close>

definition u_read :: "'k kernel_fn \<Rightarrow> 'k user \<Rightarrow> abi \<Rightarrow> u32 \<Rightarrow> u64 \<Rightarrow> u32 \<Rightarrow> 'k \<Rightarrow> 'k sysret" where
  "u_read K U A fd buf cnt s = int80 K U A 3 (\<lambda>g. g\<lparr>rdi := scast fd, rsi := buf, rdx := scast cnt\<rparr>) s"

definition u_write :: "'k kernel_fn \<Rightarrow> 'k user \<Rightarrow> abi \<Rightarrow> u32 \<Rightarrow> u64 \<Rightarrow> u32 \<Rightarrow> 'k \<Rightarrow> 'k sysret" where
  "u_write K U A fd buf cnt s = int80 K U A 4 (\<lambda>g. g\<lparr>rdi := scast fd, rsi := buf, rdx := scast cnt\<rparr>) s"

definition u_openPipe :: "'k kernel_fn \<Rightarrow> 'k user \<Rightarrow> abi \<Rightarrow> u64 \<Rightarrow> 'k \<Rightarrow> 'k sysret" where
  "u_openPipe K U A fds' s = int80 K U A 0x80000400 (\<lambda>g. g\<lparr>rdi := fds'\<rparr>) s"

definition u_closeFD :: "'k kernel_fn \<Rightarrow> 'k user \<Rightarrow> abi \<Rightarrow> u32 \<Rightarrow> 'k \<Rightarrow> 'k sysret" where
  "u_closeFD K U A fd s = int80 K U A 0x80000401 (set_rdi32 fd) s"

section \<open>The arguments the kernel reads\<close>

lemma low_put32 [simp]: "ucast (put32 old v) = v"
  by (rule bit_word_eqI) (simp add: put32_def bit_simps)

lemma low8_put32 [simp]: "(ucast (put32 old (ucast (v :: u8))) :: u8) = v"
  by (rule bit_word_eqI) (auto simp: put32_def bit_simps)

lemma low_scast [simp]: "(ucast (scast (v :: u32) :: u64) :: u32) = v"
  by (rule bit_word_eqI) (simp add: bit_simps)

lemma args_read [simp]:
  "arg32 (put32 old v) = v" "i32 (put32 old v) = sint v" "i32 (scast v) = sint v" "i64 w = sint w"
  by (simp_all add: arg32_def i32_def i64_def)

section \<open>Properties\<close>

text \<open>The answer as the dispatcher narrows it.\<close>

definition narrow :: "'k sysret \<Rightarrow> 'k sysret" where "narrow = with_answer to_ret"

lemma int80_dispatch:
  "int80 (syscallDispatcher M) U A n args s = narrow (syscall M U ((args (before A))\<lparr>rax := n\<rparr>) s)"
  by (simp add: int80_def syscallDispatcher_def narrow_def with_answer_def)

lemmas libsys_simps = int80_dispatch syscall_def set_rdi32_def set_rsi32_def set_rdx32_def

lemma ret_zero [simp]: "as_void (narrow (ret (v, s))) = (Ret 0, Nothing, s)"
  by (simp add: as_void_def narrow_def with_answer_def ret_def)

text \<open>A negative process identifier survives as a \<open>long\<close> when the kernel leaves a sign-extended answer.\<close>

lemma long_answer:
  assumes "\<And>v. rax_high A v = (if bit (of_int v :: u32) 31 then - 1 else 0)"
  shows "as_long A (narrow r) = narrow r"
proof -
  have "sint (word_cat (if bit w 31 then - 1 else 0 :: u32) w :: u64) = sint w" for w :: u32
  proof -
    have "(word_cat (if bit w 31 then - 1 else 0 :: u32) w :: u64) = scast w"
      by (rule bit_word_eqI) (auto simp: bit_simps not_less less_Suc_eq)
    then show ?thesis by (simp add: sint_up_scast is_up)
  qed
  then show ?thesis using assms
    by (simp add: as_long_def narrow_def with_answer_def to_ret_def split: prod.split outcome.split)
qed

text \<open>
  C40: the library reaches the kernel. Whatever the registers held before, each function of
  \<open>libsys.c\<close> that manages processes, semaphores, descriptors or memory runs the kernel operation of its
  name on exactly the arguments it was given, 32-bit integers with their sign, and no other one.
\<close>

theorem libsys_reaches_kernel:
  "u_kill (syscallDispatcher M) U A i s = narrow (sys_kill M (sint i) s)
   \<and> u_block (syscallDispatcher M) U A i s = narrow (ret (sys_block M (sint i) s))
   \<and> u_unblock (syscallDispatcher M) U A i s = narrow (ret (sys_unblock M (sint i) s))
   \<and> u_nice (syscallDispatcher M) U A i pr s = narrow (ret (sys_change_priority M (sint i) pr s))
   \<and> u_yield (syscallDispatcher M) U A s = narrow (ret (sys_yield M s))
   \<and> u_wait (syscallDispatcher M) U A i ws s = narrow (sys_wait M (sint i) (unat ws) s)
   \<and> u_getpid (syscallDispatcher M) U A s = as_long A (narrow (ret (sys_getpid s, s)))
   \<and> u_createProcess (syscallDispatcher M) U A p nm entry ac av pr fg fs s
        = as_long A (narrow (ret (if ptr p = 0 then (- 1, s) else createProcess M (Some (u_params nm entry ac av pr fg fs)) s)))
   \<and> u_semOpen (syscallDispatcher M) U A q v s = narrow (ret (sys_sem_open M U (unat q) (sint v) s))
   \<and> u_semClose (syscallDispatcher M) U A v s = narrow (ret (semClose (sint v) s))
   \<and> u_semWait (syscallDispatcher M) U A v s
        = (case sys_sem_wait M (sint v) s of (Ret _, s1) \<Rightarrow> (Ret 0, Nothing, s1) | (Sleep, s1) \<Rightarrow> (Sleep, Nothing, s1))
   \<and> u_semPost (syscallDispatcher M) U A v s = (Ret 0, Nothing, sys_sem_post M (sint v) s)
   \<and> u_semDestroy (syscallDispatcher M) U A v s = (Ret 0, Nothing, sys_sem_destroy M (sint v) s)
   \<and> u_semSetValue (syscallDispatcher M) U A v x s = narrow (ret (semSetValue M (sint v) (sint x) s))
   \<and> u_pipe (syscallDispatcher M) U A q s = narrow (sys_pipe M (unat q) s)
   \<and> u_close (syscallDispatcher M) U A v s = narrow (ret (closeFD M (sint v) s))
   \<and> u_getFD (syscallDispatcher M) U A q s = narrow (sys_get_fd (unat q) s)
   \<and> u_read (syscallDispatcher M) U A v q x s = narrow (sys_read M (sint v) (unat q) (sint x) s)
   \<and> u_write (syscallDispatcher M) U A v q x s = narrow (sys_write M U (sint v) (unat q) (sint x) s)
   \<and> u_malloc (syscallDispatcher M) U A x s
        = (let (a, s1) = k_alloc M x s in as_ptr A (narrow (ret (int a, s1))))
   \<and> u_free (syscallDispatcher M) U A q s = narrow (ret (0, k_free M (unat q) s))"
  by (intro conjI; simp add: libsys_simps ptr_def u_kill_def u_block_def u_unblock_def u_nice_def u_yield_def u_wait_def
      u_getpid_def u_createProcess_def sys_create_process_def u_semOpen_def u_semClose_def sys_sem_close_def u_semWait_def
      u_semPost_def u_semDestroy_def u_semSetValue_def u_pipe_def u_close_def sys_close_def u_getFD_def u_read_def u_write_def
      u_malloc_def sys_malloc_def u_free_def sys_free_def as_void_def narrow_def with_answer_def ret_def Let_def
      split: prod.split outcome.split)

text \<open>The console, the clock, the keys and the reads at a position.\<close>

lemma libsys_reaches_console:
  "u_setTextColor (syscallDispatcher M) U A c s = (Ret 0, Nothing, upd_con (setTextColor c) s)"
  "u_setBackgroundColor (syscallDispatcher M) U A c s = (Ret 0, Nothing, upd_con (setBackgroundColor c) s)"
  "u_increaseFontSize (syscallDispatcher M) U A s = as_u8 (narrow (ret (sys_fonts_increase_size s)))"
  "u_decreaseFontSize (syscallDispatcher M) U A s = as_u8 (narrow (ret (sys_fonts_decrease_size s)))"
  "u_setFontSize (syscallDispatcher M) U A k s = as_u8 (narrow (ret (sys_fonts_set_size k s)))"
  "u_clearScreen (syscallDispatcher M) U A s = (Ret 0, Nothing, upd_con clear s)"
  "u_clearInputBuffer (syscallDispatcher M) U A s = (Ret 0, Nothing, clear_input s)"
  "u_drawCircle (syscallDispatcher M) U A c x y d s = (Ret 0, Nothing, upd_vid (drawCircle c (unat x) (unat y) (unat d)) s)"
  "u_drawRectangle (syscallDispatcher M) U A c w h x y s
     = (Ret 0, Nothing, upd_vid (drawRectangle c (unat w) (unat h) (unat x) (unat y)) s)"
  "u_fillVideoMemory (syscallDispatcher M) U A c s = (Ret 0, Nothing, upd_vid (fillVideoMemory c) s)"
  "u_exec (syscallDispatcher M) U A f s = narrow (ret (sys_exec U (unat f) s))"
  "u_registerKey (syscallDispatcher M) U A c f s
     = (Ret 0, Nothing, upd_kbd (\<lambda>k. snd (registerSpecialKey (ucast c) (unat f) 0 k)) s)"
  "u_sleep (syscallDispatcher M) U A c s = as_void (narrow (sys_sleep_milis c s))"
  "u_getCharacterWithoutDisplay (syscallDispatcher M) U A s = narrow (sys_get_character_without_display M s)"
  "u_getDate (syscallDispatcher M) U A a b d s
     = ([Value (unat a) (uint (fst (clock U))), Value (unat b) (uint (fst (snd (clock U)))),
         Value (unat d) (uint (snd (snd (clock U))))], s)"
  by (simp_all add: libsys_simps ptr_def u_setTextColor_def sys_fonts_text_color_def u_setBackgroundColor_def
      sys_fonts_background_color_def u_increaseFontSize_def u_decreaseFontSize_def u_setFontSize_def u_clearScreen_def
      sys_clear_screen_def u_clearInputBuffer_def sys_clear_input_buffer_def u_drawCircle_def sys_circle_def
      u_drawRectangle_def sys_rectangle_def u_fillVideoMemory_def sys_fill_video_memory_def u_exec_def u_registerKey_def
      sys_register_key_def u_sleep_def u_getCharacterWithoutDisplay_def u_getDate_def sys_hour_def sys_minute_def
      sys_second_def narrow_def with_answer_def as_void_def ret_def)

end
