(* ===== verification/Spec2Isabelle.thy ===== *)
theory Spec2Isabelle
  imports Naive_Manager Buddy_Manager Scheduler_Properties Semaphore_Properties Kernel_Lib
    File_Descriptors Syscalls Shell Boot_Properties Exceptions Module_Packer Test_Memory
    Sync_On_Kernel Mvar_On_Kernel Test_Programs User_Library
begin

text \<open>
  A model of a small 64-bit operating system written in C, its kernel (\<open>src/Kernel\<close>) and the
  library, shell and programs that run on it (\<open>src/Userland\<close>), with the properties that make its
  parts correct.

  \<^bold>\<open>The program.\<close> One processor, one address space. The kernel owns a heap, handed out by one of
  two memory managers chosen when it is built; queues of pointers live in that heap; a table of
  100 process control blocks is scheduled round robin from five priority queues by the timer
  interrupt; counting semaphores block and wake processes; pipes are rings of bytes guarded by
  two semaphores each; the keyboard interrupt fills a ring of characters, guarded by a semaphore
  that counts them; text is drawn on a frame buffer; programs reach all of this through one
  system call entry. The shell is a program: it reads lines, cuts them into arguments and pipes,
  runs small commands itself and starts the others as processes.

  \<^bold>\<open>Theories and sources.\<close> Each theory models one part and imports the parts it calls.
  \<^item> \<open>Prelude\<close>: machine integers, addresses, generic lemmas and the collections of simplification rules.
  \<^item> \<open>Memory_Interface\<close> (\<open>include/memoryManager.h\<close>): the pair of entry points as the record \<open>mm\<close>,
    and the contract the rest of the kernel relies on as the locale \<open>memory_manager\<close>, extended by
    \<open>kernel_memory\<close> with the request sizes the kernel depends on.
  \<^item> \<open>Naive_Manager\<close> (\<open>memory/naiveManager.c\<close>) and \<open>Buddy_Manager\<close> (\<open>memory/buddyManager.c\<close>): the two
    implementations over block headers in memory and over the table of node states. Each is refined
    to a data structure without pointers (a list of blocks, a tree of blocks) and interprets
    \<open>kernel_memory\<close>.
  \<^item> \<open>Queue_ADT\<close> (\<open>queueADT.c\<close>): linked queues over heaps of nodes and headers, and the queues as lists
    that they refine. All later theories use the list version, which still performs the allocations,
    so running out of memory stays visible.
  \<^item> \<open>Process_Table\<close> (\<open>include/process.h\<close>, parts of \<open>process/process.c\<close>), \<open>Scheduler\<close> and
    \<open>Scheduler_Properties\<close> (\<open>process/scheduler.c\<close>): the table, the ready queues, dispatch, ageing,
    blocking, the timer and the yield interrupt.
  \<^item> \<open>Semaphores\<close>, \<open>Semaphore_Properties\<close> (\<open>semaphoreManager.c\<close>).
  \<^item> \<open>Kernel_Lib\<close> (\<open>lib.c\<close>): the byte and string routines over a byte memory.
  \<^item> \<open>Video\<close> (\<open>drivers/video.c\<close>) and \<open>Console\<close> (\<open>fonts.c\<close>): pixels in a byte frame buffer, glyphs, the
    text position, scrolling, numbers.
  \<^item> \<open>Kernel_State\<close> (parts of \<open>drivers/keyboard.c\<close>, \<open>cursor.c\<close>, \<open>fonts.c\<close>): the record of the whole
    kernel, the ring of typed characters and the blocking read.
  \<^item> \<open>File_Descriptors\<close> (\<open>fds.c\<close>): descriptors, pipes, streams.
  \<^item> \<open>Process_Lifecycle\<close> (\<open>process/process.c\<close>): create, list, wait, kill, change priority.
  \<^item> \<open>Keyboard_Handler\<close> (\<open>drivers/keyboard.c\<close>, \<open>idt/irqDispatcher.c\<close>): the keyboard interrupt and the
    table of registered keys.
  \<^item> \<open>Syscalls\<close> (\<open>idt/syscallDispatcher.c\<close>): every system call and the dispatch on \<open>rax\<close>.
  \<^item> \<open>Exceptions\<close> (\<open>idt/exceptionDispatcher.c\<close>): the two exceptions and the wait for a key, with the
    masks of the interrupt controller.
  \<^item> \<open>Boot\<close> (\<open>moduleLoader.c\<close>, \<open>kernel.c\<close>, \<open>idt/idtLoader.c\<close>): placing the packed programs, the
    interrupt table, \<open>main\<close>. \<open>Boot_Properties\<close>: that \<open>main\<close> establishes the invariants the other
    theories assume, and the window in which a timer tick stops it.
  \<^item> \<open>User_Strings\<close> (\<open>Userland/libc/string.c\<close>, \<open>stdlib.c\<close>, \<open>satoi\<close> and \<open>memcheck\<close> of \<open>tests/test_util.c\<close>):
    the programs' string routines over a byte memory.
  \<^item> \<open>User_Stdio\<close> (\<open>libc/stdio.c\<close>, \<open>libsys/ansiColors.c\<close>): formatted output as the list of system
    calls it makes, formatted input.
  \<^item> \<open>User_Commands\<close> (\<open>Shell/commands.c\<close>): the programs over streams, and the readers and writers of
    one variable as an inductive step relation.
  \<^item> \<open>Shell_Parser\<close> and \<open>Shell\<close> (\<open>Shell/shell.c\<close>): cutting a line in its buffers; the commands, pipes
    and the main loop.
  \<^item> \<open>User_Library\<close> (\<open>libsys/libsys.c\<close>, \<open>libsys/asm/libsys.asm\<close>): the functions through which programs
    reach the kernel, and that each runs the kernel operation of its name.
  \<^item> \<open>Test_Memory\<close> (\<open>tests/test_mm.c\<close>, \<open>Shell/_loader.c\<close>): the memory test over a manager, in the
    locale \<open>memory_manager\<close> and then over the naive one. \<open>Test_Sync\<close> (\<open>tests/test_sync.c\<close>): the
    processes that share a counter as an inductive step relation; \<open>Sync_On_Kernel\<close> states what they
    rely on as the locale \<open>counting_semaphore\<close>, interprets it by the kernel's semaphores over either
    memory manager, and shows that in every run of the kernel they keep to the step relation.
    \<open>Mvar_On_Kernel\<close> does the same for the three semaphores of \<open>mvar\<close>, in the locale
    \<open>semaphore_family\<close>, whose members are \<open>counting_semaphore\<close>s.
    \<open>Test_Programs\<close> (\<open>tests/test_sync.c\<close>,
    \<open>test_prio.c\<close>, \<open>test_processes.c\<close>, \<open>test_util.c\<close>): the tests and their wrappers in the shell's monad.
  \<^item> \<open>Module_Packer\<close> (\<open>Toolchain/ModulePacker/main.c\<close>): the tool that appends the programs to the
    kernel, and that \<open>moduleLoader.c\<close> reads what it writes.

  \<^bold>\<open>State and effects.\<close> The kernel state is one record, extended along the import order
  (\<open>sched\<close>, then \<open>sem_state\<close>, then \<open>kernel\<close>), and an operation takes and returns it. Definitions are
  polymorphic in the extension, so the lemmas of a part hold in the whole kernel. The memory manager
  is a parameter of every operation that allocates. Integers whose wrap-around the code can observe
  are machine words; the others are natural numbers or integers. Pointers are natural numbers with
  0 for null. A C function that does not return because it switches to another process answers
  \<open>Sleep\<close> (or \<open>ReadSleep\<close>, \<open>WriteSleep\<close> with the bytes moved so far), and what it does when it runs again
  is a definition of its own, with the suffix \<open>_resume\<close>, \<open>_again\<close> or \<open>_finish\<close>.
  Flags record what the model does not follow further: \<open>stray\<close> an access outside a table, \<open>hung\<close>,
  \<open>stuck\<close> and \<open>spinning\<close> a loop that does not end, \<open>wild\<close> a glyph outside the font.
  The programs are modelled on the other side of the system calls: a function gives the list of the
  calls it makes, in \<open>Shell\<close> in a state monad, and the kernel's answers are a parameter that may
  depend on all earlier calls. So the properties of programs hold whatever the kernel answers; they
  do not rest on the kernel's model. The two meet at the list of calls, in \<open>User_Library\<close> at the
  system call entry, and in \<open>Sync_On_Kernel\<close> and \<open>Mvar_On_Kernel\<close> at the semaphores.

  \<^bold>\<open>Lemmas.\<close> In each theory: invariants and their preservation by every operation; the result of
  each operation on every branch, usually as a case rule; refinement to the abstract data; and the
  frame, what an operation leaves alone. The clients of the allocator and of the queues are
  developed inside the locale \<open>kernel_memory\<close> and reach the two managers through its
  interpretations; the programs on semaphores are developed inside \<open>counting_semaphore\<close> and
  \<open>semaphore_family\<close> and reach the kernel's semaphores in the same way. The properties, numbered C1
  and so on, stand at the end of the theories.

  \<^bold>\<open>Bounds and fuel.\<close> Loops over a linked structure carry fuel. \<open>find_from\<close> and \<open>status_from\<close> walk a
  list of blocks with the pool size as fuel, more than there can be blocks; \<open>pick\<close> gets the number
  of queued processes; \<open>order_from\<close> tries the 32 orders for which the shift is defined, and \<open>None\<close>
  is the case in which the loop of the source does not end; \<open>add_tab_loop\<close> gets 1032 rounds and
  \<open>clear_all\<close> 1025, one more than the keyboard ring can need; the tabulator loop of the console gets
  eight, which \<open>tab_rounds\<close> shows to be enough when a line has room for four characters. Where the
  source loops without bound, the fuel runs out into one of the flags above.

  \<^bold>\<open>Bounds.\<close> The loops of the programs that may not end are partial functions into \<open>option\<close>, and
  their theorems state that they do end on terminated strings. Digit loops have fuel: 64 steps for a
  64-bit number and 11 for a 32-bit one in base ten, both at least the number of digits. The endless
  loops of programs are given by their first \<open>n\<close> rounds, by a step relation, or, in the shell, by what
  they do on a finite input.

  The memory test has fuel for the loop of requests, which repeats refused ones: 129 passes are
  enough where no request is refused. The passes of \<open>test_processes\<close> over its processes get 256, as
  their variable has 8 bits; the loop until all are dead depends on random numbers and has a bound
  of the caller's choice.

  \<^bold>\<open>Not modelled.\<close> The assembly files are
  represented only by what the C code sees of them: the interrupt entries, the number of words on a
  new stack, the atomic test-and-set, the stub that raises interrupt 0x80. \<open>GetUniform\<close> scales a
  random number in floating point; the scaling is a parameter. The delays of the programs are left
  out. The boot loader and its disk tool (\<open>Bootloader\<close>) are third-party code that runs before the
  kernel or on another machine.
\<close>

end
